(* ===== verification/Prelude.thy ===== *)
theory Prelude
  imports Main "HOL-Library.Word"
begin

text \<open>
  Shared vocabulary of the development.

  Go values that carry a width are words: a \<^verbatim>\<open>byte\<close> is an \<open>8 word\<close>, an \<^verbatim>\<open>int32\<close> and a
  \<^verbatim>\<open>uint32\<close> a \<open>32 word\<close> (read with \<open>sint\<close> or \<open>uint\<close>), an \<^verbatim>\<open>int64\<close>/\<^verbatim>\<open>uint64\<close> a
  \<open>64 word\<close>; Go's \<^verbatim>\<open>int\<close>, used for offsets, counts and indices far below \<open>2^63\<close>, is a
  \<open>nat\<close> where the code never lets it go negative and an \<open>int\<close> elsewhere.  A Go panic that the
  model does not attribute to a named error of the program is the value \<open>None\<close> of an option; an
  error return is the \<open>Inl\<close> side of a sum.

  The theory holds the collections of facts the component proofs draw on, the byte-order helpers
  of the instruction encoding, and generic facts on lists, options and words.
\<close>

named_theorems word_defs \<open>definitions of the word-level value representation\<close>
named_theorems rc_simps \<open>rewriting of reference counts\<close>
named_theorems width_simps \<open>instruction widths\<close>

type_synonym byte = "8 word"
type_synonym code = "byte list"

unbundle bit_operations_syntax

section \<open>Checked list access\<close>

text \<open>\<^verbatim>\<open>xs[i]\<close> with Go's bounds check: out of range is a panic.\<close>

definition idx :: "'a list \<Rightarrow> nat \<Rightarrow> 'a option" where
  "idx xs i = (if i < length xs then Some (xs ! i) else None)"

lemma idx_Some_iff: "idx xs i = Some x \<longleftrightarrow> i < length xs \<and> xs ! i = x"
  by (auto simp: idx_def)

lemma idx_None_iff: "idx xs i = None \<longleftrightarrow> length xs \<le> i"
  by (auto simp: idx_def)

lemma idx_append_left [simp]: "i < length xs \<Longrightarrow> idx (xs @ ys) i = Some (xs ! i)"
  by (simp add: idx_def nth_append)

section \<open>Little-endian bytes\<close>

text \<open>
  The code reads and writes multi-byte operands through \<^verbatim>\<open>*(*uint16)(unsafe.Pointer(...))\<close> and
  its 32- and 64-bit forms: native byte order, little-endian on every platform the module
  supports (amd64 and arm64).
\<close>

fun le_bytes :: "nat \<Rightarrow> 64 word \<Rightarrow> code" where
  "le_bytes 0 v = []"
| "le_bytes (Suc n) v = ucast v # le_bytes n (drop_bit 8 v)"

fun le_value :: "code \<Rightarrow> 64 word" where
  "le_value [] = 0"
| "le_value (b # bs) = ucast b OR push_bit 8 (le_value bs)"

lemma length_le_bytes [simp]: "length (le_bytes n v) = n"
  by (induction n arbitrary: v) auto

lemma le_value_le_bytes: "le_value (le_bytes n v) = take_bit (8 * n) v"
proof (induction n arbitrary: v)
  case 0
  then show ?case by simp
next
  case (Suc n)
  show ?case
  proof (rule bit_word_eqI)
    fix i assume i: "i < LENGTH(64)"
    show "bit (le_value (le_bytes (Suc n) v)) i = bit (take_bit (8 * Suc n) v) i"
      using i by (auto simp: Suc.IH bit_simps)
  qed
qed

lemma le_bytes_take_bit: "le_bytes n (take_bit (8 * n) v) = le_bytes n v"
proof (induction n arbitrary: v)
  case (Suc n)
  have a: "drop_bit 8 (take_bit (8 * Suc n) v) = take_bit (8 * n) (drop_bit 8 v)"
    by (rule bit_word_eqI) (auto simp: bit_simps)
  have b: "(ucast (take_bit (8 * Suc n) v) :: byte) = ucast v"
    by (rule bit_word_eqI) (auto simp: bit_simps)
  show ?case using Suc.IH [of "drop_bit 8 v"] by (simp only: le_bytes.simps a b)
qed simp

section \<open>Lists and options\<close>

lemma list_eq_append_conv_take:
  "length xs \<le> length zs \<Longrightarrow> take (length xs) zs = xs \<Longrightarrow> zs = xs @ drop (length xs) zs"
  by (metis append_take_drop_id)

lemma sint_inject: "sint a = sint b \<longleftrightarrow> a = b"
  by (auto intro: signed_word_eqI)

lemma nth_list_update_if:
  "i < length xs \<Longrightarrow> xs[k := y] ! i = (if i = k then y else xs ! i)"
  by (auto simp: nth_list_update)

end
