(* ===== verification/Boxed.thy ===== *)
theory Boxed
  imports Prelude
begin

text \<open>
  Value kinds and the NaN-boxed value word: \<^verbatim>\<open>instr/kind.go\<close>, \<^verbatim>\<open>types/boxed.go\<close> and the boxed part
  of \<^verbatim>\<open>types/value.go\<close>.  A \<^verbatim>\<open>Boxed\<close> is a 64-bit word.  Floats are kept as their IEEE bit
  patterns (a \<open>32 word\<close> or \<open>64 word\<close>), which is all the representation looks at.
\<close>

section \<open>Kinds\<close>

text \<open>
  \<^verbatim>\<open>Kind\<close> is a byte with named values; the model keeps the ones the code names.  \<open>KindReserved\<close>
  is the tag \<^verbatim>\<open>0b111\<close> the code leaves reserved, \<open>KindText\<close> (\<^verbatim>\<open>0xFE\<close>) only occurs in map keys and
  \<open>KindAny\<close> (\<^verbatim>\<open>0xFF\<close>) is the verifier's top element.
\<close>

datatype kind =
    KindF64 | KindF32 | KindI64 | KindRef | KindI32 | KindI8 | KindI1
  | KindReserved | KindText | KindAny

fun kind_tag :: "kind \<Rightarrow> 64 word" where
  "kind_tag KindF64 = 0"
| "kind_tag KindF32 = 1"
| "kind_tag KindI64 = 2"
| "kind_tag KindRef = 3"
| "kind_tag KindI32 = 4"
| "kind_tag KindI8 = 5"
| "kind_tag KindI1 = 6"
| "kind_tag KindReserved = 7"
| "kind_tag KindText = 0xFE"
| "kind_tag KindAny = 0xFF"

definition kind_of_tag :: "64 word \<Rightarrow> kind" where
  "kind_of_tag t =
     (if t = 0 then KindF64 else if t = 1 then KindF32 else if t = 2 then KindI64
      else if t = 3 then KindRef else if t = 4 then KindI32 else if t = 5 then KindI8
      else if t = 6 then KindI1 else KindReserved)"

text \<open>\<^verbatim>\<open>Kind.IsNumeric\<close>, \<^verbatim>\<open>Kind.Repr\<close> and \<^verbatim>\<open>Kind.Size\<close>.\<close>

definition is_numeric :: "kind \<Rightarrow> bool" where
  "is_numeric k \<longleftrightarrow> k \<in> {KindI1, KindI8, KindI32, KindI64, KindF32, KindF64}"

definition repr :: "kind \<Rightarrow> kind" where
  "repr k = (if k = KindI1 \<or> k = KindI8 then KindI32 else k)"

fun kind_size :: "kind \<Rightarrow> nat" where
  "kind_size KindI1 = 1"
| "kind_size KindI8 = 1"
| "kind_size KindI32 = 4"
| "kind_size KindI64 = 8"
| "kind_size KindF32 = 4"
| "kind_size KindF64 = 8"
| "kind_size KindRef = 4"
| "kind_size _ = 0"

fun kind_string :: "kind \<Rightarrow> string" where
  "kind_string KindI32 = ''i32''"
| "kind_string KindI8 = ''i8''"
| "kind_string KindI1 = ''i1''"
| "kind_string KindI64 = ''i64''"
| "kind_string KindF32 = ''f32''"
| "kind_string KindF64 = ''f64''"
| "kind_string KindRef = ''ref''"
| "kind_string _ = ''unknown''"

lemma repr_idem [simp]: "repr (repr k) = repr k"
  by (cases k) (auto simp: repr_def)

section \<open>The boxed word\<close>

type_synonym boxed = "64 word"

definition vmask :: "64 word" where
  "vmask = 0x0001FFFFFFFFFFFF"

definition tag :: "kind \<Rightarrow> 64 word" where
  "tag k = push_bit 52 0x7FF OR push_bit 49 (kind_tag k)"

definition is_boxable :: "64 word \<Rightarrow> bool" where
  "is_boxable v \<longleftrightarrow> - (2 ^ 48) \<le> sint v \<and> sint v \<le> 2 ^ 48 - 1"

definition box :: "64 word \<Rightarrow> kind \<Rightarrow> boxed" where
  "box v k = push_bit 52 0x7FF OR (push_bit 49 (kind_tag k) OR v)"

definition boxed_null :: boxed where
  "boxed_null = box 0 KindRef"

definition boxed_false :: boxed where
  "boxed_false = box 0 KindI1"

definition boxed_true :: boxed where
  "boxed_true = box 1 KindI1"

definition box_i32 :: "32 word \<Rightarrow> boxed" where
  "box_i32 v = box (ucast v) KindI32"

definition box_i8 :: "8 word \<Rightarrow> boxed" where
  "box_i8 v = box (ucast (scast v :: 32 word)) KindI8"

definition box_i1 :: "bool \<Rightarrow> boxed" where
  "box_i1 b = (if b then boxed_true else boxed_false)"

definition box_i64 :: "64 word \<Rightarrow> boxed" where
  "box_i64 v = box (v AND vmask) KindI64"

definition box_f32 :: "32 word \<Rightarrow> boxed" where
  "box_f32 bits = box (ucast bits) KindF32"

definition box_f64 :: "64 word \<Rightarrow> boxed" where
  "box_f64 bits = bits"

definition box_ref :: "int \<Rightarrow> boxed" where
  "box_ref v = box (word_of_int v) KindRef"

text \<open>The accessors: \<^verbatim>\<open>Boxed.Kind\<close>, \<^verbatim>\<open>I32\<close>, \<^verbatim>\<open>I8\<close>, \<^verbatim>\<open>I64\<close>, \<^verbatim>\<open>F32\<close>, \<^verbatim>\<open>F64\<close>, \<^verbatim>\<open>Bool\<close>, \<^verbatim>\<open>Ref\<close>.\<close>

definition boxed_kind :: "boxed \<Rightarrow> kind" where
  "boxed_kind u =
     (if drop_bit 52 u = 0x7FF \<and> u AND 0x000FFFFFFFFFFFFF \<noteq> 0
      then kind_of_tag (drop_bit 49 u AND 7) else KindF64)"

definition as_i32 :: "boxed \<Rightarrow> 32 word" where
  "as_i32 v = ucast (v AND vmask)"

definition as_i8 :: "boxed \<Rightarrow> 8 word" where
  "as_i8 v = ucast (v AND vmask)"

definition as_i64 :: "boxed \<Rightarrow> 64 word" where
  "as_i64 v = (let i = v AND vmask
               in if signed_drop_bit 48 i \<noteq> 0 then i OR NOT vmask else i)"

definition as_f32 :: "boxed \<Rightarrow> 32 word" where
  "as_f32 v = ucast (v AND vmask)"

definition as_f64 :: "boxed \<Rightarrow> 64 word" where
  "as_f64 v = v"

definition as_bool :: "boxed \<Rightarrow> bool" where
  "as_bool v \<longleftrightarrow> v AND vmask \<noteq> 0"

definition as_ref :: "boxed \<Rightarrow> int" where
  "as_ref v = sint (ucast (v AND vmask) :: 32 word)"

text \<open>\<^verbatim>\<open>types.Zero\<close>: the zero word of a kind (\<open>0\<close> for a kind that is not a value kind).\<close>

fun zero_of :: "kind \<Rightarrow> boxed" where
  "zero_of KindI32 = box_i32 0"
| "zero_of KindI8 = box_i8 0"
| "zero_of KindI1 = box_i1 False"
| "zero_of KindI64 = box_i64 0"
| "zero_of KindF32 = box_f32 0"
| "zero_of KindF64 = box_f64 0"
| "zero_of KindRef = boxed_null"
| "zero_of _ = 0"

lemmas box_defs [word_defs] =
  box_i32_def box_i8_def box_i1_def box_i64_def box_f32_def box_f64_def box_ref_def
  boxed_null_def boxed_false_def boxed_true_def box_def vmask_def


section \<open>Facts about the layout\<close>

lemma mask_consts:
  "(0x7FF :: 64 word) = mask 11" "vmask = mask 49"
  "(0x000FFFFFFFFFFFFF :: 64 word) = mask 52" "(7 :: 64 word) = mask 3"
  by (simp_all add: mask_eq_exp_minus_1 vmask_def)

lemma kind_tag_take: "k \<notin> {KindText, KindAny} \<Longrightarrow> take_bit 3 (kind_tag k) = kind_tag k"
  by (cases k) (simp_all add: take_bit_eq_mod unsigned_take_bit_eq)

lemma kind_tag_high:
  assumes "k \<notin> {KindText, KindAny}" "3 \<le> n"
  shows "\<not> bit (kind_tag k) n"
proof
  assume "bit (kind_tag k) n"
  then have "bit (take_bit 3 (kind_tag k)) n" using assms kind_tag_take by simp
  with assms show False by (simp add: bit_take_bit_iff)
qed

lemma kind_of_tag_kind_tag:
  "k \<notin> {KindText, KindAny} \<Longrightarrow> kind_of_tag (kind_tag k) = k"
  by (cases k) (simp_all add: kind_of_tag_def)

lemma payload_high:
  assumes "v AND vmask = v" "49 \<le> n"
  shows "\<not> bit v n"
proof
  assume "bit v n"
  then have "bit (v AND vmask) n" using assms(1) by simp
  with assms(2) show False by (simp add: mask_consts bit_simps)
qed

lemma box_payload:
  assumes "v AND vmask = v"
  shows "box v k AND vmask = v"
proof (rule bit_word_eqI)
  fix n assume "n < LENGTH(64)"
  then show "bit (box v k AND vmask) n = bit v n"
    using payload_high [OF assms, of n]
    by (cases "49 \<le> n") (auto simp: box_def mask_consts bit_simps)
qed

lemma box_top:
  assumes v: "v AND vmask = v" and k: "k \<notin> {KindText, KindAny}"
  shows "drop_bit 52 (box v k) = 0x7FF"
proof (rule bit_word_eqI)
  fix n assume "n < LENGTH(64)"
  then show "bit (drop_bit 52 (box v k)) n = bit (0x7FF :: 64 word) n"
    using payload_high [OF v, of "52 + n"] kind_tag_high [OF k, of "3 + n"]
    by (auto simp: box_def mask_consts bit_simps add.commute)
qed

lemma box_tag:
  assumes v: "v AND vmask = v" and k: "k \<notin> {KindText, KindAny}"
  shows "drop_bit 49 (box v k) AND 7 = kind_tag k"
proof (rule bit_word_eqI)
  fix n assume "n < LENGTH(64)"
  then show "bit (drop_bit 49 (box v k) AND 7) n = bit (kind_tag k) n"
    using payload_high [OF v, of "49 + n"] kind_tag_high [OF k, of n]
    by (cases "3 \<le> n") (auto simp: box_def mask_consts bit_simps add.commute)
qed

lemma boxed_kind_box:
  assumes v: "v AND vmask = v" and k: "k \<notin> {KindText, KindAny, KindF64}"
  shows "boxed_kind (box v k) = k"
proof -
  have "kind_tag k \<noteq> 0" using k by (cases k) auto
  moreover have "drop_bit 49 (box v k) AND 7 = kind_tag k" using v k by (simp add: box_tag)
  ultimately have "box v k AND 0x000FFFFFFFFFFFFF \<noteq> 0"
  proof -
    assume nz: "kind_tag k \<noteq> 0" and t: "drop_bit 49 (box v k) AND 7 = kind_tag k"
    show ?thesis
    proof
      assume z: "box v k AND 0x000FFFFFFFFFFFFF = 0"
      have "drop_bit 49 (box v k) AND 7 = drop_bit 49 (box v k AND 0x000FFFFFFFFFFFFF)"
        by (rule bit_word_eqI) (auto simp: mask_consts bit_simps)
      with z t nz show False by simp
    qed
  qed
  with v k show ?thesis
    by (simp add: boxed_kind_def box_top box_tag kind_of_tag_kind_tag)
qed

lemma ucast32_payload: "(ucast (x :: 32 word) :: 64 word) AND vmask = ucast x"
  by (rule bit_word_eqI) (auto simp: mask_consts bit_simps dest: bit_imp_le_length)

lemma and_vmask_idem [simp]: "(v AND vmask) AND vmask = v AND vmask"
  by (simp add: and.assoc)

lemma kind_box_i32 [simp]: "boxed_kind (box_i32 v) = KindI32"
  by (simp add: box_i32_def boxed_kind_box ucast32_payload)

lemma kind_box_i8 [simp]: "boxed_kind (box_i8 v) = KindI8"
  by (simp add: box_i8_def boxed_kind_box ucast32_payload)

lemma kind_box_i1 [simp]: "boxed_kind (box_i1 b) = KindI1"
  by (simp add: box_i1_def boxed_true_def boxed_false_def boxed_kind_box vmask_def)

lemma kind_box_i64 [simp]: "boxed_kind (box_i64 v) = KindI64"
  by (simp add: box_i64_def boxed_kind_box)

lemma kind_box_f32 [simp]: "boxed_kind (box_f32 v) = KindF32"
  by (simp add: box_f32_def boxed_kind_box ucast32_payload)

lemma ref_payload:
  assumes "0 \<le> r" "r < 2 ^ 31"
  shows "(word_of_int r :: 64 word) AND vmask = word_of_int r"
proof (rule bit_word_eqI)
  fix n assume n: "n < LENGTH(64)"
  have "take_bit 31 r = r" using assms by (intro take_bit_int_eq_self)
  then have "bit r n \<Longrightarrow> n < 31" by (metis bit_take_bit_iff)
  with n show "bit ((word_of_int r :: 64 word) AND vmask) n = bit (word_of_int r :: 64 word) n"
    by (auto simp: mask_consts bit_and_iff bit_mask_iff bit_word_of_int_iff)
qed

lemma kind_box_ref [simp]:
  "0 \<le> r \<Longrightarrow> r < 2 ^ 31 \<Longrightarrow> boxed_kind (box_ref r) = KindRef"
  by (simp add: box_ref_def boxed_kind_box ref_payload)

lemma boxed_null_ref: "boxed_null = box_ref 0"
  by (simp add: boxed_null_def box_ref_def)

lemma kind_boxed_null [simp]: "boxed_kind boxed_null = KindRef"
  by (simp add: boxed_null_ref)

lemma as_i32_box [simp]: "as_i32 (box_i32 v) = v"
proof -
  have "as_i32 (box_i32 v) = ucast (ucast v :: 64 word)"
    by (simp only: as_i32_def box_i32_def box_payload [OF ucast32_payload])
  also have "\<dots> = v" by (rule bit_word_eqI) (auto simp: bit_simps)
  finally show ?thesis .
qed

lemma as_i8_box [simp]: "as_i8 (box_i8 v) = v"
proof -
  have "as_i8 (box_i8 v) = ucast (ucast (scast v :: 32 word) :: 64 word)"
    by (simp only: as_i8_def box_i8_def box_payload [OF ucast32_payload])
  also have "\<dots> = v" by (rule bit_word_eqI) (auto simp: bit_simps)
  finally show ?thesis .
qed

lemma as_i32_box_i8: "as_i32 (box_i8 v) = scast v"
proof -
  have "as_i32 (box_i8 v) = ucast (ucast (scast v :: 32 word) :: 64 word)"
    by (simp only: as_i32_def box_i8_def box_payload [OF ucast32_payload])
  also have "\<dots> = scast v" by (rule bit_word_eqI) (auto simp: bit_simps)
  finally show ?thesis .
qed

lemma as_bool_box [simp]: "as_bool (box_i1 b) = b"
  by (simp add: as_bool_def box_i1_def boxed_true_def boxed_false_def box_payload vmask_def box_def)

lemma as_i32_box_i1 [simp]: "as_i32 (box_i1 b) = of_bool b"
  by (simp add: as_i32_def box_i1_def boxed_true_def boxed_false_def box_def vmask_def)

lemma as_f32_box [simp]: "as_f32 (box_f32 v) = v"
proof -
  have "as_f32 (box_f32 v) = ucast (ucast v :: 64 word)"
    by (simp only: as_f32_def box_f32_def box_payload [OF ucast32_payload])
  also have "\<dots> = v" by (rule bit_word_eqI) (auto simp: bit_simps)
  finally show ?thesis .
qed

lemma as_i64_box_sext: "as_i64 (box_i64 v) = signed_take_bit 48 v"
proof (rule bit_word_eqI)
  fix n assume n: "n < LENGTH(64)"
  have p: "box_i64 v AND vmask = v AND vmask" by (simp add: box_i64_def box_payload)
  have sd: "signed_drop_bit 48 (v AND vmask) = of_bool (bit v 48)"
  proof (rule bit_word_eqI)
    fix m assume m: "m < LENGTH(64)"
    show "bit (signed_drop_bit 48 (v AND vmask)) m = bit (of_bool (bit v 48) :: 64 word) m"
      using m by (cases "m = 0")
        (auto simp: bit_signed_drop_bit_iff mask_consts bit_and_iff bit_mask_iff bit_1_iff)
  qed
  have top: "(signed_drop_bit 48 (v AND vmask) \<noteq> 0) = bit v 48"
    by (simp add: sd)
  have "as_i64 (box_i64 v) = (if bit v 48 then (v AND vmask) OR NOT vmask else v AND vmask)"
    by (simp only: as_i64_def p Let_def top)
  then show "bit (as_i64 (box_i64 v)) n = bit (signed_take_bit 48 v) n"
    using n by (cases "n = 48")
      (auto simp: bit_or_iff bit_and_iff bit_not_iff mask_consts bit_mask_iff
        bit_signed_take_bit_iff min_def)
qed

lemma as_i64_box_iff: "as_i64 (box_i64 v) = v \<longleftrightarrow> is_boxable v"
proof -
  have "sint (signed_take_bit 48 v) = signed_take_bit 48 (sint v)"
    by (rule bit_eqI) (auto simp: bit_sint_iff bit_signed_take_bit_iff min_def)
  then have "signed_take_bit 48 v = v \<longleftrightarrow> signed_take_bit 48 (sint v) = sint v"
    by (metis sint_inject)
  also have "\<dots> \<longleftrightarrow> is_boxable v"
    by (auto simp: signed_take_bit_int_eq_self_iff is_boxable_def)
  finally show ?thesis by (simp add: as_i64_box_sext)
qed

lemma as_ref_box [simp]: "0 \<le> r \<Longrightarrow> r < 2 ^ 31 \<Longrightarrow> as_ref (box_ref r) = r"
proof -
  assume r: "0 \<le> r" "r < 2 ^ 31"
  have "as_ref (box_ref r) = sint (ucast (word_of_int r :: 64 word) :: 32 word)"
    by (simp only: as_ref_def box_ref_def box_payload [OF ref_payload [OF r]])
  also have "(ucast (word_of_int r :: 64 word) :: 32 word) = word_of_int r"
    by (rule bit_word_eqI) (auto simp: bit_simps bit_word_of_int_iff)
  also have "sint (word_of_int r :: 32 word) = r"
    using r by (simp add: signed_of_int signed_take_bit_int_eq_self)
  finally show ?thesis .
qed

lemma as_ref_null [simp]: "as_ref boxed_null = 0"
  by (simp add: boxed_null_ref)

lemma box_ref_inject:
  "0 \<le> r \<Longrightarrow> r < 2 ^ 31 \<Longrightarrow> 0 \<le> s \<Longrightarrow> s < 2 ^ 31 \<Longrightarrow> box_ref r = box_ref s \<longleftrightarrow> r = s"
  by (metis as_ref_box)


section \<open>Properties\<close>

text \<open>C15: The scalar box constructors lose nothing: the word carries the kind it was built with and
  the matching accessor returns the value, for every i32, i8, i1 and f32 value.\<close>

theorem boxed_roundtrip:
  "boxed_kind (box_i32 a) = KindI32 \<and> as_i32 (box_i32 a) = a \<and>
   boxed_kind (box_i8 b) = KindI8 \<and> as_i8 (box_i8 b) = b \<and> as_i32 (box_i8 b) = scast b \<and>
   boxed_kind (box_i1 c) = KindI1 \<and> as_bool (box_i1 c) = c \<and> as_i32 (box_i1 c) = of_bool c \<and>
   boxed_kind (box_f32 d) = KindF32 \<and> as_f32 (box_f32 d) = d"
  by (simp add: as_i32_box_i8)

text \<open>C14: An i64 survives boxing exactly when \<^verbatim>\<open>IsBoxable\<close> says so, which is the test
  \<^verbatim>\<open>boxI64\<close> uses to decide whether to spill the value to the heap.\<close>

theorem boxed_i64_roundtrip:
  "boxed_kind (box_i64 v) = KindI64 \<and> (as_i64 (box_i64 v) = v \<longleftrightarrow> is_boxable v)"
  by (simp add: as_i64_box_iff)

text \<open>C40: \<^verbatim>\<open>BoxF64\<close> stores the float's bits unchanged, so a NaN with a clear sign and the quiet bit
  set is not an f64 any more: the word's kind is one of the i32 group's tags or the reserved tag,
  never \<open>KindF64\<close>.  Go's \<^verbatim>\<open>math.NaN()\<close> (\<^verbatim>\<open>0x7FF8000000000001\<close>) is such a value.\<close>

theorem quiet_nan_kind:
  assumes "drop_bit 52 b = 0x7FF" "bit b 51"
  shows "boxed_kind (box_f64 b) \<in> {KindI32, KindI8, KindI1, KindReserved}"
proof -
  have m: "b AND 0x000FFFFFFFFFFFFF \<noteq> 0"
  proof
    assume "b AND 0x000FFFFFFFFFFFFF = 0"
    then have "\<not> bit (b AND mask 52) 51" by (simp add: mask_consts)
    with assms(2) show False by (simp add: bit_and_iff bit_mask_iff)
  qed
  let ?t = "drop_bit 49 b AND 7"
  have b2: "bit ?t 2" using assms(2) by (simp add: mask_consts bit_and_iff bit_mask_iff bit_drop_bit_eq)
  have "?t \<notin> {0, 1, 2, 3}"
  proof
    assume "?t \<in> {0, 1, 2, 3}"
    then show False using b2 by (elim insertE) simp_all
  qed
  then show ?thesis using assms m
    by (auto simp: boxed_kind_def box_f64_def kind_of_tag_def)
qed

theorem quiet_nan_kind_witness:
  "drop_bit 52 (0x7FF8000000000001 :: 64 word) = 0x7FF \<and> bit (0x7FF8000000000001 :: 64 word) 51 \<and>
   boxed_kind (box_f64 0x7FF8000000000001) \<in> {KindI32, KindI8, KindI1, KindReserved}"
proof -
  have a: "drop_bit 52 (0x7FF8000000000001 :: 64 word) = 0x7FF" by simp
  have b: "bit (0x7FF8000000000001 :: 64 word) 51" by simp
  from a b quiet_nan_kind [OF a b] show ?thesis by blast
qed

end
