(* ===== verification/Opcodes.thy ===== *)
theory Opcodes
  imports Boxed
begin

text \<open>
  The opcodes (\<^verbatim>\<open>instr/opcode.go\<close>) and their static metadata (\<^verbatim>\<open>instr/type.go\<close>).  \<^verbatim>\<open>Opcode\<close> is a
  byte with named values, so an opcode here is an \<open>8 word\<close> and every name of the Go constant block
  is an abbreviation of its \<^verbatim>\<open>iota\<close> value.  The metadata map is an association list in the order of
  the source, looked up with \<open>map_of\<close>; a missing key gives the zero \<^verbatim>\<open>Type\<close>, as Go's map does.
\<close>

type_synonym opcode = "8 word"

abbreviation NOP :: opcode where "NOP \<equiv> 0"
abbreviation UNREACHABLE :: opcode where "UNREACHABLE \<equiv> 1"
abbreviation DROP :: opcode where "DROP \<equiv> 2"
abbreviation DUP :: opcode where "DUP \<equiv> 3"
abbreviation SWAP :: opcode where "SWAP \<equiv> 4"
abbreviation BR :: opcode where "BR \<equiv> 5"
abbreviation BR_IF :: opcode where "BR_IF \<equiv> 6"
abbreviation BR_TABLE :: opcode where "BR_TABLE \<equiv> 7"
abbreviation SELECT :: opcode where "SELECT \<equiv> 8"
abbreviation CALL :: opcode where "CALL \<equiv> 9"
abbreviation RETURN :: opcode where "RETURN \<equiv> 10"
abbreviation RETURN_CALL :: opcode where "RETURN_CALL \<equiv> 11"
abbreviation YIELD :: opcode where "YIELD \<equiv> 12"
abbreviation RESUME :: opcode where "RESUME \<equiv> 13"
abbreviation CORO_DONE :: opcode where "CORO_DONE \<equiv> 14"
abbreviation CORO_VALUE :: opcode where "CORO_VALUE \<equiv> 15"
abbreviation GLOBAL_GET :: opcode where "GLOBAL_GET \<equiv> 16"
abbreviation GLOBAL_SET :: opcode where "GLOBAL_SET \<equiv> 17"
abbreviation GLOBAL_TEE :: opcode where "GLOBAL_TEE \<equiv> 18"
abbreviation LOCAL_GET :: opcode where "LOCAL_GET \<equiv> 19"
abbreviation LOCAL_SET :: opcode where "LOCAL_SET \<equiv> 20"
abbreviation LOCAL_TEE :: opcode where "LOCAL_TEE \<equiv> 21"
abbreviation CONST_GET :: opcode where "CONST_GET \<equiv> 22"
abbreviation UPVAL_GET :: opcode where "UPVAL_GET \<equiv> 23"
abbreviation UPVAL_SET :: opcode where "UPVAL_SET \<equiv> 24"
abbreviation REF_NULL :: opcode where "REF_NULL \<equiv> 25"
abbreviation REF_NEW :: opcode where "REF_NEW \<equiv> 26"
abbreviation REF_GET :: opcode where "REF_GET \<equiv> 27"
abbreviation REF_SET :: opcode where "REF_SET \<equiv> 28"
abbreviation REF_TEST :: opcode where "REF_TEST \<equiv> 29"
abbreviation REF_CAST :: opcode where "REF_CAST \<equiv> 30"
abbreviation REF_IS_NULL :: opcode where "REF_IS_NULL \<equiv> 31"
abbreviation REF_EQ :: opcode where "REF_EQ \<equiv> 32"
abbreviation REF_NE :: opcode where "REF_NE \<equiv> 33"
abbreviation I32_CONST :: opcode where "I32_CONST \<equiv> 34"
abbreviation I32_ADD :: opcode where "I32_ADD \<equiv> 35"
abbreviation I32_SUB :: opcode where "I32_SUB \<equiv> 36"
abbreviation I32_MUL :: opcode where "I32_MUL \<equiv> 37"
abbreviation I32_DIV_S :: opcode where "I32_DIV_S \<equiv> 38"
abbreviation I32_DIV_U :: opcode where "I32_DIV_U \<equiv> 39"
abbreviation I32_REM_S :: opcode where "I32_REM_S \<equiv> 40"
abbreviation I32_REM_U :: opcode where "I32_REM_U \<equiv> 41"
abbreviation I32_SHL :: opcode where "I32_SHL \<equiv> 42"
abbreviation I32_SHR_S :: opcode where "I32_SHR_S \<equiv> 43"
abbreviation I32_SHR_U :: opcode where "I32_SHR_U \<equiv> 44"
abbreviation I32_XOR :: opcode where "I32_XOR \<equiv> 45"
abbreviation I32_AND :: opcode where "I32_AND \<equiv> 46"
abbreviation I32_OR :: opcode where "I32_OR \<equiv> 47"
abbreviation I32_CLZ :: opcode where "I32_CLZ \<equiv> 48"
abbreviation I32_CTZ :: opcode where "I32_CTZ \<equiv> 49"
abbreviation I32_POPCNT :: opcode where "I32_POPCNT \<equiv> 50"
abbreviation I32_ROTL :: opcode where "I32_ROTL \<equiv> 51"
abbreviation I32_ROTR :: opcode where "I32_ROTR \<equiv> 52"
abbreviation I32_EXTEND8_S :: opcode where "I32_EXTEND8_S \<equiv> 53"
abbreviation I32_EXTEND16_S :: opcode where "I32_EXTEND16_S \<equiv> 54"
abbreviation I32_EQZ :: opcode where "I32_EQZ \<equiv> 55"
abbreviation I32_EQ :: opcode where "I32_EQ \<equiv> 56"
abbreviation I32_NE :: opcode where "I32_NE \<equiv> 57"
abbreviation I32_LT_S :: opcode where "I32_LT_S \<equiv> 58"
abbreviation I32_LT_U :: opcode where "I32_LT_U \<equiv> 59"
abbreviation I32_GT_S :: opcode where "I32_GT_S \<equiv> 60"
abbreviation I32_GT_U :: opcode where "I32_GT_U \<equiv> 61"
abbreviation I32_LE_S :: opcode where "I32_LE_S \<equiv> 62"
abbreviation I32_LE_U :: opcode where "I32_LE_U \<equiv> 63"
abbreviation I32_GE_S :: opcode where "I32_GE_S \<equiv> 64"
abbreviation I32_GE_U :: opcode where "I32_GE_U \<equiv> 65"
abbreviation I32_TO_I64_S :: opcode where "I32_TO_I64_S \<equiv> 66"
abbreviation I32_TO_I64_U :: opcode where "I32_TO_I64_U \<equiv> 67"
abbreviation I32_TO_F32_U :: opcode where "I32_TO_F32_U \<equiv> 68"
abbreviation I32_TO_F32_S :: opcode where "I32_TO_F32_S \<equiv> 69"
abbreviation I32_TO_F64_U :: opcode where "I32_TO_F64_U \<equiv> 70"
abbreviation I32_TO_F64_S :: opcode where "I32_TO_F64_S \<equiv> 71"
abbreviation I32_REINTERPRET_F32 :: opcode where "I32_REINTERPRET_F32 \<equiv> 72"
abbreviation I64_CONST :: opcode where "I64_CONST \<equiv> 73"
abbreviation I64_ADD :: opcode where "I64_ADD \<equiv> 74"
abbreviation I64_SUB :: opcode where "I64_SUB \<equiv> 75"
abbreviation I64_MUL :: opcode where "I64_MUL \<equiv> 76"
abbreviation I64_DIV_S :: opcode where "I64_DIV_S \<equiv> 77"
abbreviation I64_DIV_U :: opcode where "I64_DIV_U \<equiv> 78"
abbreviation I64_REM_S :: opcode where "I64_REM_S \<equiv> 79"
abbreviation I64_REM_U :: opcode where "I64_REM_U \<equiv> 80"
abbreviation I64_SHL :: opcode where "I64_SHL \<equiv> 81"
abbreviation I64_SHR_S :: opcode where "I64_SHR_S \<equiv> 82"
abbreviation I64_SHR_U :: opcode where "I64_SHR_U \<equiv> 83"
abbreviation I64_XOR :: opcode where "I64_XOR \<equiv> 84"
abbreviation I64_AND :: opcode where "I64_AND \<equiv> 85"
abbreviation I64_OR :: opcode where "I64_OR \<equiv> 86"
abbreviation I64_CLZ :: opcode where "I64_CLZ \<equiv> 87"
abbreviation I64_CTZ :: opcode where "I64_CTZ \<equiv> 88"
abbreviation I64_POPCNT :: opcode where "I64_POPCNT \<equiv> 89"
abbreviation I64_ROTL :: opcode where "I64_ROTL \<equiv> 90"
abbreviation I64_ROTR :: opcode where "I64_ROTR \<equiv> 91"
abbreviation I64_EXTEND8_S :: opcode where "I64_EXTEND8_S \<equiv> 92"
abbreviation I64_EXTEND16_S :: opcode where "I64_EXTEND16_S \<equiv> 93"
abbreviation I64_EXTEND32_S :: opcode where "I64_EXTEND32_S \<equiv> 94"
abbreviation I64_EQZ :: opcode where "I64_EQZ \<equiv> 95"
abbreviation I64_EQ :: opcode where "I64_EQ \<equiv> 96"
abbreviation I64_NE :: opcode where "I64_NE \<equiv> 97"
abbreviation I64_LT_S :: opcode where "I64_LT_S \<equiv> 98"
abbreviation I64_LT_U :: opcode where "I64_LT_U \<equiv> 99"
abbreviation I64_GT_S :: opcode where "I64_GT_S \<equiv> 100"
abbreviation I64_GT_U :: opcode where "I64_GT_U \<equiv> 101"
abbreviation I64_LE_S :: opcode where "I64_LE_S \<equiv> 102"
abbreviation I64_LE_U :: opcode where "I64_LE_U \<equiv> 103"
abbreviation I64_GE_S :: opcode where "I64_GE_S \<equiv> 104"
abbreviation I64_GE_U :: opcode where "I64_GE_U \<equiv> 105"
abbreviation I64_TO_I32 :: opcode where "I64_TO_I32 \<equiv> 106"
abbreviation I64_TO_F32_S :: opcode where "I64_TO_F32_S \<equiv> 107"
abbreviation I64_TO_F32_U :: opcode where "I64_TO_F32_U \<equiv> 108"
abbreviation I64_TO_F64_S :: opcode where "I64_TO_F64_S \<equiv> 109"
abbreviation I64_TO_F64_U :: opcode where "I64_TO_F64_U \<equiv> 110"
abbreviation I64_REINTERPRET_F64 :: opcode where "I64_REINTERPRET_F64 \<equiv> 111"
abbreviation F32_CONST :: opcode where "F32_CONST \<equiv> 112"
abbreviation F32_ADD :: opcode where "F32_ADD \<equiv> 113"
abbreviation F32_SUB :: opcode where "F32_SUB \<equiv> 114"
abbreviation F32_MUL :: opcode where "F32_MUL \<equiv> 115"
abbreviation F32_DIV :: opcode where "F32_DIV \<equiv> 116"
abbreviation F32_REM :: opcode where "F32_REM \<equiv> 117"
abbreviation F32_MOD :: opcode where "F32_MOD \<equiv> 118"
abbreviation F32_ABS :: opcode where "F32_ABS \<equiv> 119"
abbreviation F32_NEG :: opcode where "F32_NEG \<equiv> 120"
abbreviation F32_SQRT :: opcode where "F32_SQRT \<equiv> 121"
abbreviation F32_CEIL :: opcode where "F32_CEIL \<equiv> 122"
abbreviation F32_FLOOR :: opcode where "F32_FLOOR \<equiv> 123"
abbreviation F32_TRUNC :: opcode where "F32_TRUNC \<equiv> 124"
abbreviation F32_NEAREST :: opcode where "F32_NEAREST \<equiv> 125"
abbreviation F32_MIN :: opcode where "F32_MIN \<equiv> 126"
abbreviation F32_MAX :: opcode where "F32_MAX \<equiv> 127"
abbreviation F32_COPYSIGN :: opcode where "F32_COPYSIGN \<equiv> 128"
abbreviation F32_EQ :: opcode where "F32_EQ \<equiv> 129"
abbreviation F32_NE :: opcode where "F32_NE \<equiv> 130"
abbreviation F32_LT :: opcode where "F32_LT \<equiv> 131"
abbreviation F32_GT :: opcode where "F32_GT \<equiv> 132"
abbreviation F32_LE :: opcode where "F32_LE \<equiv> 133"
abbreviation F32_GE :: opcode where "F32_GE \<equiv> 134"
abbreviation F32_TO_I32_S :: opcode where "F32_TO_I32_S \<equiv> 135"
abbreviation F32_TO_I32_U :: opcode where "F32_TO_I32_U \<equiv> 136"
abbreviation F32_TO_I64_S :: opcode where "F32_TO_I64_S \<equiv> 137"
abbreviation F32_TO_I64_U :: opcode where "F32_TO_I64_U \<equiv> 138"
abbreviation F32_TO_F64 :: opcode where "F32_TO_F64 \<equiv> 139"
abbreviation F32_REINTERPRET_I32 :: opcode where "F32_REINTERPRET_I32 \<equiv> 140"
abbreviation F64_CONST :: opcode where "F64_CONST \<equiv> 141"
abbreviation F64_ADD :: opcode where "F64_ADD \<equiv> 142"
abbreviation F64_SUB :: opcode where "F64_SUB \<equiv> 143"
abbreviation F64_MUL :: opcode where "F64_MUL \<equiv> 144"
abbreviation F64_DIV :: opcode where "F64_DIV \<equiv> 145"
abbreviation F64_REM :: opcode where "F64_REM \<equiv> 146"
abbreviation F64_MOD :: opcode where "F64_MOD \<equiv> 147"
abbreviation F64_ABS :: opcode where "F64_ABS \<equiv> 148"
abbreviation F64_NEG :: opcode where "F64_NEG \<equiv> 149"
abbreviation F64_SQRT :: opcode where "F64_SQRT \<equiv> 150"
abbreviation F64_CEIL :: opcode where "F64_CEIL \<equiv> 151"
abbreviation F64_FLOOR :: opcode where "F64_FLOOR \<equiv> 152"
abbreviation F64_TRUNC :: opcode where "F64_TRUNC \<equiv> 153"
abbreviation F64_NEAREST :: opcode where "F64_NEAREST \<equiv> 154"
abbreviation F64_MIN :: opcode where "F64_MIN \<equiv> 155"
abbreviation F64_MAX :: opcode where "F64_MAX \<equiv> 156"
abbreviation F64_COPYSIGN :: opcode where "F64_COPYSIGN \<equiv> 157"
abbreviation F64_EQ :: opcode where "F64_EQ \<equiv> 158"
abbreviation F64_NE :: opcode where "F64_NE \<equiv> 159"
abbreviation F64_LT :: opcode where "F64_LT \<equiv> 160"
abbreviation F64_GT :: opcode where "F64_GT \<equiv> 161"
abbreviation F64_LE :: opcode where "F64_LE \<equiv> 162"
abbreviation F64_GE :: opcode where "F64_GE \<equiv> 163"
abbreviation F64_TO_I32_S :: opcode where "F64_TO_I32_S \<equiv> 164"
abbreviation F64_TO_I32_U :: opcode where "F64_TO_I32_U \<equiv> 165"
abbreviation F64_TO_I64_S :: opcode where "F64_TO_I64_S \<equiv> 166"
abbreviation F64_TO_I64_U :: opcode where "F64_TO_I64_U \<equiv> 167"
abbreviation F64_TO_F32 :: opcode where "F64_TO_F32 \<equiv> 168"
abbreviation F64_REINTERPRET_I64 :: opcode where "F64_REINTERPRET_I64 \<equiv> 169"
abbreviation STRING_NEW_UTF32 :: opcode where "STRING_NEW_UTF32 \<equiv> 170"
abbreviation STRING_LEN :: opcode where "STRING_LEN \<equiv> 171"
abbreviation STRING_CONCAT :: opcode where "STRING_CONCAT \<equiv> 172"
abbreviation STRING_EQ :: opcode where "STRING_EQ \<equiv> 173"
abbreviation STRING_NE :: opcode where "STRING_NE \<equiv> 174"
abbreviation STRING_LT :: opcode where "STRING_LT \<equiv> 175"
abbreviation STRING_GT :: opcode where "STRING_GT \<equiv> 176"
abbreviation STRING_LE :: opcode where "STRING_LE \<equiv> 177"
abbreviation STRING_GE :: opcode where "STRING_GE \<equiv> 178"
abbreviation STRING_ENCODE_UTF32 :: opcode where "STRING_ENCODE_UTF32 \<equiv> 179"
abbreviation ARRAY_NEW :: opcode where "ARRAY_NEW \<equiv> 180"
abbreviation ARRAY_NEW_DEFAULT :: opcode where "ARRAY_NEW_DEFAULT \<equiv> 181"
abbreviation ARRAY_LEN :: opcode where "ARRAY_LEN \<equiv> 182"
abbreviation ARRAY_GET :: opcode where "ARRAY_GET \<equiv> 183"
abbreviation ARRAY_SET :: opcode where "ARRAY_SET \<equiv> 184"
abbreviation ARRAY_FILL :: opcode where "ARRAY_FILL \<equiv> 185"
abbreviation ARRAY_COPY :: opcode where "ARRAY_COPY \<equiv> 186"
abbreviation ARRAY_APPEND :: opcode where "ARRAY_APPEND \<equiv> 187"
abbreviation ARRAY_DELETE :: opcode where "ARRAY_DELETE \<equiv> 188"
abbreviation ARRAY_SLICE :: opcode where "ARRAY_SLICE \<equiv> 189"
abbreviation STRUCT_NEW :: opcode where "STRUCT_NEW \<equiv> 190"
abbreviation STRUCT_NEW_DEFAULT :: opcode where "STRUCT_NEW_DEFAULT \<equiv> 191"
abbreviation STRUCT_GET :: opcode where "STRUCT_GET \<equiv> 192"
abbreviation STRUCT_SET :: opcode where "STRUCT_SET \<equiv> 193"
abbreviation MAP_NEW :: opcode where "MAP_NEW \<equiv> 194"
abbreviation MAP_NEW_DEFAULT :: opcode where "MAP_NEW_DEFAULT \<equiv> 195"
abbreviation MAP_LEN :: opcode where "MAP_LEN \<equiv> 196"
abbreviation MAP_GET :: opcode where "MAP_GET \<equiv> 197"
abbreviation MAP_LOOKUP :: opcode where "MAP_LOOKUP \<equiv> 198"
abbreviation MAP_SET :: opcode where "MAP_SET \<equiv> 199"
abbreviation MAP_DELETE :: opcode where "MAP_DELETE \<equiv> 200"
abbreviation MAP_CLEAR :: opcode where "MAP_CLEAR \<equiv> 201"
abbreviation MAP_KEYS :: opcode where "MAP_KEYS \<equiv> 202"
abbreviation CLOSURE_NEW :: opcode where "CLOSURE_NEW \<equiv> 203"
abbreviation MAP_ITER :: opcode where "MAP_ITER \<equiv> 204"
abbreviation THROW :: opcode where "THROW \<equiv> 205"
abbreviation ERROR_NEW :: opcode where "ERROR_NEW \<equiv> 206"
abbreviation ERROR_GET :: opcode where "ERROR_GET \<equiv> 207"
abbreviation ERROR_CODE :: opcode where "ERROR_CODE \<equiv> 208"
abbreviation STRING_ITER :: opcode where "STRING_ITER \<equiv> 209"

definition opcode_count :: nat where
  "opcode_count = 210"

definition is_branch :: "opcode \<Rightarrow> bool" where
  "is_branch op \<longleftrightarrow> op = BR \<or> op = BR_IF \<or> op = BR_TABLE"

section \<open>Metadata\<close>

text \<open>
  \<^verbatim>\<open>Widths\<close> holds the operand widths in bytes; a negative entry \<open>- w\<close> is a count byte followed by
  that many operands of \<open>w\<close> bytes.  \<^verbatim>\<open>Pop\<close> is listed top of stack first, \<^verbatim>\<open>Push\<close> bottom first.
  No entry of the table has an empty non-nil slice, so the empty list stands for Go's \<^verbatim>\<open>nil\<close>.
\<close>

datatype flag = FlagCall | FlagLocalWrite | FlagContainerStore

record optype =
  mnemonic :: string
  widths :: "int list"
  pops :: "kind list"
  pushes :: "kind list"
  flags :: "flag list"

definition ty :: "string \<Rightarrow> int list \<Rightarrow> kind list \<Rightarrow> kind list \<Rightarrow> flag list \<Rightarrow> optype" where
  "ty m w p q f = \<lparr>mnemonic = m, widths = w, pops = p, pushes = q, flags = f\<rparr>"

definition types_core :: "(opcode \<times> optype) list" where
  "types_core = [
     (NOP, ty ''nop'' [] [] [] []),
     (UNREACHABLE, ty ''unreachable'' [] [] [] []),
     (DROP, ty ''drop'' [] [KindAny] [] []),
     (DUP, ty ''dup'' [] [] [] []),
     (SWAP, ty ''swap'' [] [] [] []),
     (BR, ty ''br'' [2] [] [] []),
     (BR_IF, ty ''br_if'' [2] [KindI32] [] []),
     (BR_TABLE, ty ''br_table'' [-2, 2] [KindI32] [] []),
     (SELECT, ty ''select'' [] [] [] []),
     (CALL, ty ''call'' [] [] [] [FlagCall]),
     (RETURN, ty ''return'' [] [] [] []),
     (RETURN_CALL, ty ''return_call'' [] [] [] [FlagCall]),
     (YIELD, ty ''yield'' [] [KindAny] [KindAny] []),
     (RESUME, ty ''resume'' [] [KindAny, KindRef] [KindRef] []),
     (CORO_DONE, ty ''coro.done'' [] [KindRef] [KindI1] []),
     (CORO_VALUE, ty ''coro.value'' [] [KindRef] [KindAny] []),
     (GLOBAL_GET, ty ''global.get'' [2] [] [KindAny] []),
     (GLOBAL_SET, ty ''global.set'' [2] [KindAny] [] []),
     (GLOBAL_TEE, ty ''global.tee'' [2] [] [] []),
     (LOCAL_GET, ty ''local.get'' [1] [] [] []),
     (LOCAL_SET, ty ''local.set'' [1] [KindAny] [] [FlagLocalWrite]),
     (LOCAL_TEE, ty ''local.tee'' [1] [] [] [FlagLocalWrite]),
     (CONST_GET, ty ''const.get'' [2] [] [] []),
     (REF_NULL, ty ''ref.null'' [] [] [KindRef] []),
     (REF_TEST, ty ''ref.test'' [2] [KindAny] [KindI1] []),
     (REF_CAST, ty ''ref.cast'' [2] [KindAny] [KindAny] []),
     (REF_IS_NULL, ty ''ref.is_null'' [] [KindRef] [KindI1] []),
     (REF_EQ, ty ''ref.eq'' [] [KindRef, KindRef] [KindI1] []),
     (REF_NE, ty ''ref.ne'' [] [KindRef, KindRef] [KindI1] [])]"

definition types_i32 :: "(opcode \<times> optype) list" where
  "types_i32 = [
     (I32_CONST, ty ''i32.const'' [4] [] [KindI32] []),
     (I32_XOR, ty ''i32.xor'' [] [KindI32, KindI32] [KindI32] []),
     (I32_AND, ty ''i32.and'' [] [KindI32, KindI32] [KindI32] []),
     (I32_OR, ty ''i32.or'' [] [KindI32, KindI32] [KindI32] []),
     (I32_CLZ, ty ''i32.clz'' [] [KindI32] [KindI32] []),
     (I32_CTZ, ty ''i32.ctz'' [] [KindI32] [KindI32] []),
     (I32_POPCNT, ty ''i32.popcnt'' [] [KindI32] [KindI32] []),
     (I32_ROTL, ty ''i32.rotl'' [] [KindI32, KindI32] [KindI32] []),
     (I32_ROTR, ty ''i32.rotr'' [] [KindI32, KindI32] [KindI32] []),
     (I32_EXTEND8_S, ty ''i32.extend8_s'' [] [KindI32] [KindI32] []),
     (I32_EXTEND16_S, ty ''i32.extend16_s'' [] [KindI32] [KindI32] []),
     (I32_ADD, ty ''i32.add'' [] [KindI32, KindI32] [KindI32] []),
     (I32_SUB, ty ''i32.sub'' [] [KindI32, KindI32] [KindI32] []),
     (I32_MUL, ty ''i32.mul'' [] [KindI32, KindI32] [KindI32] []),
     (I32_DIV_S, ty ''i32.div_s'' [] [KindI32, KindI32] [KindI32] []),
     (I32_DIV_U, ty ''i32.div_u'' [] [KindI32, KindI32] [KindI32] []),
     (I32_REM_S, ty ''i32.rem_s'' [] [KindI32, KindI32] [KindI32] []),
     (I32_REM_U, ty ''i32.rem_u'' [] [KindI32, KindI32] [KindI32] []),
     (I32_SHL, ty ''i32.shl'' [] [KindI32, KindI32] [KindI32] []),
     (I32_SHR_S, ty ''i32.shr_s'' [] [KindI32, KindI32] [KindI32] []),
     (I32_SHR_U, ty ''i32.shr_u'' [] [KindI32, KindI32] [KindI32] []),
     (I32_EQZ, ty ''i32.eqz'' [] [KindI32] [KindI1] []),
     (I32_EQ, ty ''i32.eq'' [] [KindI32, KindI32] [KindI1] []),
     (I32_NE, ty ''i32.ne'' [] [KindI32, KindI32] [KindI1] []),
     (I32_LT_S, ty ''i32.lt_s'' [] [KindI32, KindI32] [KindI1] []),
     (I32_LT_U, ty ''i32.lt_u'' [] [KindI32, KindI32] [KindI1] []),
     (I32_GT_S, ty ''i32.gt_s'' [] [KindI32, KindI32] [KindI1] []),
     (I32_GT_U, ty ''i32.gt_u'' [] [KindI32, KindI32] [KindI1] []),
     (I32_LE_S, ty ''i32.le_s'' [] [KindI32, KindI32] [KindI1] []),
     (I32_LE_U, ty ''i32.le_u'' [] [KindI32, KindI32] [KindI1] []),
     (I32_GE_S, ty ''i32.ge_s'' [] [KindI32, KindI32] [KindI1] []),
     (I32_GE_U, ty ''i32.ge_u'' [] [KindI32, KindI32] [KindI1] []),
     (I32_TO_I64_S, ty ''i32.to_i64_s'' [] [KindI32] [KindI64] []),
     (I32_TO_I64_U, ty ''i32.to_i64_u'' [] [KindI32] [KindI64] []),
     (I32_TO_F32_S, ty ''i32.to_f32_s'' [] [KindI32] [KindF32] []),
     (I32_TO_F32_U, ty ''i32.to_f32_u'' [] [KindI32] [KindF32] []),
     (I32_TO_F64_S, ty ''i32.to_f64_s'' [] [KindI32] [KindF64] []),
     (I32_TO_F64_U, ty ''i32.to_f64_u'' [] [KindI32] [KindF64] []),
     (I32_REINTERPRET_F32, ty ''i32.reinterpret_f32'' [] [KindF32] [KindI32] [])]"

definition types_i64 :: "(opcode \<times> optype) list" where
  "types_i64 = [
     (I64_CONST, ty ''i64.const'' [8] [] [KindI64] []),
     (I64_ADD, ty ''i64.add'' [] [KindI64, KindI64] [KindI64] []),
     (I64_SUB, ty ''i64.sub'' [] [KindI64, KindI64] [KindI64] []),
     (I64_MUL, ty ''i64.mul'' [] [KindI64, KindI64] [KindI64] []),
     (I64_DIV_S, ty ''i64.div_s'' [] [KindI64, KindI64] [KindI64] []),
     (I64_DIV_U, ty ''i64.div_u'' [] [KindI64, KindI64] [KindI64] []),
     (I64_REM_S, ty ''i64.rem_s'' [] [KindI64, KindI64] [KindI64] []),
     (I64_REM_U, ty ''i64.rem_u'' [] [KindI64, KindI64] [KindI64] []),
     (I64_SHL, ty ''i64.shl'' [] [KindI64, KindI64] [KindI64] []),
     (I64_SHR_S, ty ''i64.shr_s'' [] [KindI64, KindI64] [KindI64] []),
     (I64_SHR_U, ty ''i64.shr_u'' [] [KindI64, KindI64] [KindI64] []),
     (I64_XOR, ty ''i64.xor'' [] [KindI64, KindI64] [KindI64] []),
     (I64_AND, ty ''i64.and'' [] [KindI64, KindI64] [KindI64] []),
     (I64_OR, ty ''i64.or'' [] [KindI64, KindI64] [KindI64] []),
     (I64_CLZ, ty ''i64.clz'' [] [KindI64] [KindI64] []),
     (I64_CTZ, ty ''i64.ctz'' [] [KindI64] [KindI64] []),
     (I64_POPCNT, ty ''i64.popcnt'' [] [KindI64] [KindI64] []),
     (I64_ROTL, ty ''i64.rotl'' [] [KindI64, KindI64] [KindI64] []),
     (I64_ROTR, ty ''i64.rotr'' [] [KindI64, KindI64] [KindI64] []),
     (I64_EXTEND8_S, ty ''i64.extend8_s'' [] [KindI64] [KindI64] []),
     (I64_EXTEND16_S, ty ''i64.extend16_s'' [] [KindI64] [KindI64] []),
     (I64_EXTEND32_S, ty ''i64.extend32_s'' [] [KindI64] [KindI64] []),
     (I64_EQZ, ty ''i64.eqz'' [] [KindI64] [KindI1] []),
     (I64_EQ, ty ''i64.eq'' [] [KindI64, KindI64] [KindI1] []),
     (I64_NE, ty ''i64.ne'' [] [KindI64, KindI64] [KindI1] []),
     (I64_LT_S, ty ''i64.lt_s'' [] [KindI64, KindI64] [KindI1] []),
     (I64_LT_U, ty ''i64.lt_u'' [] [KindI64, KindI64] [KindI1] []),
     (I64_GT_S, ty ''i64.gt_s'' [] [KindI64, KindI64] [KindI1] []),
     (I64_GT_U, ty ''i64.gt_u'' [] [KindI64, KindI64] [KindI1] []),
     (I64_LE_S, ty ''i64.le_s'' [] [KindI64, KindI64] [KindI1] []),
     (I64_LE_U, ty ''i64.le_u'' [] [KindI64, KindI64] [KindI1] []),
     (I64_GE_S, ty ''i64.ge_s'' [] [KindI64, KindI64] [KindI1] []),
     (I64_GE_U, ty ''i64.ge_u'' [] [KindI64, KindI64] [KindI1] []),
     (I64_TO_I32, ty ''i64.to_i32'' [] [KindI64] [KindI32] []),
     (I64_TO_F32_S, ty ''i64.to_f32_s'' [] [KindI64] [KindF32] []),
     (I64_TO_F32_U, ty ''i64.to_f32_u'' [] [KindI64] [KindF32] []),
     (I64_TO_F64_S, ty ''i64.to_f64_s'' [] [KindI64] [KindF64] []),
     (I64_TO_F64_U, ty ''i64.to_f64_u'' [] [KindI64] [KindF64] []),
     (I64_REINTERPRET_F64, ty ''i64.reinterpret_f64'' [] [KindF64] [KindI64] [])]"

definition types_f32 :: "(opcode \<times> optype) list" where
  "types_f32 = [
     (F32_CONST, ty ''f32.const'' [4] [] [KindF32] []),
     (F32_ADD, ty ''f32.add'' [] [KindF32, KindF32] [KindF32] []),
     (F32_SUB, ty ''f32.sub'' [] [KindF32, KindF32] [KindF32] []),
     (F32_MUL, ty ''f32.mul'' [] [KindF32, KindF32] [KindF32] []),
     (F32_DIV, ty ''f32.div'' [] [KindF32, KindF32] [KindF32] []),
     (F32_REM, ty ''f32.rem'' [] [KindF32, KindF32] [KindF32] []),
     (F32_MOD, ty ''f32.mod'' [] [KindF32, KindF32] [KindF32] []),
     (F32_ABS, ty ''f32.abs'' [] [KindF32] [KindF32] []),
     (F32_NEG, ty ''f32.neg'' [] [KindF32] [KindF32] []),
     (F32_SQRT, ty ''f32.sqrt'' [] [KindF32] [KindF32] []),
     (F32_CEIL, ty ''f32.ceil'' [] [KindF32] [KindF32] []),
     (F32_FLOOR, ty ''f32.floor'' [] [KindF32] [KindF32] []),
     (F32_TRUNC, ty ''f32.trunc'' [] [KindF32] [KindF32] []),
     (F32_NEAREST, ty ''f32.nearest'' [] [KindF32] [KindF32] []),
     (F32_MIN, ty ''f32.min'' [] [KindF32, KindF32] [KindF32] []),
     (F32_MAX, ty ''f32.max'' [] [KindF32, KindF32] [KindF32] []),
     (F32_COPYSIGN, ty ''f32.copysign'' [] [KindF32, KindF32] [KindF32] []),
     (F32_EQ, ty ''f32.eq'' [] [KindF32, KindF32] [KindI1] []),
     (F32_NE, ty ''f32.ne'' [] [KindF32, KindF32] [KindI1] []),
     (F32_LT, ty ''f32.lt'' [] [KindF32, KindF32] [KindI1] []),
     (F32_GT, ty ''f32.gt'' [] [KindF32, KindF32] [KindI1] []),
     (F32_LE, ty ''f32.le'' [] [KindF32, KindF32] [KindI1] []),
     (F32_GE, ty ''f32.ge'' [] [KindF32, KindF32] [KindI1] []),
     (F32_TO_I32_S, ty ''f32.to_i32_s'' [] [KindF32] [KindI32] []),
     (F32_TO_I32_U, ty ''f32.to_i32_u'' [] [KindF32] [KindI32] []),
     (F32_TO_I64_S, ty ''f32.to_i64_s'' [] [KindF32] [KindI64] []),
     (F32_TO_I64_U, ty ''f32.to_i64_u'' [] [KindF32] [KindI64] []),
     (F32_TO_F64, ty ''f32.to_f64'' [] [KindF32] [KindF64] []),
     (F32_REINTERPRET_I32, ty ''f32.reinterpret_i32'' [] [KindI32] [KindF32] [])]"

definition types_f64 :: "(opcode \<times> optype) list" where
  "types_f64 = [
     (F64_CONST, ty ''f64.const'' [8] [] [KindF64] []),
     (F64_ADD, ty ''f64.add'' [] [KindF64, KindF64] [KindF64] []),
     (F64_SUB, ty ''f64.sub'' [] [KindF64, KindF64] [KindF64] []),
     (F64_MUL, ty ''f64.mul'' [] [KindF64, KindF64] [KindF64] []),
     (F64_DIV, ty ''f64.div'' [] [KindF64, KindF64] [KindF64] []),
     (F64_REM, ty ''f64.rem'' [] [KindF64, KindF64] [KindF64] []),
     (F64_MOD, ty ''f64.mod'' [] [KindF64, KindF64] [KindF64] []),
     (F64_ABS, ty ''f64.abs'' [] [KindF64] [KindF64] []),
     (F64_NEG, ty ''f64.neg'' [] [KindF64] [KindF64] []),
     (F64_SQRT, ty ''f64.sqrt'' [] [KindF64] [KindF64] []),
     (F64_CEIL, ty ''f64.ceil'' [] [KindF64] [KindF64] []),
     (F64_FLOOR, ty ''f64.floor'' [] [KindF64] [KindF64] []),
     (F64_TRUNC, ty ''f64.trunc'' [] [KindF64] [KindF64] []),
     (F64_NEAREST, ty ''f64.nearest'' [] [KindF64] [KindF64] []),
     (F64_MIN, ty ''f64.min'' [] [KindF64, KindF64] [KindF64] []),
     (F64_MAX, ty ''f64.max'' [] [KindF64, KindF64] [KindF64] []),
     (F64_COPYSIGN, ty ''f64.copysign'' [] [KindF64, KindF64] [KindF64] []),
     (F64_EQ, ty ''f64.eq'' [] [KindF64, KindF64] [KindI1] []),
     (F64_NE, ty ''f64.ne'' [] [KindF64, KindF64] [KindI1] []),
     (F64_LT, ty ''f64.lt'' [] [KindF64, KindF64] [KindI1] []),
     (F64_GT, ty ''f64.gt'' [] [KindF64, KindF64] [KindI1] []),
     (F64_LE, ty ''f64.le'' [] [KindF64, KindF64] [KindI1] []),
     (F64_GE, ty ''f64.ge'' [] [KindF64, KindF64] [KindI1] []),
     (F64_TO_I32_S, ty ''f64.to_i32_s'' [] [KindF64] [KindI32] []),
     (F64_TO_I32_U, ty ''f64.to_i32_u'' [] [KindF64] [KindI32] []),
     (F64_TO_I64_S, ty ''f64.to_i64_s'' [] [KindF64] [KindI64] []),
     (F64_TO_I64_U, ty ''f64.to_i64_u'' [] [KindF64] [KindI64] []),
     (F64_TO_F32, ty ''f64.to_f32'' [] [KindF64] [KindF32] []),
     (F64_REINTERPRET_I64, ty ''f64.reinterpret_i64'' [] [KindI64] [KindF64] [])]"

definition types_heap :: "(opcode \<times> optype) list" where
  "types_heap = [
     (STRING_NEW_UTF32, ty ''string.new_utf32'' [] [KindRef] [KindRef] []),
     (STRING_LEN, ty ''string.len'' [] [KindRef] [KindI32] []),
     (STRING_CONCAT, ty ''string.concat'' [] [KindRef, KindRef] [KindRef] []),
     (STRING_EQ, ty ''string.eq'' [] [KindRef, KindRef] [KindI1] []),
     (STRING_NE, ty ''string.ne'' [] [KindRef, KindRef] [KindI1] []),
     (STRING_LT, ty ''string.lt'' [] [KindRef, KindRef] [KindI1] []),
     (STRING_GT, ty ''string.gt'' [] [KindRef, KindRef] [KindI1] []),
     (STRING_LE, ty ''string.le'' [] [KindRef, KindRef] [KindI1] []),
     (STRING_GE, ty ''string.ge'' [] [KindRef, KindRef] [KindI1] []),
     (STRING_ENCODE_UTF32, ty ''string.encode_utf32'' [] [KindRef] [KindRef] []),
     (STRING_ITER, ty ''string.iter'' [] [KindRef] [KindRef] []),
     (ARRAY_NEW, ty ''array.new'' [2] [KindI32, KindAny] [KindRef] []),
     (ARRAY_NEW_DEFAULT, ty ''array.new_default'' [2] [KindI32] [KindRef] []),
     (ARRAY_LEN, ty ''array.len'' [] [KindRef] [KindI32] []),
     (ARRAY_GET, ty ''array.get'' [] [KindI32, KindRef] [KindAny] []),
     (ARRAY_SET, ty ''array.set'' [] [KindAny, KindI32, KindRef] [] [FlagContainerStore]),
     (ARRAY_FILL, ty ''array.fill'' [] [KindI32, KindAny, KindI32, KindRef] [] []),
     (ARRAY_COPY, ty ''array.copy'' [] [KindI32, KindI32, KindRef, KindI32, KindRef] [] []),
     (ARRAY_APPEND, ty ''array.append'' [] [] [] []),
     (ARRAY_DELETE, ty ''array.delete'' [] [KindI32, KindRef] [KindAny] []),
     (ARRAY_SLICE, ty ''array.slice'' [] [KindI32, KindI32, KindRef] [KindRef] []),
     (STRUCT_NEW, ty ''struct.new'' [2] [] [] []),
     (STRUCT_NEW_DEFAULT, ty ''struct.new_default'' [2] [] [KindRef] []),
     (STRUCT_GET, ty ''struct.get'' [] [KindI32, KindRef] [KindAny] []),
     (STRUCT_SET, ty ''struct.set'' [] [KindAny, KindI32, KindRef] [] [FlagContainerStore]),
     (MAP_NEW, ty ''map.new'' [2] [] [] []),
     (MAP_NEW_DEFAULT, ty ''map.new_default'' [2] [KindI32] [KindRef] []),
     (MAP_LEN, ty ''map.len'' [] [KindRef] [KindI32] []),
     (MAP_GET, ty ''map.get'' [] [KindAny, KindRef] [KindAny] []),
     (MAP_LOOKUP, ty ''map.lookup'' [] [KindAny, KindRef] [KindAny, KindI1] []),
     (MAP_SET, ty ''map.set'' [] [KindAny, KindAny, KindRef] [] []),
     (MAP_DELETE, ty ''map.delete'' [] [KindAny, KindRef] [] []),
     (MAP_CLEAR, ty ''map.clear'' [] [KindRef] [] []),
     (MAP_KEYS, ty ''map.keys'' [] [KindRef] [KindRef] []),
     (MAP_ITER, ty ''map.iter'' [] [KindRef] [KindRef] []),
     (REF_NEW, ty ''ref.new'' [] [KindAny] [KindRef] []),
     (REF_GET, ty ''ref.get'' [] [KindRef] [KindAny] []),
     (REF_SET, ty ''ref.set'' [] [KindAny, KindRef] [] []),
     (CLOSURE_NEW, ty ''closure.new'' [] [] [] []),
     (THROW, ty ''throw'' [] [KindAny] [] []),
     (ERROR_NEW, ty ''error.new'' [] [KindI32, KindAny] [KindRef] []),
     (ERROR_GET, ty ''error.get'' [] [KindRef] [KindAny] []),
     (ERROR_CODE, ty ''error.code'' [] [KindRef] [KindI32] []),
     (UPVAL_GET, ty ''upval.get'' [1] [] [] []),
     (UPVAL_SET, ty ''upval.set'' [1] [KindAny] [] [])]"

definition types :: "(opcode \<times> optype) list" where
  "types = types_core @ types_i32 @ types_i64 @ types_f32 @ types_f64 @ types_heap"

definition no_type :: optype where
  "no_type = ty '''' [] [] [] []"

definition type_of :: "opcode \<Rightarrow> optype" where
  "type_of op = (case map_of types op of Some t \<Rightarrow> t | None \<Rightarrow> no_type)"

definition valid :: "opcode \<Rightarrow> bool" where
  "valid op \<longleftrightarrow> map_of types op \<noteq> None"

definition is_call :: "opcode \<Rightarrow> bool" where
  "is_call op \<longleftrightarrow> FlagCall \<in> set (flags (type_of op))"

definition writes_local :: "opcode \<Rightarrow> bool" where
  "writes_local op \<longleftrightarrow> FlagLocalWrite \<in> set (flags (type_of op))"

definition stores_container :: "opcode \<Rightarrow> bool" where
  "stores_container op \<longleftrightarrow> FlagContainerStore \<in> set (flags (type_of op))"

end
