(* ===== verification/Instr.thy ===== *)
theory Instr
  imports Opcodes
begin

text \<open>
  The instruction encoding: \<^verbatim>\<open>instr/instr.go\<close>, the non-textual part of \<^verbatim>\<open>instr/code.go\<close> and the
  operand readers of \<^verbatim>\<open>instr/parse.go\<close>.  An \<^verbatim>\<open>Instruction\<close> is a byte slice whose first byte is the
  opcode.  \<open>None\<close> is a Go panic (an index or slice bound exceeded); the empty list is Go's \<^verbatim>\<open>nil\<close>
  instruction.  The code reads multi-byte operands through an unchecked pointer after checking the
  first byte only; the model returns \<open>None\<close> for a read or write that would leave the slice.
\<close>

section \<open>Operand readers\<close>

definition read_u8 :: "64 word \<Rightarrow> int" where "read_u8 v = uint (ucast v :: 8 word)"
definition read_i8 :: "64 word \<Rightarrow> int" where "read_i8 v = sint (ucast v :: 8 word)"
definition read_u16 :: "64 word \<Rightarrow> int" where "read_u16 v = uint (ucast v :: 16 word)"
definition read_i16 :: "64 word \<Rightarrow> int" where "read_i16 v = sint (ucast v :: 16 word)"
definition read_u32 :: "64 word \<Rightarrow> int" where "read_u32 v = uint (ucast v :: 32 word)"
definition read_i32 :: "64 word \<Rightarrow> int" where "read_i32 v = sint (ucast v :: 32 word)"

definition parse_u8 :: "code \<Rightarrow> nat \<Rightarrow> int option" where
  "parse_u8 c off = map_option (\<lambda>b. uint b) (idx c off)"

definition parse_i8 :: "code \<Rightarrow> nat \<Rightarrow> int option" where
  "parse_i8 c off = map_option (\<lambda>b. sint b) (idx c off)"

definition parse_u16 :: "code \<Rightarrow> nat \<Rightarrow> int option" where
  "parse_u16 c off = Option.bind (idx c off) (\<lambda>b0. Option.bind (idx c (off + 1)) (\<lambda>b1.
     Some (uint ((ucast b0 :: 16 word) OR push_bit 8 (ucast b1)))))"

definition parse_i16 :: "code \<Rightarrow> nat \<Rightarrow> int option" where
  "parse_i16 c off = map_option (\<lambda>v. sint (word_of_int v :: 16 word)) (parse_u16 c off)"

definition parse_u32 :: "code \<Rightarrow> nat \<Rightarrow> int option" where
  "parse_u32 c off = Option.bind (idx c off) (\<lambda>b0. Option.bind (idx c (off + 1)) (\<lambda>b1.
     Option.bind (idx c (off + 2)) (\<lambda>b2. Option.bind (idx c (off + 3)) (\<lambda>b3.
     Some (uint ((ucast b0 :: 32 word) OR push_bit 8 (ucast b1) OR push_bit 16 (ucast b2)
       OR push_bit 24 (ucast b3)))))))"

definition parse_i32 :: "code \<Rightarrow> nat \<Rightarrow> int option" where
  "parse_i32 c off = map_option (\<lambda>v. sint (word_of_int v :: 32 word)) (parse_u32 c off)"

section \<open>Encoding\<close>

text \<open>
  The operand part of \<^verbatim>\<open>New\<close>.  A positive width takes one operand; a negative one takes a count
  \<open>v\<close>, writes its low byte and takes \<open>v\<close> more operands.  Missing operands panic, spare ones are
  ignored.
\<close>

fun emit_ops :: "int list \<Rightarrow> 64 word list \<Rightarrow> code option" where
  "emit_ops [] ops = Some []"
| "emit_ops (w # ws) [] = None"
| "emit_ops (w # ws) (v # ops) =
     (if w > 0 then map_option (\<lambda>bs. le_bytes (nat w) v @ bs) (emit_ops ws ops)
      else if length ops < unat v then None
      else map_option (\<lambda>bs. ucast v # concat (map (le_bytes (nat (- w))) (take (unat v) ops)) @ bs)
             (emit_ops ws (drop (unat v) ops)))"

definition new_instr :: "opcode \<Rightarrow> 64 word list \<Rightarrow> code option" where
  "new_instr op ops =
     (if \<not> valid op then Some []
      else map_option (\<lambda>bs. op # bs) (emit_ops (widths (type_of op)) ops))"

section \<open>Decoding\<close>

fun width_from :: "int list \<Rightarrow> code \<Rightarrow> nat \<Rightarrow> nat option" where
  "width_from [] i off = Some off"
| "width_from (w # ws) i off =
     (if w > 0 then width_from ws i (off + nat w)
      else case idx i off of None \<Rightarrow> None
           | Some c \<Rightarrow> width_from ws i (off + 1 + unat c * nat (- w)))"

definition instr_type :: "code \<Rightarrow> optype option" where
  "instr_type i = map_option type_of (idx i 0)"

definition instr_width :: "code \<Rightarrow> nat option" where
  "instr_width i = Option.bind (instr_type i) (\<lambda>t. width_from (widths t) i 1)"

definition read_word :: "nat \<Rightarrow> code \<Rightarrow> nat \<Rightarrow> 64 word option" where
  "read_word n i off =
     (if off + n \<le> length i then Some (le_value (take n (drop off i))) else None)"

fun read_elems :: "nat \<Rightarrow> nat \<Rightarrow> code \<Rightarrow> nat \<Rightarrow> 64 word list option" where
  "read_elems w 0 i off = Some []"
| "read_elems w (Suc n) i off =
     Option.bind (read_word w i off) (\<lambda>v. map_option (\<lambda>vs. v # vs) (read_elems w n i (off + w)))"

fun read_ops :: "int list \<Rightarrow> code \<Rightarrow> nat \<Rightarrow> 64 word list option" where
  "read_ops [] i off = Some []"
| "read_ops (w # ws) i off =
     (if w > 0
      then Option.bind (read_word (nat w) i off)
             (\<lambda>v. map_option (\<lambda>vs. v # vs) (read_ops ws i (off + nat w)))
      else case idx i off of None \<Rightarrow> None
           | Some c \<Rightarrow>
               Option.bind (read_elems (nat (- w)) (unat c) i (off + 1))
                 (\<lambda>es. map_option (\<lambda>vs. ucast c # es @ vs)
                   (read_ops ws i (off + 1 + unat c * nat (- w)))))"

definition operands :: "code \<Rightarrow> 64 word list option" where
  "operands i = Option.bind (instr_type i) (\<lambda>t. read_ops (widths t) i 1)"

definition operand :: "code \<Rightarrow> nat \<Rightarrow> 64 word option" where
  "operand i k = map_option (\<lambda>vs. if k < length vs then vs ! k else 0) (operands i)"

definition write_word :: "nat \<Rightarrow> code \<Rightarrow> nat \<Rightarrow> 64 word \<Rightarrow> code option" where
  "write_word n i off v =
     (if off + n \<le> length i then Some (take off i @ le_bytes n v @ drop (off + n) i) else None)"

text \<open>\<^verbatim>\<open>SetOperand\<close>: \<open>k\<close> is the index of the first operand the remaining widths describe.\<close>

fun set_from :: "int list \<Rightarrow> code \<Rightarrow> nat \<Rightarrow> nat \<Rightarrow> nat \<Rightarrow> 64 word \<Rightarrow> code option" where
  "set_from [] i off k j v = Some i"
| "set_from (w # ws) i off k j v =
     (if w > 0
      then (if j = k then write_word (nat w) i off v
            else set_from ws i (off + nat w) (k + 1) j v)
      else if j = k then (if off < length i then Some (i[off := ucast v]) else None)
      else case idx i off of None \<Rightarrow> None
           | Some c \<Rightarrow>
               (if k + 1 \<le> j \<and> j < k + 1 + unat c
                then write_word (nat (- w)) i (off + 1 + (j - (k + 1)) * nat (- w)) v
                else set_from ws i (off + 1 + unat c * nat (- w)) (k + 1 + unat c) j v))"

definition set_operand :: "code \<Rightarrow> nat \<Rightarrow> 64 word \<Rightarrow> code option" where
  "set_operand i j v = Option.bind (instr_type i) (\<lambda>t. set_from (widths t) i 1 0 j v)"

section \<open>Streams\<close>

definition marshal :: "code list \<Rightarrow> code" where
  "marshal is = concat is"

text \<open>
  The loop shape shared by \<^verbatim>\<open>Unmarshal\<close>, the verifier's structural walk and the passes: take the
  width of the instruction at the front, step over it, stop at the end.  \<open>None\<close> when a width is not
  available or runs past the end.
\<close>

function walk :: "(code \<Rightarrow> nat option) \<Rightarrow> code \<Rightarrow> code list option" where
  "walk wid c =
     (if c = [] then Some []
      else case wid c of None \<Rightarrow> None
           | Some w \<Rightarrow> if w = 0 \<or> length c < w then None
                       else map_option (\<lambda>is. take w c # is) (walk wid (drop w c)))"
  by pat_completeness auto
termination
  by (relation "measure (\<lambda>(wid, c). length c)") auto

declare walk.simps [simp del]

text \<open>
  \<^verbatim>\<open>Unmarshal\<close>.  The code has no bounds check of its own; a slice past the length of the code is a panic here (Go
  would still allow it within the capacity of the slice).
\<close>

definition unmarshal :: "code \<Rightarrow> code list option" where
  "unmarshal c = walk instr_width c"

text \<open>\<^verbatim>\<open>Targets\<close>: the absolute offsets a branch at \<open>ip\<close> can go to (none for other opcodes).\<close>

definition targets :: "code \<Rightarrow> nat \<Rightarrow> int list option" where
  "targets c ip =
     (let i = drop ip c in
      Option.bind (instr_width i) (\<lambda>w. let next = int ip + int w in
        if i ! 0 = BR \<or> i ! 0 = BR_IF then
          map_option (\<lambda>v. [next + read_i16 v]) (operand i 0)
        else if i ! 0 = BR_TABLE then
          map_option (\<lambda>vs. map (\<lambda>v. next + read_i16 v) (tl vs)) (operands i)
        else Some []))"

section \<open>The shape of the metadata\<close>

definition std_widths :: "int list set" where
  "std_widths = {[], [1], [2], [4], [8], [-2, 2]}"

lemmas types_defs = types_def types_core_def types_i32_def types_i64_def types_f32_def
  types_f64_def types_heap_def

lemma types_std: "list_all (\<lambda>(o', t). widths t \<in> std_widths) types"
  by (simp add: types_defs ty_def std_widths_def)

lemma type_of_std: "widths (type_of op) \<in> std_widths"
proof (cases "map_of types op")
  case None
  then show ?thesis by (simp add: type_of_def no_type_def ty_def std_widths_def)
next
  case (Some t)
  then have "(op, t) \<in> set types" by (rule map_of_SomeD)
  with types_std show ?thesis using Some by (auto simp: list_all_iff type_of_def)
qed

lemma std_nonzero: "ws \<in> std_widths \<Longrightarrow> 0 \<notin> set ws"
  by (auto simp: std_widths_def)

lemma std_bound: "ws \<in> std_widths \<Longrightarrow> w \<in> set ws \<Longrightarrow> \<bar>w\<bar> \<le> 8"
  by (auto simp: std_widths_def)

lemma branch_widths [width_simps]:
  "widths (type_of BR) = [2]" "widths (type_of BR_IF) = [2]" "widths (type_of BR_TABLE) = [-2, 2]"
  by (simp_all add: type_of_def types_defs ty_def)

lemma branch_valid [simp]: "valid BR" "valid BR_IF" "valid BR_TABLE" "valid NOP" "valid UNREACHABLE"
  by (simp_all add: valid_def types_defs)

section \<open>Widths\<close>

lemma width_from_ge: "width_from ws i off = Some e \<Longrightarrow> off \<le> e"
  by (induction ws i off rule: width_from.induct) (auto split: if_splits option.splits)

lemma instr_width_pos: "instr_width i = Some w \<Longrightarrow> 0 < w"
  by (auto simp: instr_width_def bind_eq_Some_conv dest: width_from_ge)

text \<open>The width of an instruction only depends on the bytes of the instruction itself.\<close>

lemma width_from_prefix:
  "width_from ws i off = Some e \<Longrightarrow> e \<le> length i \<Longrightarrow> take e i = take e j \<Longrightarrow> e \<le> length j \<Longrightarrow>
   width_from ws j off = Some e"
proof (induction ws i off arbitrary: j rule: width_from.induct)
  case (2 w ws i off)
  show ?case
  proof (cases "w > 0")
    case True
    with 2 show ?thesis by simp
  next
    case False
    then obtain c where c: "idx i off = Some c"
      and e: "width_from ws i (off + 1 + unat c * nat (- w)) = Some e"
      using "2.prems" by (auto split: option.splits)
    from width_from_ge [OF e] have lt: "off < e" by simp
    have "i ! off = take e i ! off" using lt by simp
    also have "\<dots> = j ! off" using lt "2.prems"(3) by simp
    finally have "idx j off = Some c" using c lt "2.prems" by (auto simp: idx_def split: if_splits)
    moreover have "width_from ws j (off + 1 + unat c * nat (- w)) = Some e"
      using "2.IH"(2) [OF False c] e "2.prems" by blast
    ultimately show ?thesis using False by simp
  qed
qed simp

lemma instr_width_prefix:
  assumes "instr_width i = Some w" "w \<le> length i" "take w i = take w j" "w \<le> length j"
  shows "instr_width j = Some w"
proof -
  have pos: "0 < w" using assms(1) by (rule instr_width_pos)
  have "i ! 0 = j ! 0" using assms pos by (metis nth_take)
  then have "instr_type j = instr_type i"
    using pos assms(2,4) by (simp add: instr_type_def idx_def) (use pos in auto)
  with assms show ?thesis
    by (auto simp: instr_width_def bind_eq_Some_conv intro: width_from_prefix)
qed

lemma instr_width_append [width_simps]:
  "instr_width i = Some (length i) \<Longrightarrow> instr_width (i @ c) = Some (length i)"
  by (rule instr_width_prefix) auto

section \<open>Encoding and decoding\<close>

text \<open>The count operands of a variable-width list fit the byte they are stored in.\<close>

fun counts_fit :: "int list \<Rightarrow> 64 word list \<Rightarrow> bool" where
  "counts_fit [] vs = True"
| "counts_fit (w # ws) [] = True"
| "counts_fit (w # ws) (v # vs) =
     (if w > 0 then counts_fit ws vs else unat v < 256 \<and> counts_fit ws (drop (unat v) vs))"

text \<open>The operands an instruction keeps: each truncated to its width, spare ones dropped.\<close>

fun norm_ops :: "int list \<Rightarrow> 64 word list \<Rightarrow> 64 word list" where
  "norm_ops [] vs = []"
| "norm_ops (w # ws) [] = []"
| "norm_ops (w # ws) (v # vs) =
     (if w > 0 then take_bit (8 * nat w) v # norm_ops ws vs
      else v # map (take_bit (8 * nat (- w))) (take (unat v) vs) @ norm_ops ws (drop (unat v) vs))"

lemma unat_count: "unat (v :: 64 word) < 256 \<Longrightarrow> unat (ucast v :: byte) = unat v"
  by (simp add: unsigned_ucast_eq take_bit_nat_eq_self)

lemma ucast_count: "unat (v :: 64 word) < 256 \<Longrightarrow> ucast (ucast v :: byte) = v"
proof -
  assume "unat v < 256"
  then have "unat (take_bit 8 v) = unat v" by (simp add: unsigned_take_bit_eq take_bit_nat_eq_self)
  moreover have "(ucast (ucast v :: byte) :: 64 word) = take_bit 8 v"
    by (rule bit_word_eqI) (auto simp: bit_simps)
  ultimately show ?thesis by (simp only: word_unat_eq_iff)
qed

lemma length_concat_le: "length (concat (map (le_bytes n) vs)) = length vs * n"
  by (induction vs) auto

lemma width_from_emit:
  "emit_ops ws vs = Some bs \<Longrightarrow> counts_fit ws vs \<Longrightarrow>
   width_from ws (pre @ bs @ post) (length pre) = Some (length pre + length bs)"
proof (induction ws vs arbitrary: bs pre rule: emit_ops.induct)
  case (3 w ws v vs)
  show ?case
  proof (cases "w > 0")
    case True
    with "3.prems" obtain bs' where bs': "emit_ops ws vs = Some bs'" "bs = le_bytes (nat w) v @ bs'"
      by auto
    from "3.IH"(1) [OF True bs'(1), of "pre @ le_bytes (nat w) v"] "3.prems" True bs'
    show ?thesis by simp
  next
    case False
    let ?n = "unat v" and ?k = "nat (- w)"
    let ?hd = "(ucast v :: byte) # concat (map (le_bytes ?k) (take ?n vs))"
    from False "3.prems" obtain bs' where nl: "\<not> length vs < ?n"
      and bs': "emit_ops ws (drop ?n vs) = Some bs'" "bs = ?hd @ bs'"
      by (auto split: if_splits)
    have fit: "?n < 256" "counts_fit ws (drop ?n vs)" using "3.prems" False by auto
    have len: "length ?hd = 1 + ?n * ?k" using nl by (simp add: length_concat_le)
    have "idx (pre @ bs @ post) (length pre) = Some (ucast v)"
      by (simp add: idx_def bs' nth_append)
    moreover have "width_from ws ((pre @ ?hd) @ bs' @ post) (length (pre @ ?hd))
        = Some (length (pre @ ?hd) + length bs')"
      by (rule "3.IH"(2) [OF False nl bs'(1) fit(2)])
    ultimately show ?thesis using False fit len by (simp add: bs' unat_count add.assoc)
  qed
qed simp_all

lemma read_word_le:
  "n \<le> 8 \<Longrightarrow> read_word n (pre @ le_bytes n v @ post) (length pre) = Some (take_bit (8 * n) v)"
  by (simp add: read_word_def le_value_le_bytes)

lemma read_elems_le:
  "k \<le> 8 \<Longrightarrow> read_elems k (length vs) (pre @ concat (map (le_bytes k) vs) @ post) (length pre)
     = Some (map (take_bit (8 * k)) vs)"
proof (induction vs arbitrary: pre)
  case (Cons v vs)
  have "read_word k (pre @ le_bytes k v @ concat (map (le_bytes k) vs) @ post) (length pre)
      = Some (take_bit (8 * k) v)"
    using Cons.prems by (rule read_word_le)
  with Cons.IH [OF Cons.prems, of "pre @ le_bytes k v"] show ?case by simp
qed simp

lemma read_ops_emit:
  "emit_ops ws vs = Some bs \<Longrightarrow> counts_fit ws vs \<Longrightarrow> \<forall>w\<in>set ws. \<bar>w\<bar> \<le> 8 \<Longrightarrow>
   read_ops ws (pre @ bs @ post) (length pre) = Some (norm_ops ws vs)"
proof (induction ws vs arbitrary: bs pre rule: emit_ops.induct)
  case (3 w ws v vs)
  have bnd: "\<forall>w\<in>set ws. \<bar>w\<bar> \<le> 8" "nat w \<le> 8" "nat (- w) \<le> 8" using "3.prems" by auto
  show ?case
  proof (cases "w > 0")
    case True
    with "3.prems" obtain bs' where bs': "emit_ops ws vs = Some bs'" "bs = le_bytes (nat w) v @ bs'"
      by auto
    have "read_ops ws ((pre @ le_bytes (nat w) v) @ bs' @ post) (length (pre @ le_bytes (nat w) v))
        = Some (norm_ops ws vs)"
      by (rule "3.IH"(1) [OF True bs'(1)]) (use "3.prems" True bnd in auto)
    with True bs' read_word_le [OF bnd(2), of pre v "bs' @ post"] show ?thesis by simp
  next
    case False
    let ?n = "unat v" and ?k = "nat (- w)"
    let ?es = "concat (map (le_bytes ?k) (take ?n vs))"
    from False "3.prems" obtain bs' where nl: "\<not> length vs < ?n"
      and bs': "emit_ops ws (drop ?n vs) = Some bs'" "bs = ucast v # ?es @ bs'"
      by (auto split: if_splits)
    have fit: "?n < 256" "counts_fit ws (drop ?n vs)" using "3.prems" False by auto
    have len: "length ?es = ?n * ?k" using nl by (simp add: length_concat_le)
    let ?pre = "pre @ [ucast v]"
    have i: "pre @ bs @ post = ?pre @ ?es @ bs' @ post" by (simp add: bs')
    have "idx (pre @ bs @ post) (length pre) = Some (ucast v)"
      by (simp add: idx_def bs' nth_append)
    moreover have "read_elems ?k ?n (pre @ bs @ post) (length pre + 1)
        = Some (map (take_bit (8 * ?k)) (take ?n vs))"
      using read_elems_le [OF bnd(3), of "take ?n vs" ?pre "bs' @ post"] nl
      by (simp add: i not_less min.absorb2)
    moreover have "read_ops ws ((?pre @ ?es) @ bs' @ post) (length (?pre @ ?es))
        = Some (norm_ops ws (drop ?n vs))"
      by (rule "3.IH"(2) [OF False nl bs'(1) fit(2) bnd(1)])
    ultimately show ?thesis
      using False fit len i by (simp add: unat_count ucast_count add.assoc)
  qed
qed simp_all

lemma emit_head: "new_instr op vs = Some i \<Longrightarrow> valid op \<Longrightarrow>
   \<exists>bs. emit_ops (widths (type_of op)) vs = Some bs \<and> i = op # bs"
  by (auto simp: new_instr_def)

text \<open>An encoded instruction, wherever it stands in a stream, has its own length as its width and
  decodes to its operands.\<close>

lemma new_instr_decode:
  assumes n: "new_instr op vs = Some i" and v: "valid op"
    and fit: "counts_fit (widths (type_of op)) vs"
  shows "instr_width (i @ c) = Some (length i)"
    and "operands (i @ c) = Some (norm_ops (widths (type_of op)) vs)"
    and "i \<noteq> []" and "i ! 0 = op"
proof -
  obtain bs where bs: "emit_ops (widths (type_of op)) vs = Some bs" "i = op # bs"
    using emit_head [OF n v] by blast
  have b: "\<forall>w\<in>set (widths (type_of op)). \<bar>w\<bar> \<le> 8"
    using std_bound [OF type_of_std] by blast
  show "instr_width (i @ c) = Some (length i)"
    using width_from_emit [OF bs(1) fit, of "[op]" c] bs
    by (simp add: instr_width_def instr_type_def idx_def)
  show "operands (i @ c) = Some (norm_ops (widths (type_of op)) vs)"
    using read_ops_emit [OF bs(1) fit b, of "[op]" c] bs
    by (simp add: operands_def instr_type_def idx_def)
  show "i \<noteq> []" "i ! 0 = op" using bs by auto
qed

section \<open>Overwriting an operand\<close>

text \<open>Operand \<open>j\<close> is an element, not the count byte of a variable-width list.\<close>

fun elem_at :: "int list \<Rightarrow> 64 word list \<Rightarrow> nat \<Rightarrow> bool" where
  "elem_at [] vs j = False"
| "elem_at (w # ws) [] j = False"
| "elem_at (w # ws) (v # vs) j =
     (if w > 0 then (case j of 0 \<Rightarrow> True | Suc j' \<Rightarrow> elem_at ws vs j')
      else (case j of 0 \<Rightarrow> False
            | Suc j' \<Rightarrow> if j' < unat v then True else elem_at ws (drop (unat v) vs) (j' - unat v)))"

lemma write_word_at:
  "length xs = n \<Longrightarrow> write_word n (pre @ xs @ post) (length pre) v = Some (pre @ le_bytes n v @ post)"
  by (simp add: write_word_def)

lemma concat_le_split:
  assumes "j < length vs"
  shows "concat (map (le_bytes k) vs)
    = concat (map (le_bytes k) (take j vs)) @ le_bytes k (vs ! j)
      @ concat (map (le_bytes k) (drop (Suc j) vs))"
proof -
  have "vs = take j vs @ vs ! j # drop (Suc j) vs" using assms by (simp add: id_take_nth_drop)
  then have "map (le_bytes k) vs = map (le_bytes k) (take j vs @ vs ! j # drop (Suc j) vs)"
    by simp
  then show ?thesis by (metis concat.simps(2) concat_append list.simps(9) map_append)
qed

lemma write_elem:
  assumes "j < length vs"
  shows "write_word k (pre @ concat (map (le_bytes k) vs) @ post) (length pre + j * k) v
    = Some (pre @ concat (map (le_bytes k) (vs[j := v])) @ post)"
proof -
  let ?a = "concat (map (le_bytes k) (take j vs))"
  let ?b = "concat (map (le_bytes k) (drop (Suc j) vs))"
  have len: "length (pre @ ?a) = length pre + j * k"
    using assms by (simp add: length_concat_le)
  have upd: "concat (map (le_bytes k) (vs[j := v])) = ?a @ le_bytes k v @ ?b"
    using concat_le_split [of j "vs[j := v]" k] assms by simp
  have "write_word k ((pre @ ?a) @ le_bytes k (vs ! j) @ ?b @ post) (length (pre @ ?a)) v
      = Some ((pre @ ?a) @ le_bytes k v @ ?b @ post)"
    by (rule write_word_at) simp
  then show ?thesis
    by (simp only: len concat_le_split [OF assms, of k] upd append_assoc)
qed

lemma set_from_emit:
  "emit_ops ws vs = Some bs \<Longrightarrow> counts_fit ws vs \<Longrightarrow> elem_at ws vs j \<Longrightarrow>
   \<exists>bs'. set_from ws (pre @ bs @ post) (length pre) k (k + j) v = Some (pre @ bs' @ post)
     \<and> emit_ops ws (vs[j := v]) = Some bs' \<and> length bs' = length bs
     \<and> counts_fit ws (vs[j := v])"
proof (induction ws vs arbitrary: bs pre k j rule: emit_ops.induct)
  case (3 w ws x vs)
  show ?case
  proof (cases "w > 0")
    case True
    with "3.prems" obtain bs0 where bs0: "emit_ops ws vs = Some bs0" "bs = le_bytes (nat w) x @ bs0"
      by auto
    show ?thesis
    proof (cases j)
      case 0
      have "write_word (nat w) (pre @ le_bytes (nat w) x @ bs0 @ post) (length pre) v
          = Some (pre @ le_bytes (nat w) v @ bs0 @ post)"
        by (rule write_word_at) simp
      with True bs0 0 "3.prems" show ?thesis by simp
    next
      case (Suc j')
      have "elem_at ws vs j'" "counts_fit ws vs" using "3.prems" True Suc by auto
      from "3.IH"(1) [OF True bs0(1) this(2,1), of "pre @ le_bytes (nat w) x" "k + 1"]
      obtain bs' where "set_from ws ((pre @ le_bytes (nat w) x) @ bs0 @ post)
          (length (pre @ le_bytes (nat w) x)) (k + 1) (k + 1 + j') v
          = Some ((pre @ le_bytes (nat w) x) @ bs' @ post)"
        "emit_ops ws (vs[j' := v]) = Some bs'" "length bs' = length bs0"
        "counts_fit ws (vs[j' := v])" by blast
      with True bs0 Suc show ?thesis by (auto simp: add.commute add.left_commute)
    qed
  next
    case False
    let ?n = "unat x" and ?k = "nat (- w)"
    let ?es = "concat (map (le_bytes ?k) (take ?n vs))"
    from False "3.prems" obtain bs0 where nl: "\<not> length vs < ?n"
      and bs0: "emit_ops ws (drop ?n vs) = Some bs0" "bs = ucast x # ?es @ bs0"
      by (auto split: if_splits)
    have fit: "?n < 256" "counts_fit ws (drop ?n vs)" using "3.prems" False by auto
    have len: "length ?es = ?n * ?k" using nl by (simp add: length_concat_le)
    obtain j' where j: "j = Suc j'" using "3.prems" False by (cases j) auto
    let ?pre = "pre @ [ucast x]"
    have i: "pre @ bs @ post = ?pre @ ?es @ bs0 @ post" by (simp add: bs0)
    have c: "idx (pre @ bs @ post) (length pre) = Some (ucast x)"
      by (simp add: idx_def bs0 nth_append)
    show ?thesis
    proof (cases "j' < ?n")
      case True
      have lt: "j' < length (take ?n vs)" using True nl by simp
      have "write_word ?k (pre @ bs @ post) (length ?pre + j' * ?k) v
          = Some (?pre @ concat (map (le_bytes ?k) ((take ?n vs)[j' := v])) @ bs0 @ post)"
        unfolding i by (rule write_elem [OF lt])
      then have "set_from (w # ws) (pre @ bs @ post) (length pre) k (k + j) v
          = Some (pre @ (ucast x # concat (map (le_bytes ?k) (take ?n (vs[j' := v]))) @ bs0) @ post)"
        using False c j True fit by (simp add: unat_count take_update_swap)
      moreover have "emit_ops (w # ws) ((x # vs)[j := v])
          = Some (ucast x # concat (map (le_bytes ?k) (take ?n (vs[j' := v]))) @ bs0)"
        using False nl j True bs0 by (simp add: drop_update_cancel)
      moreover have "counts_fit (w # ws) ((x # vs)[j := v])"
        using False j True fit by (simp add: drop_update_cancel)
      ultimately show ?thesis using nl j by (auto simp: bs0 length_concat_le min_def)
    next
      case nt: False
      let ?pre2 = "?pre @ ?es"
      have e: "elem_at ws (drop ?n vs) (j' - ?n)" using "3.prems" False j nt by simp
      from "3.IH"(2) [OF False nl bs0(1) fit(2) e, of ?pre2 "k + 1 + ?n"]
      obtain bs' where r: "set_from ws (?pre2 @ bs0 @ post) (length ?pre2) (k + 1 + ?n)
            (k + 1 + ?n + (j' - ?n)) v = Some (?pre2 @ bs' @ post)"
        "emit_ops ws ((drop ?n vs)[j' - ?n := v]) = Some bs'" "length bs' = length bs0"
        "counts_fit ws ((drop ?n vs)[j' - ?n := v])" by blast
      have off: "length ?pre2 = length pre + 1 + ?n * ?k" using len by simp
      have kj: "k + 1 + ?n + (j' - ?n) = k + j" using nt j by simp
      have dr: "drop ?n (vs[j' := v]) = (drop ?n vs)[j' - ?n := v]"
        using nt by (simp add: drop_update_swap)
      have tk: "take ?n (vs[j' := v]) = take ?n vs"
        using nt by simp
      have "set_from (w # ws) (pre @ bs @ post) (length pre) k (k + j) v
          = set_from ws (pre @ bs @ post) (length pre + 1 + ?n * ?k) (k + 1 + ?n) (k + j) v"
        using False c fit j nt by (simp add: unat_count)
      also have "\<dots> = Some (?pre2 @ bs' @ post)"
        using r(1) by (simp only: off kj) (simp add: bs0)
      finally have "set_from (w # ws) (pre @ bs @ post) (length pre) k (k + j) v
          = Some (pre @ (ucast x # ?es @ bs') @ post)" by simp
      moreover have "emit_ops (w # ws) ((x # vs)[j := v]) = Some (ucast x # ?es @ bs')"
        using False nl j r(2) by (simp add: dr tk)
      moreover have "counts_fit (w # ws) ((x # vs)[j := v])"
        using False j fit r(4) by (simp add: dr)
      ultimately show ?thesis using r(3) by (auto simp: bs0)
    qed
  qed
qed simp_all

lemma new_instr_set_operand:
  assumes n: "new_instr op vs = Some i" and v: "valid op"
    and fit: "counts_fit (widths (type_of op)) vs" and e: "elem_at (widths (type_of op)) vs j"
  shows "\<exists>i'. set_operand (i @ c) j x = Some (i' @ c) \<and> new_instr op (vs[j := x]) = Some i'
     \<and> length i' = length i \<and> counts_fit (widths (type_of op)) (vs[j := x])"
proof -
  obtain bs where bs: "emit_ops (widths (type_of op)) vs = Some bs" "i = op # bs"
    using emit_head [OF n v] by blast
  from set_from_emit [OF bs(1) fit e, of "[op]" c 0 x] obtain bs' where
    "set_from (widths (type_of op)) (i @ c) 1 0 j x = Some (op # bs' @ c)"
    "emit_ops (widths (type_of op)) (vs[j := x]) = Some bs'" "length bs' = length bs"
    "counts_fit (widths (type_of op)) (vs[j := x])" by (auto simp: bs)
  with bs v show ?thesis
    by (intro exI [of _ "op # bs'"]) (simp add: set_operand_def instr_type_def idx_def new_instr_def)
qed

text \<open>Every complete instruction of a byte stream is the encoding of its operands.\<close>

lemma le_bytes_le_value: "length bs \<le> 8 \<Longrightarrow> le_bytes (length bs) (le_value bs) = bs"
proof (induction bs)
  case (Cons b bs)
  have hd: "(ucast ((ucast b :: 64 word) OR push_bit 8 (le_value bs)) :: byte) = b"
    by (rule bit_word_eqI) (auto simp: bit_simps)
  have bnd: "le_value bs = take_bit 56 (le_value bs)"
  proof -
    have t: "le_value bs = take_bit (8 * length bs) (le_value bs)"
      using Cons le_value_le_bytes [of "length bs" "le_value bs"] by simp
    then have "take_bit 56 (le_value bs) = take_bit (min 56 (8 * length bs)) (le_value bs)"
      by (metis take_bit_take_bit)
    moreover have "min 56 (8 * length bs) = 8 * length bs" using Cons.prems by simp
    ultimately show ?thesis using t by simp
  qed
  have "drop_bit 8 ((ucast b :: 64 word) OR push_bit 8 (le_value bs)) = le_value bs"
  proof (rule bit_word_eqI)
    fix n assume n: "n < LENGTH(64)"
    have "bit (le_value bs) n \<Longrightarrow> n < 56" by (subst (asm) bnd) (simp add: bit_take_bit_iff)
    with n show "bit (drop_bit 8 ((ucast b :: 64 word) OR push_bit 8 (le_value bs))) n
        = bit (le_value bs) n"
      by (auto simp: bit_simps dest: bit_imp_le_length)
  qed
  with hd Cons show ?case by simp
qed simp

lemma read_word_bytes:
  assumes "read_word n i off = Some v" "n \<le> 8"
  shows "off + n \<le> length i" "le_bytes n v = take n (drop off i)"
proof -
  from assms show l: "off + n \<le> length i" by (auto simp: read_word_def split: if_splits)
  then have len: "length (take n (drop off i)) = n" by simp
  have "v = le_value (take n (drop off i))" using assms by (auto simp: read_word_def split: if_splits)
  with len assms(2) show "le_bytes n v = take n (drop off i)"
    using le_bytes_le_value [of "take n (drop off i)"] by simp
qed

lemma read_elems_total:
  "off + n * w \<le> length i \<Longrightarrow> w \<le> 8 \<Longrightarrow>
   \<exists>es. read_elems w n i off = Some es \<and> length es = n \<and>
     concat (map (le_bytes w) es) = take (n * w) (drop off i)"
proof (induction n arbitrary: off)
  case (Suc n)
  have r: "read_word w i off = Some (le_value (take w (drop off i)))"
    using Suc.prems by (simp add: read_word_def)
  from Suc.IH [of "off + w"] Suc.prems obtain es where
    "read_elems w n i (off + w) = Some es" "length es = n"
    "concat (map (le_bytes w) es) = take (n * w) (drop (off + w) i)" by (auto simp: algebra_simps)
  with r read_word_bytes [OF r] Suc.prems show ?case
    by (auto simp: take_add drop_drop add.commute)
qed simp

lemma read_ops_total:
  "width_from ws i off = Some e \<Longrightarrow> e \<le> length i \<Longrightarrow> \<forall>w\<in>set ws. \<bar>w\<bar> \<le> 8 \<Longrightarrow>
   \<exists>vs. read_ops ws i off = Some vs \<and> emit_ops ws vs = Some (take (e - off) (drop off i)) \<and>
     counts_fit ws vs"
proof (induction ws i off rule: width_from.induct)
  case (2 w ws i off)
  have bnd: "\<forall>w\<in>set ws. \<bar>w\<bar> \<le> 8" "nat w \<le> 8" "nat (- w) \<le> 8" using "2.prems" by auto
  show ?case
  proof (cases "w > 0")
    case True
    let ?n = "nat w"
    have w: "width_from ws i (off + ?n) = Some e" using True "2.prems" by simp
    from width_from_ge [OF w] "2.prems"(2) have le: "off + ?n \<le> length i" "off + ?n \<le> e" by simp_all
    then have r: "read_word ?n i off = Some (le_value (take ?n (drop off i)))"
      by (simp add: read_word_def)
    from "2.IH"(1) [OF True w "2.prems"(2) bnd(1)] obtain vs where vs:
      "read_ops ws i (off + ?n) = Some vs"
      "emit_ops ws vs = Some (take (e - (off + ?n)) (drop (off + ?n) i))" "counts_fit ws vs" by blast
    have "e - off = ?n + (e - (off + ?n))" using le by simp
    then have "take (e - off) (drop off i)
        = take ?n (drop off i) @ take (e - (off + ?n)) (drop (off + ?n) i)"
      by (simp only: take_add drop_drop) (simp add: add.commute)
    with True r vs read_word_bytes(2) [OF r bnd(2)] show ?thesis by auto
  next
    case False
    let ?k = "nat (- w)"
    from False "2.prems" obtain c where c: "idx i off = Some c"
      and w: "width_from ws i (off + 1 + unat c * ?k) = Some e" by (auto split: option.splits)
    from width_from_ge [OF w] "2.prems"(2)
    have le: "off + 1 + unat c * ?k \<le> length i" "off + 1 + unat c * ?k \<le> e" by simp_all
    from read_elems_total [OF le(1) bnd(3)] obtain es where es:
      "read_elems ?k (unat c) i (off + 1) = Some es" "length es = unat c"
      "concat (map (le_bytes ?k) es) = take (unat c * ?k) (drop (off + 1) i)" by blast
    from "2.IH"(2) [OF False c w "2.prems"(2) bnd(1)] obtain vs where vs:
      "read_ops ws i (off + 1 + unat c * ?k) = Some vs"
      "emit_ops ws vs = Some (take (e - (off + 1 + unat c * ?k)) (drop (off + 1 + unat c * ?k) i))"
      "counts_fit ws vs" by blast
    have uc: "unat (ucast c :: 64 word) = unat c" "(ucast (ucast c :: 64 word) :: byte) = c"
      by (auto simp: unsigned_ucast_eq take_bit_nat_eq_self unsigned_less [THEN order_less_trans]
          intro!: bit_word_eqI simp: bit_simps)
    have c256: "unat c < 256" using unsigned_less [of c] by simp
    have "off < length i" "c = i ! off" using c by (auto simp: idx_Some_iff)
    then have "drop off i = c # drop (off + 1) i" by (simp add: Cons_nth_drop_Suc)
    moreover have "e - off = Suc (unat c * ?k + (e - (off + 1 + unat c * ?k)))" using le by simp
    ultimately have "take (e - off) (drop off i) = c # take (unat c * ?k) (drop (off + 1) i)
        @ take (e - (off + 1 + unat c * ?k)) (drop (unat c * ?k + (off + 1)) i)"
      by (simp only: take_Suc_Cons take_add drop_drop)
    moreover have "unat c * ?k + (off + 1) = off + 1 + unat c * ?k" by simp
    ultimately have "take (e - off) (drop off i) = c # take (unat c * ?k) (drop (off + 1) i)
        @ take (e - (off + 1 + unat c * ?k)) (drop (off + 1 + unat c * ?k) i)"
      by (simp only:)
    with False c es vs uc c256 show ?thesis by simp
  qed
qed simp

lemma instr_decode_total:
  assumes w: "instr_width i = Some w" and l: "w \<le> length i"
  shows "\<exists>vs. operands i = Some vs \<and> emit_ops (widths (type_of (i ! 0))) vs = Some (tl (take w i))
    \<and> counts_fit (widths (type_of (i ! 0))) vs"
proof -
  have i0: "instr_type i = Some (type_of (i ! 0))" and wf: "width_from (widths (type_of (i ! 0))) i 1 = Some w"
    using w by (auto simp: instr_width_def instr_type_def idx_def bind_eq_Some_conv split: if_splits)
  have b: "\<forall>w\<in>set (widths (type_of (i ! 0))). \<bar>w\<bar> \<le> 8"
    using std_bound [OF type_of_std] by blast
  have "tl (take w i) = take (w - 1) (drop 1 i)"
    using instr_width_pos [OF w] by (cases i) (auto simp: take_Cons' )
  with read_ops_total [OF wf l b] i0 show ?thesis by (auto simp: operands_def)
qed

lemma le_bytes_numeral [simp]: "le_bytes (numeral n) v = ucast v # le_bytes (pred_numeral n) (drop_bit 8 v)"
  by (simp add: numeral_eq_Suc)

lemma read_elems_numeral [simp]: "read_elems w (numeral n) i off =
  Option.bind (read_word w i off) (\<lambda>v. map_option (\<lambda>vs. v # vs) (read_elems w (pred_numeral n) i (off + w)))"
  by (simp add: numeral_eq_Suc)

section \<open>Streams of instructions\<close>

text \<open>
  Everything that steps over code needs two facts about the width it steps by: it is positive, and
  it depends on the instruction's own bytes only.  The walk lemmas are proved from those two and
  used for the decoder itself and for the verifier's bounds-checked width.
\<close>

fun starts_from :: "nat \<Rightarrow> code list \<Rightarrow> nat list" where
  "starts_from off [] = []"
| "starts_from off (i # is) = off # starts_from (off + length i) is"

lemma length_starts_from [simp]: "length (starts_from off is) = length is"
  by (induction "is" arbitrary: off) auto

lemma starts_from_nth: "k < length is \<Longrightarrow> starts_from off is ! k = off + length (concat (take k is))"
proof (induction "is" arbitrary: off k)
  case (Cons i "is")
  then show ?case by (cases k) auto
qed simp

lemma drop_concat_take: "drop (length (concat (take k is))) (concat is) = concat (drop k is)"
proof -
  have "concat is = concat (take k is) @ concat (drop k is)"
    by (simp flip: concat_append)
  then show ?thesis by simp
qed

locale decoder =
  fixes wid :: "code \<Rightarrow> nat option"
  assumes wid_pos: "wid i = Some w \<Longrightarrow> 0 < w"
    and wid_local: "wid i = Some w \<Longrightarrow> w \<le> length i \<Longrightarrow> wid (take w i @ c) = Some w"
begin

lemma walk_Nil: "walk wid [] = Some []"
  by (subst walk.simps) simp

lemma walk_step:
  assumes "wid i = Some (length i)"
  shows "walk wid (i @ c) = map_option ((#) i) (walk wid c)"
proof -
  have "wid (i @ c) = Some (length i)" using wid_local [OF assms] by simp
  moreover have "0 < length i" using wid_pos [OF assms] .
  ultimately show ?thesis by (subst walk.simps) auto
qed

lemma walk_concat: "\<forall>i\<in>set is. wid i = Some (length i) \<Longrightarrow> walk wid (concat is) = Some is"
  by (induction "is") (auto simp: walk_Nil walk_step)

lemma walk_sound: "walk wid c = Some is \<Longrightarrow> concat is = c \<and> (\<forall>i\<in>set is. wid i = Some (length i))"
proof (induction "length c" arbitrary: c "is" rule: less_induct)
  case less
  show ?case
  proof (cases "c = []")
    case True
    with less.prems show ?thesis by (simp add: walk_Nil)
  next
    case False
    with less.prems obtain w is' where w: "wid c = Some w" "w \<noteq> 0" "w \<le> length c"
      and is': "walk wid (drop w c) = Some is'" "is = take w c # is'"
      by (subst (asm) walk.simps) (auto split: option.splits if_splits)
    have "wid (take w c) = Some w" using wid_local [OF w(1,3), of "[]"] by simp
    moreover have "length (drop w c) < length c" using w False by simp
    ultimately show ?thesis using less.hyps [OF _ is'(1)] is'(2) w(3) by simp
  qed
qed

text \<open>Walking from an instruction boundary yields the rest of the instructions.\<close>

lemma walk_suffix:
  assumes "walk wid c = Some is" "off \<in> set (starts_from 0 is)"
  obtains k where "k < length is" "off = length (concat (take k is))"
    "walk wid (drop off c) = Some (drop k is)" "wid (drop off c) = Some (length (is ! k))"
proof -
  from assms(2) obtain k where k: "k < length is" "off = length (concat (take k is))"
    by (auto simp: in_set_conv_nth starts_from_nth)
  from walk_sound [OF assms(1)] have c: "concat is = c" "\<forall>i\<in>set is. wid i = Some (length i)" by auto
  have d: "drop off c = concat (drop k is)" using c(1) k(2) drop_concat_take by metis
  then have "walk wid (drop off c) = Some (drop k is)"
    using walk_concat c(2) by (metis in_set_dropD)
  moreover have "wid (drop off c) = Some (length (is ! k))"
  proof -
    have "concat (drop k is) = is ! k @ concat (drop (Suc k) is)"
      using k(1) by (metis Cons_nth_drop_Suc concat.simps(2))
    moreover have "wid (is ! k) = Some (length (is ! k))" using c(2) k(1) by simp
    ultimately show ?thesis using wid_local d by (metis order_refl take_all)
  qed
  ultimately show thesis using k that by blast
qed

end

lemma instr_width_local:
  "instr_width i = Some w \<Longrightarrow> w \<le> length i \<Longrightarrow> instr_width (take w i @ c) = Some w"
  by (rule instr_width_prefix) auto

interpretation dec: decoder instr_width
  by unfold_locales (auto intro: instr_width_pos instr_width_local)

text \<open>C9: Decoding inverts encoding.  For a valid opcode whose variable-length operand counts fit the
  count byte, the bytes \<^verbatim>\<open>New\<close> produces, wherever they stand in a code stream, have \<^verbatim>\<open>Width\<close> equal to
  their length and \<^verbatim>\<open>Operands\<close> equal to the operands given, each cut to its declared width.\<close>

theorem new_operands_roundtrip:
  assumes "new_instr op vs = Some i" and "valid op" and "counts_fit (widths (type_of op)) vs"
  shows "instr_width (i @ c) = Some (length i)
    \<and> operands (i @ c) = Some (norm_ops (widths (type_of op)) vs)"
  using new_instr_decode [OF assms] by blast

theorem new_operands_roundtrip_witness:
  "instr_width ([BR_TABLE, 1, 5, 0, 0xFE, 0xFF] @ [NOP]) = Some 6
    \<and> operands ([BR_TABLE, 1, 5, 0, 0xFE, 0xFF] @ [NOP]) = Some [1, 5, 0xFFFE]"
proof -
  have n: "new_instr BR_TABLE [1, 5, 0xFFFE] = Some [BR_TABLE, 1, 5, 0, 0xFE, 0xFF]"
    by (simp add: new_instr_def width_simps)
  have f: "counts_fit (widths (type_of BR_TABLE)) [1, 5, 0xFFFE]" by (simp add: width_simps)
  from new_operands_roundtrip [OF n branch_valid(3) f, of "[NOP]"] show ?thesis
    by (simp add: width_simps)
qed

text \<open>C11: \<^verbatim>\<open>SetOperand\<close> is an update of one operand.  On an encoded instruction it rewrites the bytes of
  operand \<open>j\<close> only: the result is the encoding of the operand list with entry \<open>j\<close> replaced, of the
  same length, and the code behind the instruction is untouched.  (Replacing the count of a
  variable-length list is excluded by \<open>elem_at\<close>: it would change the instruction's width.)\<close>

theorem set_operand_update:
  assumes "new_instr op vs = Some i" and "valid op"
    and "counts_fit (widths (type_of op)) vs" and "elem_at (widths (type_of op)) vs j"
  shows "\<exists>i'. set_operand (i @ c) j x = Some (i' @ c) \<and> new_instr op (vs[j := x]) = Some i'
     \<and> length i' = length i"
  using new_instr_set_operand [OF assms] by blast

theorem set_operand_update_witness:
  "\<exists>i'. set_operand ([BR_TABLE, 1, 5, 0, 0xFE, 0xFF] @ []) 2 7 = Some (i' @ [])
     \<and> new_instr BR_TABLE [1, 5, 7] = Some i' \<and> length i' = 6"
proof -
  have n: "new_instr BR_TABLE [1, 5, 0xFFFE] = Some [BR_TABLE, 1, 5, 0, 0xFE, 0xFF]"
    by (simp add: new_instr_def width_simps)
  have f: "counts_fit (widths (type_of BR_TABLE)) [1, 5, 0xFFFE]" by (simp add: width_simps)
  have e: "elem_at (widths (type_of BR_TABLE)) [1, 5, 0xFFFE] 2" by (simp add: width_simps)
  from set_operand_update [OF n branch_valid(3) f e, of "[]" 7] show ?thesis
    by (simp add: numeral_eq_Suc)
qed

text \<open>C10: \<^verbatim>\<open>Unmarshal\<close> and \<^verbatim>\<open>Marshal\<close> are inverse on well-formed instruction lists: a list of
  instructions whose lengths are their widths survives the round trip, and any byte string
  \<^verbatim>\<open>Unmarshal\<close> accepts is the concatenation of well-formed instructions it returns.\<close>

theorem marshal_unmarshal:
  "unmarshal c = Some is \<longleftrightarrow> marshal is = c \<and> (\<forall>i\<in>set is. instr_width i = Some (length i))"
  unfolding unmarshal_def marshal_def using dec.walk_sound dec.walk_concat by blast

theorem marshal_unmarshal_witness:
  "unmarshal [BR, 0xFD, 0xFF, NOP] = Some [[BR, 0xFD, 0xFF], [NOP]]"
proof -
  have "instr_width [BR, 0xFD, 0xFF] = Some 3" "instr_width [NOP] = Some 1"
    by (simp_all add: instr_width_def instr_type_def idx_def type_of_def types_def types_core_def ty_def)
  then show ?thesis using marshal_unmarshal [of "[BR, 0xFD, 0xFF, NOP]" "[[BR, 0xFD, 0xFF], [NOP]]"]
    by (simp add: marshal_def)
qed

end
