(* ===== verification/Builder.thy ===== *)
theory Builder
  imports Instr
begin

text \<open>
  The symbolic assembler \<^verbatim>\<open>instr.Builder\<close> (\<^verbatim>\<open>instr/builder.go\<close>): instructions and labels in program
  order, branches recorded as fixups, and \<^verbatim>\<open>Assemble\<close>, which back-patches every branch with its
  displacement and resolves the protected regions.  A \<open>Label\<close> is an index into \<^verbatim>\<open>labels\<close>; an unbound
  label holds \<open>-1\<close>.  The instruction slices are values here: a caller that keeps writing to a slice
  it passed to \<^verbatim>\<open>Append\<close> is outside the model.
\<close>

section \<open>State\<close>

record handler =
  h_start :: int
  h_end :: int
  h_catch :: int
  h_depth :: int

record fixup =
  fx_branch :: nat
  fx_operand :: nat
  fx_label :: nat

record handler_fixup =
  hx_start :: nat
  hx_end :: nat
  hx_catch :: nat
  hx_depth :: int

record builder =
  b_instrs :: "code list"
  b_labels :: "int list"
  b_fixups :: "fixup list"
  b_handlers :: "handler_fixup list"
  b_resolved :: "handler list"

datatype build_error = UnboundLabel nat | OffsetRange int

definition new_builder :: builder where
  "new_builder = \<lparr>b_instrs = [], b_labels = [], b_fixups = [], b_handlers = [], b_resolved = []\<rparr>"

section \<open>Operations\<close>

definition b_label :: "builder \<Rightarrow> builder \<times> nat" where
  "b_label b = (b\<lparr>b_labels := b_labels b @ [-1]\<rparr>, length (b_labels b))"

definition b_bind :: "nat \<Rightarrow> builder \<Rightarrow> builder option" where
  "b_bind l b =
     (if l < length (b_labels b) then Some (b\<lparr>b_labels := (b_labels b)[l := int (length (b_instrs b))]\<rparr>)
      else None)"

definition b_append :: "code list \<Rightarrow> builder \<Rightarrow> builder" where
  "b_append is b = b\<lparr>b_instrs := b_instrs b @ is\<rparr>"

definition b_emit :: "opcode \<Rightarrow> 64 word list \<Rightarrow> builder \<Rightarrow> builder option" where
  "b_emit op ops b = map_option (\<lambda>i. b_append [i] b) (new_instr op ops)"

definition b_branch :: "opcode \<Rightarrow> nat \<Rightarrow> builder \<Rightarrow> builder option" where
  "b_branch op l b = map_option
     (\<lambda>i. b\<lparr>b_instrs := b_instrs b @ [i],
            b_fixups := b_fixups b @ [\<lparr>fx_branch = length (b_instrs b), fx_operand = 0, fx_label = l\<rparr>]\<rparr>)
     (new_instr op [0])"

definition b_br :: "nat \<Rightarrow> builder \<Rightarrow> builder option" where "b_br l b = b_branch BR l b"
definition b_br_if :: "nat \<Rightarrow> builder \<Rightarrow> builder option" where "b_br_if l b = b_branch BR_IF l b"

definition b_br_table :: "nat \<Rightarrow> nat list \<Rightarrow> builder \<Rightarrow> builder option" where
  "b_br_table dflt ts b = map_option
     (\<lambda>i. let branch = length (b_instrs b) in
        b\<lparr>b_instrs := b_instrs b @ [i],
          b_fixups := b_fixups b
            @ map (\<lambda>k. \<lparr>fx_branch = branch, fx_operand = k + 1, fx_label = ts ! k\<rparr>) [0..<length ts]
            @ [\<lparr>fx_branch = branch, fx_operand = length ts + 1, fx_label = dflt\<rparr>]\<rparr>)
     (new_instr BR_TABLE (word_of_nat (length ts) # replicate (length ts + 1) 0))"

definition b_try :: "nat \<Rightarrow> nat \<Rightarrow> nat \<Rightarrow> int \<Rightarrow> builder \<Rightarrow> builder" where
  "b_try s e c d b = b\<lparr>b_handlers := b_handlers b @ [\<lparr>hx_start = s, hx_end = e, hx_catch = c, hx_depth = d\<rparr>]\<rparr>"

section \<open>Assembly\<close>

fun layout :: "nat \<Rightarrow> code list \<Rightarrow> nat list option" where
  "layout off [] = Some [off]"
| "layout off (i # is) =
     Option.bind (instr_width i) (\<lambda>w. map_option ((#) off) (layout (off + w) is))"

text \<open>
  One round of the fixup loop.  The instructions are patched in place, so an error leaves the
  patches of the earlier rounds behind: the second component is the error, if any.
\<close>

definition patch1 :: "nat list \<Rightarrow> int list \<Rightarrow> fixup \<Rightarrow> code list \<Rightarrow> (code list \<times> build_error option) option" where
  "patch1 pos labels fx is =
     Option.bind (idx labels (fx_label fx)) (\<lambda>target.
       if target < 0 then Some (is, Some (UnboundLabel (fx_label fx)))
       else Option.bind (idx pos (nat target)) (\<lambda>pt.
         Option.bind (idx pos (fx_branch fx)) (\<lambda>pb.
         Option.bind (idx is (fx_branch fx)) (\<lambda>i.
         Option.bind (instr_width i) (\<lambda>w.
           let offset = int pt - (int pb + int w) in
           if offset < -32768 \<or> offset > 32767 then Some (is, Some (OffsetRange offset))
           else map_option (\<lambda>i'. (is[fx_branch fx := i'], None))
                  (set_operand i (fx_operand fx) (ucast (word_of_int offset :: 16 word))))))))"

fun patch_all :: "nat list \<Rightarrow> int list \<Rightarrow> fixup list \<Rightarrow> code list \<Rightarrow> (code list \<times> build_error option) option" where
  "patch_all pos labels [] is = Some (is, None)"
| "patch_all pos labels (fx # fxs) is =
     Option.bind (patch1 pos labels fx is) (\<lambda>(is', e).
       case e of None \<Rightarrow> patch_all pos labels fxs is' | Some _ \<Rightarrow> Some (is', e))"

definition b_resolve :: "nat list \<Rightarrow> int list \<Rightarrow> nat \<Rightarrow> (build_error + int) option" where
  "b_resolve pos labels l =
     Option.bind (idx labels l) (\<lambda>target.
       if target < 0 then Some (Inl (UnboundLabel l))
       else map_option (\<lambda>p. Inr (int p)) (idx pos (nat target)))"

fun resolve_all :: "nat list \<Rightarrow> int list \<Rightarrow> handler_fixup list \<Rightarrow> (handler list \<times> build_error option) option" where
  "resolve_all pos labels [] = Some ([], None)"
| "resolve_all pos labels (hx # hxs) =
     Option.bind (b_resolve pos labels (hx_start hx)) (\<lambda>rs.
       case rs of Inl e \<Rightarrow> Some ([], Some e) | Inr s \<Rightarrow>
     Option.bind (b_resolve pos labels (hx_end hx)) (\<lambda>re.
       case re of Inl e \<Rightarrow> Some ([], Some e) | Inr en \<Rightarrow>
     Option.bind (b_resolve pos labels (hx_catch hx)) (\<lambda>rc.
       case rc of Inl e \<Rightarrow> Some ([], Some e) | Inr c \<Rightarrow>
     map_option (\<lambda>(hs, e). (\<lparr>h_start = s, h_end = en, h_catch = c, h_depth = hx_depth hx\<rparr> # hs, e))
       (resolve_all pos labels hxs))))"

definition assemble :: "builder \<Rightarrow> (builder \<times> (build_error + code list)) option" where
  "assemble b =
     Option.bind (layout 0 (b_instrs b)) (\<lambda>pos.
     Option.bind (patch_all pos (b_labels b) (b_fixups b) (b_instrs b)) (\<lambda>(is, e).
       case e of Some err \<Rightarrow> Some (b\<lparr>b_instrs := is\<rparr>, Inl err)
       | None \<Rightarrow> map_option
           (\<lambda>(hs, e'). (b\<lparr>b_instrs := is, b_resolved := hs\<rparr>,
              case e' of Some err \<Rightarrow> Inl err | None \<Rightarrow> Inr is))
           (resolve_all pos (b_labels b) (b_handlers b))))"

definition handlers_of :: "builder \<Rightarrow> handler list" where
  "handlers_of b = b_resolved b"

section \<open>Well-formed builders\<close>

definition branch_slot :: "code \<Rightarrow> nat \<Rightarrow> bool" where
  "branch_slot i k \<longleftrightarrow> ((i ! 0 = BR \<or> i ! 0 = BR_IF) \<and> k = 0)
     \<or> (i ! 0 = BR_TABLE \<and> 0 < k \<and> (case operands i of None \<Rightarrow> False | Some vs \<Rightarrow> k < length vs))"

definition fixup_ok :: "int list \<Rightarrow> code list \<Rightarrow> fixup \<Rightarrow> bool" where
  "fixup_ok labels is fx \<longleftrightarrow> fx_label fx < length labels \<and> fx_branch fx < length is
     \<and> branch_slot (is ! fx_branch fx) (fx_operand fx)"

definition hfix_ok :: "int list \<Rightarrow> handler_fixup \<Rightarrow> bool" where
  "hfix_ok labels hx \<longleftrightarrow> hx_start hx < length labels \<and> hx_end hx < length labels \<and> hx_catch hx < length labels"

definition fx_key :: "fixup \<Rightarrow> nat \<times> nat" where
  "fx_key fx = (fx_branch fx, fx_operand fx)"

definition builder_ok :: "builder \<Rightarrow> bool" where
  "builder_ok b \<longleftrightarrow> list_all (\<lambda>i. instr_width i = Some (length i)) (b_instrs b)
     \<and> list_all (\<lambda>l. l \<le> int (length (b_instrs b))) (b_labels b)
     \<and> list_all (fixup_ok (b_labels b) (b_instrs b)) (b_fixups b)
     \<and> distinct (map fx_key (b_fixups b))
     \<and> list_all (hfix_ok (b_labels b)) (b_handlers b)"

section \<open>Patching one slot\<close>

lemma ucast16: "(ucast (ucast (w :: 16 word) :: 64 word) :: 16 word) = w"
  by (rule bit_word_eqI) (auto simp: bit_simps)

lemma read_i16_ucast: "-32768 \<le> k \<Longrightarrow> k \<le> 32767 \<Longrightarrow> read_i16 (ucast (word_of_int k :: 16 word)) = k"
  by (simp add: read_i16_def ucast16 sint_sbintrunc' signed_take_bit_int_eq_self)

lemma take_bit_ucast16 [simp]: "take_bit 16 (ucast (w :: 16 word) :: 64 word) = ucast w"
  by (rule bit_word_eqI) (auto simp: bit_simps dest: bit_imp_le_length)

lemma norm_br: "norm_ops [2] vs = vs \<Longrightarrow> vs \<noteq> [] \<Longrightarrow> norm_ops [2] (vs[0 := x]) = vs[0 := take_bit 16 x]"
  by (cases vs) auto

lemma norm_table:
  assumes "norm_ops [-2, 2] (v # ops) = v # ops" "unat v < length ops"
  shows "length ops = Suc (unat v)"
    and "j < length ops \<Longrightarrow> norm_ops [-2, 2] (v # ops[j := x]) = v # ops[j := take_bit 16 x]"
proof -
  have gen: "norm_ops [-2, 2] (v # os) = v # map (take_bit 16) os"
    if "length os = Suc (unat v)" for os
  proof -
    have "drop (unat v) os = [os ! unat v]" using that
      by (metis Cons_nth_drop_Suc drop_eq_Nil lessI order_refl)
    moreover have "take (unat v) os @ [os ! unat v] = os" using that
      by (metis lessI take_Suc_conv_app_nth take_all order_refl)
    ultimately show ?thesis by (auto simp flip: map_append) (metis list.simps(8,9) map_append)
  qed
  have "drop (unat v) ops \<noteq> []" using assms(2) by simp
  then obtain y ys where y: "drop (unat v) ops = y # ys" by (cases "drop (unat v) ops") auto
  have "map (take_bit 16) (take (unat v) ops) @ [take_bit 16 y] = ops" using assms(1) y by simp
  then have "length (map (take_bit 16) (take (unat v) ops) @ [take_bit 16 y]) = length ops" by (rule arg_cong)
  then show len: "length ops = Suc (unat v)" using assms(2) by simp
  have "map (take_bit 16) ops = ops" using gen [OF len] assms(1) by simp
  then show "norm_ops [-2, 2] (v # ops[j := x]) = v # ops[j := take_bit 16 x]" if "j < length ops"
    using gen [of "ops[j := x]"] len by (simp add: map_update)
qed

lemma emit_table_len: "emit_ops [-2, 2] (n # ops) = Some bs \<Longrightarrow> unat n < length ops"
proof -
  assume "emit_ops [-2, 2] (n # ops) = Some bs"
  then have "emit_ops [2] (drop (unat n) ops) \<noteq> None" by (auto split: if_splits)
  then have "drop (unat n) ops \<noteq> []" by (metis emit_ops.simps(2))
  then show ?thesis by simp
qed

lemma decoded_new:
  assumes "instr_width i = Some (length i)" "valid (i ! 0)"
  obtains vs where "new_instr (i ! 0) vs = Some i" "counts_fit (widths (type_of (i ! 0))) vs"
    "operands i = Some vs" "norm_ops (widths (type_of (i ! 0))) vs = vs"
proof -
  from instr_decode_total [OF assms(1)] obtain vs where vs: "operands i = Some vs"
    "emit_ops (widths (type_of (i ! 0))) vs = Some (tl i)" "counts_fit (widths (type_of (i ! 0))) vs"
    by auto
  have "i \<noteq> []" using instr_width_pos [OF assms(1)] by simp
  then have "i ! 0 # tl i = i" by (cases i) auto
  then have n: "new_instr (i ! 0) vs = Some i" using vs(2) assms(2) by (simp add: new_instr_def)
  from new_instr_decode(2) [OF n assms(2) vs(3), of "[]"] vs(1)
  have "norm_ops (widths (type_of (i ! 0))) vs = vs" by simp
  with n vs that show thesis by blast
qed

text \<open>Writing one slot of a branch changes that slot and nothing else of the instruction.\<close>

lemma slot_patch:
  assumes w: "instr_width i = Some (length i)" and s: "branch_slot i k"
  obtains vs i' where "operands i = Some vs" "k < length vs" "set_operand i k x = Some i'"
    "operands i' = Some (vs[k := take_bit 16 x])" "instr_width i' = Some (length i)"
    "length i' = length i" "i' ! 0 = i ! 0"
proof -
  have v: "valid (i ! 0)" using s by (auto simp: branch_slot_def)
  from decoded_new [OF w v] obtain vs where vs: "new_instr (i ! 0) vs = Some i"
    "counts_fit (widths (type_of (i ! 0))) vs" "operands i = Some vs"
    "norm_ops (widths (type_of (i ! 0))) vs = vs" .
  let ?ws = "widths (type_of (i ! 0))"
  have main: "k < length vs \<and> elem_at ?ws vs k \<and> norm_ops ?ws (vs[k := x]) = vs[k := take_bit 16 x]"
  proof (cases "i ! 0 = BR_TABLE")
    case True
    with s vs(3) have k: "0 < k" "k < length vs" by (auto simp: branch_slot_def)
    then obtain n ops j where e: "vs = n # ops" "k = Suc j" "j < length ops"
      by (cases vs; cases k) auto
    have ws: "?ws = [-2, 2]" using True by (simp add: width_simps)
    have "emit_ops [-2, 2] (n # ops) = Some (tl i)" using vs(1) ws e True v
      by (auto simp: new_instr_def simp del: emit_ops.simps)
    then have "unat n < length ops" by (rule emit_table_len)
    have nm: "norm_ops [-2, 2] (n # ops) = n # ops" using vs(4) ws e by simp
    have len: "length ops = Suc (unat n)" using norm_table(1) [OF nm] \<open>unat n < length ops\<close> by simp
    then have "length (drop (unat n) ops) = 1" by simp
    then obtain y where "drop (unat n) ops = [y]"
      by (auto simp: length_Suc_conv simp del: length_drop)
    then have "elem_at [-2, 2] (n # ops) (Suc j)" using len e(3) by (auto simp: less_Suc_eq)
    moreover have "norm_ops [-2, 2] (n # ops[j := x]) = n # ops[j := take_bit 16 x]"
      using norm_table(2) [OF nm \<open>unat n < length ops\<close> e(3)] .
    ultimately show ?thesis using ws e by (simp del: norm_ops.simps elem_at.simps)
  next
    case False
    with s have ws: "?ws = [2]" "k = 0" by (auto simp: branch_slot_def width_simps)
    then have "vs \<noteq> []" using vs(1) v by (auto simp: new_instr_def)
    then show ?thesis using ws norm_br vs(4) by (cases vs) auto
  qed
  then obtain i' where i': "set_operand i k x = Some i'" "new_instr (i ! 0) (vs[k := x]) = Some i'"
    "length i' = length i" "counts_fit ?ws (vs[k := x])"
    using new_instr_set_operand [OF vs(1) v vs(2), of k "[]" x] by auto
  from new_instr_decode(1,2) [OF i'(2) v i'(4), of "[]"] new_instr_decode(4) [OF i'(2) v i'(4)] i'(3)
  have "instr_width i' = Some (length i)" "operands i' = Some (norm_ops ?ws (vs[k := x]))" "i' ! 0 = i ! 0"
    by simp_all
  with main vs(3) i' that show thesis by metis
qed


lemma operands_append:
  assumes "instr_width i = Some (length i)" "valid (i ! 0)"
  shows "operands (i @ c) = operands i"
  using decoded_new [OF assms] new_instr_decode(2) [OF _ assms(2)] by metis

section \<open>The fixup loop\<close>

definition slot_val :: "code list \<Rightarrow> nat \<times> nat \<Rightarrow> 64 word option" where
  "slot_val is = (\<lambda>(b, k). Option.bind (operands (is ! b)) (\<lambda>vs. idx vs k))"

text \<open>The displacement of a fixup: from the end of its branch to its label.\<close>

definition displacement :: "nat list \<Rightarrow> int list \<Rightarrow> code list \<Rightarrow> fixup \<Rightarrow> int" where
  "displacement pos labels is fx = int (pos ! nat (labels ! fx_label fx))
     - (int (pos ! fx_branch fx) + int (length (is ! fx_branch fx)))"

definition linkable :: "nat list \<Rightarrow> int list \<Rightarrow> code list \<Rightarrow> fixup \<Rightarrow> bool" where
  "linkable pos labels is fx \<longleftrightarrow> 0 \<le> labels ! fx_label fx
     \<and> -32768 \<le> displacement pos labels is fx \<and> displacement pos labels is fx \<le> 32767"

definition frame_ok :: "nat list \<Rightarrow> int list \<Rightarrow> code list \<Rightarrow> bool" where
  "frame_ok pos labels is \<longleftrightarrow> (\<forall>i\<in>set is. instr_width i = Some (length i))
     \<and> (\<forall>l\<in>set labels. l \<le> int (length is)) \<and> length pos = Suc (length is)"

lemma linkable_cong:
  "map length is' = map length is \<Longrightarrow> fx_branch fx < length is \<Longrightarrow>
   displacement pos labels is' fx = displacement pos labels is fx
   \<and> linkable pos labels is' fx = linkable pos labels is fx"
  by (simp add: displacement_def linkable_def) (metis length_map nth_map)

lemma patch1_ok:
  assumes f: "frame_ok pos labels is" and x: "fixup_ok labels is fx" and ln: "linkable pos labels is fx"
  obtains is' where "patch1 pos labels fx is = Some (is', None)"
    "map length is' = map length is" "frame_ok pos labels is'"
    "\<And>fx'. fixup_ok labels is fx' \<Longrightarrow> fixup_ok labels is' fx'"
    "slot_val is' (fx_key fx) = Some (ucast (word_of_int (displacement pos labels is fx) :: 16 word))"
    "\<And>key. key \<noteq> fx_key fx \<Longrightarrow> fst key < length is \<Longrightarrow> slot_val is' key = slot_val is key"
    "\<And>k. k < length is \<Longrightarrow> is' ! k ! 0 = is ! k ! 0"
proof -
  let ?b = "fx_branch fx" and ?k = "fx_operand fx"
  let ?x = "ucast (word_of_int (displacement pos labels is fx) :: 16 word) :: 64 word"
  have b: "?b < length is" "fx_label fx < length labels" "branch_slot (is ! ?b) ?k"
    using x by (auto simp: fixup_ok_def)
  have w: "instr_width (is ! ?b) = Some (length (is ! ?b))" using f b(1) by (auto simp: frame_ok_def)
  have t: "nat (labels ! fx_label fx) < length pos" "?b < length pos"
    using f b ln by (auto simp: frame_ok_def linkable_def dest!: nth_mem)
  from slot_patch [OF w b(3), of ?x] obtain vs i' where i': "operands (is ! ?b) = Some vs" "?k < length vs"
    "set_operand (is ! ?b) ?k ?x = Some i'" "operands i' = Some (vs[?k := ?x])"
    "instr_width i' = Some (length (is ! ?b))" "length i' = length (is ! ?b)" "i' ! 0 = is ! ?b ! 0"
    by (metis take_bit_ucast16)
  let ?is = "is[?b := i']"
  have "patch1 pos labels fx is = Some (?is, None)"
    using b w t i'(3) ln
    by (simp add: patch1_def idx_def linkable_def displacement_def Let_def)
  moreover have "map length ?is = map length is"
    using i'(6) b(1) by (simp add: map_update list_update_same_conv)
  moreover have "frame_ok pos labels ?is"
    using f i'(5,6) by (auto simp: frame_ok_def dest!: set_update_subset_insert [THEN subsetD])
  moreover have "fixup_ok labels ?is fx'" if "fixup_ok labels is fx'" for fx'
  proof (cases "fx_branch fx' = ?b")
    case True
    with that i'(1,4,7) b(1) show ?thesis by (simp add: fixup_ok_def branch_slot_def)
  next
    case False
    with that show ?thesis by (simp add: fixup_ok_def)
  qed
  moreover have "slot_val ?is (fx_key fx) = Some ?x"
    using b(1) i'(2,4) by (simp add: slot_val_def fx_key_def idx_def)
  moreover have "slot_val ?is key = slot_val is key" if "key \<noteq> fx_key fx" "fst key < length is" for key
    using that i'(1,4) b(1) by (cases key) (auto simp: slot_val_def fx_key_def nth_list_update idx_def)
  moreover have "?is ! k ! 0 = is ! k ! 0" if "k < length is" for k
    using that i'(7) by (cases "k = ?b") simp_all
  ultimately show thesis using that by blast
qed

lemma patch1_bad:
  assumes f: "frame_ok pos labels is" and x: "fixup_ok labels is fx" and ln: "\<not> linkable pos labels is fx"
  shows "patch1 pos labels fx is = Some (is, Some (if labels ! fx_label fx < 0
     then UnboundLabel (fx_label fx) else OffsetRange (displacement pos labels is fx)))"
proof -
  have b: "fx_branch fx < length is" "fx_label fx < length labels" "fx_branch fx < length pos"
    using x f by (auto simp: fixup_ok_def frame_ok_def)
  have w: "instr_width (is ! fx_branch fx) = Some (length (is ! fx_branch fx))"
    using f b(1) by (auto simp: frame_ok_def)
  have t: "nat (labels ! fx_label fx) < length pos"
    using f nth_mem [OF b(2)] by (auto simp: frame_ok_def)
  show ?thesis using b w t ln
    by (auto simp: patch1_def idx_def linkable_def displacement_def Let_def)
qed


lemma patch_all_spec:
  assumes "frame_ok pos labels is" "\<forall>fx\<in>set fxs. fixup_ok labels is fx" "distinct (map fx_key fxs)"
  shows "\<exists>is' e. patch_all pos labels fxs is = Some (is', e)
    \<and> (e = None \<longleftrightarrow> (\<forall>fx\<in>set fxs. linkable pos labels is fx))
    \<and> (e = None \<longrightarrow> map length is' = map length is \<and> frame_ok pos labels is'
        \<and> (\<forall>k<length is. is' ! k ! 0 = is ! k ! 0)
        \<and> (\<forall>fx. fixup_ok labels is fx \<longrightarrow> fixup_ok labels is' fx)
        \<and> (\<forall>key. fst key < length is \<longrightarrow> key \<notin> fx_key ` set fxs \<longrightarrow> slot_val is' key = slot_val is key)
        \<and> (\<forall>fx\<in>set fxs. slot_val is' (fx_key fx)
              = Some (ucast (word_of_int (displacement pos labels is fx) :: 16 word))))"
  using assms
proof (induction fxs arbitrary: "is")
  case (Cons fx fxs)
  then have fx: "fixup_ok labels is fx" by simp
  show ?case
  proof (cases "linkable pos labels is fx")
    case False
    then show ?thesis using patch1_bad [OF Cons.prems(1) fx] by auto
  next
    case True
    from patch1_ok [OF Cons.prems(1) fx True] obtain is1 where p: "patch1 pos labels fx is = Some (is1, None)"
      "map length is1 = map length is" "frame_ok pos labels is1"
      "\<And>fx'. fixup_ok labels is fx' \<Longrightarrow> fixup_ok labels is1 fx'"
      "slot_val is1 (fx_key fx) = Some (ucast (word_of_int (displacement pos labels is fx) :: 16 word))"
      "\<And>key. key \<noteq> fx_key fx \<Longrightarrow> fst key < length is \<Longrightarrow> slot_val is1 key = slot_val is key"
      "\<And>k. k < length is \<Longrightarrow> is1 ! k ! 0 = is ! k ! 0" by blast
    have len: "length is1 = length is" using p(2) by (metis length_map)
    have same: "linkable pos labels is1 g = linkable pos labels is g
        \<and> displacement pos labels is1 g = displacement pos labels is g" if "g \<in> set fxs" for g
      using that Cons.prems(2) linkable_cong [OF p(2)] by (simp add: fixup_ok_def)
    have "\<forall>fx\<in>set fxs. fixup_ok labels is1 fx" using Cons.prems(2) p(4) by simp
    from Cons.IH [OF p(3) this] Cons.prems(3) obtain is' e where r: "patch_all pos labels fxs is1 = Some (is', e)"
      "e = None \<longleftrightarrow> (\<forall>fx\<in>set fxs. linkable pos labels is1 fx)"
      "e = None \<Longrightarrow> map length is' = map length is1 \<and> frame_ok pos labels is'
        \<and> (\<forall>k<length is1. is' ! k ! 0 = is1 ! k ! 0)
        \<and> (\<forall>fx. fixup_ok labels is1 fx \<longrightarrow> fixup_ok labels is' fx)
        \<and> (\<forall>key. fst key < length is1 \<longrightarrow> key \<notin> fx_key ` set fxs \<longrightarrow> slot_val is' key = slot_val is1 key)
        \<and> (\<forall>fx\<in>set fxs. slot_val is' (fx_key fx)
              = Some (ucast (word_of_int (displacement pos labels is1 fx) :: 16 word)))" by auto
    have new: "fx_key fx \<notin> fx_key ` set fxs" using Cons.prems(3) by auto
    have bnd: "fst (fx_key fx) < length is1" using fx len by (simp add: fx_key_def fixup_ok_def)
    have all: "e = None \<longleftrightarrow> (\<forall>fx\<in>set (fx # fxs). linkable pos labels is fx)" using r(2) same True by simp
    show ?thesis
    proof (intro exI conjI impI)
      show "patch_all pos labels (fx # fxs) is = Some (is', e)" using p(1) r(1) by simp
      show "e = None \<longleftrightarrow> (\<forall>fx\<in>set (fx # fxs). linkable pos labels is fx)" by (rule all)
      assume e: "e = None"
      note R = r(3) [OF e]
      show "map length is' = map length is" "frame_ok pos labels is'" using R p(2) by simp_all
      show "\<forall>k<length is. is' ! k ! 0 = is ! k ! 0" using R p(7) len by simp
      show "\<forall>fx. fixup_ok labels is fx \<longrightarrow> fixup_ok labels is' fx" using R p(4) by blast
      show "\<forall>key. fst key < length is \<longrightarrow> key \<notin> fx_key ` set (fx # fxs) \<longrightarrow> slot_val is' key = slot_val is key"
        using R p(6) len by simp
      show "\<forall>g\<in>set (fx # fxs). slot_val is' (fx_key g)
          = Some (ucast (word_of_int (displacement pos labels is g) :: 16 word))"
      proof -
        have "slot_val is' (fx_key fx) = slot_val is1 (fx_key fx)" using R new bnd by blast
        then show ?thesis using R p(5) same by simp
      qed
    qed
  qed
qed simp

lemma layout_ok:
  "\<forall>i\<in>set is. instr_width i = Some (length i) \<Longrightarrow>
   layout off is = Some (starts_from off is @ [off + length (concat is)])"
  by (induction "is" arbitrary: off) (auto simp: add.assoc)

lemma resolve_all_total:
  "list_all (hfix_ok labels) hxs \<Longrightarrow> \<forall>l\<in>set labels. l < int (length pos) \<Longrightarrow>
   \<exists>hs e. resolve_all pos labels hxs = Some (hs, e) \<and>
     (e = None \<longleftrightarrow> (\<forall>hx\<in>set hxs. 0 \<le> labels ! hx_start hx \<and> 0 \<le> labels ! hx_end hx
        \<and> 0 \<le> labels ! hx_catch hx)) \<and>
     (e = None \<longrightarrow> hs = map (\<lambda>hx. \<lparr>h_start = int (pos ! nat (labels ! hx_start hx)),
        h_end = int (pos ! nat (labels ! hx_end hx)), h_catch = int (pos ! nat (labels ! hx_catch hx)),
        h_depth = hx_depth hx\<rparr>) hxs)"
proof (induction hxs)
  case (Cons hx hxs)
  then have ok: "hx_start hx < length labels" "hx_end hx < length labels" "hx_catch hx < length labels"
    by (auto simp: hfix_ok_def)
  have res: "b_resolve pos labels l = Some (if labels ! l < 0 then Inl (UnboundLabel l)
      else Inr (int (pos ! nat (labels ! l))))" if "l < length labels" for l
    using that Cons.prems(2) [rule_format, OF nth_mem [OF that]] by (auto simp: b_resolve_def idx_def)
  from Cons obtain hs e where IH: "resolve_all pos labels hxs = Some (hs, e)" 
     "(e = None \<longleftrightarrow> (\<forall>hx\<in>set hxs. 0 \<le> labels ! hx_start hx \<and> 0 \<le> labels ! hx_end hx
        \<and> 0 \<le> labels ! hx_catch hx))"
     "(e = None \<longrightarrow> hs = map (\<lambda>hx. \<lparr>h_start = int (pos ! nat (labels ! hx_start hx)),
        h_end = int (pos ! nat (labels ! hx_end hx)), h_catch = int (pos ! nat (labels ! hx_catch hx)),
        h_depth = hx_depth hx\<rparr>) hxs)" by auto
  show ?case using IH by (auto simp: res ok)
qed simp


section \<open>Properties\<close>

text \<open>The programs a client can write with the builder: any sequence of its operations, on labels it
  has been given, with at most 255 cases in a jump table (the count is one byte).\<close>

inductive built :: "builder \<Rightarrow> bool" where
  new: "built new_builder"
| label: "built b \<Longrightarrow> built (fst (b_label b))"
| bind: "built b \<Longrightarrow> b_bind l b = Some b' \<Longrightarrow> built b'"
| emit: "built b \<Longrightarrow> valid op \<Longrightarrow> counts_fit (widths (type_of op)) ops \<Longrightarrow>
    b_emit op ops b = Some b' \<Longrightarrow> built b'"
| append: "built b \<Longrightarrow> list_all (\<lambda>i. instr_width i = Some (length i)) is \<Longrightarrow> built (b_append is b)"
| br: "built b \<Longrightarrow> l < length (b_labels b) \<Longrightarrow> b_br l b = Some b' \<Longrightarrow> built b'"
| br_if: "built b \<Longrightarrow> l < length (b_labels b) \<Longrightarrow> b_br_if l b = Some b' \<Longrightarrow> built b'"
| br_table: "built b \<Longrightarrow> list_all (\<lambda>l. l < length (b_labels b)) (dflt # ts) \<Longrightarrow> length ts < 256 \<Longrightarrow>
    b_br_table dflt ts b = Some b' \<Longrightarrow> built b'"
| region: "built b \<Longrightarrow> s < length (b_labels b) \<Longrightarrow> e < length (b_labels b) \<Longrightarrow> c < length (b_labels b) \<Longrightarrow>
    built (b_try s e c d b)"

lemma fixup_ok_mono:
  "fixup_ok labels is fx \<Longrightarrow> length labels \<le> length labels' \<Longrightarrow> fixup_ok labels' (is @ is') fx"
  by (auto simp: fixup_ok_def nth_append)

lemma fixup_keys: "list_all (fixup_ok labels is) fxs \<Longrightarrow> length is = n \<Longrightarrow> (n, k) \<notin> fx_key ` set fxs"
  by (auto simp: list_all_iff fixup_ok_def fx_key_def)

lemma append_ok:
  assumes "builder_ok b" "list_all (\<lambda>i. instr_width i = Some (length i)) is"
  shows "builder_ok (b_append is b)"
  using assms by (auto simp: builder_ok_def b_append_def list_all_iff intro: fixup_ok_mono)

lemma branch_ok:
  assumes b: "builder_ok b" and i: "instr_width i = Some (length i)"
    and new: "list_all (\<lambda>fx. fx_label fx < length (b_labels b) \<and> fx_branch fx = length (b_instrs b)
      \<and> branch_slot i (fx_operand fx)) fxs"
    and d: "distinct (map fx_operand fxs)"
  shows "builder_ok (b\<lparr>b_instrs := b_instrs b @ [i], b_fixups := b_fixups b @ fxs\<rparr>)"
proof -
  have a: "list_all (fixup_ok (b_labels b) (b_instrs b @ [i])) (b_fixups b @ fxs)"
    using b new by (auto simp: builder_ok_def list_all_iff intro: fixup_ok_mono)
      (auto simp: fixup_ok_def)
  have k: "map fx_key fxs = map (\<lambda>k. (length (b_instrs b), k)) (map fx_operand fxs)"
    using new by (auto simp: fx_key_def list_all_iff)
  have "distinct (map fx_key fxs)" unfolding k using d
    by (subst distinct_map) (simp add: inj_on_def)
  moreover have "(length (b_instrs b), k) \<notin> fx_key ` set (b_fixups b)" for k
    using b fixup_keys unfolding builder_ok_def by blast
  then have "set (map fx_key (b_fixups b)) \<inter> set (map fx_key fxs) = {}" unfolding k by auto
  ultimately have "distinct (map fx_key (b_fixups b @ fxs))"
    using b by (simp add: builder_ok_def)
  with a b i show ?thesis by (auto simp: builder_ok_def list_all_iff)
qed

lemma counts_fit_fixed [simp]: "0 < w \<Longrightarrow> counts_fit [w] vs"
  by (cases vs) auto

lemma drop_Cons_replicate [simp]: "drop n (x # replicate n x) = [x]"
  by (induction n) auto

lemma built_ok: "built b \<Longrightarrow> builder_ok b"
proof (induction rule: built.induct)
  case new
  then show ?case by (simp add: builder_ok_def new_builder_def)
next
  case (label b)
  then show ?case
    by (auto simp: builder_ok_def b_label_def list_all_iff hfix_ok_def fixup_ok_def nth_append)
next
  case (bind b l b')
  then show ?case
    by (auto simp: builder_ok_def b_bind_def list_all_iff hfix_ok_def fixup_ok_def split: if_splits
        dest!: set_update_subset_insert [THEN subsetD])
next
  case (emit b op ops b')
  then obtain i where i: "new_instr op ops = Some i" "b' = b_append [i] b" by (auto simp: b_emit_def)
  then show ?case using append_ok [OF emit.IH] new_instr_decode(1) [OF i(1) emit.hyps(2,3), of "[]"] by simp
next
  case (append b iz)
  then show ?case by (simp add: append_ok)
next
  case (br b l b')
  then obtain i where i: "new_instr BR [0] = Some i" by (auto simp: b_br_def b_branch_def)
  have d: "instr_width i = Some (length i)" "i ! 0 = BR"
    using new_instr_decode(1,2) [OF i branch_valid(1), of "[]"] new_instr_decode(4) [OF i branch_valid(1)] by (simp_all add: width_simps)
  show ?case using branch_ok [OF br.IH d(1), of "[\<lparr>fx_branch = length (b_instrs b), fx_operand = 0, fx_label = l\<rparr>]"]
    br.hyps i d by (simp add: b_br_def b_branch_def branch_slot_def)
next
  case (br_if b l b')
  then obtain i where i: "new_instr BR_IF [0] = Some i" by (auto simp: b_br_if_def b_branch_def)
  have d: "instr_width i = Some (length i)" "i ! 0 = BR_IF"
    using new_instr_decode(1,2) [OF i branch_valid(2), of "[]"] new_instr_decode(4) [OF i branch_valid(2)] by (simp_all add: width_simps)
  show ?case using branch_ok [OF br_if.IH d(1), of "[\<lparr>fx_branch = length (b_instrs b), fx_operand = 0, fx_label = l\<rparr>]"]
    br_if.hyps i d by (simp add: b_br_if_def b_branch_def branch_slot_def)
next
  case (br_table b dflt ts b')
  let ?n = "word_of_nat (length ts) :: 64 word" and ?m = "length ts + 1"
  let ?fxs = "map (\<lambda>k. \<lparr>fx_branch = length (b_instrs b), fx_operand = k + 1, fx_label = ts ! k\<rparr>) [0..<length ts]
            @ [\<lparr>fx_branch = length (b_instrs b), fx_operand = length ts + 1, fx_label = dflt\<rparr>]"
  from br_table obtain i where i: "new_instr BR_TABLE (?n # replicate ?m 0) = Some i"
    by (auto simp: b_br_table_def)
  have un: "unat ?n = length ts" using br_table.hyps(3) by (simp add: unat_of_nat)
  have fit: "counts_fit (widths (type_of BR_TABLE)) (?n # replicate ?m 0)"
    using br_table.hyps(3) un by (simp add: width_simps)
  from new_instr_decode(1,2) [OF i branch_valid(3) fit, of "[]"] new_instr_decode(4) [OF i branch_valid(3) fit]
  have d: "instr_width i = Some (length i)" "i ! 0 = BR_TABLE"
    "operands i = Some (norm_ops [-2, 2] (?n # replicate ?m 0))"
    by (simp_all add: width_simps)
  have len: "length (norm_ops [-2, 2] (?n # replicate ?m 0)) = length ts + 2" by (simp add: un)
  have "list_all (\<lambda>fx. fx_label fx < length (b_labels b) \<and> fx_branch fx = length (b_instrs b)
      \<and> branch_slot i (fx_operand fx)) ?fxs"
    using br_table.hyps(2) d(2,3) len by (auto simp: list_all_iff branch_slot_def)
  moreover have "distinct (map fx_operand ?fxs)" by (auto simp: comp_def distinct_map inj_on_def)
  ultimately have "builder_ok (b\<lparr>b_instrs := b_instrs b @ [i], b_fixups := b_fixups b @ ?fxs\<rparr>)"
    by (rule branch_ok [OF br_table.IH d(1)])
  moreover have "b' = b\<lparr>b_instrs := b_instrs b @ [i], b_fixups := b_fixups b @ ?fxs\<rparr>"
    using br_table.hyps(4) i by (simp add: b_br_table_def Let_def)
  ultimately show ?case by simp
next
  case (region b s e c d)
  then show ?case by (auto simp: builder_ok_def b_try_def list_all_iff hfix_ok_def)
qed

definition positions :: "code list \<Rightarrow> nat list" where
  "positions is = starts_from 0 is @ [length (concat is)]"

lemma positions_nth: "k \<le> length is \<Longrightarrow> positions is ! k = length (concat (take k is))"
  by (cases "k = length is") (auto simp: positions_def nth_append starts_from_nth)

lemma positions_cong: "map length is' = map length is \<Longrightarrow> positions is' = positions is"
proof -
  assume m: "map length is' = map length is"
  have "starts_from off is' = starts_from off is" for off
    using m
  proof (induction "is" arbitrary: is' off)
    case (Cons i "is")
    then obtain j js where j: "is' = j # js" "length j = length i" "map length js = map length is"
      by (auto simp: map_eq_Cons_conv)
    then show ?case using Cons.IH [OF j(3)] by simp
  qed simp
  moreover have "length (concat is') = length (concat is)" using m by (simp add: length_concat)
  ultimately show ?thesis by (simp add: positions_def)
qed

lemma assemble_unfold:
  assumes "builder_ok b"
  obtains is' e hs e' where
    "patch_all (positions (b_instrs b)) (b_labels b) (b_fixups b) (b_instrs b) = Some (is', e)"
    "resolve_all (positions (b_instrs b)) (b_labels b) (b_handlers b) = Some (hs, e')"
    "assemble b = Some (case e of Some err \<Rightarrow> (b\<lparr>b_instrs := is'\<rparr>, Inl err)
       | None \<Rightarrow> (b\<lparr>b_instrs := is', b_resolved := hs\<rparr>, case e' of Some err \<Rightarrow> Inl err | None \<Rightarrow> Inr is'))"
    "frame_ok (positions (b_instrs b)) (b_labels b) (b_instrs b)"
    "e' = None \<longleftrightarrow> (\<forall>hx\<in>set (b_handlers b). 0 \<le> b_labels b ! hx_start hx \<and> 0 \<le> b_labels b ! hx_end hx
        \<and> 0 \<le> b_labels b ! hx_catch hx)"
    "e' = None \<Longrightarrow> hs = map (\<lambda>hx. \<lparr>h_start = int (positions (b_instrs b) ! nat (b_labels b ! hx_start hx)),
        h_end = int (positions (b_instrs b) ! nat (b_labels b ! hx_end hx)),
        h_catch = int (positions (b_instrs b) ! nat (b_labels b ! hx_catch hx)),
        h_depth = hx_depth hx\<rparr>) (b_handlers b)"
proof -
  let ?is = "b_instrs b" and ?pos = "positions (b_instrs b)"
  have w: "\<forall>i\<in>set ?is. instr_width i = Some (length i)"
    and l: "\<forall>l\<in>set (b_labels b). l \<le> int (length ?is)"
    and f: "\<forall>fx\<in>set (b_fixups b). fixup_ok (b_labels b) ?is fx" "distinct (map fx_key (b_fixups b))"
    and h: "list_all (hfix_ok (b_labels b)) (b_handlers b)"
    using assms by (auto simp: builder_ok_def list_all_iff)
  have fr: "frame_ok ?pos (b_labels b) ?is" using w l by (auto simp: frame_ok_def positions_def)
  have lp: "\<forall>l\<in>set (b_labels b). l < int (length ?pos)" using l by (auto simp: positions_def)
  have lay: "layout 0 ?is = Some ?pos" using layout_ok [OF w] by (simp add: positions_def)
  from patch_all_spec [OF fr f] obtain is' e where
    p: "patch_all ?pos (b_labels b) (b_fixups b) ?is = Some (is', e)" by blast
  from resolve_all_total [OF h lp] obtain hs e' where
    r: "resolve_all ?pos (b_labels b) (b_handlers b) = Some (hs, e')"
     "e' = None \<longleftrightarrow> (\<forall>hx\<in>set (b_handlers b). 0 \<le> b_labels b ! hx_start hx \<and> 0 \<le> b_labels b ! hx_end hx
        \<and> 0 \<le> b_labels b ! hx_catch hx)"
     "e' = None \<Longrightarrow> hs = map (\<lambda>hx. \<lparr>h_start = int (?pos ! nat (b_labels b ! hx_start hx)),
        h_end = int (?pos ! nat (b_labels b ! hx_end hx)),
        h_catch = int (?pos ! nat (b_labels b ! hx_catch hx)), h_depth = hx_depth hx\<rparr>) (b_handlers b)" by blast
  have "assemble b = Some (case e of Some err \<Rightarrow> (b\<lparr>b_instrs := is'\<rparr>, Inl err)
       | None \<Rightarrow> (b\<lparr>b_instrs := is', b_resolved := hs\<rparr>, case e' of Some err \<Rightarrow> Inl err | None \<Rightarrow> Inr is'))"
    using lay p r(1) by (simp add: assemble_def split: option.splits)
  with p r fr that show thesis by blast
qed

lemma patched_targets:
  assumes n: "n < length is" and sl: "branch_slot (is ! n) k" and wi: "instr_width (is ! n) = Some (length (is ! n))"
    and v: "slot_val is (n, k) = Some (ucast (word_of_int d :: 16 word))"
    and d: "read_i16 (ucast (word_of_int d :: 16 word)) = d"
  shows "\<exists>ts. targets (marshal is) (length (concat (take n is))) = Some ts \<and> k - 1 < length ts
      \<and> ts ! (k - 1) = int (length (concat (take n is))) + int (length (is ! n)) + d"
proof -
  define i where "i = is ! n"
  define at where "at = length (concat (take n is))"
  have v0: "valid (i ! 0)" using sl by (auto simp: branch_slot_def i_def)
  have wi: "instr_width i = Some (length i)" using wi by (simp add: i_def)
  have ne: "i \<noteq> []" using instr_width_pos [OF wi] by simp
  obtain vs where vs: "operands i = Some vs" "k < length vs" "read_i16 (vs ! k) = d"
    using v d by (auto simp: slot_val_def bind_eq_Some_conv idx_Some_iff i_def)
  have dr: "drop at (marshal is) = i @ concat (drop (Suc n) is)"
    unfolding at_def marshal_def drop_concat_take i_def using n by (metis Cons_nth_drop_Suc concat.simps(2))
  have W: "instr_width (drop at (marshal is)) = Some (length i)"
    and O: "operands (drop at (marshal is)) = Some vs" and H: "drop at (marshal is) ! 0 = i ! 0"
    using instr_width_append [OF wi] operands_append [OF wi v0] vs(1) ne by (simp_all only: dr) (simp add: nth_append)
  have "\<exists>ts. targets (marshal is) at = Some ts \<and> k - 1 < length ts \<and> ts ! (k - 1) = int at + int (length i) + d"
  proof (cases "i ! 0 = BR_TABLE")
    case True
    then have "0 < k" using sl by (auto simp: branch_slot_def i_def)
    then show ?thesis using True W O H vs(2,3) by (auto simp: targets_def Let_def nth_tl)
  next
    case False
    then have "i ! 0 = BR \<or> i ! 0 = BR_IF" "k = 0" using sl by (auto simp: branch_slot_def i_def)
    then show ?thesis using W O H vs(2,3) by (auto simp: targets_def Let_def operand_def)
  qed
  then show ?thesis by (simp add: at_def i_def)
qed

text \<open>C8: Branch linking.  In a program written with the builder, a successful \<^verbatim>\<open>Assemble\<close> changes no
  instruction's length, and the decoder's \<^verbatim>\<open>Targets\<close> of every branch it patched is the byte offset of
  the instruction the branch's label was bound to.\<close>

theorem assemble_links:
  assumes b: "built b" and a: "assemble b = Some (b', Inr is)" and fx: "fx \<in> set (b_fixups b)"
  shows "map length is = map length (b_instrs b) \<and> 0 \<le> b_labels b ! fx_label fx \<and>
    (\<exists>ts. targets (marshal is) (length (concat (take (fx_branch fx) is))) = Some ts
      \<and> fx_operand fx - 1 < length ts
      \<and> ts ! (fx_operand fx - 1) = int (length (concat (take (nat (b_labels b ! fx_label fx)) is))))"
proof -
  let ?pos = "positions (b_instrs b)" and ?b = "fx_branch fx" and ?k = "fx_operand fx"
  from b have ok: "builder_ok b" by (rule built_ok)
  then have fok: "\<forall>fx\<in>set (b_fixups b). fixup_ok (b_labels b) (b_instrs b) fx"
    and dist: "distinct (map fx_key (b_fixups b))" by (auto simp: builder_ok_def list_all_iff)
  have "patch_all ?pos (b_labels b) (b_fixups b) (b_instrs b) = Some (is, None)
      \<and> frame_ok ?pos (b_labels b) (b_instrs b)"
    by (rule assemble_unfold [OF ok]) (use a in \<open>simp split: option.splits\<close>)
  then have p: "patch_all ?pos (b_labels b) (b_fixups b) (b_instrs b) = Some (is, None)"
    and fr: "frame_ok ?pos (b_labels b) (b_instrs b)" by simp_all
  from patch_all_spec [OF fr fok dist] p have P: "\<forall>fx\<in>set (b_fixups b). linkable ?pos (b_labels b) (b_instrs b) fx"
    "map length is = map length (b_instrs b)" "frame_ok ?pos (b_labels b) is"
    "fixup_ok (b_labels b) is fx"
    "slot_val is (fx_key fx) = Some (ucast (word_of_int (displacement ?pos (b_labels b) (b_instrs b) fx) :: 16 word))"
    using fx fok by auto
  have len: "length is = length (b_instrs b)" using P(2) by (metis length_map)
  let ?d = "displacement ?pos (b_labels b) (b_instrs b) fx"
  have bl: "?b < length is" "branch_slot (is ! ?b) ?k" using P(4) by (auto simp: fixup_ok_def)
  have wi: "instr_width (is ! ?b) = Some (length (is ! ?b))" using P(3) bl by (auto simp: frame_ok_def)
  have rd: "read_i16 (ucast (word_of_int ?d :: 16 word)) = ?d" using P(1) fx by (simp add: linkable_def read_i16_ucast)
  have tgt: "nat (b_labels b ! fx_label fx) \<le> length is" "0 \<le> b_labels b ! fx_label fx"
  proof -
    have "b_labels b ! fx_label fx \<in> set (b_labels b)" using P(4) by (simp add: fixup_ok_def)
    then show "nat (b_labels b ! fx_label fx) \<le> length is" using P(3) by (auto simp: frame_ok_def)
    show "0 \<le> b_labels b ! fx_label fx" using P(1) fx by (simp add: linkable_def)
  qed
  have at: "?pos ! ?b = length (concat (take ?b is))" "?pos = positions is"
    using positions_nth [of ?b "is"] positions_cong [OF P(2)] bl(1) by simp_all
  have res: "int (length (concat (take ?b is))) + int (length (is ! ?b)) + ?d
      = int (length (concat (take (nat (b_labels b ! fx_label fx)) is)))"
    using positions_nth [OF tgt(1)] at bl(1) P(2) len by (simp add: displacement_def) (metis length_map nth_map)
  show ?thesis using patched_targets [OF bl wi _ rd] P(2,5) tgt(2) res by (simp add: fx_key_def)
qed

text \<open>C12: Outcome of \<^verbatim>\<open>Assemble\<close>.  On a program written with the builder it never panics; it succeeds
  exactly when every label in use is bound and every displacement fits a signed 16-bit operand, and
  the assembled exception table then lists the declared regions in order at their labels' offsets.\<close>

theorem assemble_outcome:
  assumes "built b"
  shows "\<exists>b' r. assemble b = Some (b', r)
    \<and> ((\<exists>is. r = Inr is) \<longleftrightarrow>
         list_all (linkable (positions (b_instrs b)) (b_labels b) (b_instrs b)) (b_fixups b)
         \<and> list_all (\<lambda>hx. 0 \<le> b_labels b ! hx_start hx \<and> 0 \<le> b_labels b ! hx_end hx
              \<and> 0 \<le> b_labels b ! hx_catch hx) (b_handlers b))
    \<and> ((\<exists>is. r = Inr is) \<longrightarrow> handlers_of b' = map (\<lambda>hx.
         \<lparr>h_start = int (positions (b_instrs b) ! nat (b_labels b ! hx_start hx)),
          h_end = int (positions (b_instrs b) ! nat (b_labels b ! hx_end hx)),
          h_catch = int (positions (b_instrs b) ! nat (b_labels b ! hx_catch hx)),
          h_depth = hx_depth hx\<rparr>) (b_handlers b))"
proof -
  from assms have ok: "builder_ok b" by (rule built_ok)
  then have f: "\<forall>fx\<in>set (b_fixups b). fixup_ok (b_labels b) (b_instrs b) fx"
    "distinct (map fx_key (b_fixups b))" by (auto simp: builder_ok_def list_all_iff)
  from ok show ?thesis
  proof (rule assemble_unfold, goal_cases)
    case (1 is' e hs e')
    from patch_all_spec [OF 1(4) f] 1(1)
    have "e = None \<longleftrightarrow> (\<forall>fx\<in>set (b_fixups b). linkable (positions (b_instrs b)) (b_labels b) (b_instrs b) fx)"
      by auto
    with 1 show ?case by (auto simp: handlers_of_def list_all_iff split: option.splits)
  qed
qed

definition loop_demo :: builder where
  "loop_demo = \<lparr>b_instrs = [[NOP], [BR, 0, 0]], b_labels = [0],
     b_fixups = [\<lparr>fx_branch = 1, fx_operand = 0, fx_label = 0\<rparr>], b_handlers = [], b_resolved = []\<rparr>"

lemma built_loop_demo: "built loop_demo"
proof -
  have 1: "built \<lparr>b_instrs = [], b_labels = [-1], b_fixups = [], b_handlers = [], b_resolved = []\<rparr>"
    using built.label [OF built.new] by (simp add: b_label_def new_builder_def)
  have 2: "built \<lparr>b_instrs = [], b_labels = [0], b_fixups = [], b_handlers = [], b_resolved = []\<rparr>"
    by (rule built.bind [OF 1, of 0]) (simp add: b_bind_def)
  have 3: "built \<lparr>b_instrs = [[NOP]], b_labels = [0], b_fixups = [], b_handlers = [], b_resolved = []\<rparr>"
  proof -
    have "instr_width [NOP] = Some 1" by code_simp
    then show ?thesis using built.append [OF 2, of "[[NOP]]"] by (simp add: b_append_def)
  qed
  show ?thesis unfolding loop_demo_def
    by (rule built.br [OF 3, of 0]) (simp_all add: b_br_def b_branch_def new_instr_def width_simps)
qed

theorem assemble_links_witness:
  "\<exists>ts. targets (marshal [[NOP], [BR, 0xFC, 0xFF]]) 1 = Some ts \<and> 0 < length ts \<and> ts ! 0 = 0"
proof -
  have a: "assemble loop_demo = Some (loop_demo\<lparr>b_instrs := [[NOP], [BR, 0xFC, 0xFF]]\<rparr>, Inr [[NOP], [BR, 0xFC, 0xFF]])"
    by code_simp
  have f: "\<lparr>fx_branch = 1, fx_operand = 0, fx_label = 0\<rparr> \<in> set (b_fixups loop_demo)"
    by (simp add: loop_demo_def)
  from assemble_links [OF built_loop_demo a f] show ?thesis by (auto simp: loop_demo_def)
qed

theorem assemble_outcome_witness:
  "\<exists>b' r. assemble loop_demo = Some (b', r) \<and> ((\<exists>is. r = Inr is) \<longrightarrow> handlers_of b' = [])"
  using assemble_outcome [OF built_loop_demo] by (auto simp: loop_demo_def)

end
