(* ===== verification/Gotypes.thy ===== *)
theory Gotypes
  imports Builder Boxed
begin

text \<open>
  The type lattice of \<^verbatim>\<open>types/\<close> (the \<^verbatim>\<open>Kind\<close>, \<^verbatim>\<open>String\<close>, \<^verbatim>\<open>Cast\<close> and \<^verbatim>\<open>Equals\<close> methods of every
  implementation of \<^verbatim>\<open>types.Type\<close>), the constant values a program can hold, functions
  (\<^verbatim>\<open>types/function.go\<close>) and programs (\<^verbatim>\<open>program/program.go\<close>).

  Types are trees: the code's pointer comparison \<^verbatim>\<open>t == other\<close> is a shortcut for the structural one
  and gives the same answer, because the structural one is reflexive (\<open>ty_equals_refl\<close>).  A \<^verbatim>\<open>nil\<close>
  function type, which every constructor replaces by the empty one, has no counterpart.
\<close>

section \<open>Types\<close>

datatype gotype =
    TI1 | TI8 | TI32 | TI64 | TF32 | TF64 | TAny | TString | TError
  | TArray gotype
  | TIterator gotype
  | TMap gotype gotype
  | TStruct "(string \<times> gotype) list"
  | TFunc "gotype list" "gotype list"

fun ty_kind :: "gotype \<Rightarrow> kind" where
  "ty_kind TI1 = KindI1"
| "ty_kind TI8 = KindI8"
| "ty_kind TI32 = KindI32"
| "ty_kind TI64 = KindI64"
| "ty_kind TF32 = KindF32"
| "ty_kind TF64 = KindF64"
| "ty_kind _ = KindRef"

definition kinds_of :: "gotype list \<Rightarrow> kind list" where
  "kinds_of ts = map ty_kind ts"

fun ty_equals :: "gotype \<Rightarrow> gotype \<Rightarrow> bool"
  and tys_equals :: "gotype list \<Rightarrow> gotype list \<Rightarrow> bool"
  and fields_equals :: "(string \<times> gotype) list \<Rightarrow> (string \<times> gotype) list \<Rightarrow> bool" where
  "ty_equals TI1 o' = (o' = TI1)"
| "ty_equals TI8 o' = (o' = TI8)"
| "ty_equals TI32 o' = (o' = TI32)"
| "ty_equals TI64 o' = (o' = TI64)"
| "ty_equals TF32 o' = (o' = TF32)"
| "ty_equals TF64 o' = (o' = TF64)"
| "ty_equals TAny o' = (o' = TAny)"
| "ty_equals TString o' = (o' = TString)"
| "ty_equals TError o' = (o' = TError)"
| "ty_equals (TArray e) o' = (case o' of TArray e' \<Rightarrow> ty_equals e e' | _ \<Rightarrow> False)"
| "ty_equals (TIterator e) o' = (case o' of TIterator e' \<Rightarrow> ty_equals e e' | _ \<Rightarrow> False)"
| "ty_equals (TMap k e) o' = (case o' of TMap k' e' \<Rightarrow> ty_equals k k' \<and> ty_equals e e' | _ \<Rightarrow> False)"
| "ty_equals (TStruct fs) o' = (case o' of TStruct fs' \<Rightarrow> fields_equals fs fs' | _ \<Rightarrow> False)"
| "ty_equals (TFunc ps rs) o' = (case o' of TFunc ps' rs' \<Rightarrow> tys_equals ps ps' \<and> tys_equals rs rs' | _ \<Rightarrow> False)"
| "tys_equals [] ys = (ys = [])"
| "tys_equals (x # xs) ys = (case ys of [] \<Rightarrow> False | y # ys' \<Rightarrow> ty_equals x y \<and> tys_equals xs ys')"
| "fields_equals [] ys = (ys = [])"
| "fields_equals (x # xs) ys =
     (case ys of [] \<Rightarrow> False | y # ys' \<Rightarrow> ty_equals (snd x) (snd y) \<and> fields_equals xs ys')"

text \<open>
  \<^verbatim>\<open>Cast\<close>: whether a value of type \<open>other\<close> may be used as a \<open>t\<close>.  A struct accepts a struct that has
  its fields as a prefix, \<^verbatim>\<open>any\<close> accepts everything, and every other type only an equal one.
\<close>

fun ty_cast :: "gotype \<Rightarrow> gotype \<Rightarrow> bool" where
  "ty_cast TAny other = True"
| "ty_cast (TStruct fs) other =
     (case other of TStruct gs \<Rightarrow> length fs \<le> length gs \<and> fields_equals fs (take (length fs) gs)
      | _ \<Rightarrow> False)"
| "ty_cast t other = ty_equals t other"

fun join_with :: "string \<Rightarrow> string list \<Rightarrow> string" where
  "join_with sep [] = []"
| "join_with sep [s] = s"
| "join_with sep (s # ss) = s @ sep @ join_with sep ss"

fun ty_string :: "gotype \<Rightarrow> string" where
  "ty_string TI1 = ''i1''"
| "ty_string TI8 = ''i8''"
| "ty_string TI32 = ''i32''"
| "ty_string TI64 = ''i64''"
| "ty_string TF32 = ''f32''"
| "ty_string TF64 = ''f64''"
| "ty_string TAny = ''any''"
| "ty_string TString = ''string''"
| "ty_string TError = ''error''"
| "ty_string (TArray e) = ''[]'' @ ty_string e"
| "ty_string (TIterator e) = ''iterator['' @ ty_string e @ '']''"
| "ty_string (TMap k e) = ''map['' @ ty_string k @ '']'' @ ty_string e"
| "ty_string (TStruct fs) = ''struct {'' @ join_with ''; '' (map (\<lambda>(n, t). ty_string t) fs) @ ''}''"
| "ty_string (TFunc ps rs) =
     (let params = join_with '', '' (map ty_string ps); returns = map ty_string rs in
      case returns of [] \<Rightarrow> ''func('' @ params @ '')''
      | [r] \<Rightarrow> ''func('' @ params @ '') '' @ r
      | _ \<Rightarrow> ''func('' @ params @ '') ('' @ join_with '', '' returns @ '')'')"

section \<open>Equality and casts\<close>

lemma equals_eq:
  "t = u \<Longrightarrow> ty_equals t u" "ts = us \<Longrightarrow> tys_equals ts us" "fs = gs \<Longrightarrow> fields_equals fs gs"
  by (induction t u and ts us and fs gs rule: ty_equals_tys_equals_fields_equals.induct) auto

lemma ty_equals_refl [simp]: "ty_equals t t" "tys_equals ts ts" "fields_equals fs fs"
  by (simp_all add: equals_eq)

lemma equals_sym:
  "ty_equals t u \<Longrightarrow> ty_equals u t"
  "tys_equals ts us \<Longrightarrow> tys_equals us ts"
  "fields_equals fs gs \<Longrightarrow> fields_equals gs fs"
  by (induction t u and ts us and fs gs rule: ty_equals_tys_equals_fields_equals.induct)
    (auto split: gotype.splits list.splits)

lemma equals_trans:
  "ty_equals t u \<Longrightarrow> ty_equals u v \<Longrightarrow> ty_equals t v"
  "tys_equals ts us \<Longrightarrow> tys_equals us vs \<Longrightarrow> tys_equals ts vs"
  "fields_equals fs gs \<Longrightarrow> fields_equals gs hs \<Longrightarrow> fields_equals fs hs"
proof (induction t u and ts us and fs gs arbitrary: v and vs and hs
    rule: ty_equals_tys_equals_fields_equals.induct)
qed (auto split: gotype.splits list.splits)

lemma equals_kind: "ty_equals t u \<Longrightarrow> ty_kind u = ty_kind t"
  by (cases t) (auto split: gotype.splits)


lemma fields_equals_length: "fields_equals fs gs \<Longrightarrow> length fs = length gs"
proof (induction fs arbitrary: gs)
  case (Cons f fs)
  then show ?case by (cases gs) auto
qed simp

lemma fields_equals_take: "fields_equals fs gs \<Longrightarrow> fields_equals (take n fs) (take n gs)"
proof (induction fs arbitrary: n gs)
  case (Cons f fs)
  then show ?case by (cases gs; cases n) auto
qed simp

lemma equals_cast: "ty_equals t u \<Longrightarrow> ty_cast t u"
  by (cases t) (auto split: gotype.splits simp: fields_equals_length)

lemma cast_trans: "ty_cast t u \<Longrightarrow> ty_cast u v \<Longrightarrow> ty_cast t v"
proof -
  assume tu: "ty_cast t u" and uv: "ty_cast u v"
  consider "t = TAny" | fs where "t = TStruct fs" | "ty_equals t u" "t \<noteq> TAny" "\<forall>fs. t \<noteq> TStruct fs"
    using tu by (cases t) auto
  then show ?thesis
  proof cases
    case 1
    then show ?thesis by simp
  next
    case (2 fs)
    with tu obtain gs where u: "u = TStruct gs" "length fs \<le> length gs" "fields_equals fs (take (length fs) gs)"
      by (auto split: gotype.splits)
    with uv obtain hs where v: "v = TStruct hs" "length gs \<le> length hs" "fields_equals gs (take (length gs) hs)"
      by (auto split: gotype.splits)
    have "fields_equals (take (length fs) gs) (take (length fs) (take (length gs) hs))"
      by (rule fields_equals_take) (rule v(3))
    moreover have "take (length fs) (take (length gs) hs) = take (length fs) hs" using u(2) by simp
    ultimately have "fields_equals fs (take (length fs) hs)" using equals_trans(3) [OF u(3)] by simp
    then show ?thesis using 2 u v by simp
  next
    case 3
    then have "ty_equals u v" using uv
      by (cases t; cases u) (auto split: gotype.splits)
    then show ?thesis using 3 equals_trans(1) equals_cast by blast
  qed
qed

text \<open>C13: The type lattice.  \<^verbatim>\<open>Equals\<close> is an equivalence that determines the kind; \<^verbatim>\<open>Cast\<close> is a preorder
  that contains it and has \<^verbatim>\<open>any\<close> as its top, and below \<^verbatim>\<open>any\<close> it never changes the representation
  kind of a slot.\<close>

theorem type_lattice:
  "ty_equals t t \<and> ty_cast t t \<and> ty_cast TAny t
   \<and> (ty_equals t u \<longrightarrow> ty_equals u t \<and> ty_cast t u \<and> ty_kind t = ty_kind u)
   \<and> (ty_equals t u \<and> ty_equals u v \<longrightarrow> ty_equals t v)
   \<and> (ty_cast t u \<and> ty_cast u v \<longrightarrow> ty_cast t v)
   \<and> (ty_cast t u \<and> t \<noteq> TAny \<longrightarrow> ty_kind t = ty_kind u)"
proof -
  have "ty_kind t = ty_kind u" if "ty_cast t u" "t \<noteq> TAny"
    using that by (cases t) (auto split: gotype.splits)
  note k = this
  show ?thesis
  proof (intro conjI impI)
    show "ty_cast t t" by (simp add: equals_cast)
    show "ty_equals t u \<Longrightarrow> ty_kind t = ty_kind u" by (simp add: equals_kind)
    show "ty_cast t u \<and> t \<noteq> TAny \<Longrightarrow> ty_kind t = ty_kind u" using k by blast
    show "ty_equals t u \<Longrightarrow> ty_equals u t" by (rule equals_sym)
    show "ty_equals t u \<Longrightarrow> ty_cast t u" by (rule equals_cast)
    show "ty_equals t u \<and> ty_equals u v \<Longrightarrow> ty_equals t v" by (blast intro: equals_trans)
    show "ty_cast t u \<and> ty_cast u v \<Longrightarrow> ty_cast t v" by (blast intro: cast_trans)
  qed simp_all
qed

theorem type_lattice_witness:
  "ty_equals (TStruct [(''y'', TI32)]) (TStruct [(''x'', TI32)])
   \<and> ty_cast (TStruct [(''x'', TI32)]) (TStruct [(''y'', TI32), (''z'', TI64)])"
  using type_lattice [of "TStruct [(''x'', TI32)]" "TStruct [(''y'', TI32)]"
    "TStruct [(''y'', TI32), (''z'', TI64)]"] by simp

section \<open>Functions, constants and programs\<close>

text \<open>
  A function with its signature.  In Go the signature is a pointer, \<^verbatim>\<open>Typ\<close>, which the builders and the
  parser always set.  A function without one (\<^verbatim>\<open>Typ == nil\<close>) has no counterpart here: the record always
  carries parameters and results.
\<close>

record gofunction =
  fn_params :: "gotype list"
  fn_returns :: "gotype list"
  fn_locals :: "gotype list"
  fn_captures :: "gotype list"
  fn_code :: code
  fn_handlers :: "handler list"

text \<open>\<^verbatim>\<open>Declared\<close> and \<^verbatim>\<open>Slots\<close>: the types and kinds of the slots \<^verbatim>\<open>LOCAL_*\<close> addresses.\<close>

definition declared :: "gofunction \<Rightarrow> gotype list" where
  "declared f = (if fn_params f = [] then fn_locals f
     else if fn_locals f = [] then fn_params f else fn_params f @ fn_locals f)"

definition slots :: "gofunction \<Rightarrow> kind list" where
  "slots f = kinds_of (declared f)"

lemma declared_eq: "declared f = fn_params f @ fn_locals f"
  by (simp add: declared_def)

text \<open>
  Constants.  Scalars and strings are values; functions and the other heap objects are pointers,
  which the code compares by identity, so they carry the address they live at.  \<open>VSlice\<close> is a value of
  a Go type without \<^verbatim>\<open>==\<close> (the typed arrays are slices).
\<close>

datatype goval =
    VI1 bool | VI8 "8 word" | VI32 "32 word" | VI64 "64 word" | VF32 "32 word" | VF64 "64 word"
  | VString string
  | VRef "32 word"
  | VBoxed boxed
  | VFunc nat gofunction
  | VObject nat gotype
  | VSlice gotype nat

fun val_kind :: "goval \<Rightarrow> kind" where
  "val_kind (VI1 _) = KindI1"
| "val_kind (VI8 _) = KindI8"
| "val_kind (VI32 _) = KindI32"
| "val_kind (VI64 _) = KindI64"
| "val_kind (VF32 _) = KindF32"
| "val_kind (VF64 _) = KindF64"
| "val_kind (VBoxed b) = boxed_kind b"
| "val_kind _ = KindRef"

definition boxed_type :: "boxed \<Rightarrow> gotype option" where
  "boxed_type b = (case boxed_kind b of KindI32 \<Rightarrow> Some TI32 | KindI8 \<Rightarrow> Some TI8 | KindI1 \<Rightarrow> Some TI1
     | KindI64 \<Rightarrow> Some TI64 | KindF32 \<Rightarrow> Some TF32 | KindF64 \<Rightarrow> Some TF64 | KindRef \<Rightarrow> Some TAny
     | _ \<Rightarrow> None)"

text \<open>\<^verbatim>\<open>Type\<close> of a value; \<open>None\<close> is the \<^verbatim>\<open>nil\<close> interface of an ill-tagged boxed word.\<close>

fun val_type :: "goval \<Rightarrow> gotype option" where
  "val_type (VI1 _) = Some TI1"
| "val_type (VI8 _) = Some TI8"
| "val_type (VI32 _) = Some TI32"
| "val_type (VI64 _) = Some TI64"
| "val_type (VF32 _) = Some TF32"
| "val_type (VF64 _) = Some TF64"
| "val_type (VString _) = Some TString"
| "val_type (VRef _) = Some TAny"
| "val_type (VBoxed b) = boxed_type b"
| "val_type (VFunc _ f) = Some (TFunc (fn_params f) (fn_returns f))"
| "val_type (VObject _ t) = Some t"
| "val_type (VSlice t _) = Some t"

record program =
  p_code :: code
  p_locals :: "gotype list"
  p_globals :: "gotype list"
  p_constants :: "goval list"
  p_types :: "gotype list"
  p_handlers :: "handler list"

end
