(* ===== verification/Verify.thy ===== *)
theory Verify
  imports Gotypes
begin

text \<open>
  The bytecode verifier, \<^verbatim>\<open>program/verify.go\<close>: structural walk, exception table, control-flow graph,
  termination of every exit block, and the abstract interpretation of the operand stack.

  A verification result is a \<open>'a res\<close>: \<open>Some (Inl e)\<close> is the \<^verbatim>\<open>*VerifyError\<close> the code returns,
  \<open>Some (Inr x)\<close> a normal return, and \<open>None\<close> a Go panic (an index out of range) or a loop that does
  not advance; the totality theorem shows that \<open>None\<close> never comes out of \<^verbatim>\<open>Verify\<close>.  An abstract
  stack is a list of slots with the top first (the code appends at the end of a slice).
\<close>

section \<open>Errors and results\<close>

datatype verify_cause =
    ErrTruncated | ErrUnknownOpcode | ErrIndexOutOfRange | ErrStackUnderflow | ErrStackMismatch
  | ErrTypeMismatch | ErrFallThrough | ErrInvalidJump | ErrHandlerRange | ErrHandlerTarget

record verify_error =
  ve_slot :: nat
  ve_ip :: int
  ve_opcode :: opcode
  ve_err :: verify_cause

type_synonym 'a res = "(verify_error + 'a) option"

definition andthen :: "'a res \<Rightarrow> ('a \<Rightarrow> 'b res) \<Rightarrow> 'b res" where
  "andthen r f = (case r of None \<Rightarrow> None | Some (Inl e) \<Rightarrow> Some (Inl e) | Some (Inr x) \<Rightarrow> f x)"

definition orpanic :: "'a option \<Rightarrow> ('a \<Rightarrow> 'b res) \<Rightarrow> 'b res" where
  "orpanic x f = (case x of None \<Rightarrow> None | Some y \<Rightarrow> f y)"

lemma andthen_simps [simp]:
  "andthen None f = None" "andthen (Some (Inl e)) f = Some (Inl e)" "andthen (Some (Inr x)) f = f x"
  by (simp_all add: andthen_def)

lemma orpanic_simps [simp]: "orpanic None f = None" "orpanic (Some x) f = f x"
  by (simp_all add: orpanic_def)

lemma andthen_Inr: "andthen r f = Some (Inr y) \<longleftrightarrow> (\<exists>x. r = Some (Inr x) \<and> f x = Some (Inr y))"
  by (auto simp: andthen_def split: option.splits sum.splits)

lemma orpanic_Some: "orpanic x f = Some r \<longleftrightarrow> (\<exists>y. x = Some y \<and> f y = Some r)"
  by (auto simp: orpanic_def split: option.splits)

lemma andthen_cong [fundef_cong]:
  "r = r' \<Longrightarrow> (\<And>x. r' = Some (Inr x) \<Longrightarrow> f x = g x) \<Longrightarrow> andthen r f = andthen r' g"
  by (auto simp: andthen_def split: option.splits sum.splits)

lemma orpanic_cong [fundef_cong]:
  "r = r' \<Longrightarrow> (\<And>x. r' = Some x \<Longrightarrow> f x = g x) \<Longrightarrow> orpanic r f = orpanic r' g"
  by (auto simp: orpanic_def split: option.splits)

section \<open>State\<close>

record checker =
  ck_prog :: program
  ck_code :: code
  ck_locals :: "gotype list"
  ck_captures :: "gotype list"
  ck_table :: "handler list"
  ck_slot :: nat
  ck_returns :: nat

record block =
  bk_start :: nat
  bk_end :: nat
  bk_succs :: "nat list"
  bk_preds :: "nat list"

record slot =
  sl_kind :: kind
  sl_typ :: "gotype option"

type_synonym stack = "slot list"

definition new_checker :: "program \<Rightarrow> nat \<Rightarrow> gofunction \<Rightarrow> checker" where
  "new_checker prog s f = \<lparr>ck_prog = prog, ck_code = fn_code f, ck_locals = fn_params f @ fn_locals f,
     ck_captures = fn_captures f, ck_table = fn_handlers f, ck_slot = s,
     ck_returns = length (fn_returns f)\<rparr>"

definition fail :: "checker \<Rightarrow> int \<Rightarrow> opcode \<Rightarrow> verify_cause \<Rightarrow> 'a res" where
  "fail c ip op e = Some (Inl \<lparr>ve_slot = ck_slot c, ve_ip = ip, ve_opcode = op, ve_err = e\<rparr>)"

section \<open>Structure\<close>

text \<open>\<^verbatim>\<open>width\<close>: the bounds-checked length of the instruction at \<open>ip\<close>; \<open>None\<close> is \<^verbatim>\<open>ok = false\<close>.\<close>

fun width_at :: "int list \<Rightarrow> code \<Rightarrow> nat \<Rightarrow> nat \<Rightarrow> nat option" where
  "width_at [] c ip off = Some off"
| "width_at (w # ws) c ip off =
     (if w > 0 then width_at ws c ip (off + nat w)
      else if ip + off \<ge> length c then None
      else width_at ws c ip (off + 1 + unat (c ! (ip + off)) * nat (- w)))"

definition ck_width :: "code \<Rightarrow> nat \<Rightarrow> nat option" where
  "ck_width c ip = width_at (widths (type_of (c ! ip))) c ip 1"

lemma width_at_ge: "width_at ws c ip off = Some e \<Longrightarrow> off \<le> e"
  by (induction ws c ip off rule: width_at.induct) (auto split: if_splits)

lemma ck_width_pos: "ck_width c ip = Some w \<Longrightarrow> 0 < w"
  by (auto simp: ck_width_def dest: width_at_ge)

text \<open>The pool an instruction's first operand indexes, with its length (\<open>None\<close>: not an index).\<close>

definition bounds :: "checker \<Rightarrow> nat \<Rightarrow> opcode \<Rightarrow> unit res" where
  "bounds c ip op =
     (let inst = drop ip (ck_code c);
          check = (\<lambda>n. orpanic (operand inst 0) (\<lambda>v.
            if sint v \<ge> int n then fail c (int ip) op ErrIndexOutOfRange else Some (Inr ()))) in
      if op = CONST_GET then check (length (p_constants (ck_prog c)))
      else if op \<in> {REF_TEST, REF_CAST, ARRAY_NEW, ARRAY_NEW_DEFAULT, STRUCT_NEW, STRUCT_NEW_DEFAULT,
        MAP_NEW, MAP_NEW_DEFAULT} then check (length (p_types (ck_prog c)))
      else if op \<in> {LOCAL_GET, LOCAL_SET, LOCAL_TEE} then check (length (ck_locals c))
      else if op \<in> {GLOBAL_GET, GLOBAL_SET, GLOBAL_TEE} then check (length (p_globals (ck_prog c)))
      else if op \<in> {UPVAL_GET, UPVAL_SET} then check (length (ck_captures c))
      else Some (Inr ()))"

function ck_structure_from :: "checker \<Rightarrow> nat \<Rightarrow> unit res" where
  "ck_structure_from c ip =
     (if ip < length (ck_code c)
      then let op = ck_code c ! ip in
        if \<not> valid op then fail c (int ip) op ErrUnknownOpcode
        else case ck_width (ck_code c) ip of
            None \<Rightarrow> fail c (int ip) op ErrTruncated
          | Some w \<Rightarrow>
              if ip + w > length (ck_code c) then fail c (int ip) op ErrTruncated
              else andthen (bounds c ip op) (\<lambda>_. ck_structure_from c (ip + w))
      else Some (Inr ()))"
  by pat_completeness auto
termination
  by (relation "measure (\<lambda>(c, ip). length (ck_code c) - ip)") (auto dest: ck_width_pos)

declare ck_structure_from.simps [simp del]

definition ck_structure :: "checker \<Rightarrow> unit res" where
  "ck_structure c = ck_structure_from c 0"

section \<open>The exception table\<close>

text \<open>\<^verbatim>\<open>starts\<close>: the offsets that begin an instruction, and the end of the code.\<close>

function starts_at :: "code \<Rightarrow> nat \<Rightarrow> nat list" where
  "starts_at c ip =
     (if ip < length c
      then ip # (case ck_width c ip of None \<Rightarrow> [] | Some w \<Rightarrow> starts_at c (ip + w))
      else [])"
  by pat_completeness auto
termination
  by (relation "measure (\<lambda>(c, ip). length c - ip)") (auto dest: ck_width_pos)

declare starts_at.simps [simp del]

definition ck_starts :: "code \<Rightarrow> nat list" where
  "ck_starts c = length c # starts_at c 0"

definition is_start :: "code \<Rightarrow> int \<Rightarrow> bool" where
  "is_start c t \<longleftrightarrow> 0 \<le> t \<and> nat t \<in> set (ck_starts c)"

definition handlers1 :: "checker \<Rightarrow> handler \<Rightarrow> unit res" where
  "handlers1 c h =
     (let n = int (length (ck_code c)) in
      if h_start h < 0 \<or> h_end h > n \<or> h_start h \<ge> h_end h
         \<or> \<not> is_start (ck_code c) (h_start h) \<or> \<not> is_start (ck_code c) (h_end h)
      then fail c (h_start h) THROW ErrHandlerRange
      else if h_catch h < 0 \<or> h_catch h \<ge> n \<or> \<not> is_start (ck_code c) (h_catch h)
      then fail c (h_catch h) THROW ErrHandlerTarget
      else Some (Inr ()))"

fun handlers_from :: "checker \<Rightarrow> handler list \<Rightarrow> unit res" where
  "handlers_from c [] = Some (Inr ())"
| "handlers_from c (h # hs) = andthen (handlers1 c h) (\<lambda>_. handlers_from c hs)"

definition handlers_check :: "checker \<Rightarrow> unit res" where
  "handlers_check c = handlers_from c (ck_table c)"

section \<open>The control-flow graph\<close>

definition mark :: "checker \<Rightarrow> nat \<Rightarrow> int \<Rightarrow> nat list res" where
  "mark c ip target =
     (let n = int (length (ck_code c)) in
      if target < 0 \<or> target > n \<or> (target = n \<and> ck_slot c \<noteq> 0) \<or> \<not> is_start (ck_code c) target
      then fail c (int ip) (ck_code c ! ip) ErrInvalidJump
      else Some (Inr (if target < n then [nat target] else [])))"

fun mark_all :: "checker \<Rightarrow> nat \<Rightarrow> int list \<Rightarrow> nat list res" where
  "mark_all c ip [] = Some (Inr [])"
| "mark_all c ip (t # ts) =
     andthen (mark c ip t) (\<lambda>o1. andthen (mark_all c ip ts) (\<lambda>o2. Some (Inr (o1 @ o2))))"

text \<open>The scan that collects the block boundaries, in the order the code appends them.\<close>

definition next_offset :: "checker \<Rightarrow> nat \<Rightarrow> nat list" where
  "next_offset c next = (if next < length (ck_code c) then [next] else [])"

definition offsets1 :: "checker \<Rightarrow> nat \<Rightarrow> nat \<Rightarrow> nat list res" where
  "offsets1 c ip next =
     (let op = ck_code c ! ip in
      if op = UNREACHABLE \<or> op = RETURN \<or> op = THROW then Some (Inr (next_offset c next))
      else if op = BR \<or> op = BR_IF then
        orpanic (targets (ck_code c) ip) (\<lambda>ts.
          andthen (mark_all c ip ts) (\<lambda>os. Some (Inr (os @ next_offset c next))))
      else if op = BR_TABLE then orpanic (targets (ck_code c) ip) (mark_all c ip)
      else Some (Inr []))"

function offsets_from :: "checker \<Rightarrow> nat \<Rightarrow> nat list res" where
  "offsets_from c ip =
     (if ip < length (ck_code c)
      then orpanic (instr_width (drop ip (ck_code c))) (\<lambda>w.
        andthen (offsets1 c ip (ip + w)) (\<lambda>os.
          andthen (offsets_from c (ip + w)) (\<lambda>os'. Some (Inr (os @ os')))))
      else Some (Inr []))"
  by pat_completeness auto
termination
  by (relation "measure (\<lambda>(c, ip). length (ck_code c) - ip)") (auto dest: instr_width_pos)

declare offsets_from.simps [simp del]

definition handler_offsets :: "checker \<Rightarrow> nat list" where
  "handler_offsets c = concat (map (\<lambda>h.
     map nat (filter (\<lambda>off. 0 < off \<and> off < int (length (ck_code c))) [h_start h, h_end h, h_catch h]))
     (ck_table c))"

fun cut_blocks :: "nat \<Rightarrow> nat list \<Rightarrow> block list" where
  "cut_blocks n [] = []"
| "cut_blocks n (s # ss) =
     \<lparr>bk_start = s, bk_end = (case ss of [] \<Rightarrow> n | e # _ \<Rightarrow> e), bk_succs = [], bk_preds = []\<rparr>
     # cut_blocks n ss"

text \<open>\<^verbatim>\<open>last\<close>: the opcode and offset of the block's last instruction.\<close>

function last_from :: "code \<Rightarrow> nat \<Rightarrow> nat \<Rightarrow> nat option" where
  "last_from c end ip =
     (if ip < end
      then case ck_width c ip of None \<Rightarrow> None
           | Some w \<Rightarrow> if ip + w \<ge> end then Some ip else last_from c end (ip + w)
      else Some ip)"
  by pat_completeness auto
termination
  by (relation "measure (\<lambda>(c, e, ip). e - ip)") (auto dest: ck_width_pos)

declare last_from.simps [simp del]

definition last_ip :: "checker \<Rightarrow> block \<Rightarrow> nat option" where
  "last_ip c b = Option.bind (last_from (ck_code c) (bk_end b) (bk_start b))
     (\<lambda>ip. if ip < length (ck_code c) then Some ip else None)"

definition add_edge :: "nat \<Rightarrow> nat \<Rightarrow> block list \<Rightarrow> block list" where
  "add_edge i j bs =
     (let bs1 = bs[i := (bs ! i)\<lparr>bk_succs := bk_succs (bs ! i) @ [j]\<rparr>] in
      bs1[j := (bs1 ! j)\<lparr>bk_preds := bk_preds (bs1 ! j) @ [i]\<rparr>])"

fun find_block :: "nat \<Rightarrow> block list \<Rightarrow> nat \<Rightarrow> nat option" where
  "find_block k [] dst = None"
| "find_block k (b # bs) dst =
     (if bk_start b \<le> dst \<and> dst < bk_end b then Some k else find_block (Suc k) bs dst)"

definition link :: "checker \<Rightarrow> nat \<Rightarrow> int \<Rightarrow> block list \<Rightarrow> block list res" where
  "link c src dst bs =
     (if dst = int (length (ck_code c)) \<and> ck_slot c = 0 then Some (Inr bs)
      else case (if dst < 0 then None else find_block 0 bs (nat dst)) of
          Some i \<Rightarrow> Some (Inr (add_edge src i bs))
        | None \<Rightarrow> fail c (int (bk_start (bs ! src))) (ck_code c ! bk_start (bs ! src)) ErrInvalidJump)"

fun link_all :: "checker \<Rightarrow> nat \<Rightarrow> int list \<Rightarrow> block list \<Rightarrow> block list res" where
  "link_all c src [] bs = Some (Inr bs)"
| "link_all c src (t # ts) bs = andthen (link c src t bs) (link_all c src ts)"

definition chain :: "nat \<Rightarrow> block list \<Rightarrow> block list" where
  "chain j bs = (if j + 1 < length bs then add_edge j (j + 1) bs else bs)"

definition edges1 :: "checker \<Rightarrow> nat \<Rightarrow> block list \<Rightarrow> block list res" where
  "edges1 c j bs =
     orpanic (last_ip c (bs ! j)) (\<lambda>ip. let op = ck_code c ! ip in
       if op = UNREACHABLE \<or> op = RETURN \<or> op = THROW then Some (Inr bs)
       else if op = BR \<or> op = BR_IF \<or> op = BR_TABLE then
         orpanic (targets (ck_code c) ip) (\<lambda>ts.
           andthen (link_all c j ts bs) (\<lambda>bs'. Some (Inr (if op = BR_IF then chain j bs' else bs'))))
       else Some (Inr (chain j bs)))"

fun edges_all :: "checker \<Rightarrow> nat list \<Rightarrow> block list \<Rightarrow> block list res" where
  "edges_all c [] bs = Some (Inr bs)"
| "edges_all c (j # js) bs = andthen (edges1 c j bs) (edges_all c js)"

definition sort_edges :: "block \<Rightarrow> block" where
  "sort_edges b = b\<lparr>bk_succs := sort (bk_succs b), bk_preds := sort (bk_preds b)\<rparr>"

definition blocks :: "checker \<Rightarrow> block list res" where
  "blocks c =
     andthen (offsets_from c 0) (\<lambda>os.
       let offs = remdups_adj (sort (0 # os @ handler_offsets c));
           bs = cut_blocks (length (ck_code c)) offs in
       andthen (edges_all c [0..<length bs] bs) (\<lambda>bs'. Some (Inr (map sort_edges bs'))))"

section \<open>Termination of exit blocks\<close>

fun terminate_from :: "checker \<Rightarrow> block list \<Rightarrow> unit res" where
  "terminate_from c [] = Some (Inr ())"
| "terminate_from c (b # bs) =
     (if bk_succs b \<noteq> [] then terminate_from c bs
      else orpanic (last_ip c b) (\<lambda>ip. let op = ck_code c ! ip in
        if op = RETURN \<or> op = RETURN_CALL \<or> op = UNREACHABLE \<or> op = THROW then terminate_from c bs
        else fail c (int ip) op ErrFallThrough))"

definition terminate :: "checker \<Rightarrow> block list \<Rightarrow> unit res" where
  "terminate c bs = (if ck_slot c = 0 then Some (Inr ()) else terminate_from c bs)"

section \<open>The abstract operand stack\<close>

definition accepts :: "kind \<Rightarrow> kind \<Rightarrow> bool" where
  "accepts got want \<longleftrightarrow> got = KindAny \<or> want = KindAny \<or> repr got = repr want"

definition accepts_type :: "slot \<Rightarrow> gotype \<Rightarrow> bool" where
  "accepts_type got want =
     (if want = TAny then True
      else case sl_typ got of Some t \<Rightarrow> ty_cast want t
           | None \<Rightarrow> accepts (sl_kind got) (ty_kind want))"

definition unify :: "kind \<Rightarrow> kind \<Rightarrow> kind" where
  "unify a b = (if a = b then a else KindAny)"

definition bitwise :: "kind \<Rightarrow> kind \<Rightarrow> kind" where
  "bitwise a b = (if a = b then a else if a = KindAny \<or> b = KindAny then KindAny else KindI32)"

text \<open>
  \<^verbatim>\<open>merge\<close>: the state, folded with the incoming one, and whether it changed; \<open>None\<close> when the heights
  differ.
\<close>

definition merge_slot :: "slot \<Rightarrow> slot \<Rightarrow> slot \<times> bool" where
  "merge_slot s u =
     (let k = unify (sl_kind s) (sl_kind u);
          drop_typ = (case sl_typ s of None \<Rightarrow> False
            | Some t \<Rightarrow> (case sl_typ u of None \<Rightarrow> True | Some t' \<Rightarrow> \<not> ty_equals t t')) in
      (\<lparr>sl_kind = k, sl_typ = (if drop_typ then None else sl_typ s)\<rparr>, k \<noteq> sl_kind s \<or> drop_typ))"

definition merge :: "stack \<Rightarrow> stack \<Rightarrow> (stack \<times> bool) option" where
  "merge s u =
     (if length s \<noteq> length u then None
      else let ms = map2 merge_slot s u in Some (map fst ms, list_ex snd ms))"

definition slot_of_type :: "gotype \<Rightarrow> slot" where
  "slot_of_type t = \<lparr>sl_kind = ty_kind t, sl_typ = Some t\<rparr>"

definition slot_of_kind :: "kind \<Rightarrow> slot" where
  "slot_of_kind k = \<lparr>sl_kind = k, sl_typ = None\<rparr>"

text \<open>
  One instruction's effect: \<open>(True, _)\<close> is \<^verbatim>\<open>done\<close>, an effect that is not statically known; otherwise
  the new stack.
\<close>

definition underflow :: "checker \<Rightarrow> nat \<Rightarrow> opcode \<Rightarrow> 'a res" where
  "underflow c ip op = fail c (int ip) op ErrStackUnderflow"

definition mismatch :: "checker \<Rightarrow> nat \<Rightarrow> opcode \<Rightarrow> 'a res" where
  "mismatch c ip op = fail c (int ip) op ErrTypeMismatch"

definition ck_call :: "checker \<Rightarrow> stack \<Rightarrow> nat \<Rightarrow> opcode \<Rightarrow> bool \<Rightarrow> (bool \<times> stack) res" where
  "ck_call c st ip op tail =
     (case st of [] \<Rightarrow> underflow c ip op
      | v # st' \<Rightarrow>
          (case sl_typ v of
             Some (TFunc ps rs) \<Rightarrow>
               if length st' < length ps then underflow c ip op
               else let st2 = drop (length ps) st' in
                 Some (Inr (False, if tail then st2 else rev (map slot_of_type rs) @ st2))
           | _ \<Rightarrow> Some (Inr (True, st'))))"

fun pop_kinds :: "checker \<Rightarrow> nat \<Rightarrow> opcode \<Rightarrow> kind list \<Rightarrow> stack \<Rightarrow> stack res" where
  "pop_kinds c ip op [] st = Some (Inr st)"
| "pop_kinds c ip op (k # ks) st =
     (case st of [] \<Rightarrow> None
      | v # st' \<Rightarrow> if accepts (sl_kind v) k then pop_kinds c ip op ks st' else mismatch c ip op)"

definition fixed_step :: "checker \<Rightarrow> stack \<Rightarrow> opcode \<Rightarrow> nat \<Rightarrow> (bool \<times> stack) res" where
  "fixed_step c st op ip =
     (let t = type_of op in
      if pops t = [] \<and> pushes t = [] then Some (Inr (True, st))
      else if length st < length (pops t) then underflow c ip op
      else andthen (pop_kinds c ip op (pops t) st)
             (\<lambda>st'. Some (Inr (False, rev (map slot_of_kind (pushes t)) @ st'))))"

definition pool_slot :: "'a list \<Rightarrow> code \<Rightarrow> ('a \<Rightarrow> slot) \<Rightarrow> stack \<Rightarrow> (bool \<times> stack) res" where
  "pool_slot pool inst mk st =
     orpanic (operand inst 0) (\<lambda>v. orpanic (idx pool (unat v)) (\<lambda>x. Some (Inr (False, mk x # st))))"

definition step :: "checker \<Rightarrow> stack \<Rightarrow> code \<Rightarrow> opcode \<Rightarrow> nat \<Rightarrow> (bool \<times> stack) res" where
  "step c st inst op ip =
     (if op = NOP \<or> op = UNREACHABLE \<or> op = BR then Some (Inr (False, st))
      else if op = LOCAL_TEE then (if st = [] then underflow c ip op else Some (Inr (False, st)))
      else if op = GLOBAL_TEE then
        (if st = [] then underflow c ip op
         else orpanic (operand inst 0) (\<lambda>v. orpanic (idx (p_globals (ck_prog c)) (unat v)) (\<lambda>t.
           if accepts_type (hd st) t then Some (Inr (False, st)) else mismatch c ip op)))
      else if op = LOCAL_GET then pool_slot (ck_locals c) inst slot_of_type st
      else if op = UPVAL_GET then pool_slot (ck_captures c) inst slot_of_type st
      else if op = CONST_GET then
        pool_slot (p_constants (ck_prog c)) inst (\<lambda>v. \<lparr>sl_kind = val_kind v, sl_typ = val_type v\<rparr>) st
      else if op = GLOBAL_GET then pool_slot (p_globals (ck_prog c)) inst slot_of_type st
      else if op = GLOBAL_SET then
        (case st of [] \<Rightarrow> underflow c ip op
         | s # st' \<Rightarrow> orpanic (operand inst 0) (\<lambda>v. orpanic (idx (p_globals (ck_prog c)) (unat v)) (\<lambda>t.
             if accepts_type s t then Some (Inr (False, st')) else mismatch c ip op)))
      else if op = DUP then
        (case st of [] \<Rightarrow> underflow c ip op | s # st' \<Rightarrow> Some (Inr (False, s # s # st')))
      else if op = SWAP then
        (case st of s # s' # st' \<Rightarrow> Some (Inr (False, s' # s # st')) | _ \<Rightarrow> underflow c ip op)
      else if op = SELECT then
        (case st of _ # b # a # st' \<Rightarrow>
             Some (Inr (False, slot_of_kind (unify (sl_kind a) (sl_kind b)) # st'))
         | _ \<Rightarrow> underflow c ip op)
      else if op = I32_AND \<or> op = I32_OR \<or> op = I32_XOR then
        (case st of b # a # st' \<Rightarrow>
             if \<not> accepts (sl_kind a) KindI32 \<or> \<not> accepts (sl_kind b) KindI32 then mismatch c ip op
             else Some (Inr (False, slot_of_kind (bitwise (sl_kind a) (sl_kind b)) # st'))
         | _ \<Rightarrow> underflow c ip op)
      else if op = CALL then ck_call c st ip op False
      else if op = RETURN_CALL then ck_call c st ip op True
      else if op = RETURN then
        (if length st < ck_returns c then underflow c ip op else Some (Inr (False, st)))
      else if op = STRUCT_NEW then
        orpanic (operand inst 0) (\<lambda>v. orpanic (idx (p_types (ck_prog c)) (unat v)) (\<lambda>t.
          case t of TStruct fs \<Rightarrow>
              if length st < length fs then underflow c ip op
              else Some (Inr (False, \<lparr>sl_kind = KindRef, sl_typ = Some t\<rparr> # drop (length fs) st))
          | _ \<Rightarrow> Some (Inr (True, st))))
      else if op = MAP_NEW \<or> op = CLOSURE_NEW then Some (Inr (True, st))
      else fixed_step c st op ip)"

function exec_from :: "checker \<Rightarrow> nat \<Rightarrow> nat \<Rightarrow> stack \<Rightarrow> (bool \<times> stack) res" where
  "exec_from c end ip st =
     (if ip < end
      then if length (ck_code c) \<le> ip then None
      else let op = ck_code c ! ip in
        andthen (step c st (drop ip (ck_code c)) op ip) (\<lambda>(dn, st').
          if dn then Some (Inr (True, st'))
          else if op = RETURN \<or> op = RETURN_CALL \<or> op = UNREACHABLE \<or> op = THROW
          then Some (Inr (False, st'))
          else orpanic (ck_width (ck_code c) ip) (\<lambda>w. exec_from c end (ip + w) st'))
      else Some (Inr (False, st)))"
  by pat_completeness auto
termination
  by (relation "measure (\<lambda>(c, e, ip, st). e - ip)") (auto dest: ck_width_pos)

declare exec_from.simps [simp del]

definition exec :: "checker \<Rightarrow> block \<Rightarrow> stack \<Rightarrow> (bool \<times> stack) res" where
  "exec c b st = exec_from c (bk_end b) (bk_start b) st"

section \<open>The worklist\<close>

type_synonym entries = "stack option list"

text \<open>
  One catch block is seeded per table entry; the work list is a stack, its next block first.
\<close>

fun block_at :: "nat \<Rightarrow> block list \<Rightarrow> int \<Rightarrow> nat option" where
  "block_at k [] off = None"
| "block_at k (b # bs) off = (if int (bk_start b) = off then Some k else block_at (Suc k) bs off)"

definition seed_stack :: "checker \<Rightarrow> handler \<Rightarrow> stack" where
  "seed_stack c h = replicate (nat (h_depth h - int (length (ck_locals c))) + 1) (slot_of_kind KindAny)"

fun seed_all :: "checker \<Rightarrow> block list \<Rightarrow> handler list \<Rightarrow> entries \<times> nat list \<Rightarrow> (entries \<times> nat list) res" where
  "seed_all c bs [] (es, work) = Some (Inr (es, work))"
| "seed_all c bs (h # hs) (es, work) =
     (case block_at 0 bs (h_catch h) of None \<Rightarrow> seed_all c bs hs (es, work)
      | Some i \<Rightarrow> orpanic (idx es i) (\<lambda>e.
          case e of None \<Rightarrow> seed_all c bs hs (es[i := Some (seed_stack c h)], i # work)
          | Some s \<Rightarrow>
              (case merge s (seed_stack c h) of None \<Rightarrow> fail c (h_catch h) THROW ErrStackMismatch
               | Some (s', _) \<Rightarrow> seed_all c bs hs (es[i := Some s'], work))))"

definition flow_init :: "checker \<Rightarrow> block list \<Rightarrow> (entries \<times> nat list) res" where
  "flow_init c bs = (if bs = [] then None
     else seed_all c bs (ck_table c) ((replicate (length bs) None)[0 := Some []], [0]))"

fun propagate :: "checker \<Rightarrow> block list \<Rightarrow> stack \<Rightarrow> nat list \<Rightarrow> entries \<times> nat list \<Rightarrow> (entries \<times> nat list) res" where
  "propagate c bs st [] (es, work) = Some (Inr (es, work))"
| "propagate c bs st (s # ss) (es, work) =
     orpanic (idx es s) (\<lambda>e.
       case e of None \<Rightarrow> propagate c bs st ss (es[s := Some st], s # work)
       | Some old \<Rightarrow>
           (case merge old st of
              None \<Rightarrow> orpanic (idx bs s) (\<lambda>b. orpanic (idx (ck_code c) (bk_start b)) (\<lambda>op.
                fail c (int (bk_start b)) op ErrStackMismatch))
            | Some (new, changed) \<Rightarrow>
                propagate c bs st ss (es[s := Some new], if changed then s # work else work)))"

text \<open>
  The work list empties: every round either fills a missing entry, or loses precision in one, or
  shortens the list.
\<close>

definition slot_weight :: "slot \<Rightarrow> nat" where
  "slot_weight s = (if sl_kind s = KindAny then 0 else 1) + (if sl_typ s = None then 0 else 1)"

definition stack_weight :: "stack \<Rightarrow> nat" where
  "stack_weight st = sum_list (map slot_weight st)"

definition entry_weight :: "stack option \<Rightarrow> nat" where
  "entry_weight e = (case e of None \<Rightarrow> 0 | Some st \<Rightarrow> stack_weight st)"

definition entries_weight :: "entries \<Rightarrow> nat" where
  "entries_weight es = sum_list (map entry_weight es)"

definition missing :: "entries \<Rightarrow> nat" where
  "missing es = length (filter (\<lambda>e. e = None) es)"

lemma merge_slot_weight:
  "slot_weight (fst (merge_slot s u)) + (if snd (merge_slot s u) then 1 else 0) \<le> slot_weight s"
  by (auto simp: merge_slot_def slot_weight_def unify_def Let_def split: option.splits)

lemma merge_slot_same: "\<not> snd (merge_slot s u) \<Longrightarrow> fst (merge_slot s u) = s"
  by (cases s) (auto simp: merge_slot_def Let_def split: option.splits)

lemma merge_weight:
  assumes "merge s u = Some (s', ch)"
  shows "stack_weight s' + (if ch then 1 else 0) \<le> stack_weight s" and "\<not> ch \<Longrightarrow> s' = s"
proof -
  have len: "length s = length u" and s': "s' = map fst (map2 merge_slot s u)" "ch = list_ex snd (map2 merge_slot s u)"
    using assms by (auto simp: merge_def Let_def split: if_splits)
  from len have "stack_weight (map fst (map2 merge_slot s u))
      + (if list_ex snd (map2 merge_slot s u) then 1 else 0) \<le> stack_weight s
    \<and> (\<not> list_ex snd (map2 merge_slot s u) \<longrightarrow> map fst (map2 merge_slot s u) = s)"
  proof (induction s u rule: list_induct2)
    case (Cons a s b u)
    then show ?case using merge_slot_weight [of a b] merge_slot_same [of a b]
      by (auto simp: stack_weight_def split: if_splits)
  qed (simp add: stack_weight_def)
  then show "stack_weight s' + (if ch then 1 else 0) \<le> stack_weight s" "\<not> ch \<Longrightarrow> s' = s"
    using s' by simp_all
qed

lemma sum_list_update_nat:
  "i < length xs \<Longrightarrow> sum_list (map f (xs[i := y])) + f (xs ! i) = sum_list (map f xs) + (f y :: nat)"
proof (induction xs arbitrary: i)
  case (Cons x xs)
  then show ?case by (cases i) auto
qed simp

lemma missing_fill: "i < length es \<Longrightarrow> es ! i = None \<Longrightarrow> missing (es[i := Some st]) < missing es"
  unfolding missing_def
proof (induction es arbitrary: i)
  case (Cons x xs)
  then show ?case by (cases i) auto
qed simp

lemma missing_same: "i < length es \<Longrightarrow> es ! i = Some old \<Longrightarrow> missing (es[i := Some st]) = missing es"
  unfolding missing_def
proof (induction es arbitrary: i)
  case (Cons x xs)
  then show ?case by (cases i) auto
qed simp

lemma propagate_decreases:
  "propagate c bs st ss (es, work) = Some (Inr (es', work')) \<Longrightarrow>
   missing es' < missing es \<or> (missing es' = missing es \<and>
     (entries_weight es' < entries_weight es \<or> (es' = es \<and> work' = work)))"
proof (induction ss arbitrary: es work)
  case (Cons s ss)
  then obtain e where e: "s < length es" "es ! s = e" by (auto simp: orpanic_Some idx_Some_iff)
  show ?case
  proof (cases e)
    case None
    with Cons.prems e have "propagate c bs st ss (es[s := Some st], s # work) = Some (Inr (es', work'))"
      by (simp add: idx_def)
    from Cons.IH [OF this] missing_fill [OF e(1), of st] e None show ?thesis by auto
  next
    case (Some old)
    with Cons.prems e obtain new ch where m: "merge old st = Some (new, ch)"
      and p: "propagate c bs st ss (es[s := Some new], if ch then s # work else work) = Some (Inr (es', work'))"
      by (auto simp: idx_def orpanic_Some fail_def split: option.splits)
    have w: "entries_weight (es[s := Some new]) + (if ch then 1 else 0) \<le> entries_weight es"
      using sum_list_update_nat [OF e(1), of entry_weight "Some new"] merge_weight(1) [OF m] e(2) Some
      by (simp add: entries_weight_def entry_weight_def)
    have mi: "missing (es[s := Some new]) = missing es" using missing_same e Some by simp
    show ?thesis
    proof (cases ch)
      case True
      from Cons.IH [OF p] w mi True show ?thesis by auto
    next
      case False
      then have "es[s := Some new] = es" using merge_weight(2) [OF m False] e Some
        by (metis list_update_id)
      with Cons.IH [OF p] False show ?thesis by simp
    qed
  qed
qed simp

text \<open>
  \<^verbatim>\<open>flow\<close>: the fixpoint it reaches, or \<open>None\<close> inside the result when it stops without a verdict at an
  effect it cannot determine (the code returns \<^verbatim>\<open>nil\<close> in both cases).
\<close>

function flow_loop :: "checker \<Rightarrow> block list \<Rightarrow> entries \<Rightarrow> nat list \<Rightarrow> entries option res" where
  "flow_loop c bs es work =
     (case work of [] \<Rightarrow> Some (Inr (Some es))
      | i # work' \<Rightarrow>
          orpanic (idx es i) (\<lambda>e. orpanic e (\<lambda>st. orpanic (idx bs i) (\<lambda>b.
            andthen (exec c b st) (\<lambda>r.
              if fst r then Some (Inr None)
              else andthen (propagate c bs (snd r) (bk_succs b) (es, work')) (\<lambda>q.
                flow_loop c bs (fst q) (snd q)))))))"
  by pat_completeness auto
termination
proof (relation "inv_image (less_than <*lex*> less_than <*lex*> less_than)
    (\<lambda>(c, bs, es, work). (missing es, entries_weight es, length work))", goal_cases)
  case (2 c bs es work i work' e st b r q)
  obtain es2 w2 where q: "q = (es2, w2)" by force
  with 2 have "propagate c bs (snd r) (bk_succs b) (es, work') = Some (Inr (es2, w2))" by simp
  from propagate_decreases [OF this] q 2(1) show ?case by auto
qed auto

declare flow_loop.simps [simp del]

definition flow :: "checker \<Rightarrow> block list \<Rightarrow> entries option res" where
  "flow c bs = andthen (flow_init c bs) (\<lambda>(es, work). flow_loop c bs es work)"

section \<open>Verify\<close>

definition run_checker :: "checker \<Rightarrow> unit res" where
  "run_checker c =
     (if ck_code c = [] then Some (Inr ())
      else andthen (ck_structure c) (\<lambda>_. andthen (handlers_check c) (\<lambda>_.
        andthen (blocks c) (\<lambda>bs. andthen (terminate c bs) (\<lambda>_.
          andthen (flow c bs) (\<lambda>_. Some (Inr ())))))))"

fun verify_constants :: "program \<Rightarrow> nat \<Rightarrow> goval list \<Rightarrow> unit res" where
  "verify_constants p j [] = Some (Inr ())"
| "verify_constants p j (v # vs) =
     (case v of VFunc _ f \<Rightarrow>
          andthen (run_checker (new_checker p (j + 1) f)) (\<lambda>_. verify_constants p (j + 1) vs)
      | _ \<Rightarrow> verify_constants p (j + 1) vs)"

definition top_function :: "program \<Rightarrow> gofunction" where
  "top_function p = \<lparr>fn_params = [], fn_returns = [], fn_locals = p_locals p, fn_captures = [],
     fn_code = p_code p, fn_handlers = p_handlers p\<rparr>"

definition verify :: "program \<Rightarrow> unit res" where
  "verify p = andthen (run_checker (new_checker p 0 (top_function p)))
     (\<lambda>_. verify_constants p 0 (p_constants p))"

end
