(* ===== verification/VerifyCfg.thy ===== *)
theory VerifyCfg
  imports Verify
begin

text \<open>
  What the structural passes of the verifier establish: the code is a sequence of whole, defined,
  in-range instructions (\<open>checked\<close>), and the control-flow graph tiles it and has exactly the edges its
  last instructions call for (\<open>cfg_ok\<close>).  The passes never panic on the way.
\<close>

section \<open>Instruction boundaries\<close>

text \<open>The offset of instruction \<open>k\<close> of a decoded stream.\<close>

definition pos_of :: "code list \<Rightarrow> nat \<Rightarrow> nat" where
  "pos_of is k = length (concat (take k is))"

lemma pos_of_0 [simp]: "pos_of is 0 = 0"
  by (simp add: pos_of_def)

lemma pos_of_Suc: "k < length is \<Longrightarrow> pos_of is (Suc k) = pos_of is k + length (is ! k)"
  by (simp add: pos_of_def take_Suc_conv_app_nth)

lemma width_at_eq: "ip \<le> length c \<Longrightarrow> width_at ws c ip off = width_from ws (drop ip c) off"
  by (induction ws c ip off rule: width_at.induct) (auto simp: idx_def split: option.splits)

lemma ck_width_eq: "ip < length c \<Longrightarrow> ck_width c ip = instr_width (drop ip c)"
  by (simp add: ck_width_def width_at_eq instr_width_def instr_type_def idx_def)

definition decoded :: "code \<Rightarrow> code list \<Rightarrow> bool" where
  "decoded c is \<longleftrightarrow> unmarshal c = Some is"

lemma decodedD:
  assumes "decoded c is"
  shows "concat is = c" "\<forall>i\<in>set is. instr_width i = Some (length i)" "\<forall>i\<in>set is. i \<noteq> []"
    "pos_of is (length is) = length c"
proof -
  from assms show *: "concat is = c" "\<forall>i\<in>set is. instr_width i = Some (length i)"
    unfolding decoded_def unmarshal_def using dec.walk_sound by blast+
  then show "\<forall>i\<in>set is. i \<noteq> []" using instr_width_pos by fastforce
  from * show "pos_of is (length is) = length c" by (simp add: pos_of_def)
qed

lemma drop_pos:
  assumes "decoded c is" "k \<le> length is"
  shows "drop (pos_of is k) c = concat (drop k is)"
  using decodedD(1) [OF assms(1)] drop_concat_take unfolding pos_of_def by metis

lemma pos_width:
  assumes d: "decoded c is" and k: "k < length is"
  shows "pos_of is k < length c" "c ! pos_of is k = is ! k ! 0"
    "instr_width (drop (pos_of is k) c) = Some (length (is ! k))"
    "ck_width c (pos_of is k) = Some (length (is ! k))"
    "pos_of is k + length (is ! k) = pos_of is (Suc k)"
    "pos_of is (Suc k) \<le> length c" "0 < length (is ! k)"
proof -
  have split: "drop (pos_of is k) c = is ! k @ concat (drop (Suc k) is)"
    using drop_pos [OF d] k by (metis Cons_nth_drop_Suc concat.simps(2) less_imp_le)
  have ne: "is ! k \<noteq> []" and w: "instr_width (is ! k) = Some (length (is ! k))"
    using decodedD [OF d] k by auto
  then show "0 < length (is ! k)" by simp
  have "length (drop (pos_of is k) c) \<noteq> 0" using split ne by simp
  then show l: "pos_of is k < length c" by simp
  have "drop (pos_of is k) c ! 0 = is ! k ! 0" using split ne by (simp add: nth_append)
  then show "c ! pos_of is k = is ! k ! 0" using l by simp
  show "instr_width (drop (pos_of is k) c) = Some (length (is ! k))"
    unfolding split by (rule instr_width_append [OF w])
  then show "ck_width c (pos_of is k) = Some (length (is ! k))" using l by (simp add: ck_width_eq)
  show s: "pos_of is k + length (is ! k) = pos_of is (Suc k)" using pos_of_Suc [OF k] by simp
  have "pos_of is (Suc k) \<le> pos_of is (length is)"
    unfolding pos_of_def using k
    by (metis append_take_drop_id concat_append le_add1 length_append take_all order_refl)
  then show "pos_of is (Suc k) \<le> length c" using decodedD(4) [OF d] by simp
qed

lemma pos_mono:
  assumes d: "decoded c is"
  shows "k < j \<Longrightarrow> j \<le> length is \<Longrightarrow> pos_of is k < pos_of is j"
proof (induction j)
  case (Suc j)
  then have "pos_of is j < pos_of is (Suc j)" using pos_width(5,7) [OF d, of j] by linarith
  then show ?case using Suc by (cases "k = j") auto
qed simp

text \<open>The boundaries: the offsets of instructions and the end of the code.\<close>

definition boundary :: "code list \<Rightarrow> nat \<Rightarrow> bool" where
  "boundary is off \<longleftrightarrow> (\<exists>k\<le>length is. off = pos_of is k)"

lemma boundary_pos: "k \<le> length is \<Longrightarrow> boundary is (pos_of is k)"
  by (auto simp: boundary_def)

lemma boundary_0 [simp]: "boundary is 0"
  using boundary_pos [of 0 "is"] by simp

lemma boundary_le: "decoded c is \<Longrightarrow> boundary is off \<Longrightarrow> off \<le> length c"
  using pos_mono decodedD(4) unfolding boundary_def
  by (metis le_eq_less_or_eq)

lemma boundary_step:
  assumes d: "decoded c is" and b: "boundary is ip" and l: "ip < length c"
  obtains k where "k < length is" "ip = pos_of is k" "ck_width c ip = Some (length (is ! k))"
    "instr_width (drop ip c) = Some (length (is ! k))" "c ! ip = is ! k ! 0"
    "boundary is (ip + length (is ! k))" "ip + length (is ! k) \<le> length c" "0 < length (is ! k)"
    "\<And>e. boundary is e \<Longrightarrow> ip < e \<Longrightarrow> ip + length (is ! k) \<le> e"
proof -
  obtain k where k: "k \<le> length is" "ip = pos_of is k" using b by (auto simp: boundary_def)
  with l have kl: "k < length is" using decodedD(4) [OF d] by (metis le_neq_implies_less less_irrefl)
  note W = pos_width [OF d kl]
  have "ip + length (is ! k) \<le> e" if e: "boundary is e" "ip < e" for e
  proof -
    from e(1) obtain j where j: "j \<le> length is" "e = pos_of is j" by (auto simp: boundary_def)
    have "k < j" using pos_mono [OF d, of j k] k j e(2) by (metis less_asym linorder_neqE_nat)
    then show ?thesis using W(5) pos_mono [OF d, of "Suc k" j] j k
      by (metis Suc_leI le_eq_less_or_eq)
  qed
  moreover have "boundary is (ip + length (is ! k))" using W(5) k kl boundary_pos [of "Suc k" "is"] by simp
  ultimately show thesis using that kl k W by metis
qed

lemma starts_at_set: "decoded c is \<Longrightarrow> boundary is ip \<Longrightarrow>
  set (starts_at c ip) = {e. boundary is e \<and> ip \<le> e \<and> e < length c}"
proof (induction "length c - ip" arbitrary: ip rule: less_induct)
  case less
  show ?case
  proof (cases "ip < length c")
    case False
    then show ?thesis by (auto simp: starts_at.simps)
  next
    case True
    from boundary_step [OF less.prems True] obtain k where
      k: "ck_width c ip = Some (length (is ! k))" "boundary is (ip + length (is ! k))" "0 < length (is ! k)"
      "\<And>e. boundary is e \<Longrightarrow> ip < e \<Longrightarrow> ip + length (is ! k) \<le> e" by metis
    have "set (starts_at c (ip + length (is ! k))) = {e. boundary is e \<and> ip + length (is ! k) \<le> e \<and> e < length c}"
    proof (rule less.hyps)
      show "length c - (ip + length (is ! k)) < length c - ip" using True k(3) by linarith
    qed (use k less.prems in auto)
    then have "set (starts_at c ip) = insert ip {e. boundary is e \<and> ip + length (is ! k) \<le> e \<and> e < length c}"
      using True k(1) by (subst starts_at.simps) simp
    also have "\<dots> = {e. boundary is e \<and> ip \<le> e \<and> e < length c}"
      using k(3,4) less.prems(2) True by (auto simp: le_eq_less_or_eq)
    finally show ?thesis .
  qed
qed

lemma is_start_iff: "decoded c is \<Longrightarrow> is_start c t \<longleftrightarrow> 0 \<le> t \<and> boundary is (nat t)"
  using starts_at_set [of c "is" 0] boundary_le [of c "is"] decodedD(4) [of c "is"]
    boundary_pos [of "length is" "is"]
  by (auto simp: is_start_def ck_starts_def le_eq_less_or_eq)

section \<open>What the structural walk establishes\<close>

definition checked :: "checker \<Rightarrow> code list \<Rightarrow> bool" where
  "checked c is \<longleftrightarrow> decoded (ck_code c) is \<and> (\<forall>k<length is. valid (is ! k ! 0) \<and>
     bounds c (pos_of is k) (is ! k ! 0) = Some (Inr ()))"

lemma checked_decoded: "checked c is \<Longrightarrow> decoded (ck_code c) is"
  by (simp add: checked_def)

lemma walk_Cons:
  assumes "instr_width i = Some w" "w \<le> length i" "i \<noteq> []"
  shows "walk instr_width i = map_option ((#) (take w i)) (walk instr_width (drop w i))"
  using instr_width_pos [OF assms(1)] assms by (subst walk.simps) auto

lemma structure_from_sound:
  "ck_structure_from c ip = Some (Inr ()) \<Longrightarrow> ip \<le> length (ck_code c) \<Longrightarrow>
   \<exists>is. walk instr_width (drop ip (ck_code c)) = Some is \<and> (\<forall>k<length is.
     valid (is ! k ! 0) \<and> bounds c (ip + pos_of is k) (is ! k ! 0) = Some (Inr ()))"
proof (induction c ip rule: ck_structure_from.induct)
  case (1 c ip)
  let ?cc = "ck_code c"
  show ?case
  proof (cases "ip < length ?cc")
    case False
    then show ?thesis by (intro exI [of _ "[]"]) (simp add: dec.walk_Nil)
  next
    case True
    with "1.prems"(1) obtain w where v: "valid (?cc ! ip)" and w: "ck_width ?cc ip = Some w"
      "ip + w \<le> length ?cc" "bounds c ip (?cc ! ip) = Some (Inr ())"
      "ck_structure_from c (ip + w) = Some (Inr ())"
      by (subst (asm) ck_structure_from.simps)
        (auto simp: fail_def Let_def andthen_Inr split: if_splits option.splits)
    from "1.IH" [OF True refl _ w(1) _ w(3) w(4)] v w(2) obtain iz where
      iz: "walk instr_width (drop (ip + w) ?cc) = Some iz"
      "\<forall>k<length iz. valid (iz ! k ! 0) \<and> bounds c (ip + w + pos_of iz k) (iz ! k ! 0) = Some (Inr ())"
      by auto
    let ?i = "take w (drop ip ?cc)"
    have wp: "0 < w" using ck_width_pos [OF w(1)] .
    have iw: "instr_width (drop ip ?cc) = Some w" using w(1) True by (simp add: ck_width_eq)
    have wk: "walk instr_width (drop ip ?cc) = Some (?i # iz)"
      using walk_Cons [OF iw] w(2) True iz(1) by (simp add: add.commute)
    have h: "?i ! 0 = ?cc ! ip" using wp True by simp
    show ?thesis
    proof (intro exI [of _ "?i # iz"] conjI allI impI wk)
      fix k assume k: "k < length (?i # iz)"
      show "valid ((?i # iz) ! k ! 0)"
        using v h iz(2) k by (cases k) auto
      have "length ?i = w" using w(2) True by simp
      then have "pos_of (?i # iz) (Suc j) = w + pos_of iz j" for j by (simp add: pos_of_def)
      then show "bounds c (ip + pos_of (?i # iz) k) ((?i # iz) ! k ! 0) = Some (Inr ())"
        using w(3) h iz(2) k by (cases k) (auto simp: add.assoc)
    qed
  qed
qed

lemma structure_sound: "ck_structure c = Some (Inr ()) \<Longrightarrow> \<exists>is. checked c is"
  using structure_from_sound [of c 0] by (auto simp: ck_structure_def checked_def decoded_def unmarshal_def)

lemma operand_total:
  "instr_width i = Some w \<Longrightarrow> w \<le> length i \<Longrightarrow> \<exists>v. operand i k = Some v"
  using instr_decode_total by (fastforce simp: operand_def)

lemma bounds_total:
  "instr_width (drop ip (ck_code c)) = Some w \<Longrightarrow> w \<le> length (drop ip (ck_code c)) \<Longrightarrow> bounds c ip op \<noteq> None"
  using operand_total [of "drop ip (ck_code c)" w 0]
  by (auto simp: bounds_def Let_def fail_def)

lemma structure_from_total: "ck_structure_from c ip \<noteq> None"
proof (induction c ip rule: ck_structure_from.induct)
  case (1 c ip)
  show ?case
  proof (cases "ip < length (ck_code c)")
    case False
    then show ?thesis by (simp add: ck_structure_from.simps)
  next
    case True
    show ?thesis
    proof (cases "ck_width (ck_code c) ip")
      case None
      then show ?thesis using True by (subst ck_structure_from.simps) (simp add: Let_def fail_def)
    next
      case (Some w)
      then have "bounds c ip (ck_code c ! ip) \<noteq> None" if "ip + w \<le> length (ck_code c)"
        using that True bounds_total [of ip c w] by (simp add: ck_width_eq)
      then show ?thesis using True Some "1.IH" [OF True refl _ Some]
        by (subst ck_structure_from.simps)
          (auto simp: Let_def fail_def andthen_def split: option.splits sum.splits)
    qed
  qed
qed

section \<open>Index operands\<close>

definition pool_len :: "checker \<Rightarrow> opcode \<Rightarrow> nat option" where
  "pool_len c op =
     (if op = CONST_GET then Some (length (p_constants (ck_prog c)))
      else if op \<in> {REF_TEST, REF_CAST, ARRAY_NEW, ARRAY_NEW_DEFAULT, STRUCT_NEW, STRUCT_NEW_DEFAULT,
        MAP_NEW, MAP_NEW_DEFAULT} then Some (length (p_types (ck_prog c)))
      else if op \<in> {LOCAL_GET, LOCAL_SET, LOCAL_TEE} then Some (length (ck_locals c))
      else if op \<in> {GLOBAL_GET, GLOBAL_SET, GLOBAL_TEE} then Some (length (p_globals (ck_prog c)))
      else if op \<in> {UPVAL_GET, UPVAL_SET} then Some (length (ck_captures c))
      else None)"

lemma bounds_pool:
  assumes "bounds c ip op = Some (Inr ())" "pool_len c op = Some n"
  shows "\<exists>v. operand (drop ip (ck_code c)) 0 = Some v \<and> sint v < int n"
proof -
  have "orpanic (operand (drop ip (ck_code c)) 0) (\<lambda>v.
      if sint v \<ge> int n then fail c (int ip) op ErrIndexOutOfRange else Some (Inr ())) = Some (Inr ())"
    using assms unfolding bounds_def pool_len_def Let_def by (auto split: if_splits)
  then show ?thesis by (auto simp: orpanic_Some fail_def split: if_splits)
qed

lemma pool_types: "list_all (\<lambda>(op, t). pool_len c op \<noteq> None \<longrightarrow> widths t = [1] \<or> widths t = [2]) types"
  by (simp add: pool_len_def types_defs ty_def)

lemma pool_widths: "pool_len c op = Some n \<Longrightarrow> valid op \<Longrightarrow> widths (type_of op) = [1] \<or> widths (type_of op) = [2]"
proof -
  assume n: "pool_len c op = Some n" and "valid op"
  then obtain t where t: "map_of types op = Some t" by (auto simp: valid_def)
  from pool_types [of c] map_of_SomeD [OF t] n have "widths t = [1] \<or> widths t = [2]"
    by (auto simp: list_all_iff)
  then show ?thesis using t by (simp add: type_of_def)
qed

lemma small_operand:
  assumes d: "decoded (ck_code c) is" and k: "k < length is" and v: "valid (is ! k ! 0)"
    and ws: "widths (type_of (is ! k ! 0)) = [w]" "0 < w" "w \<le> 7"
    and o: "operand (drop (pos_of is k) (ck_code c)) 0 = Some x"
  shows "sint x = int (unat x)"
proof -
  let ?i = "is ! k"
  have wi: "instr_width ?i = Some (length ?i)" using decodedD(2) [OF d] k by simp
  have "drop (pos_of is k) (ck_code c) = ?i @ concat (drop (Suc k) is)"
    using drop_pos [OF d, of k] k by (metis Cons_nth_drop_Suc concat.simps(2) less_imp_le)
  then have ops: "operands (drop (pos_of is k) (ck_code c)) = operands ?i"
    using operands_append [OF wi v] by simp
  from decoded_new [OF wi v] obtain vs where vs: "operands ?i = Some vs" "norm_ops [w] vs = vs"
    "new_instr (?i ! 0) vs = Some ?i" using ws by metis
  then obtain y ys where y: "vs = y # ys" using ws v by (cases vs) (auto simp: new_instr_def)
  have "x = y" using o ops vs y by (simp add: operand_def)
  moreover have "take_bit (8 * nat w) y = y" using vs(2) y ws(2) by simp
  ultimately have tb: "take_bit (8 * nat w) x = x" by simp
  have "unat x < 2 ^ (8 * nat w)" using tb by (metis take_bit_nat_less_exp unsigned_take_bit_eq)
  also have "\<dots> \<le> 2 ^ 56" using ws(3) by (intro power_increasing) auto
  finally have "uint x < int (2 ^ 56)" unfolding uint_nat by (simp only: of_nat_less_iff)
  then have u: "uint x < 2 ^ 63" by simp
  have "sint x = signed_take_bit 63 (uint x)" by (simp add: sint_uint)
  also have "\<dots> = uint x"
  proof (rule signed_take_bit_int_eq_self)
    show "- (2 ^ 63) \<le> uint x" by (rule order_trans [OF _ uint_ge_0]) simp
  qed (rule u)
  finally show ?thesis by (simp only: uint_nat)
qed

lemma pool_index:
  assumes ch: "checked c is" and k: "k < length is" and n: "pool_len c (is ! k ! 0) = Some n"
  obtains v where "operand (drop (pos_of is k) (ck_code c)) 0 = Some v" "unat v < n"
proof -
  have v: "valid (is ! k ! 0)" and b: "bounds c (pos_of is k) (is ! k ! 0) = Some (Inr ())"
    using ch k by (auto simp: checked_def)
  from bounds_pool [OF b n] obtain x where x: "operand (drop (pos_of is k) (ck_code c)) 0 = Some x"
    "sint x < int n" by blast
  from pool_widths [OF n v] have "sint x = int (unat x)"
    using small_operand [OF checked_decoded [OF ch] k v _ _ _ x(1), of 1]
      small_operand [OF checked_decoded [OF ch] k v _ _ _ x(1), of 2] by auto
  with x(2) have "unat x < n" by linarith
  with x(1) that show thesis by blast
qed

section \<open>The structural pass is exact\<close>

text \<open>
  What a slot has to look like, said without the verifier: every instruction is whole and defined, and
  the index it carries lies inside the pool its opcode reads.
\<close>

definition index_below :: "code \<Rightarrow> nat \<Rightarrow> bool" where
  "index_below i n \<longleftrightarrow> (\<exists>v. operand i 0 = Some v \<and> unat v < n)"

definition indices_inside :: "checker \<Rightarrow> code \<Rightarrow> bool" where
  "indices_inside c i \<longleftrightarrow>
     (i ! 0 = CONST_GET \<longrightarrow> index_below i (length (p_constants (ck_prog c))))
     \<and> (i ! 0 \<in> {REF_TEST, REF_CAST, ARRAY_NEW, ARRAY_NEW_DEFAULT, STRUCT_NEW, STRUCT_NEW_DEFAULT, MAP_NEW, MAP_NEW_DEFAULT}
          \<longrightarrow> index_below i (length (p_types (ck_prog c))))
     \<and> (i ! 0 \<in> {LOCAL_GET, LOCAL_SET, LOCAL_TEE} \<longrightarrow> index_below i (length (ck_locals c)))
     \<and> (i ! 0 \<in> {GLOBAL_GET, GLOBAL_SET, GLOBAL_TEE} \<longrightarrow> index_below i (length (p_globals (ck_prog c))))
     \<and> (i ! 0 \<in> {UPVAL_GET, UPVAL_SET} \<longrightarrow> index_below i (length (ck_captures c)))"

definition sound_instr :: "checker \<Rightarrow> code \<Rightarrow> bool" where
  "sound_instr c i \<longleftrightarrow> valid (i ! 0) \<and> instr_width i = Some (length i) \<and> indices_inside c i"

lemma indices_inside_pool: "indices_inside c i \<longleftrightarrow> (\<forall>n. pool_len c (i ! 0) = Some n \<longrightarrow> index_below i n)"
  unfolding indices_inside_def pool_len_def by (cases "i ! 0 = CONST_GET") auto

lemma sint_le_unat: "sint (x :: 64 word) \<le> int (unat x)"
  using signed_take_bit_int_less_eq_self_iff [of 63 "uint x"] uint_ge_0 [of x]
  by (simp add: sint_uint del: uint_ge_0)

lemma pool_bounds:
  assumes "\<And>n. pool_len c op = Some n \<Longrightarrow> \<exists>v. operand (drop ip (ck_code c)) 0 = Some v \<and> unat v < n"
  shows "bounds c ip op = Some (Inr ())"
proof -
  have "orpanic (operand (drop ip (ck_code c)) 0) (\<lambda>v.
      if sint v \<ge> int n then fail c (int ip) op ErrIndexOutOfRange else Some (Inr ())) = Some (Inr ())"
    if n: "pool_len c op = Some n" for n
  proof -
    from assms [OF n] obtain v where v: "operand (drop ip (ck_code c)) 0 = Some v" "unat v < n" by blast
    then have "sint v < int n" using sint_le_unat [of v] by linarith
    then show ?thesis by (simp add: v(1) orpanic_def)
  qed
  then show ?thesis unfolding bounds_def Let_def by (simp add: pool_len_def split: if_splits)
qed

lemma instr_operand:
  assumes d: "decoded (ck_code c) is" and k: "k < length is" and v: "valid (is ! k ! 0)"
  shows "operand (drop (pos_of is k) (ck_code c)) 0 = operand (is ! k) 0"
proof -
  have "drop (pos_of is k) (ck_code c) = is ! k @ concat (drop (Suc k) is)"
    using drop_pos [OF d, of k] k by (metis Cons_nth_drop_Suc concat.simps(2) less_imp_le)
  moreover have "instr_width (is ! k) = Some (length (is ! k))" using decodedD(2) [OF d] k by simp
  ultimately show ?thesis using operands_append [of "is ! k"] v by (simp add: operand_def)
qed

lemma checked_iff: "checked c is \<longleftrightarrow> concat is = ck_code c \<and> list_all (sound_instr c) is"
proof
  assume ch: "checked c is"
  note d = checked_decoded [OF ch]
  have "sound_instr c (is ! k)" if k: "k < length is" for k
  proof -
    have v: "valid (is ! k ! 0)" using ch k by (simp add: checked_def)
    have "index_below (is ! k) n" if "pool_len c (is ! k ! 0) = Some n" for n
      using pool_index [OF ch k that] by (metis index_below_def instr_operand [OF d k v])
    then show ?thesis using v decodedD(2) [OF d] k by (simp add: sound_instr_def indices_inside_pool)
  qed
  then show "concat is = ck_code c \<and> list_all (sound_instr c) is" using decodedD(1) [OF d] by (simp add: list_all_length)
next
  assume r: "concat is = ck_code c \<and> list_all (sound_instr c) is"
  then have "\<forall>i\<in>set is. instr_width i = Some (length i)" by (simp add: list_all_iff sound_instr_def)
  then have d: "decoded (ck_code c) is" using dec.walk_concat r by (metis decoded_def unmarshal_def)
  have "valid (is ! k ! 0) \<and> bounds c (pos_of is k) (is ! k ! 0) = Some (Inr ())" if k: "k < length is" for k
  proof -
    have s: "sound_instr c (is ! k)" using r k by (simp add: list_all_length)
    then have v: "valid (is ! k ! 0)" by (simp add: sound_instr_def)
    have "bounds c (pos_of is k) (is ! k ! 0) = Some (Inr ())"
      by (rule pool_bounds)
        (use s in \<open>auto simp: sound_instr_def indices_inside_pool index_below_def instr_operand [OF d k v]\<close>)
    with v show ?thesis by simp
  qed
  with d show "checked c is" by (simp add: checked_def)
qed

lemma structure_complete:
  assumes iz: "checked c iz"
  shows "ck_structure c = Some (Inr ())"
proof -
  have "checked c iz \<Longrightarrow> boundary iz ip \<Longrightarrow> ck_structure_from c ip = Some (Inr ())" for ip
  proof (induction c ip rule: ck_structure_from.induct)
    case (1 c ip)
    note d = checked_decoded [OF "1.prems"(1)]
    show ?case
    proof (cases "ip < length (ck_code c)")
      case False
      then show ?thesis by (simp add: ck_structure_from.simps)
    next
      case True
      from boundary_step [OF d "1.prems"(2) True] obtain k where k: "k < length iz" "ip = pos_of iz k"
        "ck_width (ck_code c) ip = Some (length (iz ! k))" "ck_code c ! ip = iz ! k ! 0"
        "boundary iz (ip + length (iz ! k))" "ip + length (iz ! k) \<le> length (ck_code c)" by metis
      have ok: "valid (ck_code c ! ip)" "bounds c ip (ck_code c ! ip) = Some (Inr ())"
        using "1.prems"(1) k by (auto simp: checked_def)
      show ?thesis using True k(3,5,6) ok "1.IH" [OF True refl _ k(3) _ ok(2) "1.prems"(1) k(5)]
        by (subst ck_structure_from.simps) simp
    qed
  qed
  from this [OF iz] show ?thesis by (simp add: ck_structure_def)
qed

text \<open>C7: Structural soundness and completeness.  The structural pass accepts a slot exactly when its
  code can be cut into whole instructions with defined opcodes whose constant, type, local, global and
  upvalue indices are below the sizes of what they index; on anything else it reports an error rather
  than panic.\<close>

theorem structure_iff:
  "ck_structure c \<noteq> None
   \<and> (ck_structure c = Some (Inr ()) \<longleftrightarrow> (\<exists>is. concat is = ck_code c \<and> list_all (sound_instr c) is))"
  using structure_sound [of c] structure_complete [of c] structure_from_total [of c 0]
  by (auto simp: ck_structure_def checked_iff)

lemma handlers_total: "handlers_from c hs \<noteq> None"
  by (induction hs) (auto simp: handlers1_def fail_def Let_def andthen_def split: option.splits sum.splits)


section \<open>Block boundaries\<close>

lemma targets_total:
  assumes d: "decoded c is" and k: "k < length is"
  obtains ts where "targets c (pos_of is k) = Some ts"
proof -
  note W = pos_width [OF d k]
  have le: "length (is ! k) \<le> length (drop (pos_of is k) c)" using W(5,6) by simp
  obtain vs v where "operands (drop (pos_of is k) c) = Some vs" "operand (drop (pos_of is k) c) 0 = Some v"
    using instr_decode_total [OF W(3) le] operand_total [OF W(3) le, of 0] by blast
  then have "targets c (pos_of is k) \<noteq> None" using W(3) by (simp add: targets_def Let_def)
  then show thesis using that by blast
qed

definition target_ok :: "checker \<Rightarrow> code list \<Rightarrow> nat list \<Rightarrow> int \<Rightarrow> bool" where
  "target_ok c is os t \<longleftrightarrow> 0 \<le> t \<and> t \<le> int (length (ck_code c)) \<and> boundary is (nat t)
     \<and> (t = int (length (ck_code c)) \<longrightarrow> ck_slot c = 0)
     \<and> (t < int (length (ck_code c)) \<longrightarrow> nat t \<in> set os)"

definition offset_ok :: "checker \<Rightarrow> code list \<Rightarrow> nat \<Rightarrow> bool" where
  "offset_ok c is off \<longleftrightarrow> boundary is off \<and> off < length (ck_code c)"

lemma target_ok_mono: "target_ok c is os t \<Longrightarrow> set os \<subseteq> set os' \<Longrightarrow> target_ok c is os' t"
  by (auto simp: target_ok_def)

lemma mark_all_spec:
  assumes d: "decoded (ck_code c) is"
  shows "mark_all c ip ts \<noteq> None \<and> (\<forall>os. mark_all c ip ts = Some (Inr os) \<longrightarrow>
    list_all (offset_ok c is) os \<and> list_all (target_ok c is os) ts)"
proof (induction ts)
  case (Cons t ts)
  obtain r where r: "mark_all c ip ts = Some r" using Cons by blast
  show ?case
  proof (cases "\<exists>o1. mark c ip t = Some (Inr o1)")
    case False
    then have "mark_all c ip (t # ts) \<noteq> None \<and> (\<forall>os. mark_all c ip (t # ts) \<noteq> Some (Inr os))"
      by (auto simp: mark_def fail_def Let_def split: if_splits)
    then show ?thesis by blast
  next
    case True
    then obtain o1 where o1: "mark c ip t = Some (Inr o1)" by blast
    then have t: "list_all (offset_ok c is) o1" "target_ok c is o1 t"
      using is_start_iff [OF d, of t]
      by (auto simp: mark_def fail_def Let_def offset_ok_def target_ok_def split: if_splits)
    show ?thesis
    proof (cases r)
      case (Inl e)
      then show ?thesis using o1 r by simp
    next
      case (Inr o2)
      then have m: "mark_all c ip (t # ts) = Some (Inr (o1 @ o2))" using o1 r by simp
      have "list_all (target_ok c is (o1 @ o2)) ts" "list_all (offset_ok c is) o2"
        using Cons r Inr by (auto simp: list_all_iff intro: target_ok_mono)
      then show ?thesis using m t target_ok_mono [OF t(2), of "o1 @ o2"] by auto
    qed
  qed
qed simp

text \<open>What the boundary scan records for the instruction at index \<open>k\<close>.\<close>

definition cut_ok :: "checker \<Rightarrow> code list \<Rightarrow> nat list \<Rightarrow> nat \<Rightarrow> bool" where
  "cut_ok c is os k \<longleftrightarrow> (let op = is ! k ! 0 in
     (op \<in> {UNREACHABLE, RETURN, THROW, BR, BR_IF} \<longrightarrow> pos_of is (Suc k) < length (ck_code c) \<longrightarrow>
        pos_of is (Suc k) \<in> set os)
     \<and> (op \<in> {BR, BR_IF, BR_TABLE} \<longrightarrow>
          (\<exists>ts. targets (ck_code c) (pos_of is k) = Some ts \<and> list_all (target_ok c is os) ts)))"

lemma cut_ok_mono: "cut_ok c is os k \<Longrightarrow> set os \<subseteq> set os' \<Longrightarrow> cut_ok c is os' k"
  unfolding cut_ok_def Let_def list_all_iff using target_ok_mono by (meson subsetD)

lemma offsets1_spec:
  assumes d: "decoded (ck_code c) is" and k: "k < length is"
  shows "offsets1 c (pos_of is k) (pos_of is (Suc k)) \<noteq> None \<and>
    (\<forall>os. offsets1 c (pos_of is k) (pos_of is (Suc k)) = Some (Inr os) \<longrightarrow>
       list_all (offset_ok c is) os \<and> cut_ok c is os k)"
proof -
  note W = pos_width [OF d k]
  obtain ts where ts: "targets (ck_code c) (pos_of is k) = Some ts" using targets_total [OF d k] .
  obtain r where r: "mark_all c (pos_of is k) ts = Some r" using mark_all_spec [OF d] by blast
  have nx: "list_all (offset_ok c is) (next_offset c (pos_of is (Suc k)))"
    using k by (simp add: next_offset_def offset_ok_def boundary_pos)
  have M: "list_all (offset_ok c is) os \<and> list_all (target_ok c is os) ts" if "r = Inr os" for os
    using mark_all_spec [OF d, of "pos_of is k" ts] r that by blast
  let ?op = "is ! k ! 0" and ?nx = "next_offset c (pos_of is (Suc k))"
  have nxi: "pos_of is (Suc k) < length (ck_code c) \<Longrightarrow> pos_of is (Suc k) \<in> set ?nx"
    by (simp add: next_offset_def)
  consider (stop) "?op = UNREACHABLE \<or> ?op = RETURN \<or> ?op = THROW" | (br) "?op = BR \<or> ?op = BR_IF"
    | (table) "?op = BR_TABLE" | (other) "?op \<notin> {UNREACHABLE, RETURN, THROW, BR, BR_IF, BR_TABLE}"
    by blast
  then show ?thesis
  proof cases
    case stop
    then have "offsets1 c (pos_of is k) (pos_of is (Suc k)) = Some (Inr ?nx)"
      by (simp add: offsets1_def W(2))
    moreover have "cut_ok c is ?nx k" using stop nxi by (auto simp: cut_ok_def)
    ultimately show ?thesis using nx by simp
  next
    case br
    then have e: "offsets1 c (pos_of is k) (pos_of is (Suc k))
        = andthen (mark_all c (pos_of is k) ts) (\<lambda>os. Some (Inr (os @ ?nx)))"
      by (auto simp: offsets1_def W(2) ts)
    show ?thesis
    proof (cases r)
      case (Inr os)
      have "list_all (target_ok c is (os @ ?nx)) ts"
        using M [OF Inr] by (auto simp: list_all_iff intro: target_ok_mono)
      then have "cut_ok c is (os @ ?nx) k" using nxi ts br by (auto simp: cut_ok_def)
      then show ?thesis using e M [OF Inr] nx r Inr by simp
    qed (simp add: e r)
  next
    case table
    then have e: "offsets1 c (pos_of is k) (pos_of is (Suc k)) = mark_all c (pos_of is k) ts"
      by (simp add: offsets1_def W(2) ts)
    show ?thesis
    proof (cases r)
      case (Inr os)
      then have "cut_ok c is os k" using M ts table by (auto simp: cut_ok_def)
      then show ?thesis using e M [OF Inr] r Inr by simp
    qed (simp add: e r)
  next
    case other
    then have "offsets1 c (pos_of is k) (pos_of is (Suc k)) = Some (Inr [])"
      by (simp add: offsets1_def W(2))
    moreover have "cut_ok c is [] k" using other by (simp add: cut_ok_def)
    ultimately show ?thesis by simp
  qed
qed

lemma offsets_from_spec:
  assumes d: "decoded (ck_code c) is"
  shows "k \<le> length is \<Longrightarrow> offsets_from c (pos_of is k) \<noteq> None \<and>
    (\<forall>os. offsets_from c (pos_of is k) = Some (Inr os) \<longrightarrow>
       list_all (offset_ok c is) os \<and> (\<forall>j. k \<le> j \<longrightarrow> j < length is \<longrightarrow> cut_ok c is os j))"
proof (induction "length is - k" arbitrary: k)
  case 0
  then have "pos_of is k = length (ck_code c)" using decodedD(4) [OF d] by simp
  then show ?case using 0 by (simp add: offsets_from.simps)
next
  case (Suc n)
  then have k: "k < length is" by simp
  note W = pos_width [OF d k]
  have IH: "offsets_from c (pos_of is (Suc k)) \<noteq> None \<and>
    (\<forall>os. offsets_from c (pos_of is (Suc k)) = Some (Inr os) \<longrightarrow>
       list_all (offset_ok c is) os \<and> (\<forall>j. Suc k \<le> j \<longrightarrow> j < length is \<longrightarrow> cut_ok c is os j))"
    by (rule Suc.hyps) (use Suc k in auto)
  have eq: "offsets_from c (pos_of is k) = andthen (offsets1 c (pos_of is k) (pos_of is (Suc k))) (\<lambda>os.
      andthen (offsets_from c (pos_of is (Suc k))) (\<lambda>os'. Some (Inr (os @ os'))))"
    using W(1) by (subst offsets_from.simps) (simp add: W(3,5))
  obtain r1 r2 where r: "offsets1 c (pos_of is k) (pos_of is (Suc k)) = Some r1"
    "offsets_from c (pos_of is (Suc k)) = Some r2" using offsets1_spec [OF d k] IH by blast
  show ?case
  proof (cases r1; cases r2)
    fix o1 o2 assume i: "r1 = Inr o1" "r2 = Inr o2"
    then have e: "offsets_from c (pos_of is k) = Some (Inr (o1 @ o2))" using eq r by simp
    have 1: "list_all (offset_ok c is) o1" "cut_ok c is o1 k" using offsets1_spec [OF d k] r i by blast+
    have 2: "list_all (offset_ok c is) o2" "\<And>j. Suc k \<le> j \<Longrightarrow> j < length is \<Longrightarrow> cut_ok c is o2 j"
      using IH r i by blast+
    have "cut_ok c is (o1 @ o2) j" if "k \<le> j" "j < length is" for j
    proof (cases "j = k")
      case True
      then show ?thesis using cut_ok_mono [OF 1(2), of "o1 @ o2"] by simp
    next
      case False
      then show ?thesis using that cut_ok_mono [OF 2(2) [of j], of "o1 @ o2"] by simp
    qed
    then show ?thesis using e 1 2 by simp
  qed (use eq r in auto)
qed

section \<open>The control-flow graph\<close>

definition frame_of :: "block list \<Rightarrow> (nat \<times> nat) list" where
  "frame_of bs = map (\<lambda>b. (bk_start b, bk_end b)) bs"

definition succ_of :: "block list \<Rightarrow> nat \<Rightarrow> nat set" where
  "succ_of bs j = set (bk_succs (bs ! j))"

definition pred_of :: "block list \<Rightarrow> nat \<Rightarrow> nat set" where
  "pred_of bs j = set (bk_preds (bs ! j))"

lemma frame_of_length: "frame_of bs = frame_of bs' \<Longrightarrow> length bs = length bs'"
  by (metis frame_of_def length_map)

lemma frame_of_nth: "frame_of bs = frame_of bs' \<Longrightarrow> k < length bs \<Longrightarrow>
  bk_start (bs ! k) = bk_start (bs' ! k) \<and> bk_end (bs ! k) = bk_end (bs' ! k)"
  unfolding frame_of_def by (metis (no_types, lifting) fst_conv length_map nth_map snd_conv)

lemma add_edge_frame [simp]: "frame_of (add_edge i j bs) = frame_of bs"
  by (cases "i < length bs"; cases "j < length bs"; rule nth_equalityI)
    (auto simp: add_edge_def frame_of_def Let_def nth_list_update)

lemma add_edge_sets:
  assumes "i < length bs" "j < length bs"
  shows "succ_of (add_edge i j bs) k = (if k = i then insert j (succ_of bs k) else succ_of bs k)"
    and "pred_of (add_edge i j bs) k = (if k = j then insert i (pred_of bs k) else pred_of bs k)"
  using assms by (auto simp: add_edge_def succ_of_def pred_of_def Let_def nth_list_update)

text \<open>An edge set is added to block \<open>j\<close>: successors of \<open>j\<close> and the matching predecessors, nothing else.\<close>

definition adds :: "nat \<Rightarrow> nat set \<Rightarrow> block list \<Rightarrow> block list \<Rightarrow> bool" where
  "adds j S bs bs' \<longleftrightarrow> frame_of bs' = frame_of bs
     \<and> (\<forall>k. succ_of bs' k = (if k = j then succ_of bs k \<union> S else succ_of bs k))
     \<and> (\<forall>k. pred_of bs' k = (if k \<in> S then insert j (pred_of bs k) else pred_of bs k))"

lemma adds_empty: "adds j {} bs bs"
  by (simp add: adds_def)

lemma adds_edge: "j < length bs \<Longrightarrow> i < length bs \<Longrightarrow> adds j {i} bs (add_edge j i bs)"
  by (auto simp: adds_def add_edge_sets)

lemma adds_trans: "adds j S bs bs1 \<Longrightarrow> adds j T bs1 bs2 \<Longrightarrow> adds j (S \<union> T) bs bs2"
  by (auto simp: adds_def)

lemma find_block_spec:
  "find_block k bs dst = Some i \<Longrightarrow> k \<le> i \<and> i - k < length bs \<and> bk_start (bs ! (i - k)) \<le> dst \<and> dst < bk_end (bs ! (i - k))"
proof (induction bs arbitrary: k)
  case (Cons b bs)
  show ?case
  proof (cases "bk_start b \<le> dst \<and> dst < bk_end b")
    case False
    with Cons.prems Cons.IH [of "Suc k"] have "Suc k \<le> i \<and> i - Suc k < length bs
        \<and> bk_start (bs ! (i - Suc k)) \<le> dst \<and> dst < bk_end (bs ! (i - Suc k))" by auto
    moreover from this have "i - k = Suc (i - Suc k)" by linarith
    ultimately show ?thesis by simp
  qed (use Cons.prems in auto)
qed simp

lemma find_block_hit:
  "j < length bs \<Longrightarrow> bk_start (bs ! j) \<le> dst \<Longrightarrow> dst < bk_end (bs ! j) \<Longrightarrow> find_block k bs dst \<noteq> None"
proof (induction bs arbitrary: k j)
  case (Cons b bs)
  then show ?case by (cases j) auto
qed simp

text \<open>The blocks that \<open>cut_blocks\<close> makes of an ascending list of boundaries.\<close>

definition tiles :: "nat \<Rightarrow> nat list \<Rightarrow> block list \<Rightarrow> bool" where
  "tiles n os bs \<longleftrightarrow> length bs = length os \<and>
     (\<forall>j<length os. bk_start (bs ! j) = os ! j
       \<and> bk_end (bs ! j) = (if Suc j < length os then os ! Suc j else n))"

lemma cut_tiles: "tiles n os (cut_blocks n os)"
proof (induction os)
  case (Cons s ss)
  then show ?case unfolding tiles_def
  proof (intro conjI allI impI)
    fix j assume IH: "length (cut_blocks n ss) = length ss \<and> (\<forall>j<length ss. bk_start (cut_blocks n ss ! j) = ss ! j
       \<and> bk_end (cut_blocks n ss ! j) = (if Suc j < length ss then ss ! Suc j else n))"
      and j: "j < length (s # ss)"
    then show "bk_start (cut_blocks n (s # ss) ! j) = (s # ss) ! j"
      "bk_end (cut_blocks n (s # ss) ! j) = (if Suc j < length (s # ss) then (s # ss) ! Suc j else n)"
      by (cases j; auto split: list.splits simp: nth_Cons')+
  qed auto
qed (simp add: tiles_def)

lemma tiles_frame: "tiles n os bs \<Longrightarrow> frame_of bs' = frame_of bs \<Longrightarrow> tiles n os bs'"
  unfolding tiles_def using frame_of_nth [of bs' bs] frame_of_length [of bs' bs] by auto

lemma cut_blocks_no_edges: "succ_of (cut_blocks n os) k = {} \<or> length os \<le> k"
proof (induction os arbitrary: k)
  case (Cons s ss)
  then show ?case by (cases k) (auto simp: succ_of_def)
qed simp

lemma cut_blocks_no_preds: "pred_of (cut_blocks n os) k = {} \<or> length os \<le> k"
proof (induction os arbitrary: k)
  case (Cons s ss)
  then show ?case by (cases k) (auto simp: pred_of_def)
qed simp

text \<open>
  An ascending list of instruction boundaries that begins at the start of the code; the block that
  starts at a given one.
\<close>

definition offsets_ok :: "checker \<Rightarrow> code list \<Rightarrow> nat list \<Rightarrow> bool" where
  "offsets_ok c is os \<longleftrightarrow> os \<noteq> [] \<and> os ! 0 = 0 \<and> sorted os \<and> distinct os \<and> list_all (offset_ok c is) os"

lemma offsets_less: "offsets_ok c is os \<Longrightarrow> i < j \<Longrightarrow> j < length os \<Longrightarrow> os ! i < os ! j"
  unfolding offsets_ok_def
  by (metis distinct_conv_nth less_trans nat_less_le sorted_nth_mono)

lemma block_bounds:
  assumes d: "decoded (ck_code c) is" and os: "offsets_ok c is os"
    and t: "tiles (length (ck_code c)) os bs" and j: "j < length bs"
  shows "bk_start (bs ! j) < bk_end (bs ! j)" "bk_end (bs ! j) \<le> length (ck_code c)"
    "boundary is (bk_start (bs ! j))" "boundary is (bk_end (bs ! j))"
proof -
  have l: "length bs = length os" using t by (simp add: tiles_def)
  have ok: "offset_ok c is (os ! k)" if "k < length os" for k
    using os that by (simp add: offsets_ok_def list_all_length)
  from t j l have b: "bk_start (bs ! j) = os ! j"
    "bk_end (bs ! j) = (if Suc j < length os then os ! Suc j else length (ck_code c))"
    by (simp_all add: tiles_def)
  show "bk_start (bs ! j) < bk_end (bs ! j)" "bk_end (bs ! j) \<le> length (ck_code c)"
    "boundary is (bk_start (bs ! j))"
    using b j l ok [of j] ok [of "Suc j"] offsets_less [OF os, of j "Suc j"]
    by (auto simp: offset_ok_def)
  show "boundary is (bk_end (bs ! j))"
    using b ok [of "Suc j"] decodedD(4) [OF d] boundary_pos [of "length is" "is"] by (auto simp: offset_ok_def)
qed


text \<open>\<^verbatim>\<open>last\<close> finds the instruction that ends at the end of the block.\<close>

lemma last_from_spec:
  "decoded (ck_code c) is \<Longrightarrow> boundary is ip \<Longrightarrow> boundary is e \<Longrightarrow> ip < e \<Longrightarrow>
   \<exists>k<length is. last_from (ck_code c) e ip = Some (pos_of is k) \<and> ip \<le> pos_of is k \<and> pos_of is (Suc k) = e"
proof (induction "e - ip" arbitrary: ip rule: less_induct)
  case less
  have l: "ip < length (ck_code c)" using boundary_le [OF less.prems(1,3)] less.prems(4) by simp
  from boundary_step [OF less.prems(1,2) l] obtain k where
    k: "k < length is" "ip = pos_of is k" "ck_width (ck_code c) ip = Some (length (is ! k))"
      "boundary is (ip + length (is ! k))" "0 < length (is ! k)" "ip + length (is ! k) \<le> e"
    using less.prems(3,4) by metis
  have S: "pos_of is (Suc k) = ip + length (is ! k)" using pos_of_Suc k by simp
  show ?case
  proof (cases "ip + length (is ! k) = e")
    case True
    then show ?thesis using k S less.prems(4) by (subst last_from.simps) auto
  next
    case False
    then have lt: "ip + length (is ! k) < e" using k(6) by simp
    have "e - (ip + length (is ! k)) < e - ip" using k(5) less.prems(4) by linarith
    from less.hyps [OF this less.prems(1) k(4) less.prems(3) lt] obtain m where
      m: "m < length is" "last_from (ck_code c) e (ip + length (is ! k)) = Some (pos_of is m)"
      "ip + length (is ! k) \<le> pos_of is m" "pos_of is (Suc m) = e" by blast
    have "last_from (ck_code c) e ip = last_from (ck_code c) e (ip + length (is ! k))"
      using k(3) less.prems(4) lt by (subst last_from.simps) simp
    with m show ?thesis by (intro exI [of _ m]) simp
  qed
qed

lemma last_ip_spec:
  assumes "decoded (ck_code c) is" "offsets_ok c is os" "tiles (length (ck_code c)) os bs" "j < length bs"
  obtains k where "k < length is" "last_ip c (bs ! j) = Some (pos_of is k)"
    "bk_start (bs ! j) \<le> pos_of is k" "pos_of is (Suc k) = bk_end (bs ! j)"
proof -
  note B = block_bounds [OF assms]
  from last_from_spec [OF assms(1) B(3,4,1)] obtain k where "k < length is"
    "last_from (ck_code c) (bk_end (bs ! j)) (bk_start (bs ! j)) = Some (pos_of is k)"
    "bk_start (bs ! j) \<le> pos_of is k" "pos_of is (Suc k) = bk_end (bs ! j)" by blast
  with pos_width(1) [OF assms(1), of k] that show thesis by (simp add: last_ip_def)
qed

text \<open>The edges a block should have: from its last instruction to the blocks starting at its targets,
  and to the textual successor where control can fall through.\<close>

definition block_of :: "block list \<Rightarrow> int \<Rightarrow> nat set" where
  "block_of bs t = {i. i < length bs \<and> int (bk_start (bs ! i)) = t}"

definition next_of :: "block list \<Rightarrow> nat \<Rightarrow> nat set" where
  "next_of bs j = (if j + 1 < length bs then {j + 1} else {})"

definition edges_of :: "checker \<Rightarrow> block list \<Rightarrow> nat \<Rightarrow> nat set" where
  "edges_of c bs j = (case last_ip c (bs ! j) of None \<Rightarrow> {} | Some ip \<Rightarrow>
     let op = ck_code c ! ip; ts = (case targets (ck_code c) ip of None \<Rightarrow> [] | Some ts \<Rightarrow> ts) in
     if op = UNREACHABLE \<or> op = RETURN \<or> op = THROW then {}
     else if op = BR \<or> op = BR_IF \<or> op = BR_TABLE then
       (\<Union>t\<in>set ts. block_of bs t) \<union> (if op = BR_IF then next_of bs j else {})
     else next_of bs j)"

lemma edges_of_frame: "frame_of bs' = frame_of bs \<Longrightarrow> j < length bs \<Longrightarrow> edges_of c bs' j = edges_of c bs j"
  using frame_of_nth [of bs' bs] frame_of_length [of bs' bs]
  by (auto simp: edges_of_def last_ip_def block_of_def next_of_def Let_def split: option.splits)

lemma block_of_unique:
  assumes os: "offsets_ok c is os" and t: "tiles (length (ck_code c)) os bs" and i: "i < length bs"
  shows "block_of bs (int (bk_start (bs ! i))) = {i}"
proof -
  have "bk_start (bs ! i) \<noteq> bk_start (bs ! k)" if "k < length bs" "k \<noteq> i" for k
  proof -
    have "os ! k \<noteq> os ! i" using os t that i
      by (metis distinct_conv_nth offsets_ok_def tiles_def)
    then show ?thesis using t that(1) i by (simp add: tiles_def)
  qed
  then show ?thesis using i by (force simp: block_of_def)
qed

lemma link_spec:
  assumes d: "decoded (ck_code c) is" and os: "offsets_ok c is os" and t: "tiles (length (ck_code c)) os bs"
    and j: "j < length bs" and tg: "target_ok c is os dst"
  obtains bs' where "link c j dst bs = Some (Inr bs')" "adds j (block_of bs dst) bs bs'"
proof (cases "dst = int (length (ck_code c))")
  case True
  have "bk_start (bs ! i) < length (ck_code c)" if "i < length bs" for i
    using block_bounds(1,2) [OF d os t that] by simp
  then have "block_of bs dst = {}" using True by (force simp: block_of_def)
  moreover have "link c j dst bs = Some (Inr bs)" using True tg by (simp add: link_def target_ok_def)
  ultimately show thesis using that adds_empty by metis
next
  case False
  then have "0 \<le> dst" "nat dst \<in> set os" using tg by (auto simp: target_ok_def)
  then obtain i where i: "i < length os" "os ! i = nat dst" by (auto simp: in_set_conv_nth)
  then have il: "i < length bs" "bk_start (bs ! i) = nat dst" using t by (auto simp: tiles_def)
  have bnd: "nat dst < bk_end (bs ! i)" using block_bounds(1) [OF d os t il(1)] il by simp
  obtain m where m: "find_block 0 bs (nat dst) = Some m"
    using find_block_hit [OF il(1), of "nat dst" 0] il bnd by auto
  from find_block_spec [OF m] have ml: "m < length bs" "bk_start (bs ! m) \<le> nat dst" "nat dst < bk_end (bs ! m)"
    by auto
  have "m = i"
  proof (rule ccontr)
    assume "m \<noteq> i"
    then consider "m < i" | "i < m" by linarith
    then show False
    proof cases
      case 1
      then have "bk_end (bs ! m) \<le> os ! i" using t ml il(1) offsets_less [OF os, of "Suc m" i] i
        by (cases "Suc m = i") (auto simp: tiles_def)
      then show False using ml i by simp
    next
      case 2
      then have "os ! i < bk_start (bs ! m)" using offsets_less [OF os 2] t ml by (simp add: tiles_def)
      then show False using ml i by simp
    qed
  qed
  have "link c j dst bs = Some (Inr (add_edge j i bs))"
    using False \<open>0 \<le> dst\<close> m \<open>m = i\<close> by (simp add: link_def)
  moreover have "block_of bs dst = {i}" using block_of_unique [OF os t il(1)] il \<open>0 \<le> dst\<close> by simp
  ultimately show thesis using that adds_edge [OF j il(1)] by simp
qed

lemma block_of_frame: "frame_of bs' = frame_of bs \<Longrightarrow> block_of bs' t = block_of bs t"
  using frame_of_nth [of bs' bs] frame_of_length [of bs' bs] by (auto simp: block_of_def)

lemma link_all_spec:
  "decoded (ck_code c) is \<Longrightarrow> offsets_ok c is os \<Longrightarrow> tiles (length (ck_code c)) os bs \<Longrightarrow> j < length bs \<Longrightarrow>
   list_all (target_ok c is os) ts \<Longrightarrow>
   \<exists>bs'. link_all c j ts bs = Some (Inr bs') \<and> adds j (\<Union>t\<in>set ts. block_of bs t) bs bs'"
proof (induction ts arbitrary: bs)
  case (Cons dst ts)
  then obtain bs1 where 1: "link c j dst bs = Some (Inr bs1)" "adds j (block_of bs dst) bs bs1"
    using link_spec [of c "is" os bs j dst] by auto
  then have fr: "frame_of bs1 = frame_of bs" by (simp add: adds_def)
  have "tiles (length (ck_code c)) os bs1" "j < length bs1"
    using tiles_frame [OF Cons.prems(3) fr] frame_of_length [OF fr] Cons.prems(4) by simp_all
  with Cons obtain bs2 where 2: "link_all c j ts bs1 = Some (Inr bs2)"
    "adds j (\<Union>t\<in>set ts. block_of bs1 t) bs1 bs2" by fastforce
  have "adds j (block_of bs dst \<union> (\<Union>t\<in>set ts. block_of bs t)) bs bs2"
    using adds_trans [OF 1(2) 2(2)] block_of_frame [OF fr] by simp
  with 1 2 show ?case by simp
qed (simp add: adds_empty)


lemma chain_spec: "j < length bs \<Longrightarrow> adds j (next_of bs j) bs (chain j bs)"
  by (simp add: chain_def next_of_def adds_edge adds_empty)

lemma edges1_spec:
  assumes d: "decoded (ck_code c) is" and os: "offsets_ok c is os" and t: "tiles (length (ck_code c)) os bs"
    and j: "j < length bs" and cut: "\<forall>k<length is. cut_ok c is os k"
  obtains bs' where "edges1 c j bs = Some (Inr bs')" "adds j (edges_of c bs j) bs bs'"
proof -
  from last_ip_spec [OF d os t j] obtain k where k: "k < length is" "last_ip c (bs ! j) = Some (pos_of is k)" .
  let ?op = "ck_code c ! pos_of is k"
  have op: "?op = is ! k ! 0" using pos_width(2) [OF d k(1)] .
  consider (stop) "?op = UNREACHABLE \<or> ?op = RETURN \<or> ?op = THROW"
    | (branch) "?op = BR \<or> ?op = BR_IF \<or> ?op = BR_TABLE"
    | (other) "?op \<notin> {UNREACHABLE, RETURN, THROW, BR, BR_IF, BR_TABLE}" by blast
  then show thesis
  proof cases
    case stop
    then have "edges1 c j bs = Some (Inr bs)" "edges_of c bs j = {}" using k(2)
      by (auto simp: edges1_def edges_of_def)
    then show thesis using that adds_empty by simp
  next
    case branch
    obtain ts where ts: "targets (ck_code c) (pos_of is k) = Some ts" "list_all (target_ok c is os) ts"
      using cut k(1) branch op by (auto simp: cut_ok_def Let_def)
    from link_all_spec [OF d os t j ts(2)] obtain bs1 where
      bs1: "link_all c j ts bs = Some (Inr bs1)" "adds j (\<Union>t\<in>set ts. block_of bs t) bs bs1" by blast
    have fr: "frame_of bs1 = frame_of bs" using bs1(2) by (simp add: adds_def)
    have l1: "length bs1 = length bs" using frame_of_length [OF fr] .
    have ch: "adds j (\<Union> (block_of bs ` set ts) \<union> next_of bs j) bs (chain j bs1)"
      using adds_trans [OF bs1(2) chain_spec [of j bs1]] j l1 by (simp add: next_of_def)
    have "edges1 c j bs = Some (Inr (if ?op = BR_IF then chain j bs1 else bs1))"
      using branch k(2) ts(1) bs1(1) by (auto simp: edges1_def Let_def)
    moreover have "edges_of c bs j = (\<Union>t\<in>set ts. block_of bs t) \<union> (if ?op = BR_IF then next_of bs j else {})"
      using branch k(2) ts(1) by (auto simp: edges_of_def Let_def)
    ultimately show thesis using that ch bs1(2) by (cases "?op = BR_IF") auto
  next
    case other
    then have "edges1 c j bs = Some (Inr (chain j bs))" "edges_of c bs j = next_of bs j" using k(2)
      by (auto simp: edges1_def edges_of_def)
    then show thesis using that chain_spec [OF j] by simp
  qed
qed

lemma edges_all_spec:
  assumes d: "decoded (ck_code c) is" and os: "offsets_ok c is os" and cut: "\<forall>k<length is. cut_ok c is os k"
  shows "tiles (length (ck_code c)) os bs \<Longrightarrow> distinct js \<Longrightarrow> set js \<subseteq> {..<length bs} \<Longrightarrow>
    \<exists>bs'. edges_all c js bs = Some (Inr bs') \<and> frame_of bs' = frame_of bs
      \<and> (\<forall>k. succ_of bs' k = succ_of bs k \<union> (if k \<in> set js then edges_of c bs k else {}))
      \<and> (\<forall>k. pred_of bs' k = pred_of bs k \<union> {j \<in> set js. k \<in> edges_of c bs j})"
proof (induction js arbitrary: bs)
  case (Cons j js)
  then have j: "j < length bs" by simp
  from edges1_spec [OF d os Cons.prems(1) j cut] obtain bs1 where
    1: "edges1 c j bs = Some (Inr bs1)" "adds j (edges_of c bs j) bs bs1" .
  then have fr: "frame_of bs1 = frame_of bs" by (simp add: adds_def)
  have tj: "tiles (length (ck_code c)) os bs1" "set js \<subseteq> {..<length bs1}"
    using tiles_frame [OF Cons.prems(1) fr] frame_of_length [OF fr] Cons.prems(3) by simp_all
  have dj: "distinct js" using Cons.prems(2) by simp
  from Cons.IH [OF tj(1) dj tj(2)] obtain bs2 where 2: "edges_all c js bs1 = Some (Inr bs2)" "frame_of bs2 = frame_of bs1"
    "\<And>k. succ_of bs2 k = succ_of bs1 k \<union> (if k \<in> set js then edges_of c bs1 k else {})"
    "\<And>k. pred_of bs2 k = pred_of bs1 k \<union> {j \<in> set js. k \<in> edges_of c bs1 j}" by blast
  have e: "edges_of c bs1 k = edges_of c bs k" if "k \<in> set js" for k
    using that Cons.prems(3) edges_of_frame [OF fr] by auto
  show ?case
  proof (intro exI conjI allI)
    show "edges_all c (j # js) bs = Some (Inr bs2)" using 1 2 by simp
    show "frame_of bs2 = frame_of bs" using 2(2) fr by simp
    show "succ_of bs2 k = succ_of bs k \<union> (if k \<in> set (j # js) then edges_of c bs k else {})" for k
      using 2(3) [of k] 1(2) e [of k] Cons.prems(2) by (auto simp: adds_def)
    show "pred_of bs2 k = pred_of bs k \<union> {j' \<in> set (j # js). k \<in> edges_of c bs j'}" for k
      using 2(4) [of k] 1(2) e by (auto simp: adds_def)
  qed
qed simp

lemma sort_edges_frame [simp]: "frame_of (map sort_edges bs) = frame_of bs"
  by (simp add: frame_of_def sort_edges_def)

lemma sort_edges_sets [simp]:
  "k < length bs \<Longrightarrow> succ_of (map sort_edges bs) k = succ_of bs k"
  "k < length bs \<Longrightarrow> pred_of (map sort_edges bs) k = pred_of bs k"
  by (simp_all add: succ_of_def pred_of_def sort_edges_def)

text \<open>The control-flow graph of a slot.\<close>

definition cfg_ok :: "checker \<Rightarrow> code list \<Rightarrow> nat list \<Rightarrow> block list \<Rightarrow> bool" where
  "cfg_ok c is os bs \<longleftrightarrow> offsets_ok c is os \<and> tiles (length (ck_code c)) os bs
     \<and> (\<forall>k<length is. cut_ok c is os k)
     \<and> (\<forall>j<length bs. succ_of bs j = edges_of c bs j \<and> pred_of bs j = {i. i < length bs \<and> j \<in> edges_of c bs i})"

lemma sorted_distinct_adj: "sorted (xs :: nat list) \<Longrightarrow> distinct (remdups_adj xs)"
proof (induction xs rule: remdups_adj.induct)
  case (3 x y xs)
  then show ?case by (cases "x = y") auto
qed simp_all

lemma remdups_adj_sort: "sorted (remdups_adj (sort (xs :: nat list)))" "distinct (remdups_adj (sort xs))"
  "set (remdups_adj (sort xs)) = set xs"
  by (simp_all add: sorted_remdups_adj sorted_distinct_adj)

lemma blocks_spec:
  assumes d: "decoded (ck_code c) is" and ne: "ck_code c \<noteq> []"
    and h: "\<forall>h\<in>set (ck_table c). boundary is (nat (h_start h)) \<and> boundary is (nat (h_end h))
      \<and> boundary is (nat (h_catch h))"
  shows "blocks c \<noteq> None \<and> (\<forall>bs. blocks c = Some (Inr bs) \<longrightarrow> (\<exists>os. cfg_ok c is os bs
    \<and> (\<forall>off\<in>set (handler_offsets c). off \<in> set os)))"
proof -
  obtain r where r: "offsets_from c 0 = Some r" using offsets_from_spec [OF d, of 0] by auto
  show ?thesis
  proof (cases r)
    case (Inl e)
    then show ?thesis using r by (simp add: blocks_def)
  next
    case (Inr os0)
    define os where "os = remdups_adj (sort (0 # os0 @ handler_offsets c))"
    have os_set: "set os = insert 0 (set os0 \<union> set (handler_offsets c))"
      and os_sd: "sorted os" "distinct os"
      unfolding os_def remdups_adj_sort by (auto simp: remdups_adj_sort simp del: sort_key_simps)
    let ?bs = "cut_blocks (length (ck_code c)) os"
    have 0: "list_all (offset_ok c is) os0" "\<forall>k<length is. cut_ok c is os0 k"
      using offsets_from_spec [OF d, of 0] r Inr by auto
    have "list_all (offset_ok c is) (handler_offsets c)"
      using h by (auto simp: handler_offsets_def list_all_iff offset_ok_def)
    then have all: "list_all (offset_ok c is) os" using 0(1) ne
      by (auto simp: list_all_iff os_set offset_ok_def)
    have hd: "os \<noteq> [] \<and> os ! 0 = 0"
    proof -
      have "0 \<in> set os" by (simp add: os_set)
      then obtain k where "k < length os" "os ! k = 0" by (auto simp: in_set_conv_nth)
      moreover have "os ! 0 \<le> os ! k"
        using calculation(1) os_sd(1) by (meson le0 sorted_nth_mono)
      ultimately show ?thesis by auto
    qed
    have os: "offsets_ok c is os" using all hd by (simp add: offsets_ok_def os_sd)
    have cut: "\<forall>k<length is. cut_ok c is os k"
      using 0(2) cut_ok_mono [of c "is" os0 _ os] by (simp add: os_set subset_iff)
    have tl: "tiles (length (ck_code c)) os ?bs" by (rule cut_tiles)
    have sub: "set [0..<length ?bs] \<subseteq> {..<length ?bs}" by auto
    from edges_all_spec [OF d os cut tl distinct_upt sub] obtain bs1 where
      1: "edges_all c [0..<length ?bs] ?bs = Some (Inr bs1)" "frame_of bs1 = frame_of ?bs"
      "\<And>k. succ_of bs1 k = succ_of ?bs k \<union> (if k \<in> set [0..<length ?bs] then edges_of c ?bs k else {})"
      "\<And>k. pred_of bs1 k = pred_of ?bs k \<union> {j \<in> set [0..<length ?bs]. k \<in> edges_of c ?bs j}" by blast
    have res: "blocks c = Some (Inr (map sort_edges bs1))" using r Inr 1(1) by (simp add: blocks_def Let_def os_def)
    have fr: "frame_of (map sort_edges bs1) = frame_of ?bs" using 1(2) by simp
    have len: "length bs1 = length ?bs" "length ?bs = length os"
      using frame_of_length [OF 1(2)] tl by (simp_all add: tiles_def)
    have "cfg_ok c is os (map sort_edges bs1)"
      unfolding cfg_ok_def
    proof (intro conjI allI impI os cut)
      show "tiles (length (ck_code c)) os (map sort_edges bs1)" by (rule tiles_frame [OF tl fr])
      fix j assume "j < length (map sort_edges bs1)"
      then have j: "j < length ?bs" using len by simp
      show "succ_of (map sort_edges bs1) j = edges_of c (map sort_edges bs1) j"
        using j len 1(3) [of j] cut_blocks_no_edges [of "length (ck_code c)" os j] edges_of_frame [OF fr j] by auto
      have "{i. i < length (map sort_edges bs1) \<and> j \<in> edges_of c (map sort_edges bs1) i}
          = {i \<in> set [0..<length ?bs]. j \<in> edges_of c ?bs i}"
        using edges_of_frame [OF fr] len(1) by auto
      then show "pred_of (map sort_edges bs1) j = {i. i < length (map sort_edges bs1) \<and> j \<in> edges_of c (map sort_edges bs1) i}"
        using j len 1(4) [of j] cut_blocks_no_preds [of "length (ck_code c)" os j] by auto
    qed (use cut in blast)
    then show ?thesis using res by (auto simp: os_set)
  qed
qed

end
