(* ===== verification/VerifyFlow.thy ===== *)
theory VerifyFlow
  imports VerifyCfg
begin

text \<open>
  The stack dataflow of the verifier: it always returns, and what a fixpoint it reaches guarantees
  along every path of the control-flow graph.
\<close>

section \<open>The exception table\<close>

lemma handlers_ok:
  "handlers_from c hs = Some (Inr ()) \<Longrightarrow> decoded (ck_code c) is \<Longrightarrow> h \<in> set hs \<Longrightarrow>
   0 \<le> h_start h \<and> h_start h < h_end h \<and> h_end h \<le> int (length (ck_code c))
   \<and> 0 \<le> h_catch h \<and> h_catch h < int (length (ck_code c))
   \<and> boundary is (nat (h_start h)) \<and> boundary is (nat (h_end h)) \<and> boundary is (nat (h_catch h))"
  by (induction hs) (auto simp: handlers1_def fail_def Let_def andthen_Inr is_start_iff split: if_splits)

section \<open>Every step has a result\<close>

lemma pop_kinds_total: "length ks \<le> length st \<Longrightarrow> pop_kinds c ip op ks st \<noteq> None"
proof (induction ks arbitrary: st)
  case (Cons k ks)
  then show ?case by (cases st) (auto simp: mismatch_def fail_def)
qed simp

lemma fixed_step_total: "\<exists>r. fixed_step c st op ip = Some r"
  using pop_kinds_total [of "pops (type_of op)" st c ip op]
  by (auto simp: fixed_step_def Let_def underflow_def fail_def andthen_def split: option.splits sum.splits)

lemma ck_call_total: "\<exists>r. ck_call c st ip op tail = Some r"
  by (auto simp: ck_call_def underflow_def fail_def Let_def split: list.splits option.splits gotype.splits)

lemma pool_slot_total:
  "operand inst 0 = Some v \<Longrightarrow> unat v < length pool \<Longrightarrow> \<exists>r. pool_slot pool inst mk st = Some r"
  by (simp add: pool_slot_def idx_def)

lemma step_some:
  assumes n: "\<And>n. pool_len c op = Some n \<Longrightarrow> \<exists>v. operand inst 0 = Some v \<and> unat v < n"
  shows "step c st inst op ip \<noteq> None"
proof -
  consider "op = GLOBAL_TEE" | "op = LOCAL_GET" | "op = UPVAL_GET" | "op = CONST_GET" | "op = GLOBAL_GET"
    | "op = GLOBAL_SET" | "op = STRUCT_NEW"
    | "op \<notin> {GLOBAL_TEE, LOCAL_GET, UPVAL_GET, CONST_GET, GLOBAL_GET, GLOBAL_SET, STRUCT_NEW}" by blast
  then show ?thesis
  proof cases
    case 1
    then show ?thesis using n [of "length (p_globals (ck_prog c))"]
      by (auto simp: step_def pool_len_def idx_def underflow_def mismatch_def fail_def)
  next
    case 2
    then show ?thesis using n [of "length (ck_locals c)"]
      by (auto simp: step_def pool_len_def pool_slot_total)
  next
    case 3
    then show ?thesis using n [of "length (ck_captures c)"]
      by (auto simp: step_def pool_len_def pool_slot_total)
  next
    case 4
    then show ?thesis using n [of "length (p_constants (ck_prog c))"]
      by (auto simp: step_def pool_len_def pool_slot_total)
  next
    case 5
    then show ?thesis using n [of "length (p_globals (ck_prog c))"]
      by (auto simp: step_def pool_len_def pool_slot_total)
  next
    case 6
    then show ?thesis using n [of "length (p_globals (ck_prog c))"]
      by (auto simp: step_def pool_len_def idx_def underflow_def mismatch_def fail_def split: list.splits)
  next
    case 7
    then show ?thesis using n [of "length (p_types (ck_prog c))"]
      by (auto simp: step_def pool_len_def idx_def underflow_def fail_def split: gotype.splits)
  next
    case 8
    then show ?thesis
      by (auto simp: step_def fixed_step_total ck_call_total underflow_def mismatch_def fail_def
          split: list.splits)
  qed
qed

lemma step_total:
  assumes "checked c is" "k < length is"
  shows "step c st (drop (pos_of is k) (ck_code c)) (is ! k ! 0) ip \<noteq> None"
  using step_some pool_index [OF assms] by metis


lemma exec_from_total:
  "checked c is \<Longrightarrow> boundary is ip \<Longrightarrow> boundary is e \<Longrightarrow> exec_from c e ip st \<noteq> None"
proof (induction "e - ip" arbitrary: ip st rule: less_induct)
  case less
  note d = checked_decoded [OF less.prems(1)]
  show ?case
  proof (cases "ip < e")
    case False
    then show ?thesis by (simp add: exec_from.simps)
  next
    case True
    then have l: "ip < length (ck_code c)" using boundary_le [OF d less.prems(3)] by simp
    from boundary_step [OF d less.prems(2) l] obtain k where k: "k < length is" "ip = pos_of is k"
      "ck_width (ck_code c) ip = Some (length (is ! k))" "ck_code c ! ip = is ! k ! 0"
      "boundary is (ip + length (is ! k))" "0 < length (is ! k)" by metis
    have lt: "e - (ip + length (is ! k)) < e - ip" using k(6) True by linarith
    obtain r where r: "step c st (drop ip (ck_code c)) (ck_code c ! ip) ip = Some r"
      using step_total [OF less.prems(1) k(1)] k(2,4) by auto
    show ?thesis using True l r k(3) less.hyps [OF lt less.prems(1) k(5) less.prems(3)]
      by (subst exec_from.simps) (cases r; auto simp: Let_def split: prod.splits)
  qed
qed

section \<open>The order on abstract states\<close>

text \<open>
  A merge loses information: kinds become \<open>KindAny\<close>, types disappear.  The dataflow only needs that
  it is an upper bound of both states in an order, which is the contract below.
\<close>

locale state_merge =
  fixes le :: "'s \<Rightarrow> 's \<Rightarrow> bool"
    and mrg :: "'s \<Rightarrow> 's \<Rightarrow> ('s \<times> bool) option"
  assumes le_refl: "le s s"
    and le_trans: "le s t \<Longrightarrow> le t u \<Longrightarrow> le s u"
    and mrg_upper: "mrg s u = Some (s', ch) \<Longrightarrow> le s s' \<and> le u s'"
    and mrg_same: "mrg s u = Some (s', False) \<Longrightarrow> s' = s"
begin

definition grows :: "'s option list \<Rightarrow> 's option list \<Rightarrow> bool" where
  "grows es es' \<longleftrightarrow> length es' = length es
     \<and> (\<forall>i<length es. \<forall>s. es ! i = Some s \<longrightarrow> (\<exists>s'. es' ! i = Some s' \<and> le s s'))"

definition covers :: "'s option list \<Rightarrow> nat \<Rightarrow> 's \<Rightarrow> bool" where
  "covers es i s \<longleftrightarrow> i < length es \<and> (\<exists>s'. es ! i = Some s' \<and> le s s')"

lemma grows_refl: "grows es es"
  by (simp add: grows_def le_refl)

lemma grows_trans: "grows es es' \<Longrightarrow> grows es' es'' \<Longrightarrow> grows es es''"
  unfolding grows_def by (metis le_trans)

lemma grows_fill: "es ! i = None \<Longrightarrow> grows es (es[i := Some s])"
  unfolding grows_def by (auto simp: nth_list_update_if le_refl)

lemma grows_merge: "es ! i = Some s \<Longrightarrow> mrg s u = Some (s', ch) \<Longrightarrow> grows es (es[i := Some s'])"
  unfolding grows_def using mrg_upper [of s u s' ch] by (auto simp: nth_list_update_if le_refl)

lemma covers_grows: "covers es i s \<Longrightarrow> grows es es' \<Longrightarrow> covers es' i s"
  unfolding covers_def grows_def by (metis le_trans)

lemma covers_fill: "i < length es \<Longrightarrow> covers (es[i := Some s]) i s"
  by (simp add: covers_def le_refl)

lemma covers_merge: "i < length es \<Longrightarrow> mrg s u = Some (s', ch) \<Longrightarrow> covers (es[i := Some s']) i u"
  using mrg_upper by (auto simp: covers_def)

lemma covers_le: "covers es i s \<Longrightarrow> le t s \<Longrightarrow> covers es i t"
  unfolding covers_def by (metis le_trans)

end

definition slot_le :: "slot \<Rightarrow> slot \<Rightarrow> bool" where
  "slot_le a b \<longleftrightarrow> (sl_kind b = sl_kind a \<or> sl_kind b = KindAny)
     \<and> (case sl_typ b of None \<Rightarrow> True
        | Some t \<Rightarrow> (case sl_typ a of None \<Rightarrow> False | Some u \<Rightarrow> ty_equals t u))"

definition stack_le :: "stack \<Rightarrow> stack \<Rightarrow> bool" where
  "stack_le s t \<longleftrightarrow> list_all2 slot_le s t"

lemma slot_le_refl: "slot_le s s"
  by (auto simp: slot_le_def split: option.splits)

lemma slot_le_trans: "slot_le s t \<Longrightarrow> slot_le t u \<Longrightarrow> slot_le s u"
  by (auto simp: slot_le_def split: option.splits intro: equals_trans)

lemma merge_slot_upper: "slot_le s (fst (merge_slot s u)) \<and> slot_le u (fst (merge_slot s u))"
  by (auto simp: slot_le_def merge_slot_def unify_def Let_def split: option.splits)

lemma merge_upper: "merge s u = Some (s', ch) \<Longrightarrow> stack_le s s' \<and> stack_le u s'"
proof -
  assume "merge s u = Some (s', ch)"
  then have l: "length s = length u" and s': "s' = map fst (map2 merge_slot s u)"
    by (auto simp: merge_def Let_def split: if_splits)
  show ?thesis unfolding s' using l
  proof (induction s u rule: list_induct2)
    case (Cons x xs y ys)
    then show ?case using merge_slot_upper [of x y] by (simp add: stack_le_def)
  qed (simp add: stack_le_def)
qed

interpretation sm: state_merge stack_le merge
proof
  show "stack_le s s" for s by (simp add: stack_le_def list_all2_refl slot_le_refl)
  show "stack_le s t \<Longrightarrow> stack_le t u \<Longrightarrow> stack_le s u" for s t u
    unfolding stack_le_def by (rule list_all2_trans [of slot_le slot_le slot_le]) (auto intro: slot_le_trans)
  show "merge s u = Some (s', ch) \<Longrightarrow> stack_le s s' \<and> stack_le u s'" for s u s' ch by (rule merge_upper)
  show "merge s u = Some (s', False) \<Longrightarrow> s' = s" for s u s' using merge_weight(2) by blast
qed

lemma stack_le_length: "stack_le s t \<Longrightarrow> length s = length t"
  by (simp add: stack_le_def list_all2_lengthD)

section \<open>The work list\<close>

lemma propagate_spec:
  "propagate c bs st ss (es, work) = Some (Inr (es', work')) \<Longrightarrow>
   sm.grows es es' \<and> (\<forall>s\<in>set ss. sm.covers es' s st)
   \<and> set work \<subseteq> set work' \<and> (\<forall>i\<in>set work'. i \<in> set work \<or> i < length es \<and> es' ! i \<noteq> None)
   \<and> (\<forall>i<length es. es' ! i \<noteq> es ! i \<longrightarrow> i \<in> set work')"
proof (induction ss arbitrary: es work)
  case Nil
  then show ?case by (simp add: sm.grows_refl)
next
  case (Cons s ss)
  from Cons.prems obtain e where e: "s < length es" "es ! s = e" by (auto simp: orpanic_Some idx_Some_iff)
  obtain x ch where x: "propagate c bs st ss (es[s := Some x], if ch then s # work else work) = Some (Inr (es', work'))"
    and g: "sm.grows es (es[s := Some x])" and cv: "sm.covers (es[s := Some x]) s st"
    and same: "\<not> ch \<Longrightarrow> es[s := Some x] = es"
  proof (cases e)
    case None
    then show thesis using that [of st True] Cons.prems e sm.grows_fill [of es s st] sm.covers_fill [OF e(1)]
      by (simp add: idx_def)
  next
    case (Some old)
    with Cons.prems e obtain new ch where m: "merge old st = Some (new, ch)"
      and p: "propagate c bs st ss (es[s := Some new], if ch then s # work else work) = Some (Inr (es', work'))"
      by (auto simp: idx_def orpanic_Some fail_def split: option.splits)
    moreover have "\<not> ch \<Longrightarrow> es[s := Some new] = es" using merge_weight(2) [OF m] e Some
      by (metis list_update_id)
    ultimately show thesis using that sm.grows_merge [of es s old st new ch] sm.covers_merge [OF e(1) m] e Some
      by metis
  qed
  note IH = Cons.IH [OF x]
  have g2: "sm.grows (es[s := Some x]) es'" using IH by blast
  show ?case
  proof (intro conjI ballI allI impI)
    show "sm.grows es es'" using sm.grows_trans [OF g g2] .
    show "sm.covers es' s' st" if "s' \<in> set (s # ss)" for s'
      using that IH sm.covers_grows [OF cv g2] by auto
    show "set work \<subseteq> set work'" using IH by (auto split: if_splits)
    show "i \<in> set work \<or> i < length es \<and> es' ! i \<noteq> None" if "i \<in> set work'" for i
    proof (cases "i = s")
      case True
      then show ?thesis using sm.covers_grows [OF cv g2] e(1) by (auto simp: sm.covers_def)
    next
      case False
      then show ?thesis using IH that by (auto split: if_splits)
    qed
    show "i \<in> set work'" if "i < length es" "es' ! i \<noteq> es ! i" for i
    proof (cases "i = s \<and> ch")
      case True
      then show ?thesis using IH by auto
    next
      case False
      then have "es[s := Some x] ! i = es ! i" using same by (cases ch) (auto simp: nth_list_update)
      then show ?thesis using IH that by auto
    qed
  qed
qed


text \<open>The invariant of the loop: entries off the work list are stable under their block's transfer.\<close>

definition stable :: "checker \<Rightarrow> block list \<Rightarrow> entries \<Rightarrow> nat \<Rightarrow> bool" where
  "stable c bs es i \<longleftrightarrow> (\<forall>st. es ! i = Some st \<longrightarrow>
     (\<exists>st'. exec c (bs ! i) st = Some (Inr (False, st')) \<and> (\<forall>s\<in>set (bk_succs (bs ! i)). sm.covers es s st')))"

definition flow_inv :: "checker \<Rightarrow> block list \<Rightarrow> entries \<Rightarrow> nat list \<Rightarrow> bool" where
  "flow_inv c bs es work \<longleftrightarrow> length es = length bs
     \<and> (\<forall>i\<in>set work. i < length bs \<and> es ! i \<noteq> None)
     \<and> (\<forall>i<length bs. i \<notin> set work \<longrightarrow> stable c bs es i)"

lemma flow_inv_step:
  assumes inv: "flow_inv c bs es (i # work)" and st: "es ! i = Some st"
    and x: "exec c (bs ! i) st = Some (Inr (False, st'))"
    and p: "propagate c bs st' (bk_succs (bs ! i)) (es, work) = Some (Inr (es2, work2))"
  shows "flow_inv c bs es2 work2" "sm.grows es es2"
proof -
  note P = propagate_spec [OF p]
  from P show g: "sm.grows es es2" by blast
  have len: "length es2 = length es" using g by (simp add: sm.grows_def)
  have l: "length es = length bs" using inv by (simp add: flow_inv_def)
  show "flow_inv c bs es2 work2"
    unfolding flow_inv_def
  proof (intro conjI ballI allI impI)
    show "length es2 = length bs" using len l by simp
    fix k assume k: "k \<in> set work2"
    show "k < length bs" using P k inv l by (auto simp: flow_inv_def)
    show "es2 ! k \<noteq> None"
    proof (cases "k \<in> set work")
      case True
      then obtain s where s: "k < length es" "es ! k = Some s" using inv l by (auto simp: flow_inv_def)
      with g obtain s' where "es2 ! k = Some s'" unfolding sm.grows_def by blast
      then show ?thesis by simp
    qed (use P k in blast)
  next
    fix k assume k: "k < length bs" "k \<notin> set work2"
    then have same: "es2 ! k = es ! k" using P l by metis
    show "stable c bs es2 k"
    proof (cases "k = i")
      case True
      then show ?thesis using same st x P by (simp add: stable_def)
    next
      case False
      then have "stable c bs es k" using inv k P by (auto simp: flow_inv_def)
      then show ?thesis using same sm.covers_grows [OF _ g] unfolding stable_def by metis
    qed
  qed
qed

lemma flow_loop_fixpoint:
  "flow_inv c bs es work \<Longrightarrow> flow_loop c bs es work = Some (Inr (Some es')) \<Longrightarrow>
   flow_inv c bs es' [] \<and> sm.grows es es'"
proof (induction c bs es work rule: flow_loop.induct)
  case (1 c bs es work)
  show ?case
  proof (cases work)
    case Nil
    then show ?thesis using "1.prems" by (simp add: flow_loop.simps sm.grows_refl)
  next
    case (Cons i work')
    with "1.prems"(1) have i: "i < length bs" "i < length es" by (auto simp: flow_inv_def)
    from "1.prems"(2) Cons i obtain st st' q where
      st: "es ! i = Some st" and x: "exec c (bs ! i) st = Some (Inr (False, st'))"
      and p: "propagate c bs st' (bk_succs (bs ! i)) (es, work') = Some (Inr q)"
      and r: "flow_loop c bs (fst q) (snd q) = Some (Inr (Some es'))"
      by (subst (asm) flow_loop.simps) (auto simp: idx_def orpanic_Some andthen_Inr split: if_splits)
    have inv: "flow_inv c bs es (i # work')" using "1.prems"(1) Cons by simp
    have p': "propagate c bs st' (bk_succs (bs ! i)) (es, work') = Some (Inr (fst q, snd q))" using p by simp
    note S = flow_inv_step [OF inv st x p']
    have "flow_inv c bs es' [] \<and> sm.grows (fst q) es'"
      by (rule "1.IH" [of i work' "Some st" st "bs ! i" "(False, st')" q])
        (use Cons i st x p S(1) r in \<open>simp_all add: idx_def\<close>)
    then show ?thesis using sm.grows_trans [OF S(2)] by blast
  qed
qed

text \<open>Seeding: every entry present is on the work list, and every handler's state is covered.\<close>

definition seeded :: "block list \<Rightarrow> entries \<Rightarrow> nat list \<Rightarrow> bool" where
  "seeded bs es work \<longleftrightarrow> length es = length bs \<and> (\<forall>i\<in>set work. i < length bs \<and> es ! i \<noteq> None)
     \<and> (\<forall>i<length bs. es ! i \<noteq> None \<longrightarrow> i \<in> set work)"

lemma seeded_inv: "seeded bs es work \<Longrightarrow> flow_inv c bs es work"
  by (auto simp: seeded_def flow_inv_def stable_def)

lemma block_at_spec: "block_at k bs off = Some i \<Longrightarrow> k \<le> i \<and> i - k < length bs \<and> int (bk_start (bs ! (i - k))) = off"
proof (induction bs arbitrary: k)
  case (Cons b bs)
  show ?case
  proof (cases "int (bk_start b) = off")
    case False
    with Cons.prems Cons.IH [of "Suc k"] have "Suc k \<le> i \<and> i - Suc k < length bs
        \<and> int (bk_start (bs ! (i - Suc k))) = off" by auto
    moreover from this have "i - k = Suc (i - Suc k)" by linarith
    ultimately show ?thesis by simp
  qed (use Cons.prems in auto)
qed simp

lemma seeded_update:
  assumes s: "seeded bs es work" and w: "set work' = insert i (set work)" and i: "i < length bs"
  shows "seeded bs (es[i := Some x]) work'"
proof -
  have l: "length es = length bs" using s by (simp add: seeded_def)
  have n: "es[i := Some x] ! k = (if k = i then Some x else es ! k)" if "k < length bs" for k
    using that l by (simp add: nth_list_update)
  have 1: "k < length bs \<and> es ! k \<noteq> None" if "k \<in> set work" for k using s that by (simp add: seeded_def)
  have 2: "k \<in> set work" if "k < length bs" "es ! k \<noteq> None" for k using s that by (simp add: seeded_def)
  show ?thesis unfolding seeded_def w
  proof (intro conjI ballI allI impI)
    fix k assume "k \<in> insert i (set work)"
    then show "k < length bs" "es[i := Some x] ! k \<noteq> None" using 1 i n by (auto split: if_splits)
  next
    fix k assume "k < length bs" "es[i := Some x] ! k \<noteq> None"
    then show "k \<in> insert i (set work)" using 2 n by (cases "k = i") simp_all
  qed (simp add: l)
qed

lemma seed_all_spec:
  "seeded bs es work \<Longrightarrow> seed_all c bs hs (es, work) \<noteq> None \<and>
   (\<forall>es' work'. seed_all c bs hs (es, work) = Some (Inr (es', work')) \<longrightarrow> seeded bs es' work' \<and> sm.grows es es'
     \<and> (\<forall>h\<in>set hs. \<forall>i. block_at 0 bs (h_catch h) = Some i \<longrightarrow> sm.covers es' i (seed_stack c h)))"
proof (induction hs arbitrary: es work)
  case Nil
  then show ?case by (simp add: sm.grows_refl)
next
  case (Cons h hs)
  show ?case
  proof (cases "block_at 0 bs (h_catch h)")
    case None
    then show ?thesis using Cons.IH [OF Cons.prems] by simp
  next
    case (Some i)
    then have i: "i < length bs" "i < length es" using block_at_spec [OF Some] Cons.prems by (auto simp: seeded_def)
    let ?s = "seed_stack c h"
    have step: ?thesis if eq: "seed_all c bs (h # hs) (es, work) = seed_all c bs hs (es[i := Some x], work1)"
      and s1: "seeded bs (es[i := Some x]) work1" and g1: "sm.grows es (es[i := Some x])"
      and c1: "sm.covers (es[i := Some x]) i ?s" for x work1
    proof -
      note IH = Cons.IH [OF s1, folded eq]
      show ?thesis
      proof (intro conjI allI impI ballI)
        show "seed_all c bs (h # hs) (es, work) \<noteq> None" using IH by blast
        fix es' work' assume "seed_all c bs (h # hs) (es, work) = Some (Inr (es', work'))"
        note Q = IH [THEN conjunct2, THEN spec, THEN spec, THEN mp, OF this]
        note q = Q [THEN conjunct1] Q [THEN conjunct2, THEN conjunct1] Q [THEN conjunct2, THEN conjunct2]
        show "seeded bs es' work'" by (rule q(1))
        show "sm.grows es es'" by (rule sm.grows_trans [OF g1 q(2)])
        fix h' i' assume h': "h' \<in> set (h # hs)" "block_at 0 bs (h_catch h') = Some i'"
        show "sm.covers es' i' (seed_stack c h')"
        proof (cases "h' \<in> set hs")
          case False
          then have "h' = h" "i' = i" using h' Some by auto
          then show ?thesis using sm.covers_grows [OF c1 q(2)] by simp
        qed (use q(3) h'(2) in blast)
      qed
    qed
    show ?thesis
    proof (cases "es ! i")
      case None
      show ?thesis
      proof (rule step)
        show "seed_all c bs (h # hs) (es, work) = seed_all c bs hs (es[i := Some ?s], i # work)"
          using Some None i by (simp add: idx_def)
        show "seeded bs (es[i := Some ?s]) (i # work)"
          by (rule seeded_update [OF Cons.prems _ i(1)]) simp
        show "sm.grows es (es[i := Some ?s])" by (rule sm.grows_fill [OF None])
        show "sm.covers (es[i := Some ?s]) i ?s" by (rule sm.covers_fill [OF i(2)])
      qed
    next
      case (Some old)
      show ?thesis
      proof (cases "merge old ?s")
        case None
        then show ?thesis using \<open>block_at 0 bs (h_catch h) = Some i\<close> Some i by (simp add: idx_def fail_def)
      next
        case m: (Some r)
        obtain new ch where r: "r = (new, ch)" by force
        show ?thesis
        proof (rule step)
          show "seed_all c bs (h # hs) (es, work) = seed_all c bs hs (es[i := Some new], work)"
            using \<open>block_at 0 bs (h_catch h) = Some i\<close> Some i m r by (simp add: idx_def)
          show "seeded bs (es[i := Some new]) work"
          proof (rule seeded_update [OF Cons.prems _ i(1)])
            show "set work = insert i (set work)" using Cons.prems i Some by (auto simp: seeded_def)
          qed
          show "sm.grows es (es[i := Some new])" using sm.grows_merge [OF Some] m r by simp
          show "sm.covers (es[i := Some new]) i ?s" using sm.covers_merge [OF i(2)] m r by simp
        qed
      qed
    qed
  qed
qed

lemma flow_init_spec:
  assumes "bs \<noteq> []"
  shows "flow_init c bs \<noteq> None \<and> (\<forall>es work. flow_init c bs = Some (Inr (es, work)) \<longrightarrow>
    seeded bs es work \<and> sm.covers es 0 []
    \<and> (\<forall>h\<in>set (ck_table c). \<forall>i. block_at 0 bs (h_catch h) = Some i \<longrightarrow> sm.covers es i (seed_stack c h)))"
proof -
  let ?es = "(replicate (length bs) None)[0 := Some []]"
  have s: "seeded bs ?es [0]" using assms by (auto simp: seeded_def nth_list_update_if)
  have c0: "sm.covers ?es 0 []" using sm.covers_fill [of 0 "replicate (length bs) None" "[]"] assms by simp
  show ?thesis using seed_all_spec [OF s, of c "ck_table c"] sm.covers_grows [OF c0] assms
    by (auto simp: flow_init_def)
qed

section \<open>The dataflow returns\<close>

lemma edges_of_bound: "edges_of c bs j \<subseteq> {..<length bs}"
  by (auto simp: edges_of_def block_of_def next_of_def Let_def split: option.splits if_splits)

definition flow_ready :: "checker \<Rightarrow> code list \<Rightarrow> block list \<Rightarrow> bool" where
  "flow_ready c is bs \<longleftrightarrow> checked c is \<and> bs \<noteq> [] \<and> (\<forall>j<length bs. boundary is (bk_start (bs ! j))
     \<and> boundary is (bk_end (bs ! j)) \<and> bk_start (bs ! j) < length (ck_code c)
     \<and> set (bk_succs (bs ! j)) \<subseteq> {..<length bs})"

lemma cfg_ready: "checked c is \<Longrightarrow> cfg_ok c is os bs \<Longrightarrow> flow_ready c is bs"
  unfolding flow_ready_def
proof (intro conjI allI impI)
  assume ch: "checked c is" and g: "cfg_ok c is os bs"
  note d = checked_decoded [OF ch]
  from g have os: "offsets_ok c is os" and t: "tiles (length (ck_code c)) os bs" by (auto simp: cfg_ok_def)
  then show "bs \<noteq> []" by (auto simp: offsets_ok_def tiles_def)
  fix j assume j: "j < length bs"
  note B = block_bounds [OF d os t j]
  show "boundary is (bk_start (bs ! j))" "boundary is (bk_end (bs ! j))" by (rule B)+
  show "bk_start (bs ! j) < length (ck_code c)" using B by simp
  show "set (bk_succs (bs ! j)) \<subseteq> {..<length bs}"
    using g j edges_of_bound [of c bs j] by (simp add: cfg_ok_def succ_of_def)
qed simp

lemma propagate_total:
  assumes r: "flow_ready c is bs"
  shows "set ss \<subseteq> {..<length bs} \<Longrightarrow> length es = length bs \<Longrightarrow> propagate c bs st ss (es, work) \<noteq> None"
proof (induction ss arbitrary: es work)
  case (Cons s ss)
  then have s: "s < length bs" by simp
  then have b: "bk_start (bs ! s) < length (ck_code c)" using r by (simp add: flow_ready_def)
  show ?case
  proof (cases "es ! s")
    case None
    then show ?thesis using s Cons.prems Cons.IH by (simp add: idx_def)
  next
    case (Some old)
    then show ?thesis using s b Cons.prems Cons.IH
      by (cases "merge old st") (auto simp: idx_def fail_def)
  qed
qed simp

lemma flow_loop_total:
  "flow_ready c is bs \<Longrightarrow> flow_inv c bs es work \<Longrightarrow> flow_loop c bs es work \<noteq> None"
proof (induction c bs es work rule: flow_loop.induct)
  case (1 c bs es work)
  show ?case
  proof (cases work)
    case Nil
    then show ?thesis by (simp add: flow_loop.simps)
  next
    case (Cons i work')
    with "1.prems"(2) have i: "i < length bs" "i < length es" "length es = length bs" by (auto simp: flow_inv_def)
    obtain st where st: "es ! i = Some st" using "1.prems"(2) Cons by (auto simp: flow_inv_def)
    have eq: "flow_loop c bs es work = andthen (exec c (bs ! i) st) (\<lambda>r.
        if fst r then Some (Inr None)
        else andthen (propagate c bs (snd r) (bk_succs (bs ! i)) (es, work')) (\<lambda>q.
          flow_loop c bs (fst q) (snd q)))"
      using Cons i st by (subst flow_loop.simps) (simp add: idx_def)
    have "exec c (bs ! i) st \<noteq> None"
      using exec_from_total "1.prems"(1) i(1) by (auto simp: exec_def flow_ready_def)
    then consider (err) e where "exec c (bs ! i) st = Some (Inl e)"
      | (ok) r where "exec c (bs ! i) st = Some (Inr r)" by (metis option.exhaust sum.exhaust)
    then show ?thesis
    proof cases
      case err
      then show ?thesis by (simp add: eq)
    next
      case (ok r)
      show ?thesis
      proof (cases "fst r")
        case True
        then show ?thesis by (simp add: eq ok)
      next
        case False
        then have r: "r = (False, snd r)" by (cases r) simp
        have "propagate c bs (snd r) (bk_succs (bs ! i)) (es, work') \<noteq> None"
          using propagate_total [OF "1.prems"(1)] "1.prems"(1) i by (auto simp: flow_ready_def)
        then consider (perr) e where "propagate c bs (snd r) (bk_succs (bs ! i)) (es, work') = Some (Inl e)"
          | (pok) q where "propagate c bs (snd r) (bk_succs (bs ! i)) (es, work') = Some (Inr q)"
          by (metis option.exhaust sum.exhaust)
        then show ?thesis
        proof cases
          case perr
          then show ?thesis by (simp add: eq ok False)
        next
          case (pok q)
          have inv: "flow_inv c bs es (i # work')" using "1.prems"(2) Cons by simp
          have x: "exec c (bs ! i) st = Some (Inr (False, snd r))" using ok r by simp
          have "flow_inv c bs (fst q) (snd q)" using flow_inv_step(1) [OF inv st x, of "fst q" "snd q"] pok by simp
          then have "flow_loop c bs (fst q) (snd q) \<noteq> None"
            by (intro "1.IH" [of i work' "Some st" st "bs ! i" r q])
              (use Cons i st ok False pok "1.prems"(1) in \<open>simp_all add: idx_def\<close>)
          then show ?thesis by (simp add: eq ok False pok)
        qed
      qed
    qed
  qed
qed

lemma terminate_total:
  assumes ch: "checked c is" and g: "cfg_ok c is os bs"
  shows "terminate c bs \<noteq> None"
proof -
  from g have os: "offsets_ok c is os" and t: "tiles (length (ck_code c)) os bs" by (auto simp: cfg_ok_def)
  have "\<exists>ip. last_ip c b = Some ip" if b: "b \<in> set bs" for b
  proof -
    from b obtain j where "j < length bs" "b = bs ! j" by (auto simp: in_set_conv_nth)
    then show ?thesis using last_ip_spec [OF checked_decoded [OF ch] os t] by metis
  qed
  then have "terminate_from c bs \<noteq> None"
  proof (induction bs)
    case (Cons b bs)
    obtain ip where ip: "last_ip c b = Some ip" using Cons.prems [of b] by auto
    have "terminate_from c bs \<noteq> None" using Cons.IH Cons.prems by simp
    with ip show ?case by (auto simp: Let_def fail_def)
  qed simp
  then show ?thesis by (simp add: terminate_def)
qed

end
