(* ===== verification/VerifySound.thy ===== *)
theory VerifySound
  imports VerifyFlow
begin

text \<open>
  What acceptance by the verifier means: it always answers, the graph it builds is the right one, and
  along every path of that graph the operand stack never underflows and has one height per block.
\<close>

section \<open>The verifier always answers\<close>

lemma run_stages:
  assumes ne: "ck_code c \<noteq> []" and s: "ck_structure c = Some (Inr ())" and h: "handlers_check c = Some (Inr ())"
  obtains iz where "checked c iz" "blocks c \<noteq> None"
    "\<And>bs. blocks c = Some (Inr bs) \<Longrightarrow> \<exists>os. cfg_ok c iz os bs \<and> set (handler_offsets c) \<subseteq> set os"
proof -
  from s structure_sound obtain iz where ch: "checked c iz" by blast
  note d = checked_decoded [OF ch]
  have "\<forall>h\<in>set (ck_table c). boundary iz (nat (h_start h)) \<and> boundary iz (nat (h_end h))
      \<and> boundary iz (nat (h_catch h))"
    using handlers_ok [OF _ d] h by (auto simp: handlers_check_def)
  note B = blocks_spec [OF d ne this]
  have "\<exists>os. cfg_ok c iz os bs \<and> set (handler_offsets c) \<subseteq> set os" if "blocks c = Some (Inr bs)" for bs
    using B that by (meson subsetI)
  with B that [OF ch] show thesis by blast
qed

lemma run_checker_total: "run_checker c \<noteq> None"
proof (cases "ck_code c = []")
  case True
  then show ?thesis by (simp add: run_checker_def)
next
  case ne: False
  have s: "ck_structure c \<noteq> None" by (simp add: ck_structure_def structure_from_total)
  have h: "handlers_check c \<noteq> None" by (simp add: handlers_check_def handlers_total)
  show ?thesis
  proof (cases "ck_structure c = Some (Inr ()) \<and> handlers_check c = Some (Inr ())")
    case False
    then show ?thesis using ne s h
      by (auto simp: run_checker_def andthen_def split: option.splits sum.splits)
  next
    case True
    then obtain iz where iz: "checked c iz" "blocks c \<noteq> None"
      "\<And>bs. blocks c = Some (Inr bs) \<Longrightarrow> \<exists>os. cfg_ok c iz os bs \<and> set (handler_offsets c) \<subseteq> set os"
      using run_stages ne by metis
    show ?thesis
    proof (cases "\<exists>bs. blocks c = Some (Inr bs)")
      case False
      then obtain e where "blocks c = Some (Inl e)" using iz(2) by (metis option.exhaust sum.exhaust)
      then show ?thesis using ne True by (simp add: run_checker_def)
    next
      case True': True
      then obtain bs os where bs: "blocks c = Some (Inr bs)" "cfg_ok c iz os bs" using iz(3) by blast
      note r = cfg_ready [OF iz(1) bs(2)]
      have "flow c bs \<noteq> None"
        using flow_init_spec [of bs c] flow_loop_total [OF r] seeded_inv r
        by (fastforce simp: flow_def flow_ready_def andthen_def split: option.splits sum.splits)
      then show ?thesis using ne True bs(1) terminate_total [OF iz(1) bs(2)]
        by (auto simp: run_checker_def andthen_def split: option.splits sum.splits)
    qed
  qed
qed

text \<open>C5: \<^verbatim>\<open>Verify\<close> is total on programs whose functions have a signature (\<^verbatim>\<open>Typ\<close> is not nil, as in every
  program of this model).  Whatever the bytes, constants, handlers and types, it returns acceptance or
  a \<^verbatim>\<open>VerifyError\<close>: no index out of range, no loop that does not advance, and the dataflow reaches its
  end.\<close>

theorem verify_total: "\<exists>r. verify p = Some r"
proof -
  have "verify_constants p j vs \<noteq> None" for j vs
  proof (induction vs arbitrary: j)
    case (Cons v vs)
    then show ?case using run_checker_total
      by (cases v) (auto simp: andthen_def split: option.splits sum.splits)
  qed simp
  then show ?thesis using run_checker_total
    by (auto simp: verify_def andthen_def split: option.splits sum.splits)
qed



section \<open>The transfer function is monotone up to type errors\<close>

text \<open>
  A more precise state steps to a more precise one, or is refused for the type of an operand.  It is
  never refused for its height.
\<close>

definition type_error :: "'a res \<Rightarrow> bool" where
  "type_error r \<longleftrightarrow> (\<exists>e. r = Some (Inl e) \<and> ve_err e = ErrTypeMismatch)"

definition refines :: "(bool \<times> stack) res \<Rightarrow> stack \<Rightarrow> bool" where
  "refines r t \<longleftrightarrow> (\<exists>s. r = Some (Inr (False, s)) \<and> stack_le s t) \<or> type_error r"

lemma refines_mismatch [simp]: "refines (mismatch c ip op) t"
  by (simp add: refines_def type_error_def mismatch_def fail_def)

lemma refines_Inr [simp]: "refines (Some (Inr (False, s))) t \<longleftrightarrow> stack_le s t"
  by (auto simp: refines_def type_error_def)

lemma stack_le_simps [simp]:
  "stack_le [] t \<longleftrightarrow> t = []" "stack_le s [] \<longleftrightarrow> s = []"
  "stack_le (a # s) (b # t) \<longleftrightarrow> slot_le a b \<and> stack_le s t"
  by (auto simp: stack_le_def)

lemma stack_le_ConsR: "stack_le s (b # t) \<longleftrightarrow> (\<exists>a s'. s = a # s' \<and> slot_le a b \<and> stack_le s' t)"
  by (auto simp: stack_le_def list_all2_Cons2)

lemma stack_le_refl [simp]: "stack_le s s"
  by (rule sm.le_refl)

lemma stack_le_append: "stack_le s t \<Longrightarrow> stack_le s' t' \<Longrightarrow> stack_le (s @ s') (t @ t')"
  by (simp add: stack_le_def list_all2_appendI)

lemma stack_le_append_same [simp]: "stack_le s t \<Longrightarrow> stack_le (p @ s) (p @ t)"
  by (rule stack_le_append) simp_all

lemma stack_le_drop: "stack_le s t \<Longrightarrow> stack_le (drop n s) (drop n t)"
  by (simp add: stack_le_def)

lemma slot_le_kind: "slot_le (slot_of_kind a) (slot_of_kind b) \<longleftrightarrow> b = a \<or> b = KindAny"
  by (simp add: slot_le_def slot_of_kind_def)

lemma pop_kinds_refines:
  "pop_kinds c ip op ks t = Some (Inr t') \<Longrightarrow> stack_le s t \<Longrightarrow>
   (\<exists>s'. pop_kinds c ip op ks s = Some (Inr s') \<and> stack_le s' t') \<or> type_error (pop_kinds c ip op ks s)"
proof (induction ks arbitrary: s t)
  case (Cons k ks)
  then obtain b t1 where b: "t = b # t1" "pop_kinds c ip op ks t1 = Some (Inr t')"
    by (auto simp: mismatch_def fail_def split: list.splits if_splits)
  then obtain a s1 where a: "s = a # s1" "stack_le s1 t1" using Cons.prems(2) by (auto simp: stack_le_ConsR)
  show ?case using Cons.IH [OF b(2) a(2)] a(1)
    by (auto simp: mismatch_def fail_def type_error_def)
qed simp

lemma andthen_type_error: "type_error r \<Longrightarrow> type_error (andthen r f)"
  by (auto simp: type_error_def)

lemma fixed_step_refines:
  assumes "fixed_step c t op ip = Some (Inr (False, t'))" "stack_le s t"
  shows "refines (fixed_step c s op ip) t'"
proof -
  let ?ks = "pops (type_of op)" and ?ps = "rev (map slot_of_kind (pushes (type_of op)))"
  have len: "length s = length t" using assms(2) by (rule stack_le_length)
  from assms(1) have c: "\<not> (?ks = [] \<and> pushes (type_of op) = [])" "\<not> length t < length ?ks"
    by (auto simp: fixed_step_def Let_def underflow_def fail_def split: if_splits)
  with assms(1) obtain t1 where t1: "pop_kinds c ip op ?ks t = Some (Inr t1)" "t' = ?ps @ t1"
    by (auto simp: fixed_step_def Let_def andthen_Inr)
  have eq: "fixed_step c s op ip = andthen (pop_kinds c ip op ?ks s) (\<lambda>st'. Some (Inr (False, ?ps @ st')))"
    using c len by (auto simp: fixed_step_def Let_def)
  from pop_kinds_refines [OF t1(1) assms(2)] show ?thesis
  proof
    assume "\<exists>s'. pop_kinds c ip op ?ks s = Some (Inr s') \<and> stack_le s' t1"
    then show ?thesis by (auto simp: eq t1(2))
  next
    assume "type_error (pop_kinds c ip op ?ks s)"
    then show ?thesis by (simp add: eq refines_def andthen_type_error)
  qed
qed

lemma tys_equals_map: "tys_equals rs rs' \<Longrightarrow> list_all2 slot_le (map slot_of_type rs') (map slot_of_type rs)"
proof (induction rs arbitrary: rs')
  case (Cons r rs)
  then show ?case by (cases rs') (auto simp: slot_le_def slot_of_type_def dest: equals_kind)
qed simp

lemma tys_equals_length: "tys_equals rs rs' \<Longrightarrow> length rs = length rs'"
proof (induction rs arbitrary: rs')
  case (Cons r rs)
  then show ?case by (cases rs') auto
qed simp

lemma ck_call_refines:
  assumes "ck_call c t ip op tail = Some (Inr (False, t'))" "stack_le s t"
  shows "refines (ck_call c s ip op tail) t'"
proof -
  from assms(1) obtain b t1 ps rs where b: "t = b # t1" "sl_typ b = Some (TFunc ps rs)" "\<not> length t1 < length ps"
    "t' = (if tail then drop (length ps) t1 else rev (map slot_of_type rs) @ drop (length ps) t1)"
    by (auto simp: ck_call_def underflow_def fail_def Let_def split: list.splits option.splits gotype.splits if_splits)
  from assms(2) b(1) obtain a s1 where a: "s = a # s1" "slot_le a b" "stack_le s1 t1"
    by (auto simp: stack_le_ConsR)
  from a(2) b(2) obtain ps' rs' where f: "sl_typ a = Some (TFunc ps' rs')" "tys_equals ps ps'" "tys_equals rs rs'"
    by (auto simp: slot_le_def split: option.splits gotype.splits)
  have len: "length ps' = length ps" "length s1 = length t1"
    using tys_equals_length [OF f(2)] stack_le_length [OF a(3)] by simp_all
  have "stack_le (rev (map slot_of_type rs')) (rev (map slot_of_type rs))"
    unfolding stack_le_def list_all2_rev by (rule tys_equals_map [OF f(3)])
  then show ?thesis using a(1,3) b f(1) len
    by (auto simp: ck_call_def Let_def intro: stack_le_append stack_le_drop)
qed


lemma bitwise_le:
  "a' = a \<or> a' = KindAny \<Longrightarrow> b' = b \<or> b' = KindAny \<Longrightarrow> bitwise a' b' = bitwise a b \<or> bitwise a' b' = KindAny"
  by (auto simp: bitwise_def)

lemma unify_le:
  "a' = a \<or> a' = KindAny \<Longrightarrow> b' = b \<or> b' = KindAny \<Longrightarrow> unify a' b' = unify a b \<or> unify a' b' = KindAny"
  by (auto simp: unify_def)

lemma slot_le_kindD: "slot_le a b \<Longrightarrow> sl_kind b = sl_kind a \<or> sl_kind b = KindAny"
  by (simp add: slot_le_def)

lemma step_refines_fixed:
  assumes "op \<notin> {NOP, UNREACHABLE, BR, LOCAL_TEE, GLOBAL_TEE, LOCAL_GET, UPVAL_GET, CONST_GET, GLOBAL_GET,
      GLOBAL_SET, DUP, SWAP, SELECT, I32_AND, I32_OR, I32_XOR, CALL, RETURN_CALL, RETURN, STRUCT_NEW, MAP_NEW,
      CLOSURE_NEW}"
  shows "step c st inst op ip = fixed_step c st op ip"
  using assms by (simp add: step_def)

lemma step_refines:
  assumes t: "step c t inst op ip = Some (Inr (False, t'))" and le: "stack_le s t"
  shows "refines (step c s inst op ip) t'"
proof -
  have len: "length s = length t" using le by (rule stack_le_length)
  consider "op \<in> {NOP, UNREACHABLE, BR}" | "op = LOCAL_TEE" | "op = GLOBAL_TEE"
    | "op \<in> {LOCAL_GET, UPVAL_GET, CONST_GET, GLOBAL_GET}" | "op = GLOBAL_SET" | "op = DUP" | "op = SWAP"
    | "op = SELECT" | "op \<in> {I32_AND, I32_OR, I32_XOR}" | "op \<in> {CALL, RETURN_CALL}" | "op = RETURN"
    | "op = STRUCT_NEW" | "op \<in> {MAP_NEW, CLOSURE_NEW}"
    | "op \<notin> {NOP, UNREACHABLE, BR, LOCAL_TEE, GLOBAL_TEE, LOCAL_GET, UPVAL_GET, CONST_GET, GLOBAL_GET,
      GLOBAL_SET, DUP, SWAP, SELECT, I32_AND, I32_OR, I32_XOR, CALL, RETURN_CALL, RETURN, STRUCT_NEW, MAP_NEW,
      CLOSURE_NEW}" by blast
  then show ?thesis
  proof cases
    case 1
    then show ?thesis using t le by (auto simp: step_def)
  next
    case 2
    then show ?thesis using t le by (auto simp: step_def underflow_def fail_def split: if_splits)
  next
    case 3
    then obtain b t1 v y where b: "t = b # t1" "operand inst 0 = Some v"
      "idx (p_globals (ck_prog c)) (unat v) = Some y" "t' = t"
      using t by (cases t) (auto simp: step_def underflow_def mismatch_def fail_def orpanic_Some split: if_splits)
    with le 3 show ?thesis by (auto simp: step_def stack_le_ConsR)
  next
    case 4
    then show ?thesis using t le
      by (auto simp: step_def pool_slot_def orpanic_Some slot_le_refl)
  next
    case 5
    then obtain b t1 v y where b: "t = b # t1" "operand inst 0 = Some v"
      "idx (p_globals (ck_prog c)) (unat v) = Some y" "t' = t1"
      using t by (auto simp: step_def underflow_def mismatch_def fail_def orpanic_Some split: list.splits if_splits)
    with le 5 show ?thesis by (auto simp: step_def stack_le_ConsR)
  next
    case 6
    then show ?thesis using t le
      by (auto simp: step_def underflow_def fail_def stack_le_ConsR split: list.splits)
  next
    case 7
    then obtain a b t1 where "t = a # b # t1" "t' = b # a # t1" using t
      by (auto simp: step_def underflow_def fail_def split: list.splits)
    with le 7 show ?thesis by (auto simp: step_def stack_le_ConsR)
  next
    case 8
    then obtain x b a t1 where b: "t = x # b # a # t1" "t' = slot_of_kind (unify (sl_kind a) (sl_kind b)) # t1"
      using t by (auto simp: step_def underflow_def fail_def split: list.splits)
    then obtain x' b' a' s1 where s: "s = x' # b' # a' # s1" "slot_le b' b" "slot_le a' a" "stack_le s1 t1"
      using le by (auto simp: stack_le_ConsR)
    have "unify (sl_kind a) (sl_kind b) = unify (sl_kind a') (sl_kind b') \<or> unify (sl_kind a) (sl_kind b) = KindAny"
      by (rule unify_le) (use s slot_le_kindD in auto)
    with 8 s b(2) show ?thesis by (auto simp: step_def slot_le_kind)
  next
    case 9
    then obtain b a t1 where b: "t = b # a # t1" "t' = slot_of_kind (bitwise (sl_kind a) (sl_kind b)) # t1"
      using t by (auto simp: step_def underflow_def mismatch_def fail_def split: list.splits if_splits)
    then obtain b' a' s1 where s: "s = b' # a' # s1" "slot_le b' b" "slot_le a' a" "stack_le s1 t1"
      using le by (auto simp: stack_le_ConsR)
    have "bitwise (sl_kind a) (sl_kind b) = bitwise (sl_kind a') (sl_kind b') \<or> bitwise (sl_kind a) (sl_kind b) = KindAny"
      by (rule bitwise_le) (use s slot_le_kindD in auto)
    with 9 s b(2) show ?thesis by (auto simp: step_def slot_le_kind)
  next
    case 10
    then show ?thesis using t le ck_call_refines by (auto simp: step_def)
  next
    case 11
    then show ?thesis using t le len by (auto simp: step_def underflow_def fail_def split: if_splits)
  next
    case 12
    then obtain v ty where v: "operand inst 0 = Some v" "idx (p_types (ck_prog c)) (unat v) = Some ty"
      and r: "(case ty of TStruct fs \<Rightarrow>
              if length t < length fs then underflow c ip op
              else Some (Inr (False, \<lparr>sl_kind = KindRef, sl_typ = Some ty\<rparr> # drop (length fs) t))
          | _ \<Rightarrow> Some (Inr (True, t))) = Some (Inr (False, t'))"
      using t by (auto simp: step_def orpanic_Some)
    from r obtain fs where "ty = TStruct fs"
      "\<not> length t < length fs" "t' = \<lparr>sl_kind = KindRef, sl_typ = Some (TStruct fs)\<rparr> # drop (length fs) t"
      by (cases ty) (auto simp: underflow_def fail_def split: if_splits)
    note v = v(1) v(2) [unfolded this(1)] this(2,3)
    with 12 le len show ?thesis by (simp add: step_def slot_le_refl stack_le_drop)
  next
    case 13
    then show ?thesis using t by (auto simp: step_def)
  next
    case 14
    then show ?thesis using t le fixed_step_refines by (simp add: step_refines_fixed)
  qed
qed

lemma exec_from_refines:
  "exec_from c e ip t = Some (Inr (False, t')) \<Longrightarrow> stack_le s t \<Longrightarrow> refines (exec_from c e ip s) t'"
proof (induction c e ip t arbitrary: s rule: exec_from.induct)
  case (1 c e ip t)
  show ?case
  proof (cases "ip < e")
    case False
    then show ?thesis using "1.prems" by (simp add: exec_from.simps)
  next
    case True
    let ?op = "ck_code c ! ip" and ?stop = "\<lambda>op. op = RETURN \<or> op = RETURN_CALL \<or> op = UNREACHABLE \<or> op = THROW"
    from "1.prems"(1) True obtain t1 where l: "\<not> length (ck_code c) \<le> ip"
      and t1: "step c t (drop ip (ck_code c)) ?op ip = Some (Inr (False, t1))"
      and r: "(if ?stop ?op then Some (Inr (False, t1))
        else orpanic (ck_width (ck_code c) ip) (\<lambda>w. exec_from c e (ip + w) t1)) = Some (Inr (False, t'))"
      by (subst (asm) exec_from.simps) (auto simp: Let_def andthen_Inr split: if_splits)
    from step_refines [OF t1 "1.prems"(2)] consider
      (ok) s1 where "step c s (drop ip (ck_code c)) ?op ip = Some (Inr (False, s1))" "stack_le s1 t1"
      | (err) "type_error (step c s (drop ip (ck_code c)) ?op ip)" by (auto simp: refines_def)
    then show ?thesis
    proof cases
      case err
      then show ?thesis using True l
        by (subst exec_from.simps) (simp add: Let_def refines_def andthen_type_error)
    next
      case (ok s1)
      have eq: "exec_from c e ip s = (if ?stop ?op then Some (Inr (False, s1))
        else orpanic (ck_width (ck_code c) ip) (\<lambda>w. exec_from c e (ip + w) s1))"
        using True l ok(1) by (subst exec_from.simps) (simp add: Let_def)
      show ?thesis
      proof (cases "?stop ?op")
        case True': True
        then show ?thesis using r ok(2) unfolding eq by auto
      next
        case False
        with r obtain w where w: "ck_width (ck_code c) ip = Some w"
          "exec_from c e (ip + w) t1 = Some (Inr (False, t'))" by (auto simp: orpanic_Some)
        have "refines (exec_from c e (ip + w) s1) t'"
          by (rule "1.IH" [OF True l refl t1 refl _ _ w(1) w(2) ok(2)]) (use False in simp_all)
        then show ?thesis using eq False w(1) by simp
      qed
    qed
  qed
qed


section \<open>Paths\<close>

text \<open>
  The states the stack can be in at the start of a block: at the entry, at a catch block when an
  exception arrives, and after any block the path ran through without a refusal.
\<close>

inductive reach :: "checker \<Rightarrow> block list \<Rightarrow> nat \<Rightarrow> stack \<Rightarrow> bool" for c bs where
  entry: "reach c bs 0 []"
| catch: "h \<in> set (ck_table c) \<Longrightarrow> block_at 0 bs (h_catch h) = Some i \<Longrightarrow> reach c bs i (seed_stack c h)"
| edge: "reach c bs i st \<Longrightarrow> exec c (bs ! i) st = Some (Inr (False, st')) \<Longrightarrow>
    s \<in> set (bk_succs (bs ! i)) \<Longrightarrow> reach c bs s st'"

lemma exec_refines:
  "exec c b t = Some (Inr (False, t')) \<Longrightarrow> stack_le s t \<Longrightarrow> refines (exec c b s) t'"
  by (simp add: exec_def exec_from_refines)

lemma stable_at:
  assumes "flow_inv c bs es []" "i < length bs" "es ! i = Some t"
  shows "\<exists>t'. exec c (bs ! i) t = Some (Inr (False, t')) \<and> (\<forall>s\<in>set (bk_succs (bs ! i)). sm.covers es s t')"
proof -
  have "stable c bs es i" using assms(1,2) by (simp add: flow_inv_def)
  then show ?thesis using assms(3) unfolding stable_def by blast
qed

lemma flow_covers:
  assumes f: "flow c bs = Some (Inr (Some es))" and ne: "bs \<noteq> []"
  shows "reach c bs i st \<Longrightarrow> sm.covers es i st" and "flow_inv c bs es []"
proof -
  from f obtain es0 w0 where i: "flow_init c bs = Some (Inr (es0, w0))" "flow_loop c bs es0 w0 = Some (Inr (Some es))"
    by (auto simp: flow_def andthen_Inr)
  from flow_init_spec [OF ne, of c] i(1) have I: "seeded bs es0 w0" "sm.covers es0 0 []"
    "\<And>h i. h \<in> set (ck_table c) \<Longrightarrow> block_at 0 bs (h_catch h) = Some i \<Longrightarrow> sm.covers es0 i (seed_stack c h)"
    by blast+
  from flow_loop_fixpoint [OF seeded_inv [OF I(1)] i(2)] have inv: "flow_inv c bs es []"
    and g: "sm.grows es0 es" by blast+
  show "flow_inv c bs es []" by (rule inv)
  show "sm.covers es i st" if "reach c bs i st"
    using that
  proof induction
    case entry
    show ?case by (rule sm.covers_grows [OF I(2) g])
  next
    case (catch h i)
    then show ?case using sm.covers_grows [OF I(3) g] by blast
  next
    case (edge i st st' s)
    then obtain t where t: "i < length bs" "es ! i = Some t" "stack_le st t"
      using inv by (auto simp: sm.covers_def flow_inv_def)
    with inv obtain t' where t': "exec c (bs ! i) t = Some (Inr (False, t'))" "sm.covers es s t'"
      using edge.hyps(3) stable_at [OF inv t(1,2)] by blast
    from exec_refines [OF t'(1) t(3)] edge.hyps(2) have "stack_le st' t'"
      by (auto simp: refines_def type_error_def)
    then show ?case using t'(2) sm.covers_le by blast
  qed
qed

text \<open>C1: Stack safety.  When the dataflow of an accepted slot runs to its fixpoint, then on every path
  of the control-flow graph, through any number of iterations and through any handler, the next block
  runs without a stack underflow (the only refusal left is the type of an operand on that path), and
  all paths to a block arrive with the same stack height.\<close>

theorem flow_safe:
  assumes "flow c bs = Some (Inr (Some es))" and "bs \<noteq> []" and "reach c bs i st"
  shows "((\<exists>st'. exec c (bs ! i) st = Some (Inr (False, st'))) \<or> type_error (exec c (bs ! i) st))
    \<and> (\<forall>st2. reach c bs i st2 \<longrightarrow> length st2 = length st)"
proof -
  from flow_covers(1) [OF assms(1,2)] have cv: "\<And>st. reach c bs i st \<Longrightarrow> sm.covers es i st" .
  from cv [OF assms(3)] obtain t where t: "i < length es" "es ! i = Some t" "stack_le st t"
    by (auto simp: sm.covers_def)
  with flow_covers(2) [OF assms(1,2)] obtain t' where "exec c (bs ! i) t = Some (Inr (False, t'))"
    using stable_at by (metis flow_inv_def)
  from exec_refines [OF this t(3)] have "(\<exists>st'. exec c (bs ! i) st = Some (Inr (False, st'))) \<or> type_error (exec c (bs ! i) st)"
    by (auto simp: refines_def)
  moreover have "length st2 = length st" if "reach c bs i st2" for st2
    using cv [OF that] t stack_le_length [OF t(3)] by (auto simp: sm.covers_def dest: stack_le_length)
  ultimately show ?thesis by blast
qed

definition loop_fn :: gofunction where
  "loop_fn = \<lparr>fn_params = [], fn_returns = [], fn_locals = [], fn_captures = [],
     fn_code = [I32_CONST, 1, 0, 0, 0, BR_IF, 0xF8, 0xFF, RETURN], fn_handlers = []\<rparr>"

definition empty_prog :: program where
  "empty_prog = \<lparr>p_code = [], p_locals = [], p_globals = [], p_constants = [], p_types = [], p_handlers = []\<rparr>"

definition loop_ck :: checker where
  "loop_ck = new_checker empty_prog 1 loop_fn"

definition loop_blocks :: "block list" where
  "loop_blocks = [\<lparr>bk_start = 0, bk_end = 8, bk_succs = [0, 1], bk_preds = [0]\<rparr>,
     \<lparr>bk_start = 8, bk_end = 9, bk_succs = [], bk_preds = [0]\<rparr>]"

lemma loop_blocks: "blocks loop_ck = Some (Inr loop_blocks)"
  by code_simp

lemma loop_flow: "flow loop_ck loop_blocks = Some (Inr (Some [Some [], Some []]))"
  by code_simp

theorem flow_safe_witness:
  "(\<exists>st'. exec loop_ck (loop_blocks ! 0) [] = Some (Inr (False, st'))) \<or> type_error (exec loop_ck (loop_blocks ! 0) [])"
  using flow_safe [OF loop_flow _ reach.entry] by (simp add: loop_blocks_def)


section \<open>Limits of the graph\<close>

text \<open>
  A \<^verbatim>\<open>BR_TABLE\<close> does not close its block.  In \<open>gap_fn\<close> the table's only target is the \<^verbatim>\<open>DROP\<close> at offset
  10, but the block runs on to the \<^verbatim>\<open>RETURN\<close> behind the table, so the target gets no edge.  In
  \<open>fall_fn\<close> the body's last instruction is a \<^verbatim>\<open>BR_IF\<close>, whose block has a successor (itself).
\<close>

definition gap_fn :: gofunction where
  "gap_fn = loop_fn\<lparr>fn_code := [I32_CONST, 0, 0, 0, 0, BR_TABLE, 0, 1, 0, RETURN, DROP, RETURN]\<rparr>"

definition fall_fn :: gofunction where
  "fall_fn = loop_fn\<lparr>fn_code := [I32_CONST, 0, 0, 0, 0, BR_IF, 0xF8, 0xFF]\<rparr>"

text \<open>
  The verifier accepts both.  In the first, the only instruction control can reach from the
  \<^verbatim>\<open>BR_TABLE\<close> underflows the stack the table leaves behind; in the second, the last instruction is a
  conditional branch, so control falls off the end of the function.
\<close>

lemma verify_gaps:
  "run_checker (new_checker empty_prog 1 gap_fn) = Some (Inr ())
   \<and> targets (fn_code gap_fn) 5 = Some [10]
   \<and> step (new_checker empty_prog 1 gap_fn) [slot_of_kind KindI32] (drop 5 (fn_code gap_fn)) BR_TABLE 5
       = Some (Inr (False, []))
   \<and> step (new_checker empty_prog 1 gap_fn) [] (drop 10 (fn_code gap_fn)) DROP 10
       = underflow (new_checker empty_prog 1 gap_fn) 10 DROP
   \<and> run_checker (new_checker empty_prog 1 fall_fn) = Some (Inr ())
   \<and> starts_at (fn_code fall_fn) 0 = [0, 5] \<and> fn_code fall_fn ! 5 = BR_IF"
  by code_simp

end
