(* ===== verification/Blocks.thy ===== *)
theory Blocks
  imports Verify
begin

text \<open>
  The basic blocks the optimizer works on (\<^verbatim>\<open>analysis/blocks.go\<close>).  Unlike the verifier's, a target must be
  the start of a block, a branch past the end is no edge in any function, and edge lists are free of
  duplicates.
\<close>

section \<open>Results of a pass\<close>

text \<open>\<open>None\<close> is a Go panic; the passes' one error is \<^verbatim>\<open>ErrInvalidJump\<close>.\<close>

datatype pass_error = InvalidJump

type_synonym 'a pres = "(pass_error + 'a) option"

definition pbind :: "'a pres \<Rightarrow> ('a \<Rightarrow> 'b pres) \<Rightarrow> 'b pres" where
  "pbind r f = (case r of None \<Rightarrow> None | Some (Inl e) \<Rightarrow> Some (Inl e) | Some (Inr x) \<Rightarrow> f x)"

definition pok :: "'a \<Rightarrow> 'a pres" where
  "pok x = Some (Inr x)"

lemma pbind_simps [simp]:
  "pbind None f = None" "pbind (Some (Inl e)) f = Some (Inl e)" "pbind (Some (Inr x)) f = f x" "pbind (pok x) f = f x"
  by (simp_all add: pbind_def pok_def)

lemma pbind_ok: "pbind r f = pok y \<longleftrightarrow> (\<exists>x. r = pok x \<and> f x = pok y)"
  by (auto simp: pbind_def pok_def split: option.splits sum.splits)

definition need :: "'a option \<Rightarrow> ('a \<Rightarrow> 'b pres) \<Rightarrow> 'b pres" where
  "need r f = (case r of None \<Rightarrow> None | Some x \<Rightarrow> f x)"

lemma need_simps [simp]: "need None f = None" "need (Some x) f = f x"
  by (simp_all add: need_def)

lemma need_cong [fundef_cong]: "r = r' \<Longrightarrow> (\<And>x. r' = Some x \<Longrightarrow> f x = g x) \<Longrightarrow> need r f = need r' g"
  by (auto simp: need_def split: option.split)

lemma pbind_cong [fundef_cong]: "r = r' \<Longrightarrow> (\<And>x. r' = Some (Inr x) \<Longrightarrow> f x = g x) \<Longrightarrow> pbind r f = pbind r' g"
  by (auto simp: pbind_def split: option.split sum.split)

lemma need_ok: "need r f = pok y \<longleftrightarrow> (\<exists>x. r = Some x \<and> f x = pok y)"
  by (auto simp: need_def pok_def split: option.splits)

section \<open>Block boundaries\<close>

fun ana_mark :: "nat \<Rightarrow> int list \<Rightarrow> nat list pres" where
  "ana_mark n [] = pok []"
| "ana_mark n (t # ts) =
     (if t < 0 \<or> int n < t then Some (Inl InvalidJump)
      else pbind (ana_mark n ts) (\<lambda>os. pok ((if t < int n then [nat t] else []) @ os)))"

definition ana_offsets1 :: "code \<Rightarrow> nat \<Rightarrow> nat \<Rightarrow> nat list pres" where
  "ana_offsets1 c ip next =
     (let op = c ! ip; after = (if next < length c then [next] else []) in
      if op = UNREACHABLE \<or> op = RETURN \<or> op = RETURN_CALL \<or> op = THROW then pok after
      else if op = BR \<or> op = BR_IF \<or> op = BR_TABLE then
        need (targets c ip) (\<lambda>ts. pbind (ana_mark (length c) ts)
          (\<lambda>os. pok (os @ (if op \<noteq> BR_TABLE then after else []))))
      else pok [])"

function ana_offsets :: "code \<Rightarrow> nat \<Rightarrow> nat list pres" where
  "ana_offsets c ip =
     (if ip < length c
      then need (instr_width (drop ip c)) (\<lambda>w. pbind (ana_offsets1 c ip (ip + w)) (\<lambda>os.
        pbind (ana_offsets c (ip + w)) (\<lambda>os'. pok (os @ os'))))
      else pok [])"
  by pat_completeness auto
termination
  by (relation "measure (\<lambda>(c, ip). length c - ip)") (auto dest: instr_width_pos)

declare ana_offsets.simps [simp del]

definition ana_handler_offsets :: "nat \<Rightarrow> handler list \<Rightarrow> nat list" where
  "ana_handler_offsets n hs = concat (map (\<lambda>h.
     map nat (filter (\<lambda>off. 0 < off \<and> off < int n) [h_start h, h_end h, h_catch h])) hs)"

section \<open>Edges\<close>

function ana_last :: "code \<Rightarrow> nat \<Rightarrow> nat \<Rightarrow> nat option" where
  "ana_last c e ip =
     (if ip < e
      then case instr_width (drop ip c) of None \<Rightarrow> None
           | Some w \<Rightarrow> if e \<le> ip + w then Some ip else ana_last c e (ip + w)
      else Some ip)"
  by pat_completeness auto
termination
  by (relation "measure (\<lambda>(c, e, ip). e - ip)") (auto dest: instr_width_pos)

declare ana_last.simps [simp del]

fun starts_block :: "nat \<Rightarrow> block list \<Rightarrow> nat \<Rightarrow> nat option" where
  "starts_block k [] dst = None"
| "starts_block k (b # bs) dst = (if bk_start b = dst then Some k else starts_block (Suc k) bs dst)"

definition ana_link :: "nat \<Rightarrow> nat \<Rightarrow> int \<Rightarrow> block list \<Rightarrow> block list pres" where
  "ana_link n src dst bs =
     (if dst = int n then pok bs
      else case (if dst < 0 then None else starts_block 0 bs (nat dst)) of
          Some i \<Rightarrow> pok (add_edge src i bs)
        | None \<Rightarrow> Some (Inl InvalidJump))"

fun ana_link_all :: "nat \<Rightarrow> nat \<Rightarrow> int list \<Rightarrow> block list \<Rightarrow> block list pres" where
  "ana_link_all n src [] bs = pok bs"
| "ana_link_all n src (t # ts) bs = pbind (ana_link n src t bs) (ana_link_all n src ts)"

definition ana_edges1 :: "code \<Rightarrow> nat \<Rightarrow> block list \<Rightarrow> block list pres" where
  "ana_edges1 c j bs =
     need (ana_last c (bk_end (bs ! j)) (bk_start (bs ! j))) (\<lambda>ip.
       if length c \<le> ip then pok bs
       else let op = c ! ip in
         if op = UNREACHABLE \<or> op = RETURN \<or> op = RETURN_CALL \<or> op = THROW then pok bs
         else if op = BR \<or> op = BR_IF \<or> op = BR_TABLE then
           need (targets c ip) (\<lambda>ts. pbind (ana_link_all (length c) j ts bs)
             (\<lambda>bs'. pok (if op = BR_IF then chain j bs' else bs')))
         else pok (chain j bs))"

fun ana_edges :: "code \<Rightarrow> nat list \<Rightarrow> block list \<Rightarrow> block list pres" where
  "ana_edges c [] bs = pok bs"
| "ana_edges c (j # js) bs = pbind (ana_edges1 c j bs) (ana_edges c js)"

definition compact :: "block \<Rightarrow> block" where
  "compact b = b\<lparr>bk_succs := remdups_adj (sort (bk_succs b)), bk_preds := remdups_adj (sort (bk_preds b))\<rparr>"

definition ana_blocks :: "code \<Rightarrow> handler list \<Rightarrow> block list pres" where
  "ana_blocks c hs =
     pbind (ana_offsets c 0) (\<lambda>os.
       let bs = cut_blocks (length c) (remdups_adj (sort (0 # os @ ana_handler_offsets (length c) hs))) in
       pbind (ana_edges c [0..<length bs] bs) (\<lambda>bs'. pok (map compact bs')))"

end
