(* ===== verification/Relink.thy ===== *)
theory Relink
  imports Blocks
begin

text \<open>
  What the passes that move code share: the displacements of a branch, rewriting them in place, and
  the layout of an edited body.  A \<open>piece\<close> is a part of the old code with what it becomes: an
  instruction that is kept, or a run of instructions that is replaced.
\<close>

lemma simple_widths [width_simps]:
  "widths (type_of NOP) = []" "widths (type_of DROP) = []" "widths (type_of RETURN) = []"
  "widths (type_of UNREACHABLE) = []" "widths (type_of I32_CONST) = [4]"
  by code_simp+

section \<open>Displacements\<close>

definition disps :: "code \<Rightarrow> int list option" where
  "disps i =
     (if i ! 0 = BR \<or> i ! 0 = BR_IF then map_option (\<lambda>v. [read_i16 v]) (operand i 0)
      else if i ! 0 = BR_TABLE then map_option (\<lambda>vs. map read_i16 (tl vs)) (operands i)
      else Some [])"

definition branching :: "code \<Rightarrow> bool" where
  "branching i \<longleftrightarrow> i ! 0 = BR \<or> i ! 0 = BR_IF \<or> i ! 0 = BR_TABLE"

definition whole :: "code \<Rightarrow> bool" where
  "whole i \<longleftrightarrow> instr_width i = Some (length i)"

lemma whole_pos: "whole i \<Longrightarrow> 0 < length i"
  by (auto simp: whole_def dest: instr_width_pos)

lemma whole_at: "whole i \<Longrightarrow> instr_width (i @ c) = Some (length i)"
  by (simp add: whole_def instr_width_append)

lemma whole_hd: "whole i \<Longrightarrow> (i @ c) ! 0 = i ! 0"
  using whole_pos [of i] by (simp add: nth_append)

lemma branch_whole_valid: "branching i \<Longrightarrow> valid (i ! 0)"
  by (auto simp: branching_def)

lemma branch_operands: "whole i \<Longrightarrow> branching i \<Longrightarrow> operands (i @ c) = operands i"
  by (simp add: whole_def operands_append branch_whole_valid)

lemma disps_at: "whole i \<Longrightarrow> disps (i @ c) = disps i"
  using branch_operands [of i c] whole_hd [of i c]
  by (auto simp: disps_def operand_def branching_def)

lemma targets_disps:
  assumes "drop ip c = i @ rest" "whole i"
  shows "targets c ip = map_option (map (\<lambda>d. int ip + int (length i) + d)) (disps i)"
proof -
  have "targets c ip = map_option (map (\<lambda>d. int ip + int (length i) + d)) (disps (i @ rest))"
    using whole_at [OF assms(2), of rest] assms(1)
    by (auto simp: targets_def disps_def operand_def Let_def map_option_case split: option.split)
  then show ?thesis by (simp add: disps_at assms(2))
qed

text \<open>The operand of displacement \<open>j\<close>.\<close>

definition slot_of :: "code \<Rightarrow> nat \<Rightarrow> nat" where
  "slot_of i j = (if i ! 0 = BR_TABLE then Suc j else 0)"

lemma disps_total:
  assumes "whole i" "branching i"
  obtains ds vs where "disps i = Some ds" "operands i = Some vs"
    "length vs = (if i ! 0 = BR_TABLE then Suc (length ds) else 1)"
    "length ds = (if i ! 0 = BR_TABLE then Suc (unat (vs ! 0)) else 1)"
    "\<And>j. j < length ds \<Longrightarrow> slot_of i j < length vs \<and> ds ! j = read_i16 (vs ! slot_of i j)
      \<and> branch_slot i (slot_of i j)"
proof -
  have v: "valid (i ! 0)" using assms(2) by (rule branch_whole_valid)
  from decoded_new [OF assms(1) [unfolded whole_def] v] obtain vs where
    n: "new_instr (i ! 0) vs = Some i" "operands i = Some vs" "norm_ops (widths (type_of (i ! 0))) vs = vs" .
  show thesis
  proof (cases "i ! 0 = BR_TABLE")
    case True
    then have ws: "widths (type_of (i ! 0)) = [-2, 2]" by (simp add: width_simps)
    obtain bs where e: "emit_ops [-2, 2] vs = Some bs"
      using n(1) ws v by (auto simp: new_instr_def simp del: emit_ops.simps)
    then obtain m ops where vs: "vs = m # ops" by (cases vs) auto
    have len: "length ops = Suc (unat m)"
      using norm_table(1) [of m ops] n(3) ws vs emit_table_len e by simp
    show thesis
      by (rule that [of "map read_i16 ops" vs])
        (use True n(2) vs len in \<open>auto simp: disps_def slot_of_def branch_slot_def\<close>)
  next
    case False
    then have ws: "widths (type_of (i ! 0)) = [2]" and b: "i ! 0 = BR \<or> i ! 0 = BR_IF"
      using assms(2) by (auto simp: width_simps branching_def)
    then obtain x where vs: "vs = [x]"
      using n(1,3) v by (cases vs) (auto simp: new_instr_def)
    show thesis
      by (rule that [of "[read_i16 x]" vs])
        (use False b n(2) vs in \<open>auto simp: disps_def slot_of_def branch_slot_def operand_def\<close>)
  qed
qed

lemma write_word_append: "write_word n i off v = Some i' \<Longrightarrow> write_word n (i @ c) off v = Some (i' @ c)"
  by (auto simp: write_word_def split: if_splits)

lemma set_from_append: "set_from ws i off k j v = Some i' \<Longrightarrow> set_from ws (i @ c) off k j v = Some (i' @ c)"
proof (induction ws arbitrary: off k)
  case (Cons w ws)
  show ?case
  proof (cases "w > 0")
    case True
    with Cons show ?thesis by (auto simp: write_word_append)
  next
    case False
    with Cons show ?thesis
      by (auto simp: write_word_append list_update_append split: if_splits option.splits simp: idx_Some_iff idx_None_iff)
  qed
qed simp

lemma set_operand_append: "whole i \<Longrightarrow> set_operand i j v = Some i' \<Longrightarrow> set_operand (i @ c) j v = Some (i' @ c)"
  using whole_pos [of i]
  by (auto simp: set_operand_def instr_type_def idx_def nth_append bind_eq_Some_conv set_from_append)

text \<open>Writing one displacement of a branch that stands in a stream.\<close>

lemma disp_patch:
  assumes w: "whole i" and b: "branching i" and ds: "disps i = Some ds" and j: "j < length ds"
  obtains i' where "set_operand (i @ c) (slot_of i j) x = Some (i' @ c)" "whole i'" "length i' = length i"
    "i' ! 0 = i ! 0" "disps i' = Some (ds[j := read_i16 (take_bit 16 x)])"
proof -
  from disps_total [OF w b] obtain ds' vs where *: "disps i = Some ds'" "operands i = Some vs"
    "length vs = (if i ! 0 = BR_TABLE then Suc (length ds') else 1)"
    and slot': "\<And>j. j < length ds' \<Longrightarrow> slot_of i j < length vs \<and> ds' ! j = read_i16 (vs ! slot_of i j)
      \<and> branch_slot i (slot_of i j)" by blast
  have [simp]: "ds' = ds" using *(1) ds by simp
  note vs = *(2,3) [simplified]
  have sl: "slot_of i j < length vs" "branch_slot i (slot_of i j)" using slot' [of j] j by simp_all
  from slot_patch [OF w [unfolded whole_def] sl(2), of x] obtain vs' i' where
    "operands i = Some vs'" "set_operand i (slot_of i j) x = Some i'"
    "operands i' = Some (vs'[slot_of i j := take_bit 16 x])" "instr_width i' = Some (length i)"
    "length i' = length i" "i' ! 0 = i ! 0" by blast
  then have i': "set_operand i (slot_of i j) x = Some i'"
    "operands i' = Some (vs[slot_of i j := take_bit 16 x])" "instr_width i' = Some (length i)"
    "length i' = length i" "i' ! 0 = i ! 0" using vs(1) by simp_all
  have "disps i' = Some (ds[j := read_i16 (take_bit 16 x)])"
  proof (cases "i ! 0 = BR_TABLE")
    case True
    obtain m ops where "vs = m # ops" using vs(2) True by (cases vs) auto
    then show ?thesis using True i'(2,5) ds vs(1)
      by (auto simp: disps_def slot_of_def map_update)
  next
    case False
    then have b': "i ! 0 = BR \<or> i ! 0 = BR_IF" using b by (auto simp: branching_def)
    obtain y where y: "vs = [y]" using vs(2) False by (cases vs) auto
    have sl: "slot_of i j = 0" using False by (simp add: slot_of_def)
    have d1: "disps i = Some [read_i16 y]" using b' y vs(1) by (simp add: disps_def operand_def)
    then have "ds = [read_i16 y]" "j = 0" using ds j by simp_all
    moreover have "disps i' = Some [read_i16 (take_bit 16 x)]"
      using b' y i'(2,5) sl by (simp add: disps_def operand_def)
    ultimately show ?thesis by simp
  qed
  with i' set_operand_append [OF w i'(1), of c] show thesis
    using that by (simp add: whole_def)
qed

section \<open>Writing a branch inside a body\<close>

definition set_at :: "code \<Rightarrow> nat \<Rightarrow> nat \<Rightarrow> 64 word \<Rightarrow> code option" where
  "set_at c pos k v = (if pos \<le> length c then map_option (\<lambda>i. take pos c @ i) (set_operand (drop pos c) k v) else None)"

lemma set_at_patch:
  assumes "whole i" "branching i" "disps i = Some ds" "j < length ds"
  obtains i' where "set_at (pre @ i @ c) (length pre) (slot_of i j) x = Some (pre @ i' @ c)" "whole i'"
    "length i' = length i" "i' ! 0 = i ! 0" "disps i' = Some (ds[j := read_i16 (take_bit 16 x)])"
  using disp_patch [OF assms, of c x] by (auto simp: set_at_def)

definition disp_word :: "int \<Rightarrow> 64 word" where
  "disp_word d = word_of_int d"

lemma disp_word_read: "-32768 \<le> d \<Longrightarrow> d \<le> 32767 \<Longrightarrow> read_i16 (take_bit 16 (disp_word d)) = d"
proof -
  assume d: "-32768 \<le> d" "d \<le> 32767"
  have "(ucast (take_bit 16 (disp_word d)) :: 16 word) = word_of_int d"
    by (rule bit_word_eqI) (auto simp: disp_word_def bit_simps)
  then show ?thesis using d by (simp add: read_i16_def sint_sbintrunc' signed_take_bit_int_eq_self)
qed

section \<open>Pieces\<close>

datatype piece = Keep code | Put "code list" "code list"

fun olds :: "piece \<Rightarrow> code list" where
  "olds (Keep i) = [i]" | "olds (Put a b) = a"

fun news :: "piece \<Rightarrow> code list" where
  "news (Keep i) = [i]" | "news (Put a b) = b"

definition old_code :: "piece list \<Rightarrow> code" where "old_code ps = concat (concat (map olds ps))"
definition new_code :: "piece list \<Rightarrow> code" where "new_code ps = concat (concat (map news ps))"

lemma old_code_simps [simp]:
  "old_code [] = []" "old_code (Keep i # ps) = i @ old_code ps" "old_code (Put a b # ps) = concat a @ old_code ps"
  by (simp_all add: old_code_def)

lemma new_code_simps [simp]:
  "new_code [] = []" "new_code (Keep i # ps) = i @ new_code ps" "new_code (Put a b # ps) = concat b @ new_code ps"
  by (simp_all add: new_code_def)

text \<open>Where an offset of the old code lies in the new one: inside a replaced run, at its start.\<close>

fun new_off :: "piece list \<Rightarrow> nat \<Rightarrow> nat" where
  "new_off [] off = 0"
| "new_off (Keep i # ps) off = (if off < length i then off else length i + new_off ps (off - length i))"
| "new_off (Put a b # ps) off =
     (if off < length (concat a) then 0 else length (concat b) + new_off ps (off - length (concat a)))"

lemma new_off_end [simp]: "new_off ps (length (old_code ps)) = length (new_code ps)"
proof (induction ps)
  case (Cons p ps)
  then show ?case by (cases p) simp_all
qed simp

text \<open>
  The new code of \<open>ps\<close> with its branches relinked: \<open>f\<close> maps the old offset a branch goes to to the new
  one; \<open>off\<close> and \<open>pos\<close> are the offsets of \<open>ps\<close> in the old and in the new code.
\<close>

fun relinked :: "(int \<Rightarrow> int) \<Rightarrow> nat \<Rightarrow> nat \<Rightarrow> piece list \<Rightarrow> code list \<Rightarrow> bool" where
  "relinked f off pos [] js \<longleftrightarrow> js = []"
| "relinked f off pos (Put a b # ps) js \<longleftrightarrow>
     (\<exists>js'. js = b @ js' \<and> relinked f (off + length (concat a)) (pos + length (concat b)) ps js')"
| "relinked f off pos (Keep i # ps) js \<longleftrightarrow>
     (\<exists>j js'. js = j # js' \<and> whole j \<and> length j = length i \<and> j ! 0 = i ! 0
       \<and> (\<not> branching i \<longrightarrow> j = i)
       \<and> (branching i \<longrightarrow> (\<exists>ds. disps i = Some ds
            \<and> disps j = Some (map (\<lambda>d. f (int off + int (length i) + d) - int pos - int (length i)) ds)))
       \<and> relinked f (off + length i) (pos + length i) ps js')"

definition pieces_ok :: "piece list \<Rightarrow> bool" where
  "pieces_ok ps \<longleftrightarrow> (\<forall>p\<in>set ps. (\<forall>i\<in>set (olds p). whole i) \<and> (\<forall>i\<in>set (news p). whole i)
     \<and> (\<forall>a b. p = Put a b \<longrightarrow> (\<forall>i\<in>set a. \<not> branching i)))"

lemma pieces_ok_Cons [simp]: "pieces_ok (p # ps) \<longleftrightarrow> (\<forall>i\<in>set (olds p). whole i) \<and> (\<forall>i\<in>set (news p). whole i)
     \<and> (\<forall>a b. p = Put a b \<longrightarrow> (\<forall>i\<in>set a. \<not> branching i)) \<and> pieces_ok ps"
  by (auto simp: pieces_ok_def)

lemma relinked_layout:
  "relinked f off pos ps js \<Longrightarrow> pieces_ok ps \<Longrightarrow>
   map length js = map length (concat (map news ps)) \<and> (\<forall>j\<in>set js. whole j)"
proof (induction f off pos ps js rule: relinked.induct)
  case (3 f off pos i ps js)
  then show ?case by fastforce
qed auto

text \<open>What a relinked body says at the place of each piece.\<close>

definition moved_as :: "piece \<Rightarrow> code \<Rightarrow> nat \<Rightarrow> code \<Rightarrow> nat \<Rightarrow> (int \<Rightarrow> int) \<Rightarrow> bool" where
  "moved_as p c off c' pos f \<longleftrightarrow> (case p of
     Put a b \<Rightarrow> take (length (concat b)) (drop pos c') = concat b
   | Keep i \<Rightarrow> instr_width (drop pos c') = Some (length i) \<and> c' ! pos = i ! 0
       \<and> (\<not> branching i \<longrightarrow> take (length i) (drop pos c') = i)
       \<and> targets c' pos = map_option (map f) (targets c off))"

lemma drop_at: "drop (length pre) (pre @ x) = x" "(pre @ y # x) ! length pre = y"
  by simp_all

lemma relinked_at:
  assumes "relinked f (length pre) (length pre') ps js" "pieces_ok ps" "k < length ps"
  shows "moved_as (ps ! k) (pre @ old_code ps) (length pre + length (old_code (take k ps)))
    (pre' @ concat js) (length pre' + length (new_code (take k ps))) f"
  using assms
proof (induction ps arbitrary: pre pre' js k)
  case (Cons p ps)
  show ?case
  proof (cases p)
    case (Put a b)
    then obtain js' where js: "js = b @ js'" "relinked f (length (pre @ concat a)) (length (pre' @ concat b)) ps js'"
      using Cons.prems(1) by auto
    show ?thesis
    proof (cases k)
      case 0
      then show ?thesis using Put js(1) by (simp add: moved_as_def)
    next
      case (Suc k')
      from Cons.IH [OF js(2), of k'] Cons.prems(2,3) Suc show ?thesis
        using Put js(1) by (simp add: add.assoc)
    qed
  next
    case (Keep i)
    then obtain j js' where js: "js = j # js'" "whole j" "length j = length i" "j ! 0 = i ! 0"
      "\<not> branching i \<Longrightarrow> j = i"
      "branching i \<Longrightarrow> \<exists>ds. disps i = Some ds \<and> disps j = Some (map (\<lambda>d. f (int (length pre) + int (length i) + d)
         - int (length pre') - int (length i)) ds)"
      "relinked f (length (pre @ i)) (length (pre' @ j)) ps js'"
      using Cons.prems(1) by auto
    have wi: "whole i" using Cons.prems(2) Keep by simp
    show ?thesis
    proof (cases k)
      case 0
      have t: "targets (pre' @ concat js) (length pre') = map_option (map f) (targets (pre @ old_code (p # ps)) (length pre))"
      proof -
        have "targets (pre @ old_code (p # ps)) (length pre) = map_option (map (\<lambda>d. int (length pre) + int (length i) + d)) (disps i)"
          using Keep wi by (intro targets_disps) simp_all
        moreover have "targets (pre' @ concat js) (length pre') = map_option (map (\<lambda>d. int (length pre') + int (length j) + d)) (disps j)"
          using js(1,2) by (intro targets_disps) simp_all
        moreover have "disps i = Some []" if "\<not> branching i" using that by (simp add: disps_def branching_def)
        ultimately show ?thesis using js(3,5,6) by (cases "branching i") auto
      qed
      have "(pre' @ concat js) ! length pre' = i ! 0" using whole_hd [OF js(2)] js(1,4) by (simp add: nth_append)
      then show ?thesis using Keep js 0 t whole_at [OF js(2)] by (simp add: moved_as_def)
    next
      case (Suc k')
      from Cons.IH [OF js(7), of k'] Cons.prems(2,3) Suc show ?thesis
        using Keep js(1,3) by (simp add: add.assoc)
    qed
  qed
qed simp

definition move_handler :: "piece list \<Rightarrow> handler \<Rightarrow> handler" where
  "move_handler ps h = h\<lparr>h_start := int (new_off ps (nat (h_start h))), h_end := int (new_off ps (nat (h_end h))),
     h_catch := int (new_off ps (nat (h_catch h)))\<rparr>"

text \<open>Every branch of \<open>ps\<close> goes to offsets with property \<open>P\<close>.\<close>

fun at_targets :: "(int \<Rightarrow> bool) \<Rightarrow> nat \<Rightarrow> piece list \<Rightarrow> bool" where
  "at_targets P off [] = True"
| "at_targets P off (Put a b # ps) = at_targets P (off + length (concat a)) ps"
| "at_targets P off (Keep i # ps) =
     ((branching i \<longrightarrow> (case disps i of None \<Rightarrow> False
        | Some ds \<Rightarrow> list_all (\<lambda>d. P (int off + int (length i) + d)) ds))
      \<and> at_targets P (off + length i) ps)"

lemma at_targets_mono: "at_targets P off ps \<Longrightarrow> (\<And>t. P t \<Longrightarrow> Q t) \<Longrightarrow> at_targets Q off ps"
  by (induction P off ps rule: at_targets.induct) (auto simp: list_all_iff split: option.splits)

lemma relinked_at_cong:
  "relinked f off pos ps js \<Longrightarrow> at_targets (\<lambda>t. f t = g t) off ps \<Longrightarrow> relinked g off pos ps js"
proof (induction f off pos ps js rule: relinked.induct)
  case (3 f off pos i ps js)
  then obtain j js' where js: "js = j # js'" "whole j" "length j = length i" "j ! 0 = i ! 0" "\<not> branching i \<longrightarrow> j = i"
    "branching i \<longrightarrow> (\<exists>ds. disps i = Some ds
       \<and> disps j = Some (map (\<lambda>d. f (int off + int (length i) + d) - int pos - int (length i)) ds))"
    "relinked f (off + length i) (pos + length i) ps js'" by auto
  have "relinked g (off + length i) (pos + length i) ps js'"
    using 3 js(1,7) by auto
  moreover have "\<exists>ds. disps i = Some ds
       \<and> disps j = Some (map (\<lambda>d. g (int off + int (length i) + d) - int pos - int (length i)) ds)"
    if b: "branching i"
  proof -
    from js(6) b obtain ds where ds: "disps i = Some ds"
      "disps j = Some (map (\<lambda>d. f (int off + int (length i) + d) - int pos - int (length i)) ds)" by blast
    have "f (int off + int (length i) + d) = g (int off + int (length i) + d)" if "d \<in> set ds" for d
      using 3(3) b ds(1) that by (auto simp: list_all_iff)
    then show ?thesis using ds by auto
  qed
  ultimately show ?case using js(1-5) by simp
qed auto

end
