(* ===== verification/Rewrite.thy ===== *)
theory Rewrite
  imports Relink "HOL-Library.Product_Lexorder"
begin

text \<open>
  Length-changing edits (\<^verbatim>\<open>transform/rewrite.go\<close>): sort the edits, build the new code with the map of
  offsets, then rewrite the branch operands and the exception table.  The lemmas show that edits cut
  out along instructions, away from branches, give the code the plan of pieces describes, with every
  branch and region boundary at the new place of what it pointed to.
\<close>

record edit =
  e_start :: nat
  e_end :: nat
  e_bytes :: code

definition rw_replace :: "nat \<Rightarrow> nat \<Rightarrow> code list \<Rightarrow> edit list \<Rightarrow> edit list" where
  "rw_replace s e is es = es @ [\<lparr>e_start = s, e_end = e, e_bytes = marshal is\<rparr>]"

definition rw_insert :: "nat \<Rightarrow> code list \<Rightarrow> edit list \<Rightarrow> edit list" where
  "rw_insert at is es = es @ [\<lparr>e_start = at, e_end = at, e_bytes = marshal is\<rparr>]"

text \<open>\<^verbatim>\<open>slices.SortFunc\<close> leaves the order of equal keys open; the stable order is one of the possible ones.\<close>

definition sort_edits :: "edit list \<Rightarrow> edit list" where
  "sort_edits es = sort_key (\<lambda>e. (e_start e, e_end e)) es"

section \<open>Building the new code\<close>

function copy_to :: "code \<Rightarrow> nat \<Rightarrow> nat \<Rightarrow> nat list \<times> code \<Rightarrow> (nat list \<times> code) option" where
  "copy_to c old stop (remap, out) =
     (if old < stop
      then case idx c old of None \<Rightarrow> None
           | Some b \<Rightarrow> copy_to c (Suc old) stop (remap[old := length out], out @ [b])
      else Some (remap, out))"
  by pat_completeness auto
termination
  by (relation "measure (\<lambda>(c, old, stop, s). stop - old)") auto

declare copy_to.simps [simp del]

function collapse :: "nat \<Rightarrow> nat \<Rightarrow> nat \<Rightarrow> nat list \<Rightarrow> nat list option" where
  "collapse at o' e remap =
     (if o' < e then if o' < length remap then collapse at (Suc o') e (remap[o' := at]) else None
      else Some remap)"
  by pat_completeness auto
termination
  by (relation "measure (\<lambda>(at, o', e, r). e - o')") auto

declare collapse.simps [simp del]

fun splice :: "code \<Rightarrow> nat \<Rightarrow> edit list \<Rightarrow> nat list \<times> code \<Rightarrow> (nat list \<times> code) option" where
  "splice c old [] s =
     map_option (\<lambda>(remap, out). (remap[length c := length out], out)) (copy_to c old (length c) s)"
| "splice c old (e # es) s =
     Option.bind (copy_to c old (e_start e) s) (\<lambda>(remap, out).
     Option.bind (collapse (length out) (e_start e) (e_end e) remap) (\<lambda>remap'.
       splice c (e_end e) es (remap', out @ e_bytes e)))"

definition rw_build :: "code \<Rightarrow> edit list \<Rightarrow> (nat list \<times> code) option" where
  "rw_build c es = splice c 0 (sort_edits es) (replicate (Suc (length c)) 0, [])"

section \<open>Relinking\<close>

text \<open>\<open>Some None\<close>: a branch cannot reach.\<close>

definition retarget :: "code \<Rightarrow> nat list \<Rightarrow> nat \<Rightarrow> nat \<Rightarrow> nat \<Rightarrow> code \<Rightarrow> code option option" where
  "retarget c remap ip w k out =
     Option.bind (operand (drop ip c) k) (\<lambda>v.
       let target = int ip + int w + read_i16 v in
       if target < 0 \<or> int (length remap) \<le> target then Some None
       else Option.bind (idx remap ip) (\<lambda>pos.
         let delta = int (remap ! nat target) - int pos - int w in
         if delta < -32768 \<or> 32767 < delta then Some None
         else map_option Some (set_at out pos k (disp_word delta))))"

function retarget_table :: "code \<Rightarrow> nat list \<Rightarrow> nat \<Rightarrow> nat \<Rightarrow> nat \<Rightarrow> nat \<Rightarrow> code \<Rightarrow> code option option" where
  "retarget_table c remap ip w j count out =
     (if j \<le> count
      then Option.bind (retarget c remap ip w (Suc j) out) (\<lambda>r. case r of None \<Rightarrow> Some None
           | Some out' \<Rightarrow> retarget_table c remap ip w (Suc j) count out')
      else Some (Some out))"
  by pat_completeness auto
termination
  by (relation "measure (\<lambda>(c, remap, ip, w, j, count, out). Suc count - j)") auto

declare retarget_table.simps [simp del]

function relink :: "code \<Rightarrow> nat list \<Rightarrow> nat \<Rightarrow> code \<Rightarrow> code option option" where
  "relink c remap ip out =
     (if ip < length c
      then case instr_width (drop ip c) of None \<Rightarrow> None
      | Some w \<Rightarrow>
         Option.bind
           (if c ! ip = BR \<or> c ! ip = BR_IF then retarget c remap ip w 0 out
            else if c ! ip = BR_TABLE then Option.bind (operand (drop ip c) 0) (\<lambda>v.
              retarget_table c remap ip w 0 (unat v) out)
            else Some (Some out))
           (\<lambda>r. case r of None \<Rightarrow> Some None | Some out' \<Rightarrow> relink c remap (ip + w) out')
      else Some (Some out))"
  by pat_completeness auto
termination
  by (relation "measure (\<lambda>(c, remap, ip, out). length c - ip)") (auto dest: instr_width_pos)

declare relink.simps [simp del]

section \<open>The exception table\<close>

definition at_remap :: "nat list \<Rightarrow> int \<Rightarrow> int option" where
  "at_remap remap off = (if off < 0 then None else map_option int (idx remap (nat off)))"

fun rehandle :: "nat list \<Rightarrow> handler list \<Rightarrow> handler list option" where
  "rehandle remap [] = Some []"
| "rehandle remap (h # hs) =
     Option.bind (at_remap remap (h_start h)) (\<lambda>s. Option.bind (at_remap remap (h_end h)) (\<lambda>e.
     Option.bind (at_remap remap (h_catch h)) (\<lambda>k.
       map_option ((#) \<lparr>h_start = s, h_end = e, h_catch = k, h_depth = h_depth h\<rparr>) (rehandle remap hs))))"

definition rw_run :: "code \<Rightarrow> handler list \<Rightarrow> edit list \<Rightarrow> (code \<times> handler list) option option" where
  "rw_run c hs es =
     (if es = [] then Some (Some (c, hs))
      else Option.bind (rw_build c es) (\<lambda>(remap, out).
        Option.bind (relink c remap 0 out) (\<lambda>r. case r of None \<Rightarrow> Some None
        | Some out' \<Rightarrow> map_option (\<lambda>hs'. Some (out', hs')) (rehandle remap hs))))"

section \<open>The edits of a plan\<close>

fun edits_of :: "nat \<Rightarrow> piece list \<Rightarrow> edit list" where
  "edits_of off [] = []"
| "edits_of off (Keep i # ps) = edits_of (off + length i) ps"
| "edits_of off (Put a b # ps) =
     \<lparr>e_start = off, e_end = off + length (concat a), e_bytes = marshal b\<rparr> # edits_of (off + length (concat a)) ps"

lemma copy_to_spec:
  "old \<le> stop \<Longrightarrow> stop \<le> length c \<Longrightarrow> \<exists>remap'.
     copy_to c old stop (remap, out) = Some (remap', out @ take (stop - old) (drop old c))
     \<and> length remap' = length remap
     \<and> (\<forall>k<length remap. remap' ! k = (if old \<le> k \<and> k < stop then length out + (k - old) else remap ! k))"
proof (induction "stop - old" arbitrary: old remap out)
  case 0
  then show ?case by (subst copy_to.simps) auto
next
  case (Suc d)
  then have l: "old < stop" "old < length c" by simp_all
  have "\<exists>remap'. copy_to c (Suc old) stop (remap[old := length out], out @ [c ! old])
      = Some (remap', (out @ [c ! old]) @ take (stop - Suc old) (drop (Suc old) c))
    \<and> length remap' = length (remap[old := length out])
    \<and> (\<forall>k<length (remap[old := length out]). remap' ! k = (if Suc old \<le> k \<and> k < stop
         then length (out @ [c ! old]) + (k - Suc old) else remap[old := length out] ! k))"
    using Suc.hyps(2) Suc.prems by (intro Suc.hyps(1)) auto
  then obtain remap' where r: "copy_to c (Suc old) stop (remap[old := length out], out @ [c ! old])
      = Some (remap', (out @ [c ! old]) @ take (stop - Suc old) (drop (Suc old) c))"
    "length remap' = length remap"
    "\<forall>k<length remap. remap' ! k = (if Suc old \<le> k \<and> k < stop then length (out @ [c ! old]) + (k - Suc old)
       else remap[old := length out] ! k)" unfolding length_list_update by blast
  have "take (stop - old) (drop old c) = c ! old # take (stop - Suc old) (drop (Suc old) c)"
    using l by (metis Cons_nth_drop_Suc Suc_diff_Suc take_Suc_Cons)
  then show ?case using r l
    by (subst copy_to.simps) (auto simp: idx_def nth_list_update intro!: exI [of _ remap'])
qed

lemma collapse_spec:
  "o' \<le> e \<Longrightarrow> e \<le> length remap \<Longrightarrow> \<exists>remap'. collapse at o' e remap = Some remap' \<and> length remap' = length remap
     \<and> (\<forall>k<length remap. remap' ! k = (if o' \<le> k \<and> k < e then at else remap ! k))"
proof (induction "e - o'" arbitrary: o' remap)
  case 0
  then show ?case by (subst collapse.simps) auto
next
  case (Suc d)
  have "\<exists>remap'. collapse at (Suc o') e (remap[o' := at]) = Some remap' \<and> length remap' = length (remap[o' := at])
     \<and> (\<forall>k<length (remap[o' := at]). remap' ! k = (if Suc o' \<le> k \<and> k < e then at else remap[o' := at] ! k))"
    using Suc.hyps(2) Suc.prems by (intro Suc.hyps(1)) auto
  then obtain remap' where r: "collapse at (Suc o') e (remap[o' := at]) = Some remap'" "length remap' = length remap"
    "\<forall>k<length remap. remap' ! k = (if Suc o' \<le> k \<and> k < e then at else remap[o' := at] ! k)"
    unfolding length_list_update by blast
  then show ?case using Suc.hyps(2) Suc.prems
    by (subst collapse.simps) (auto simp: nth_list_update intro!: exI [of _ remap'])
qed

lemma copy_to_split:
  "old \<le> mid \<Longrightarrow> mid \<le> stop \<Longrightarrow> stop \<le> length c \<Longrightarrow>
   copy_to c old stop s = Option.bind (copy_to c old mid s) (copy_to c mid stop)"
proof (induction "mid - old" arbitrary: old s)
  case 0
  then have "copy_to c old mid s = Some s" by (cases s) (simp add: copy_to.simps)
  then show ?case using 0 by simp
next
  case (Suc d)
  obtain remap out where s: "s = (remap, out)" by (cases s) auto
  have l: "old < mid" "old < stop" "old < length c" using Suc by simp_all
  have "copy_to c (Suc old) stop s' = Option.bind (copy_to c (Suc old) mid s') (copy_to c mid stop)" for s'
    using Suc by (intro Suc.hyps(1)) auto
  then show ?case using l by (simp add: s copy_to.simps [of c old] idx_def)
qed

lemma edits_of_starts: "e \<in> set (edits_of off ps) \<Longrightarrow> off \<le> e_start e"
proof (induction off ps rule: edits_of.induct)
  case (2 off i ps)
  then show ?case by fastforce
next
  case (3 off a b ps)
  then show ?case by fastforce
qed simp

lemma edits_of_end: "e \<in> set (edits_of off ps) \<Longrightarrow> e_end e \<le> off + length (old_code ps)"
proof (induction off ps rule: edits_of.induct)
  case (2 off i ps)
  then show ?case by fastforce
next
  case (3 off a b ps)
  then show ?case by fastforce
qed simp

lemma edits_of_order: "e \<in> set (edits_of off ps) \<Longrightarrow> e_start e \<le> e_end e"
  by (induction off ps rule: edits_of.induct) auto

lemma splice_keep:
  assumes "old \<le> mid" "mid \<le> length c" "\<forall>e\<in>set es. mid \<le> e_start e \<and> e_start e \<le> length c"
  shows "splice c old es s = Option.bind (copy_to c old mid s) (splice c mid es)"
proof (cases es)
  case Nil
  then show ?thesis using copy_to_split [OF assms(1,2) order_refl, of s] 
    by (cases "copy_to c old mid s") simp_all
next
  case (Cons e es')
  then have "copy_to c old (e_start e) s = Option.bind (copy_to c old mid s) (copy_to c mid (e_start e))"
    using assms by (intro copy_to_split) simp_all
  then show ?thesis using Cons by (cases "copy_to c old mid s") simp_all
qed

lemma splice_spec:
  assumes "c = pre @ old_code ps" "length remap = Suc (length c)"
  shows "\<exists>remap'. splice c (length pre) (edits_of (length pre) ps) (remap, out) = Some (remap', out @ new_code ps)
    \<and> length remap' = Suc (length c)
    \<and> (\<forall>k\<le>length c. remap' ! k = (if length pre \<le> k then length out + new_off ps (k - length pre) else remap ! k))"
  using assms
proof (induction ps arbitrary: pre remap out)
  case Nil
  then show ?case using copy_to_spec [of "length c" "length c" c remap out]
    by (auto simp: copy_to.simps nth_list_update)
next
  case (Cons p ps)
  show ?case
  proof (cases p)
    case (Keep i)
    let ?mid = "length pre + length i"
    have c': "c = (pre @ i) @ old_code ps" using Cons.prems(1) Keep by simp
    have "\<forall>e\<in>set (edits_of ?mid ps). ?mid \<le> e_start e \<and> e_start e \<le> length c"
    proof
      fix e assume "e \<in> set (edits_of ?mid ps)"
      then show "?mid \<le> e_start e \<and> e_start e \<le> length c"
        using edits_of_starts edits_of_end edits_of_order c' by (fastforce dest: le_trans)
    qed
    then have sp: "splice c (length pre) (edits_of (length pre) (p # ps)) s
        = Option.bind (copy_to c (length pre) ?mid s) (splice c ?mid (edits_of ?mid ps))" for s
      using Keep c' by (simp add: splice_keep)
    from copy_to_spec [of "length pre" ?mid c remap out] c' obtain r1 where
      r1: "copy_to c (length pre) ?mid (remap, out) = Some (r1, out @ i)" "length r1 = length remap"
        "\<forall>k<length remap. r1 ! k = (if length pre \<le> k \<and> k < ?mid then length out + (k - length pre) else remap ! k)"
      by auto
    from Cons.IH [OF c', of r1 "out @ i"] r1(2) Cons.prems(2) obtain r2 where
      "splice c ?mid (edits_of ?mid ps) (r1, out @ i) = Some (r2, out @ i @ new_code ps)"
      "length r2 = Suc (length c)"
      "\<forall>k\<le>length c. r2 ! k = (if ?mid \<le> k then length (out @ i) + new_off ps (k - ?mid) else r1 ! k)"
      by auto
    then show ?thesis using sp r1 Cons.prems(2) Keep by auto
  next
    case (Put a b)
    let ?mid = "length pre + length (concat a)"
    have c': "c = (pre @ concat a) @ old_code ps" using Cons.prems(1) Put by simp
    have cp: "copy_to c (length pre) (length pre) (remap, out) = Some (remap, out)"
      by (simp add: copy_to.simps)
    from collapse_spec [of "length pre" ?mid remap "length out"] Cons.prems(2) c' obtain r1 where
      r1: "collapse (length out) (length pre) ?mid remap = Some r1" "length r1 = length remap"
        "\<forall>k<length remap. r1 ! k = (if length pre \<le> k \<and> k < ?mid then length out else remap ! k)"
      by auto
    from Cons.IH [OF c', of r1 "out @ concat b"] r1(2) Cons.prems(2) obtain r2 where
      "splice c ?mid (edits_of ?mid ps) (r1, out @ concat b) = Some (r2, out @ concat b @ new_code ps)"
      "length r2 = Suc (length c)"
      "\<forall>k\<le>length c. r2 ! k = (if ?mid \<le> k then length (out @ concat b) + new_off ps (k - ?mid) else r1 ! k)"
      by auto
    then show ?thesis using cp r1 Cons.prems(2) Put by (auto simp: marshal_def)
  qed
qed

lemma edits_of_sorted: "sorted (map (\<lambda>e. (e_start e, e_end e)) (edits_of off ps))"
proof (induction off ps rule: edits_of.induct)
  case (3 off a b ps)
  have "(off, off + length (concat a)) \<le> (e_start e, e_end e)" if "e \<in> set (edits_of (off + length (concat a)) ps)" for e
    using edits_of_starts [OF that] edits_of_order [OF that] by (auto simp: less_eq_prod_def)
  then show ?case using 3 by auto
qed auto

lemma rw_build_plan:
  "sort_edits es = edits_of 0 ps \<Longrightarrow>
   rw_build (old_code ps) es = Some (map (new_off ps) [0..<Suc (length (old_code ps))], new_code ps)"
  using splice_spec [of "old_code ps" "[]" ps "replicate (Suc (length (old_code ps))) 0" "[]"]
  by (auto simp: rw_build_def simp del: upt_Suc replicate_Suc intro!: nth_equalityI)

section \<open>Relinking a plan\<close>

text \<open>A displacement can be rewritten: its target is inside the code and near enough to the branch.\<close>

definition reaches :: "nat list \<Rightarrow> nat \<Rightarrow> nat \<Rightarrow> int \<Rightarrow> bool" where
  "reaches remap next next' d \<longleftrightarrow> (let t = int next + d in 0 \<le> t \<and> t < int (length remap)
     \<and> -32768 \<le> int (remap ! nat t) - int next' \<and> int (remap ! nat t) - int next' \<le> 32767)"

definition new_disp :: "nat list \<Rightarrow> nat \<Rightarrow> nat \<Rightarrow> int \<Rightarrow> int" where
  "new_disp remap next next' d = int (remap ! nat (int next + d)) - int next'"

lemma retarget_step:
  assumes c: "drop ip c = i @ r" and i: "whole i" "branching i" "disps i = Some ds" "j < length ds"
    and i': "whole i'" "i' ! 0 = i ! 0" "disps i' = Some ds'" "length ds' = length ds"
    and pos: "idx remap ip = Some (length pre')"
  shows "reaches remap (ip + length i) (length pre' + length i) (ds ! j) \<Longrightarrow>
      \<exists>i''. retarget c remap ip (length i) (slot_of i j) (pre' @ i' @ rest) = Some (Some (pre' @ i'' @ rest))
        \<and> whole i'' \<and> length i'' = length i' \<and> i'' ! 0 = i ! 0
        \<and> disps i'' = Some (ds'[j := new_disp remap (ip + length i) (length pre' + length i) (ds ! j)])"
    and "\<not> reaches remap (ip + length i) (length pre' + length i) (ds ! j) \<Longrightarrow>
      retarget c remap ip (length i) (slot_of i j) (pre' @ i' @ rest) = Some None"
proof -
  from disps_total [OF i(1,2)] i(3,4) obtain vs where vs: "operands i = Some vs" "slot_of i j < length vs"
    "ds ! j = read_i16 (vs ! slot_of i j)" by (metis option.inject)
  have o: "operand (drop ip c) (slot_of i j) = Some (vs ! slot_of i j)"
    using branch_operands [OF i(1,2)] vs c by (simp add: operand_def)
  have b': "branching i'" using i(2) i'(2) by (simp add: branching_def)
  have sl: "slot_of i' j = slot_of i j" using i'(2) by (simp add: slot_of_def)
  let ?d = "new_disp remap (ip + length i) (length pre' + length i) (ds ! j)"
  show "reaches remap (ip + length i) (length pre' + length i) (ds ! j) \<Longrightarrow>
      \<exists>i''. retarget c remap ip (length i) (slot_of i j) (pre' @ i' @ rest) = Some (Some (pre' @ i'' @ rest))
        \<and> whole i'' \<and> length i'' = length i' \<and> i'' ! 0 = i ! 0 \<and> disps i'' = Some (ds'[j := ?d])"
  proof -
    assume r: "reaches remap (ip + length i) (length pre' + length i) (ds ! j)"
    then have d: "-32768 \<le> ?d" "?d \<le> 32767" by (simp_all add: reaches_def new_disp_def Let_def)
    have j': "j < length ds'" using i(4) i'(4) by simp
    from set_at_patch [OF i'(1) b' i'(3) j', of pre' rest "disp_word ?d"] sl obtain i'' where
      "set_at (pre' @ i' @ rest) (length pre') (slot_of i j) (disp_word ?d) = Some (pre' @ i'' @ rest)" "whole i''"
      "length i'' = length i'" "i'' ! 0 = i' ! 0" "disps i'' = Some (ds'[j := ?d])"
      using disp_word_read [OF d] by metis
    then show ?thesis using r o pos vs(3) i'(2)
      by (intro exI [of _ i'']) (auto simp: retarget_def reaches_def new_disp_def Let_def algebra_simps)
  qed
  show "\<not> reaches remap (ip + length i) (length pre' + length i) (ds ! j) \<Longrightarrow>
      retarget c remap ip (length i) (slot_of i j) (pre' @ i' @ rest) = Some None"
    using o pos vs(3) by (auto simp: retarget_def reaches_def Let_def algebra_simps)
qed

lemma retarget_table_spec:
  assumes c: "drop ip c = i @ r" and i: "whole i" "branching i" "disps i = Some ds" "i ! 0 = BR_TABLE"
    and pos: "idx remap ip = Some (length pre')" and n: "length ds = Suc n"
    and i': "whole i'" "i' ! 0 = i ! 0" "length i' = length i" "j \<le> length ds"
      "disps i' = Some (map f (take j ds) @ drop j ds)"
    and f: "f = new_disp remap (ip + length i) (length pre' + length i)"
  shows "(if \<forall>d\<in>set (drop j ds). reaches remap (ip + length i) (length pre' + length i) d
      then \<exists>i''. retarget_table c remap ip (length i) j n (pre' @ i' @ rest) = Some (Some (pre' @ i'' @ rest))
        \<and> whole i'' \<and> length i'' = length i \<and> i'' ! 0 = i ! 0 \<and> disps i'' = Some (map f ds)
      else retarget_table c remap ip (length i) j n (pre' @ i' @ rest) = Some None)"
  using i'
proof (induction "length ds - j" arbitrary: j i')
  case 0
  then show ?case using n by (simp add: retarget_table.simps)
next
  case (Suc k)
  then have j: "j < length ds" by simp
  have dr: "drop j ds = ds ! j # drop (Suc j) ds" using j by (simp add: Cons_nth_drop_Suc)
  have sl: "slot_of i j = Suc j" using i(4) by (simp add: slot_of_def)
  have len': "length (map f (take j ds) @ drop j ds) = length ds" using j by simp
  note st = retarget_step [OF c i(1-3) j Suc.prems(1,2,5) len' pos, where rest = rest]
  show ?case
  proof (cases "reaches remap (ip + length i) (length pre' + length i) (ds ! j)")
    case False
    with st(2) have "retarget_table c remap ip (length i) j n (pre' @ i' @ rest) = Some None"
      using j n sl by (subst retarget_table.simps) simp
    then show ?thesis using False dr by simp
  next
    case True
    from st(1) [OF True] obtain i'' where i'':
      "retarget c remap ip (length i) (slot_of i j) (pre' @ i' @ rest) = Some (Some (pre' @ i'' @ rest))"
      "whole i''" "length i'' = length i'" "i'' ! 0 = i ! 0"
      "disps i'' = Some ((map f (take j ds) @ drop j ds)[j := f (ds ! j)])" using f by blast
    have "(map f (take j ds) @ drop j ds)[j := f (ds ! j)] = map f (take (Suc j) ds) @ drop (Suc j) ds"
      using j dr by (simp add: take_Suc_conv_app_nth list_update_append)
    then have d'': "disps i'' = Some (map f (take (Suc j) ds) @ drop (Suc j) ds)" using i''(5) by simp
    have "retarget_table c remap ip (length i) j n (pre' @ i' @ rest)
        = retarget_table c remap ip (length i) (Suc j) n (pre' @ i'' @ rest)"
      using j n sl i''(1) by (subst retarget_table.simps) simp
    with Suc.hyps(1) [of "Suc j" i''] Suc.hyps(2) i''(2,3,4) d'' j Suc.prems(3) True dr show ?thesis by simp
  qed
qed

text \<open>One branch of the old code, all its displacements.\<close>

lemma relink_branch:
  assumes c: "drop ip c = i @ r" and i: "whole i" "branching i" "disps i = Some ds"
    and pos: "idx remap ip = Some (length pre')"
    and f: "f = new_disp remap (ip + length i) (length pre' + length i)"
  shows "if \<forall>d\<in>set ds. reaches remap (ip + length i) (length pre' + length i) d
      then \<exists>i'. relink c remap ip (pre' @ i @ rest) = relink c remap (ip + length i) (pre' @ i' @ rest)
        \<and> whole i' \<and> length i' = length i \<and> i' ! 0 = i ! 0 \<and> disps i' = Some (map f ds)
      else relink c remap ip (pre' @ i @ rest) = Some None"
proof -
  have ip: "ip < length c" using c whole_pos [OF i(1)] by (metis append_is_Nil_conv drop_eq_Nil leI length_greater_0_conv)
  have w: "instr_width (drop ip c) = Some (length i)" using c whole_at [OF i(1)] by simp
  have h: "c ! ip = i ! 0" using whole_hd [OF i(1), of r] c ip by (metis add.right_neutral nth_drop less_imp_le)
  from disps_total [OF i(1,2)] i(3) obtain vs where vs: "operands i = Some vs"
    "length vs = (if i ! 0 = BR_TABLE then Suc (length ds) else 1)"
    "length ds = (if i ! 0 = BR_TABLE then Suc (unat (vs ! 0)) else 1)" by (metis option.inject)
  show ?thesis
  proof (cases "i ! 0 = BR_TABLE")
    case True
    have "0 < length vs" using vs(2) True by simp
    then have o: "operand (drop ip c) 0 = Some (vs ! 0)"
      using branch_operands [OF i(1,2)] vs(1) c by (simp add: operand_def)
    have n: "length ds = Suc (unat (vs ! 0))" using vs(3) True by simp
    have eq: "relink c remap ip (pre' @ i @ rest) = Option.bind (retarget_table c remap ip (length i) 0 (unat (vs ! 0)) (pre' @ i @ rest))
        (\<lambda>r. case r of None \<Rightarrow> Some None | Some out' \<Rightarrow> relink c remap (ip + length i) out')"
      using ip w h True o by (subst relink.simps) simp
    from retarget_table_spec [OF c i True pos n i(1) refl refl _ _ f, of 0 rest] i(3)
    show ?thesis unfolding eq by (fastforce split: if_splits)
  next
    case False
    then obtain d where ds: "ds = [d]" using vs(3) by (auto simp: length_Suc_conv)
    have b: "i ! 0 = BR \<or> i ! 0 = BR_IF" using i(2) False by (auto simp: branching_def)
    have sl: "slot_of i 0 = 0" using False by (simp add: slot_of_def)
    have eq: "relink c remap ip (pre' @ i @ rest) = Option.bind (retarget c remap ip (length i) 0 (pre' @ i @ rest))
        (\<lambda>r. case r of None \<Rightarrow> Some None | Some out' \<Rightarrow> relink c remap (ip + length i) out')"
      using ip w h b by (subst relink.simps) auto
    from retarget_step [OF c i _ i(1) refl i(3) refl pos, of 0 rest] ds sl f
    show ?thesis unfolding eq by fastforce
  qed
qed

lemma relink_skip:
  assumes c: "drop ip c = i @ r" and i: "whole i" "\<not> branching i"
  shows "relink c remap ip out = relink c remap (ip + length i) out"
proof -
  have ip: "ip < length c" using c whole_pos [OF i(1)] by (metis append_is_Nil_conv drop_eq_Nil leI length_greater_0_conv)
  have w: "instr_width (drop ip c) = Some (length i)" using c whole_at [OF i(1)] by simp
  have h: "c ! ip = i ! 0" using whole_hd [OF i(1), of r] c ip by (metis add.right_neutral nth_drop less_imp_le)
  show ?thesis using ip w h i(2) by (subst relink.simps) (simp add: branching_def)
qed

lemma relink_skips:
  "drop ip c = concat a @ r \<Longrightarrow> \<forall>i\<in>set a. whole i \<and> \<not> branching i \<Longrightarrow>
   relink c remap ip out = relink c remap (ip + length (concat a)) out"
proof (induction a arbitrary: ip)
  case (Cons i a)
  have d: "drop (ip + length i) c = concat a @ r"
    using Cons.prems(1) by (metis append.assoc append_eq_conv_conj concat.simps(2) drop_drop add.commute)
  then show ?case using relink_skip [of ip c i "concat a @ r"] Cons.IH [OF d] Cons.prems
    by (simp add: add.assoc)
qed simp

fun fits :: "nat list \<Rightarrow> nat \<Rightarrow> nat \<Rightarrow> piece list \<Rightarrow> bool" where
  "fits remap off pos [] = True"
| "fits remap off pos (Put a b # ps) = fits remap (off + length (concat a)) (pos + length (concat b)) ps"
| "fits remap off pos (Keep i # ps) =
     ((branching i \<longrightarrow> (case disps i of None \<Rightarrow> False
        | Some ds \<Rightarrow> list_all (reaches remap (off + length i) (pos + length i)) ds))
      \<and> fits remap (off + length i) (pos + length i) ps)"

lemma relink_plan:
  assumes "c = pre @ old_code ps" "pieces_ok ps"
    and "\<forall>k\<le>length (old_code ps). idx remap (length pre + k) = Some (length pre' + new_off ps k)"
  shows "if fits remap (length pre) (length pre') ps
    then \<exists>js. relink c remap (length pre) (pre' @ new_code ps) = Some (Some (pre' @ concat js))
      \<and> relinked (\<lambda>t. int (remap ! nat t)) (length pre) (length pre') ps js
    else relink c remap (length pre) (pre' @ new_code ps) = Some None"
  using assms
proof (induction ps arbitrary: pre pre')
  case Nil
  then show ?case by (simp add: relink.simps)
next
  case (Cons p ps)
  show ?case
  proof (cases p)
    case (Put a b)
    have c': "c = (pre @ concat a) @ old_code ps" using Cons.prems(1) Put by simp
    have sk: "relink c remap (length pre) out = relink c remap (length (pre @ concat a)) out" for out
      using relink_skips [of "length pre" c a "old_code ps"] c' Cons.prems(2) Put by simp
    have mv: "idx remap (length (pre @ concat a) + k) = Some (length (pre' @ concat b) + new_off ps k)"
      if "k \<le> length (old_code ps)" for k
      using Cons.prems(3) [rule_format, of "length (concat a) + k"] that Put by (simp add: add.assoc)
    note IH = Cons.IH [OF c', of "pre' @ concat b"]
    show ?thesis
    proof (cases "fits remap (length (pre @ concat a)) (length (pre' @ concat b)) ps")
      case True
      with IH Cons.prems(2) mv Put obtain js where
        "relink c remap (length (pre @ concat a)) ((pre' @ concat b) @ new_code ps) = Some (Some ((pre' @ concat b) @ concat js))"
        "relinked (\<lambda>t. int (remap ! nat t)) (length (pre @ concat a)) (length (pre' @ concat b)) ps js" by auto
      then show ?thesis using True Put
        by (simp add: sk) (rule exI [of _ "b @ js"], simp)
    next
      case False
      with IH Cons.prems(2) mv Put show ?thesis by (simp add: sk)
    qed
  next
    case (Keep i)
    have c': "c = (pre @ i) @ old_code ps" using Cons.prems(1) Keep by simp
    have dr: "drop (length pre) c = i @ old_code ps" using c' by simp
    have wi: "whole i" and ok: "pieces_ok ps" using Cons.prems(2) Keep by simp_all
    have mv: "idx remap (length pre + length i + k) = Some (length pre' + length i + new_off ps k)"
      if "k \<le> length (old_code ps)" for k
      using Cons.prems(3) [rule_format, of "length i + k"] that Keep by (simp add: add.assoc)
    have pos: "idx remap (length pre) = Some (length pre')"
      using Cons.prems(3) [rule_format, of 0] Keep whole_pos [OF wi] by simp
    have step: ?thesis
      if r: "relink c remap (length pre) (pre' @ i @ new_code ps)
          = relink c remap (length (pre @ i)) ((pre' @ i') @ new_code ps)"
        and i': "whole i'" "length i' = length i" "i' ! 0 = i ! 0" "\<not> branching i \<longrightarrow> i' = i"
        and b: "branching i \<Longrightarrow> \<exists>ds. disps i = Some ds
          \<and> list_all (reaches remap (length pre + length i) (length pre' + length i)) ds
          \<and> disps i' = Some (map (new_disp remap (length pre + length i) (length pre' + length i)) ds)" for i'
    proof -
      have IH: "if fits remap (length (pre @ i)) (length (pre' @ i')) ps
        then \<exists>js. relink c remap (length (pre @ i)) ((pre' @ i') @ new_code ps) = Some (Some ((pre' @ i') @ concat js))
          \<and> relinked (\<lambda>t. int (remap ! nat t)) (length (pre @ i)) (length (pre' @ i')) ps js
        else relink c remap (length (pre @ i)) ((pre' @ i') @ new_code ps) = Some None"
        using mv i'(2) by (intro Cons.IH [OF c' ok]) (simp add: add.assoc)
      have nd: "new_disp remap (length pre + length i) (length pre' + length i)
          = (\<lambda>d. int (remap ! nat (int (length pre) + int (length i) + d)) - int (length pre') - int (length i))"
        by (rule ext) (simp add: new_disp_def)
      have fit: "fits remap (length pre) (length pre') (p # ps) = fits remap (length (pre @ i)) (length (pre' @ i')) ps"
        using Keep b i'(2) by auto
      show ?thesis
      proof (cases "fits remap (length (pre @ i)) (length (pre' @ i')) ps")
        case True
        with IH obtain js where
          "relink c remap (length (pre @ i)) ((pre' @ i') @ new_code ps) = Some (Some ((pre' @ i') @ concat js))"
          "relinked (\<lambda>t. int (remap ! nat t)) (length (pre @ i)) (length (pre' @ i')) ps js" by auto
        then have "relink c remap (length pre) (pre' @ new_code (p # ps)) = Some (Some (pre' @ concat (i' # js)))
          \<and> relinked (\<lambda>t. int (remap ! nat t)) (length pre) (length pre') (p # ps) (i' # js)"
          using Keep r i' b [unfolded nd] by auto
        then show ?thesis using True fit by (simp only: if_True) blast
      next
        case False
        then show ?thesis using IH fit r Keep by simp
      qed
    qed
    show ?thesis
    proof (cases "branching i")
      case False
      show ?thesis
        by (rule step [of i]) (use relink_skip [OF dr wi False] wi False in simp_all)
    next
      case True
      obtain ds where ds: "disps i = Some ds" using disps_total [OF wi True] by metis
      note br = relink_branch [OF dr wi True ds pos refl, of "new_code ps"]
      show ?thesis
      proof (cases "\<forall>d\<in>set ds. reaches remap (length pre + length i) (length pre' + length i) d")
        case no: False
        then show ?thesis using br Keep True ds by (auto simp: list_all_iff)
      next
        case yes: True
        with br obtain i' where i': "relink c remap (length pre) (pre' @ i @ new_code ps)
            = relink c remap (length (pre @ i)) ((pre' @ i') @ new_code ps)"
          "whole i'" "length i' = length i" "i' ! 0 = i ! 0"
          "disps i' = Some (map (new_disp remap (length pre + length i) (length pre' + length i)) ds)" by auto
        show ?thesis
          by (rule step [OF i'(1-4)]) (use True ds yes i'(5) in \<open>auto simp: list_all_iff\<close>)
      qed
    qed
  qed
qed

section \<open>The rewriter refines the plan\<close>

definition within :: "int \<Rightarrow> handler \<Rightarrow> bool" where
  "within n h \<longleftrightarrow> 0 \<le> h_start h \<and> h_start h \<le> n \<and> 0 \<le> h_end h \<and> h_end h \<le> n \<and> 0 \<le> h_catch h \<and> h_catch h \<le> n"

lemma rehandle_moved:
  "list_all (within (int n)) hs \<Longrightarrow> rehandle (map (new_off ps) [0..<Suc n]) hs = Some (map (move_handler ps) hs)"
proof (induction hs)
  case (Cons h hs)
  have at: "at_remap (map (new_off ps) [0..<Suc n]) x = Some (int (new_off ps (nat x)))" if "0 \<le> x" "x \<le> int n" for x
    using that by (simp add: at_remap_def idx_def nth_append del: upt_Suc)
  show ?case using Cons by (simp add: at within_def move_handler_def del: upt_Suc)
qed simp

lemma fits_targets: "fits remap off pos ps \<Longrightarrow> at_targets (\<lambda>t. 0 \<le> t \<and> t < int (length remap)) off ps"
  by (induction remap off pos ps rule: fits.induct) (auto simp: list_all_iff reaches_def Let_def split: option.splits)

lemma relinked_cong:
  "relinked f off pos ps js \<Longrightarrow> fits remap off pos ps \<Longrightarrow>
   (\<And>t. 0 \<le> t \<Longrightarrow> t < int (length remap) \<Longrightarrow> f t = g t) \<Longrightarrow> relinked g off pos ps js"
  by (rule relinked_at_cong, assumption, rule at_targets_mono [OF fits_targets]) auto

lemma rw_run_plan:
  assumes "sort_edits es = edits_of 0 ps" "es \<noteq> []" "pieces_ok ps" "list_all (within (int (length (old_code ps)))) hs"
  shows "if fits (map (new_off ps) [0..<Suc (length (old_code ps))]) 0 0 ps
    then \<exists>js. rw_run (old_code ps) hs es = Some (Some (concat js, map (move_handler ps) hs))
      \<and> relinked (\<lambda>t. int (new_off ps (nat t))) 0 0 ps js
    else rw_run (old_code ps) hs es = Some None"
proof -
  let ?c = "old_code ps" and ?r = "map (new_off ps) [0..<Suc (length (old_code ps))]"
  have link: "if fits ?r 0 0 ps then \<exists>js. relink ?c ?r 0 (new_code ps) = Some (Some (concat js))
        \<and> relinked (\<lambda>t. int (?r ! nat t)) 0 0 ps js
      else relink ?c ?r 0 (new_code ps) = Some None"
    by (rule relink_plan [of ?c "[]" ps ?r "[]", unfolded list.size append_Nil])
      (use assms(3) in \<open>simp_all add: idx_def del: upt_Suc\<close>)
  have "?r ! nat t = new_off ps (nat t)" if "0 \<le> t" "t < int (length ?r)" for t
    using that by (simp del: upt_Suc)
  then have eq: "(\<lambda>t. int (new_off ps (nat t))) t = int (?r ! nat t)" if "0 \<le> t" "t < int (length ?r)" for t
    using that by (simp del: upt_Suc)
  note run = rw_build_plan [OF assms(1)] assms(2) rehandle_moved [OF assms(4), of ps]
  show ?thesis
  proof (cases "fits ?r 0 0 ps")
    case True
    with link obtain js where "relink ?c ?r 0 (new_code ps) = Some (Some (concat js))"
      "relinked (\<lambda>t. int (?r ! nat t)) 0 0 ps js" by (auto simp del: upt_Suc)
    moreover have "relinked (\<lambda>t. int (new_off ps (nat t))) 0 0 ps js"
      by (rule relinked_cong [OF calculation(2) True]) (rule eq [symmetric])
    ultimately show ?thesis using True run by (auto simp: rw_run_def simp del: upt_Suc)
  next
    case False
    then show ?thesis using link run by (simp add: rw_run_def del: upt_Suc)
  qed
qed

text \<open>C27: The rewriter refines its plan.  When the scheduled edits replace runs of whole instructions that
  contain no branch (and insert whole instructions), \<^verbatim>\<open>run\<close> never panics; it gives up exactly when some
  branch of the kept code leaves the code or no longer reaches its target in 16 bits; otherwise the new
  code decodes to the kept and new instructions in the plan's order, every kept instruction that is no
  branch is unchanged, every kept branch goes to the new places of its old targets, and the exception
  table is moved the same way.\<close>

theorem rewrite_refines_plan:
  assumes "sort_edits es = edits_of 0 ps" "es \<noteq> []" "pieces_ok ps" "list_all (within (int (length (old_code ps)))) hs"
  shows "case rw_run (old_code ps) hs es of
      None \<Rightarrow> False
    | Some None \<Rightarrow> \<not> fits (map (new_off ps) [0..<Suc (length (old_code ps))]) 0 0 ps
    | Some (Some (c', hs')) \<Rightarrow>
        fits (map (new_off ps) [0..<Suc (length (old_code ps))]) 0 0 ps
        \<and> (\<exists>js. unmarshal c' = Some js \<and> map length js = map length (concat (map news ps)))
        \<and> (\<forall>k<length ps. moved_as (ps ! k) (old_code ps) (length (old_code (take k ps)))
              c' (length (new_code (take k ps))) (\<lambda>t. int (new_off ps (nat t))))
        \<and> hs' = map (move_handler ps) hs"
proof (cases "fits (map (new_off ps) [0..<Suc (length (old_code ps))]) 0 0 ps")
  case True
  with rw_run_plan [OF assms] obtain js where js: "rw_run (old_code ps) hs es = Some (Some (concat js, map (move_handler ps) hs))"
    "relinked (\<lambda>t. int (new_off ps (nat t))) 0 0 ps js" by (auto simp del: upt_Suc)
  have "unmarshal (concat js) = Some js" "map length js = map length (concat (map news ps))"
    using relinked_layout [OF js(2) assms(3)] dec.walk_concat by (simp_all add: unmarshal_def whole_def)
  then show ?thesis using js relinked_at [of _ "[]" "[]" ps js] assms(3) True by (simp del: upt_Suc)
next
  case False
  then show ?thesis using rw_run_plan [OF assms] by (simp del: upt_Suc)
qed

definition demo_plan :: "piece list" where
  "demo_plan = [Keep [BR, 1, 0], Put [[NOP]] [[DROP], [DROP]], Keep [RETURN]]"

theorem rewrite_refines_plan_witness:
  "\<exists>c'. rw_run [BR, 1, 0, NOP, RETURN] [] [\<lparr>e_start = 3, e_end = 4, e_bytes = [DROP, DROP]\<rparr>] = Some (Some (c', []))
     \<and> targets c' 0 = Some [5]"
proof -
  let ?es = "[\<lparr>e_start = 3, e_end = 4, e_bytes = [DROP, DROP]\<rparr>]"
  have d: "disps [BR, 1, 0] = Some [1]" "targets [BR, 1, 0, NOP, RETURN] 0 = Some [4]"
    by (simp_all add: disps_def targets_def operand_def operands_def instr_width_def instr_type_def idx_def
      width_simps read_word_def read_i16_def)
  have ok: "pieces_ok demo_plan"
    by (simp add: demo_plan_def pieces_ok_def whole_def instr_width_def instr_type_def idx_def width_simps branching_def)
  have s: "sort_edits ?es = edits_of 0 demo_plan" by (simp add: sort_edits_def demo_plan_def marshal_def)
  have c: "old_code demo_plan = [BR, 1, 0, NOP, RETURN]" by (simp add: demo_plan_def)
  have f: "fits (map (new_off demo_plan) [0..<Suc (length (old_code demo_plan))]) 0 0 demo_plan"
    using d(1) by (simp add: demo_plan_def reaches_def branching_def Let_def nth_append)
  from rewrite_refines_plan [OF s _ ok, of "[]"] f
  obtain c' where r: "rw_run (old_code demo_plan) [] ?es = Some (Some (c', []))"
    "moved_as (demo_plan ! 0) (old_code demo_plan) 0 c' 0 (\<lambda>t. int (new_off demo_plan (nat t)))"
    by (fastforce simp: demo_plan_def split: option.splits simp del: upt_Suc)
  then have "targets c' 0 = Some [5]"
    using d(2) by (simp add: demo_plan_def moved_as_def)
  then show ?thesis using r(1) c by auto
qed

end
