(* ===== verification/Heap.thy ===== *)
theory Heap
  imports Gotypes
begin

text \<open>
  The interpreter's heap (\<^verbatim>\<open>interp/interp.go\<close>, from \<^verbatim>\<open>alloc\<close> to \<^verbatim>\<open>reclaim\<close>, and \<^verbatim>\<open>interp/reuse.go\<close>):
  slots with exact reference counts, a free list, release by work list, and the trial-deletion
  collector \<^verbatim>\<open>scan\<close>/\<^verbatim>\<open>mark\<close>/\<^verbatim>\<open>sweep\<close>/\<^verbatim>\<open>pace\<close>.

  A panic the interpreter raises on purpose is its named trap; \<open>TGoPanic\<close> is a Go runtime panic (an
  index out of range).  Counts are Go \<^verbatim>\<open>int\<close>s, so the model keeps them as integers.  The free list and
  the work lists are stacks with the next element first.  Metrics and the tables of compiled code are
  not part of the model; \<^verbatim>\<open>remove\<close> clears the tables that hold bytecode.
\<close>

section \<open>Traps\<close>

datatype trap =
    TUnknownOpcode | TUnreachable | TSegFault | TStackOverflow | TStackUnderflow | TFrameOverflow
  | TFrameUnderflow | TTypeMismatch | TDivideByZero | TIndexOutOfRange | TFuelExhausted
  | THeapExhausted | TCoroutineDone | TUncaught | TYield | TGoPanic

text \<open>The numeric code \<^verbatim>\<open>ErrorCode\<close> gives a trap; every other error is a host error.  \<open>TUncaught\<close> is the
  \<^verbatim>\<open>escape\<close> of a throw no handler covers and \<open>TYield\<close> the \<^verbatim>\<open>errYield\<close> of a yield at the root.\<close>

fun trap_code :: "trap \<Rightarrow> int" where
  "trap_code TUnknownOpcode = -1"
| "trap_code TUnreachable = -2"
| "trap_code TSegFault = -3"
| "trap_code TStackOverflow = -4"
| "trap_code TStackUnderflow = -5"
| "trap_code TFrameOverflow = -6"
| "trap_code TFrameUnderflow = -7"
| "trap_code TTypeMismatch = -8"
| "trap_code TDivideByZero = -9"
| "trap_code TIndexOutOfRange = -10"
| "trap_code TFuelExhausted = -11"
| "trap_code THeapExhausted = -12"
| "trap_code TCoroutineDone = -13"
| "trap_code TUncaught = -14"
| "trap_code TYield = -15"
| "trap_code TGoPanic = -15"

definition tbind :: "trap + 'a \<Rightarrow> ('a \<Rightarrow> trap + 'b) \<Rightarrow> trap + 'b" where
  "tbind r f = (case r of Inl t \<Rightarrow> Inl t | Inr x \<Rightarrow> f x)"

lemma tbind_simps [simp]: "tbind (Inl t) f = Inl t" "tbind (Inr x) f = f x"
  by (simp_all add: tbind_def)

lemma tbind_Inr: "tbind r f = Inr y \<longleftrightarrow> (\<exists>x. r = Inr x \<and> f x = Inr y)"
  by (cases r) auto

lemma tbind_cong [fundef_cong]:
  "r = r' \<Longrightarrow> (\<And>x. r' = Inr x \<Longrightarrow> f x = g x) \<Longrightarrow> tbind r f = tbind r' g"
  by (cases r') auto

section \<open>Heap values\<close>

text \<open>
  What a slot can hold: nothing, the null reference of slot 0, a scalar (a \<^verbatim>\<open>ref.new\<close> cell, or an
  \<^verbatim>\<open>i64\<close> too wide for its boxed form), and the values of \<^verbatim>\<open>types/\<close>.  A typed array keeps its elements
  as raw words of its element kind; a struct's data are raw words of its fields' kinds.  A coroutine
  (\<^verbatim>\<open>interp/coroutine.go\<close>) is a suspended frame; its \<^verbatim>\<open>upvals\<close> alias the storage of the closure at the
  address in \<open>co_upvals\<close>.
\<close>

record coro =
  co_params :: "gotype list"
  co_results :: "gotype list"
  co_image :: "boxed list"
  co_upvals :: "int option"
  co_value :: boxed
  co_addr :: int
  co_ref :: int
  co_returns :: nat
  co_ip :: int
  co_release :: bool
  co_done :: bool

datatype hval =
    HNil
  | HNull
  | HI1 bool
  | HI8 "8 word"
  | HI32 "32 word"
  | HI64 "64 word"
  | HF32 "32 word"
  | HF64 "64 word"
  | HString string
  | HFunc gofunction
  | HClosure "gotype list" "gotype list" int "boxed list"
  | HArray gotype "boxed list"
  | HTyped kind "64 word list"
  | HStruct "(string \<times> gotype) list" "64 word list"
  | HError int string boxed
  | HCoro coro

definition box_refs :: "boxed list \<Rightarrow> int list" where
  "box_refs bs = map as_ref (filter (\<lambda>b. boxed_kind b = KindRef) bs)"

text \<open>\<^verbatim>\<open>refs\<close>: the references a value owns (\<^verbatim>\<open>Refs\<close> of \<^verbatim>\<open>Traceable\<close>, none for other values).\<close>

fun refs :: "hval \<Rightarrow> int list" where
  "refs (HClosure ps rs fn ups) = fn # box_refs ups"
| "refs (HArray t es) = box_refs es"
| "refs (HStruct fs ds) = box_refs (map snd (filter (\<lambda>(f, d). ty_kind (snd f) = KindRef) (zip fs ds)))"
| "refs (HError code msg v) = box_refs [v]"
| "refs (HCoro c) = (if 0 < co_ref c then [co_ref c] else []) @ box_refs (co_image c) @ box_refs [co_value c]"
| "refs _ = []"

section \<open>State\<close>

record pool =
  pl_values :: "hval list"
  pl_live :: int
  pl_peak :: int

record heap =
  h_cells :: "hval list"
  h_rc :: "int list"
  h_free :: "nat list"
  h_trial :: "int list"
  h_cap :: nat
  h_base :: nat
  h_target :: int
  h_limit :: int
  h_structs :: pool
  h_arrays :: pool
  h_instrs :: "code list"
  h_handlers :: "handler list list"
  h_coros :: "bool list"

definition heap_runway :: int where
  "heap_runway = 64"

section \<open>Object pools\<close>

definition pool_add :: "pool \<Rightarrow> pool" where
  "pool_add p = p\<lparr>pl_live := pl_live p + 1, pl_peak := max (pl_peak p) (pl_live p + 1)\<rparr>"

definition pool_remove :: "pool \<Rightarrow> pool" where
  "pool_remove p = p\<lparr>pl_live := pl_live p - 1\<rparr>"

definition pool_get :: "pool \<Rightarrow> (hval \<times> pool) option" where
  "pool_get p = (case pl_values p of [] \<Rightarrow> None
     | vs \<Rightarrow> Some (last vs, p\<lparr>pl_values := butlast vs\<rparr>))"

definition pool_put :: "hval \<Rightarrow> pool \<Rightarrow> pool" where
  "pool_put v p = p\<lparr>pl_values := pl_values p @ [v]\<rparr>"

definition pool_trim :: "int \<Rightarrow> pool \<Rightarrow> pool \<times> int" where
  "pool_trim dynamic p =
     (let keep = max (pl_peak p) (min dynamic (int (length (pl_values p)))) in
      (if keep < int (length (pl_values p)) then p\<lparr>pl_values := take (nat keep) (pl_values p)\<rparr> else p, keep))"

definition pool_reset :: "pool \<Rightarrow> pool" where
  "pool_reset p = p\<lparr>pl_live := 0, pl_peak := 0\<rparr>"

definition pool_clear :: "pool \<Rightarrow> pool" where
  "pool_clear p = pool_reset (p\<lparr>pl_values := []\<rparr>)"

definition track :: "hval \<Rightarrow> heap \<Rightarrow> heap" where
  "track v h = (case v of
     HStruct fs _ \<Rightarrow> if length fs \<le> 4 then h\<lparr>h_structs := pool_add (h_structs h)\<rparr> else h
   | HArray _ _ \<Rightarrow> h\<lparr>h_arrays := pool_add (h_arrays h)\<rparr>
   | _ \<Rightarrow> h)"

text \<open>\<^verbatim>\<open>newStruct\<close>: a small struct may reuse a pooled object, which \<^verbatim>\<open>Reset\<close> clears first.\<close>

definition struct_reset :: "(string \<times> gotype) list \<Rightarrow> hval \<Rightarrow> hval" where
  "struct_reset fs s = HStruct fs (replicate (length fs) 0)"

definition new_struct :: "(string \<times> gotype) list \<Rightarrow> heap \<Rightarrow> hval \<times> heap" where
  "new_struct fs h =
     (if length fs \<le> 4
      then case pool_get (h_structs h) of
             Some (s, p) \<Rightarrow> (struct_reset fs s, h\<lparr>h_structs := p\<rparr>)
           | None \<Rightarrow> (struct_reset fs HNil, h)
      else (struct_reset fs HNil, h))"

section \<open>Reference counts and release\<close>

definition alive :: "heap \<Rightarrow> int \<Rightarrow> bool" where
  "alive h addr \<longleftrightarrow> 0 \<le> addr \<and> addr < int (length (h_cells h)) \<and> h_rc h ! nat addr > 0"

definition retains :: "int \<Rightarrow> int \<Rightarrow> heap \<Rightarrow> trap + heap" where
  "retains addr n h =
     (if addr < 0 \<or> int (length (h_rc h)) \<le> addr then Inl TGoPanic
      else Inr (h\<lparr>h_rc := (h_rc h)[nat addr := h_rc h ! nat addr + n]\<rparr>))"

definition retain :: "int \<Rightarrow> heap \<Rightarrow> trap + heap" where
  "retain addr h = retains addr 1 h"

definition remove_code :: "nat \<Rightarrow> heap \<Rightarrow> heap" where
  "remove_code addr h =
     (if addr < length (h_instrs h)
      then h\<lparr>h_instrs := (h_instrs h)[addr := []], h_handlers := (h_handlers h)[addr := []],
             h_coros := (h_coros h)[addr := False]\<rparr>
      else h)"

definition finalize :: "nat \<Rightarrow> hval \<Rightarrow> heap \<Rightarrow> heap" where
  "finalize addr v h = (case v of HFunc _ \<Rightarrow> remove_code addr h | _ \<Rightarrow> h)"

definition reclaim :: "nat \<Rightarrow> hval \<Rightarrow> heap \<Rightarrow> heap" where
  "reclaim addr v h =
     (let h1 = finalize addr v h;
          h2 = (case v of
                  HStruct fs _ \<Rightarrow>
                    if length fs \<le> 4 then h1\<lparr>h_structs := pool_put v (pool_remove (h_structs h1))\<rparr> else h1
                | HArray _ _ \<Rightarrow> h1\<lparr>h_arrays := pool_remove (h_arrays h1)\<rparr>
                | _ \<Rightarrow> h1) in
      h2\<lparr>h_cells := (h_cells h2)[addr := HNil], h_free := addr # h_free h2\<rparr>)"

text \<open>The parts of the heap the counting argument is about; the pools and code tables are not.\<close>

lemma remove_code_simps [simp]:
  "h_cells (remove_code a h) = h_cells h" "h_rc (remove_code a h) = h_rc h" "h_free (remove_code a h) = h_free h"
  "h_trial (remove_code a h) = h_trial h" "h_cap (remove_code a h) = h_cap h" "h_limit (remove_code a h) = h_limit h"
  by (simp_all add: remove_code_def)

lemma reclaim_simps [simp]:
  "h_cells (reclaim a v h) = (h_cells h)[a := HNil]" "h_rc (reclaim a v h) = h_rc h"
  "h_free (reclaim a v h) = a # h_free h" "h_trial (reclaim a v h) = h_trial h"
  "h_cap (reclaim a v h) = h_cap h" "h_limit (reclaim a v h) = h_limit h"
  by (cases v; simp add: reclaim_def finalize_def Let_def)+

lemma track_simps [simp]:
  "h_cells (track v h) = h_cells h" "h_rc (track v h) = h_rc h" "h_free (track v h) = h_free h"
  "h_trial (track v h) = h_trial h" "h_cap (track v h) = h_cap h" "h_limit (track v h) = h_limit h"
  by (cases v; simp add: track_def)+

definition ref_count :: "hval list \<Rightarrow> nat" where
  "ref_count vs = sum_list (map (\<lambda>v. length (refs v)) vs)"

lemma ref_count_clear: "a < length vs \<Longrightarrow> ref_count (vs[a := HNil]) + length (refs (vs ! a)) = ref_count vs"
  unfolding ref_count_def
proof (induction vs arbitrary: a)
  case (Cons v vs)
  then show ?case by (cases a) auto
qed simp

text \<open>
  The work-list loop of \<^verbatim>\<open>release\<close>: every entry is one reference nobody owns any more.
\<close>

function release_loop :: "int list \<Rightarrow> heap \<Rightarrow> trap + heap" where
  "release_loop [] h = Inr h"
| "release_loop (a # work) h =
     (if a < 0 \<or> int (length (h_rc h)) \<le> a \<or> int (length (h_cells h)) \<le> a then Inl TGoPanic
      else let k = nat a; h1 = h\<lparr>h_rc := (h_rc h)[k := h_rc h ! k - 1]\<rparr> in
        if h_rc h1 ! k = 0
        then let v = h_cells h1 ! k in release_loop (rev (refs v) @ work) (reclaim k v h1)
        else release_loop work h1)"
  by pat_completeness auto
termination
proof (relation "measure (\<lambda>(work, h). length work + ref_count (h_cells h))", goal_cases)
  case (2 a work h x xa xb)
  then have "nat a < length (h_cells h)" by linarith
  from ref_count_clear [OF this] 2 show ?case by auto
qed auto

definition release :: "int \<Rightarrow> heap \<Rightarrow> trap + heap" where
  "release addr h =
     (if addr < 0 \<or> int (length (h_rc h)) \<le> addr then Inl TGoPanic
      else if h_rc h ! nat addr > 1
      then Inr (h\<lparr>h_rc := (h_rc h)[nat addr := h_rc h ! nat addr - 1]\<rparr>)
      else release_loop [addr] h)"

definition retain_box :: "boxed \<Rightarrow> heap \<Rightarrow> trap + heap" where
  "retain_box v h = (if boxed_kind v = KindRef then retain (as_ref v) h else Inr h)"

definition release_box :: "boxed \<Rightarrow> heap \<Rightarrow> trap + heap" where
  "release_box v h = (if boxed_kind v = KindRef \<and> as_ref v \<noteq> 0 then release (as_ref v) h else Inr h)"

text \<open>\<^verbatim>\<open>dispose\<close>: what \<^verbatim>\<open>Store\<close> does with the value it replaces.\<close>

fun release_all :: "int list \<Rightarrow> heap \<Rightarrow> trap + heap" where
  "release_all [] h = Inr h"
| "release_all (r # rs) h = tbind (release r h) (release_all rs)"

definition dispose :: "nat \<Rightarrow> hval \<Rightarrow> heap \<Rightarrow> trap + heap" where
  "dispose addr v h = tbind (release_all (refs v) h) (\<lambda>h1. Inr (finalize addr v h1))"

section \<open>The collector\<close>

fun scan_refs :: "int list \<Rightarrow> int list \<Rightarrow> int list \<Rightarrow> trap + int list" where
  "scan_refs rc [] trial = Inr trial"
| "scan_refs rc (r # rs) trial =
     (if r = 0 then scan_refs rc rs trial
      else if r < 0 \<or> int (length rc) \<le> r \<or> rc ! nat r \<le> 0 then Inl TSegFault
      else scan_refs rc rs (trial[nat r := trial ! nat r - 1]))"

fun scan_from :: "heap \<Rightarrow> nat list \<Rightarrow> int list \<Rightarrow> trap + int list" where
  "scan_from h [] trial = Inr trial"
| "scan_from h (a # as) trial =
     (if h_rc h ! a \<le> 0 then scan_from h as trial
      else tbind (scan_refs (h_rc h) (refs (h_cells h ! a)) trial) (scan_from h as))"

definition scan :: "heap \<Rightarrow> trap + heap" where
  "scan h = tbind (scan_from h [1..<length (h_rc h)] (h_rc h)) (\<lambda>trial.
     if list_ex (\<lambda>a. h_rc h ! a > 0 \<and> trial ! a < 0) [1..<length (h_rc h)] then Inl TSegFault
     else Inr (h\<lparr>h_trial := trial\<rparr>))"

definition mark_push :: "heap \<Rightarrow> int \<Rightarrow> int list \<times> nat list \<Rightarrow> int list \<times> nat list" where
  "mark_push h a s = (case s of (trial, work) \<Rightarrow>
     if a \<le> 0 \<or> int (length (h_rc h)) \<le> a \<or> h_rc h ! nat a \<le> 0 \<or> trial ! nat a < 0 then (trial, work)
     else (trial[nat a := - (trial ! nat a) - 1], nat a # work))"

definition unmarked :: "int list \<Rightarrow> nat" where
  "unmarked trial = length (filter (\<lambda>t. 0 \<le> t) trial)"

lemma unmarked_mark: "a < length trial \<Longrightarrow> 0 \<le> trial ! a \<Longrightarrow> unmarked (trial[a := - (trial ! a) - 1]) + 1 = unmarked trial"
  unfolding unmarked_def
proof (induction trial arbitrary: a)
  case (Cons t ts)
  then show ?case by (cases a) auto
qed simp

definition mark_weight :: "int list \<times> nat list \<Rightarrow> nat" where
  "mark_weight s = 2 * unmarked (fst s) + length (snd s)"

lemma mark_push_weight: "length (fst s) = length (h_rc h) \<Longrightarrow> mark_weight (mark_push h a s) \<le> mark_weight s
  \<and> length (fst (mark_push h a s)) = length (fst s)"
  using unmarked_mark [of "nat a" "fst s"]
  by (cases s) (auto simp: mark_push_def mark_weight_def nat_less_iff)

lemma mark_pushes_weight: "length (fst s) = length (h_rc h) \<Longrightarrow> mark_weight (fold (mark_push h) as s) \<le> mark_weight s
  \<and> length (fst (fold (mark_push h) as s)) = length (fst s)"
proof (induction as arbitrary: s)
  case (Cons a as)
  then show ?case using mark_push_weight [OF Cons.prems, of a] by fastforce
qed simp

text \<open>Tracing from the external roots.  (The length test holds by construction: \<^verbatim>\<open>scan\<close> sized \<^verbatim>\<open>trial\<close>.)\<close>

function mark_loop :: "heap \<Rightarrow> int list \<times> nat list \<Rightarrow> int list" where
  "mark_loop h s = (case snd s of [] \<Rightarrow> fst s
     | a # work \<Rightarrow> if length (fst s) \<noteq> length (h_rc h) then fst s
         else mark_loop h (fold (mark_push h) (refs (h_cells h ! a)) (fst s, work)))"
  by pat_completeness auto
termination
proof (relation "measure (\<lambda>(h, s). mark_weight s)", goal_cases)
  case (2 h s a work)
  then show ?case using mark_pushes_weight [of "(fst s, work)" h "refs (h_cells h ! a)"]
    by (simp add: mark_weight_def)
qed simp

declare mark_loop.simps [simp del]

definition mark :: "heap \<Rightarrow> heap" where
  "mark h =
     (let roots = fold (\<lambda>a s. if h_rc h ! a > 0 \<and> fst s ! a > 0 then mark_push h (int a) s else s)
                    [1..<length (h_rc h)] (h_trial h, []) in
      h\<lparr>h_trial := mark_loop h roots\<rparr>)"

definition sweep_ref :: "int list \<Rightarrow> int \<Rightarrow> int list \<Rightarrow> int list" where
  "sweep_ref trial r rc =
     (if 0 < r \<and> r < int (length rc) \<and> rc ! nat r > 0 \<and> trial ! nat r < 0
      then rc[nat r := rc ! nat r - 1] else rc)"

definition sweep1 :: "nat \<Rightarrow> heap \<Rightarrow> heap" where
  "sweep1 a h =
     (if h_rc h ! a \<le> 0 \<or> h_trial h ! a < 0 then h
      else let v = h_cells h ! a; rc1 = fold (sweep_ref (h_trial h)) (refs v) (h_rc h) in
        reclaim a v (h\<lparr>h_rc := rc1[a := 0]\<rparr>))"

definition sweep :: "heap \<Rightarrow> heap" where
  "sweep h = fold sweep1 [1..<length (h_cells h)] h"

definition pace :: "heap \<Rightarrow> heap" where
  "pace h =
     (let live = int (length (h_cells h)) - int (length (h_free h));
          t = live + max (live - int (h_base h)) heap_runway;
          t' = (if h_limit h > 0 then min t (h_limit h) else t) in
      h\<lparr>h_target := max t' live\<rparr>)"

definition gc :: "heap \<Rightarrow> trap + heap" where
  "gc h = tbind (scan h) (\<lambda>h1. Inr (pace (sweep (mark h1))))"

section \<open>Allocation\<close>

definition reuse :: "hval \<Rightarrow> heap \<Rightarrow> (nat \<times> heap) option" where
  "reuse v h = (case h_free h of [] \<Rightarrow> None
     | a # fr \<Rightarrow> Some (a, h\<lparr>h_free := fr, h_cells := (h_cells h)[a := v], h_rc := (h_rc h)[a := 1]\<rparr>))"

definition grow :: "hval \<Rightarrow> heap \<Rightarrow> trap + nat \<times> heap" where
  "grow v h =
     (if h_limit h > 0 \<and> int (length (h_cells h)) \<ge> h_limit h then Inl THeapExhausted
      else let c = (if length (h_cells h) = h_cap h then (if h_cap h = 0 then 1 else 2 * h_cap h) else h_cap h) in
        Inr (length (h_cells h), track v (h\<lparr>h_cap := c, h_cells := h_cells h @ [v], h_rc := h_rc h @ [1]\<rparr>)))"

definition alloc :: "hval \<Rightarrow> heap \<Rightarrow> trap + nat \<times> heap" where
  "alloc v h =
     (let collected = (h_target h > 0 \<and> int (length (h_cells h)) - int (length (h_free h)) \<ge> h_target h) in
      tbind (if collected then gc h else Inr h) (\<lambda>h1.
        case reuse v h1 of Some (a, h2) \<Rightarrow> Inr (a, track v h2)
        | None \<Rightarrow>
            let full = (length (h_cells h1) = h_cap h1);
                limited = (h_limit h1 > 0 \<and> int (length (h_cells h1)) \<ge> h_limit h1) in
            if \<not> collected \<and> (full \<or> limited)
            then tbind (gc h1) (\<lambda>h3. case reuse v h3 of Some (a, h4) \<Rightarrow> Inr (a, track v h4) | None \<Rightarrow> grow v h3)
            else grow v h1))"

text \<open>\<^verbatim>\<open>recount\<close>: the baseline counts, from the constants and the edges between slots.\<close>

definition count_ref :: "int \<Rightarrow> int list \<Rightarrow> int list" where
  "count_ref r rc = (if 0 \<le> r \<and> r < int (length rc) then rc[nat r := rc ! nat r + 1] else rc)"

definition recount :: "boxed list \<Rightarrow> heap \<Rightarrow> heap" where
  "recount consts h =
     (let rc0 = (replicate (length (h_rc h)) 0)[0 := 1];
          rc1 = fold count_ref (box_refs consts) rc0 in
      h\<lparr>h_rc := fold (\<lambda>a. fold count_ref (refs (h_cells h ! a))) [1..<length (h_cells h)] rc1\<rparr>)"

section \<open>Boxing\<close>

definition box_int64 :: "64 word \<Rightarrow> heap \<Rightarrow> trap + boxed \<times> heap" where
  "box_int64 v h =
     (if is_boxable v then Inr (box_i64 v, h)
      else tbind (alloc (HI64 v) h) (\<lambda>(a, h1). Inr (box_ref (int a), h1)))"

definition cell_at :: "int \<Rightarrow> heap \<Rightarrow> trap + hval" where
  "cell_at a h = (if a < 0 \<or> int (length (h_cells h)) \<le> a then Inl TGoPanic else Inr (h_cells h ! nat a))"

definition borrow_i64 :: "boxed \<Rightarrow> heap \<Rightarrow> trap + 64 word" where
  "borrow_i64 b h =
     (if boxed_kind b \<noteq> KindRef then Inr (as_i64 b)
      else tbind (cell_at (as_ref b) h) (\<lambda>v. case v of HI64 i \<Rightarrow> Inr i | _ \<Rightarrow> Inl TTypeMismatch))"

definition unbox_i64 :: "boxed \<Rightarrow> heap \<Rightarrow> trap + 64 word \<times> heap" where
  "unbox_i64 b h =
     (if boxed_kind b \<noteq> KindRef then Inr (as_i64 b, h)
      else tbind (cell_at (as_ref b) h) (\<lambda>v.
        case v of HI64 i \<Rightarrow> tbind (release (as_ref b) h) (\<lambda>h1. Inr (i, h1)) | _ \<Rightarrow> Inl TTypeMismatch))"

end
