(* ===== verification/Arith.thy ===== *)
theory Arith
  imports Boxed "HOL-Library.Signed_Division"
begin

text \<open>
  The integer operations the scalar instruction handlers of \<^verbatim>\<open>interp/threaded.go\<close> apply to their
  operands.  They are Go's operators on \<^verbatim>\<open>int32\<close>, \<^verbatim>\<open>uint32\<close>, \<^verbatim>\<open>int64\<close> and \<^verbatim>\<open>uint64\<close> and the functions of
  \<^verbatim>\<open>math/bits\<close>, so each is a function on words of any width: wrapping \<open>+\<close>, \<open>-\<close>, \<open>*\<close> are those of the
  word type, the others are written out here.  A signed view of a word is \<open>sint\<close>, an unsigned one
  \<open>uint\<close>.
\<close>

section \<open>Definitions\<close>

text \<open>Go's \<^verbatim>\<open>/\<close> and \<^verbatim>\<open>%\<close> on signed operands truncate towards zero and wrap.\<close>

definition go_div_s :: "'a::len word \<Rightarrow> 'a word \<Rightarrow> 'a word" where
  "go_div_s x y = word_of_int (sint x sdiv sint y)"

definition go_rem_s :: "'a::len word \<Rightarrow> 'a word \<Rightarrow> 'a word" where
  "go_rem_s x y = word_of_int (sint x smod sint y)"

text \<open>Shifts whose count is cut to the width by \<^verbatim>\<open>y & 31\<close> or \<^verbatim>\<open>y & 63\<close>.\<close>

definition shift_count :: "'a::len word \<Rightarrow> nat" where
  "shift_count y = nat (uint y mod int LENGTH('a))"

definition go_shl :: "'a::len word \<Rightarrow> 'a word \<Rightarrow> 'a word" where
  "go_shl x y = push_bit (shift_count y) x"

definition go_shr_s :: "'a::len word \<Rightarrow> 'a word \<Rightarrow> 'a word" where
  "go_shr_s x y = signed_drop_bit (shift_count y) x"

definition go_shr_u :: "'a::len word \<Rightarrow> 'a word \<Rightarrow> 'a word" where
  "go_shr_u x y = drop_bit (shift_count y) x"

text \<open>\<^verbatim>\<open>bits.RotateLeft\<close>: \<^verbatim>\<open>x<<s | x>>(n-s)\<close> with \<^verbatim>\<open>s = uint(k) & (n-1)\<close>.\<close>

definition rotate_left :: "'a::len word \<Rightarrow> int \<Rightarrow> 'a word" where
  "rotate_left x k =
     (let s = nat (k mod int LENGTH('a)) in push_bit s x OR drop_bit (LENGTH('a) - s) x)"

definition go_rotl :: "'a::len word \<Rightarrow> 'a word \<Rightarrow> 'a word" where
  "go_rotl x y = rotate_left x (sint y)"

definition go_rotr :: "'a::len word \<Rightarrow> 'a word \<Rightarrow> 'a word" where
  "go_rotr x y = rotate_left x (- sint y)"

text \<open>\<^verbatim>\<open>bits.LeadingZeros\<close>, \<^verbatim>\<open>TrailingZeros\<close>, \<^verbatim>\<open>OnesCount\<close> of Go's standard library, and the handlers over them.\<close>

definition bits_of :: "'a::len word \<Rightarrow> bool list" where
  "bits_of x = map (bit x) [0..<LENGTH('a)]"

definition leading_zeros :: "'a::len word \<Rightarrow> nat" where
  "leading_zeros x = length (takeWhile Not (rev (bits_of x)))"

definition trailing_zeros :: "'a::len word \<Rightarrow> nat" where
  "trailing_zeros x = length (takeWhile Not (bits_of x))"

definition ones_count :: "'a::len word \<Rightarrow> nat" where
  "ones_count x = length (filter id (bits_of x))"

definition go_clz :: "'a::len word \<Rightarrow> 'a word" where
  "go_clz x = of_nat (leading_zeros x)"

definition go_ctz :: "'a::len word \<Rightarrow> 'a word" where
  "go_ctz x = of_nat (trailing_zeros x)"

definition go_popcnt :: "'a::len word \<Rightarrow> 'a word" where
  "go_popcnt x = of_nat (ones_count x)"

text \<open>Conversions that cut to a narrower width and extend again with the sign.\<close>

definition extend8 :: "'a::len word \<Rightarrow> 'a word" where
  "extend8 x = scast (ucast x :: 8 word)"

definition extend16 :: "'a::len word \<Rightarrow> 'a word" where
  "extend16 x = scast (ucast x :: 16 word)"

definition extend32 :: "'a::len word \<Rightarrow> 'a word" where
  "extend32 x = scast (ucast x :: 32 word)"

text \<open>Comparisons, signed and unsigned.\<close>

definition lt_s :: "'a::len word \<Rightarrow> 'a word \<Rightarrow> bool" where "lt_s x y \<longleftrightarrow> sint x < sint y"
definition le_s :: "'a::len word \<Rightarrow> 'a word \<Rightarrow> bool" where "le_s x y \<longleftrightarrow> sint x \<le> sint y"
definition lt_u :: "'a::len word \<Rightarrow> 'a word \<Rightarrow> bool" where "lt_u x y \<longleftrightarrow> uint x < uint y"
definition le_u :: "'a::len word \<Rightarrow> 'a word \<Rightarrow> bool" where "le_u x y \<longleftrightarrow> uint x \<le> uint y"

text \<open>
  \<^verbatim>\<open>I32_AND\<close>, \<^verbatim>\<open>I32_OR\<close> and \<^verbatim>\<open>I32_XOR\<close> work on the boxed words.  (In the last, \<^verbatim>\<open>^\<close> binds weaker than
  \<^verbatim>\<open>&\<close>, so the left operand is not masked.)
\<close>

definition box_and :: "boxed \<Rightarrow> boxed \<Rightarrow> boxed" where
  "box_and a b = a AND b"

definition box_or :: "boxed \<Rightarrow> boxed \<Rightarrow> boxed" where
  "box_or a b = a OR b"

definition box_xor :: "boxed \<Rightarrow> boxed \<Rightarrow> boxed" where
  "box_xor a b = ((a AND b) AND NOT vmask) OR (a XOR (b AND vmask))"

section \<open>Division\<close>

lemma sint_bounds: "- (2 ^ (LENGTH('a) - 1)) \<le> sint (x :: 'a::len word)" "sint x < 2 ^ (LENGTH('a) - 1)"
  using sint_greater_eq [of x] sint_less [of x] by simp_all

lemma sint_nonzero: "x \<noteq> 0 \<Longrightarrow> sint x \<noteq> 0"
  by (simp add: signed_eq_0_iff)

lemma sint_word_of_int_id:
  "- (2 ^ (LENGTH('a) - 1)) \<le> k \<Longrightarrow> k < 2 ^ (LENGTH('a) - 1) \<Longrightarrow> sint (word_of_int k :: 'a::len word) = k"
  by (simp add: sint_sbintrunc' signed_take_bit_int_eq_self)

lemma sdiv_lt:
  fixes a b :: int
  assumes a: "- m \<le> a" "a < m" and b: "b \<noteq> 0" and w: "a = - m \<longrightarrow> b \<noteq> - 1"
  shows "- m \<le> a sdiv b" "a sdiv b < m"
proof -
  have r: "- \<bar>a\<bar> \<le> a sdiv b" "a sdiv b \<le> \<bar>a\<bar>" using sdiv_int_range [of a b] by auto
  show "- m \<le> a sdiv b" using r a by linarith
  show "a sdiv b < m"
  proof (cases "a = - m")
    case False
    then show ?thesis using r a by linarith
  next
    case True
    have "\<bar>a\<bar> div \<bar>b\<bar> < m" if "\<bar>b\<bar> \<noteq> 1" "m > 0"
    proof -
      have "\<bar>b\<bar> > 1" using that b by linarith
      then show ?thesis using True that int_div_less_self [of m "\<bar>b\<bar>"] by simp
    qed
    moreover have "a sdiv b = sgn a * sgn b * (\<bar>a\<bar> div \<bar>b\<bar>)" by (simp add: signed_divide_int_def)
    moreover have "0 \<le> m div \<bar>b\<bar>" if "0 < m" using that by (simp add: pos_imp_zdiv_nonneg_iff b)
    ultimately show ?thesis using True a w b
      by (cases "\<bar>b\<bar> = 1") (auto simp: sgn_if abs_if split: if_splits)
  qed
qed

lemma sint_div:
  assumes "y \<noteq> 0" "sint x = - (2 ^ (LENGTH('a) - 1)) \<longrightarrow> sint y \<noteq> - 1"
  shows "sint (go_div_s x (y :: 'a::len word)) = sint x sdiv sint y"
  unfolding go_div_s_def
  by (rule sint_word_of_int_id; rule sdiv_lt) (use assms sint_nonzero [of y] sint_bounds [of x] in auto)

lemma sint_rem:
  assumes "y \<noteq> 0"
  shows "sint (go_rem_s x (y :: 'a::len word)) = sint x smod sint y"
proof -
  have y: "sint y \<noteq> 0" using assms by (rule sint_nonzero)
  have "sint x smod sint y \<in> {- \<bar>sint y\<bar> + 1..\<bar>sint y\<bar> - 1}" by (rule smod_int_range) (use y in simp)
  then show ?thesis unfolding go_rem_s_def using sint_bounds [of y] by (intro sint_word_of_int_id) auto
qed

lemma div_min_wraps:
  assumes "sint (x :: 'a::len word) = - (2 ^ (LENGTH('a) - 1))" "sint (y :: 'a word) = - 1"
  shows "go_div_s x y = x" "go_rem_s x y = 0"
proof -
  have "(2 :: 'a word) * 2 ^ (LENGTH('a) - 1) = 2 ^ LENGTH('a)" by (simp flip: power_Suc)
  then have "- word_of_int (sint x) = (word_of_int (sint x) :: 'a word)" using assms(1) by simp
  then show "go_div_s x y = x" using assms(2) by (simp add: go_div_s_def)
  show "go_rem_s x y = 0" using assms by (simp add: go_rem_s_def signed_modulo_int_def)
qed

text \<open>C30: Signed division.  For a non-zero divisor of any width, the quotient is the integer quotient of the
  magnitudes with the sign of the product, that is, the exact quotient cut towards zero, and it is
  exact in every case but one: the least integer by \<open>-1\<close> wraps to the least integer.  The remainder is
  that of the magnitudes with the dividend's sign, and in wrapping arithmetic the two give the
  dividend back.\<close>

theorem div_rem_s:
  assumes "y \<noteq> (0 :: 'a::len word)"
  shows "sint (go_div_s x y)
      = (if sint x = - (2 ^ (LENGTH('a) - 1)) \<and> sint y = - 1 then - (2 ^ (LENGTH('a) - 1))
         else sgn (sint x) * sgn (sint y) * (\<bar>sint x\<bar> div \<bar>sint y\<bar>))
    \<and> sint (go_rem_s x y) = sgn (sint x) * (\<bar>sint x\<bar> mod \<bar>sint y\<bar>)
    \<and> go_div_s x y * y + go_rem_s x y = x"
proof (intro conjI)
  have "of_int (sint x sdiv sint y * sint y + sint x smod sint y) = x" by (simp add: sdiv_mult_smod_eq)
  then show "go_div_s x y * y + go_rem_s x y = x"
    by (simp add: go_div_s_def go_rem_s_def del: sdiv_mult_smod_eq)
  show "sint (go_rem_s x y) = sgn (sint x) * (\<bar>sint x\<bar> mod \<bar>sint y\<bar>)"
    unfolding sint_rem [OF assms] signed_modulo_int_def ..
  show "sint (go_div_s x y) = (if sint x = - (2 ^ (LENGTH('a) - 1)) \<and> sint y = - 1 then - (2 ^ (LENGTH('a) - 1))
         else sgn (sint x) * sgn (sint y) * (\<bar>sint x\<bar> div \<bar>sint y\<bar>))"
    using div_min_wraps(1) [of x y] sint_div [OF assms, of x] by (simp add: signed_divide_int_def)
qed

theorem div_rem_s_witness:
  "sint (go_div_s (-7 :: 32 word) 2) = - 3 \<and> sint (go_rem_s (-7 :: 32 word) 2) = - 1
   \<and> go_div_s (-7 :: 32 word) 2 * 2 + go_rem_s (-7) 2 = - 7"
  using div_rem_s [of "2 :: 32 word" "- 7"] by simp

section \<open>Shifts and rotations\<close>

lemma shift_count_less: "shift_count (y :: 'a::len word) < LENGTH('a)"
  by (simp add: shift_count_def nat_less_iff)

lemma bit_rotate_left:
  assumes "n < LENGTH('a)"
  shows "bit (rotate_left (x :: 'a::len word) k) n = bit x (nat ((int n - k) mod int LENGTH('a)))"
proof -
  let ?L = "int LENGTH('a)"
  define s where "s = nat (k mod ?L)"
  have s: "s < LENGTH('a)" by (simp add: s_def nat_less_iff)
  have ks: "k mod ?L = int s" by (simp add: s_def)
  have e: "(int n - k) mod ?L = (int n - int s) mod ?L" using ks by (metis mod_diff_right_eq)
  have r: "rotate_left x k = push_bit s x OR drop_bit (LENGTH('a) - s) x" by (simp add: rotate_left_def s_def Let_def)
  show ?thesis
  proof (cases "s \<le> n")
    case True
    then have "nat ((int n - k) mod ?L) = n - s" using e assms by (simp add: mod_pos_pos_trivial nat_diff_distrib)
    moreover have "\<not> bit x (LENGTH('a) - s + n)" using True s bit_imp_le_length [of x "LENGTH('a) - s + n"] by linarith
    ultimately show ?thesis using True assms by (simp add: r bit_simps)
  next
    case False
    have "(int n - int s) mod ?L = int n - int s + ?L"
      using mod_pos_pos_trivial [of "int n - int s + ?L" ?L] False s by simp
    then have "nat ((int n - k) mod ?L) = LENGTH('a) - s + n" using e False s by simp
    then show ?thesis using False s by (simp add: r bit_simps)
  qed
qed

lemma rotate_left_add: "rotate_left (rotate_left (x :: 'a::len word) j) k = rotate_left x (j + k)"
proof (rule bit_word_eqI)
  fix n assume n: "n < LENGTH('a)"
  let ?L = "int LENGTH('a)"
  have m: "nat ((int n - k) mod ?L) < LENGTH('a)" by (simp add: nat_less_iff)
  have "((int n - k) mod ?L - j) mod ?L = (int n - (j + k)) mod ?L"
    by (simp add: mod_diff_left_eq algebra_simps)
  then show "bit (rotate_left (rotate_left x j) k) n = bit (rotate_left x (j + k)) n"
    by (simp add: bit_rotate_left n m)
qed

lemma rotate_left_0: "rotate_left (x :: 'a::len word) 0 = x"
  by (rule bit_word_eqI) (simp add: bit_rotate_left)

lemma ones_count_card: "ones_count (x :: 'a::len word) = card {n. n < LENGTH('a) \<and> bit x n}"
  unfolding ones_count_def bits_of_def filter_map o_def length_map id_def
  by (subst distinct_card [symmetric]) (auto intro: arg_cong [where f = card])

text \<open>Rotations.  For every count, negative or past the width, rotating right undoes rotating left
  and the other way round, and a rotation moves bits without losing any.\<close>

theorem rotate_inverse:
  "go_rotr (go_rotl (x :: 'a::len word) y) y = x \<and> go_rotl (go_rotr x y) y = x
   \<and> ones_count (go_rotl x y) = ones_count x"
proof -
  let ?L = "LENGTH('a)"
  define f where "f n = nat ((int n - sint y) mod int ?L)" for n
  have inj: "inj_on f {..<?L}"
  proof (rule inj_onI)
    fix a b assume ab: "a \<in> {..<?L}" "b \<in> {..<?L}" and "f a = f b"
    then have "(int a - sint y) mod int ?L = (int b - sint y) mod int ?L" by (simp add: f_def nat_eq_iff)
    then have "(int a - sint y + sint y) mod int ?L = (int b - sint y + sint y) mod int ?L" by (rule mod_add_cong) simp
    then show "a = b" using ab by (simp add: mod_pos_pos_trivial)
  qed
  have im: "f ` {..<?L} = {..<?L}"
    by (rule endo_inj_surj [OF _ _ inj]) (auto simp: f_def nat_less_iff)
  have "f ` {n. n < ?L \<and> bit (go_rotl x y) n} = {n. n < ?L \<and> bit x n}"
  proof (intro set_eqI iffI)
    fix m assume m: "m \<in> {n. n < ?L \<and> bit x n}"
    then obtain n where "n < ?L" "m = f n" using im by (metis (mono_tags, lifting) imageE lessThan_iff mem_Collect_eq)
    then show "m \<in> f ` {n. n < ?L \<and> bit (go_rotl x y) n}" using m by (auto simp: go_rotl_def bit_rotate_left f_def)
  qed (auto simp: go_rotl_def bit_rotate_left f_def nat_less_iff)
  moreover have "card (f ` {n. n < ?L \<and> bit (go_rotl x y) n}) = card {n. n < ?L \<and> bit (go_rotl x y) n}"
    by (rule card_image, rule inj_on_subset [OF inj]) auto
  ultimately have "ones_count (go_rotl x y) = ones_count x" by (simp add: ones_count_card)
  then show ?thesis by (simp add: go_rotl_def go_rotr_def rotate_left_add rotate_left_0)
qed

section \<open>Counting bits\<close>

lemma bits_of_nth: "n < LENGTH('a) \<Longrightarrow> bits_of (x :: 'a::len word) ! n = bit x n"
  by (simp add: bits_of_def)

lemma length_bits_of [simp]: "length (bits_of (x :: 'a::len word)) = LENGTH('a)"
  by (simp add: bits_of_def)

lemma takeWhile_Not:
  "length (takeWhile Not bs) \<le> length bs"
  "n < length (takeWhile Not bs) \<Longrightarrow> \<not> bs ! n"
  "length (takeWhile Not bs) < length bs \<Longrightarrow> bs ! length (takeWhile Not bs)"
  using nth_mem [of n "takeWhile Not bs"] nth_length_takeWhile [of Not bs]
  by (auto simp: length_takeWhile_le takeWhile_nth dest: set_takeWhileD)

lemma trailing_zeros_eqI:
  assumes "bit (x :: 'a::len word) t" "\<And>n. bit x n \<Longrightarrow> t \<le> n"
  shows "trailing_zeros x = t"
proof -
  let ?z = "trailing_zeros x"
  have t: "t < LENGTH('a)" using assms(1) by (rule bit_imp_le_length)
  have "bits_of x ! t" using assms(1) bits_of_nth [OF t, of x] by simp
  then have "\<not> t < ?z" using takeWhile_Not(2) [of t "bits_of x"] by (auto simp: trailing_zeros_def)
  moreover have "bit x ?z" if "?z < LENGTH('a)" using takeWhile_Not(3) [of "bits_of x"] that bits_of_nth [OF that, of x]
    by (simp add: trailing_zeros_def)
  ultimately show ?thesis using assms(2) [of ?z] t by linarith
qed

lemma leading_zeros_eqI:
  assumes "bit (x :: 'a::len word) t" "\<And>n. bit x n \<Longrightarrow> n \<le> t"
  shows "leading_zeros x = LENGTH('a) - 1 - t"
proof -
  let ?L = "LENGTH('a)" and ?z = "leading_zeros x" and ?bs = "rev (bits_of x)"
  have t: "t < ?L" using assms(1) by (rule bit_imp_le_length)
  have nth: "?bs ! n = bit x (?L - 1 - n)" if "n < ?L" for n using that by (simp add: rev_nth bits_of_nth)
  have "\<not> ?L - 1 - t < ?z" using takeWhile_Not(2) [of "?L - 1 - t" ?bs] nth [of "?L - 1 - t"] assms(1) t
    by (auto simp: leading_zeros_def)
  moreover have "bit x (?L - 1 - ?z)" if "?z < ?L" using takeWhile_Not(3) [of ?bs] that nth [OF that]
    by (simp add: leading_zeros_def)
  ultimately show ?thesis using assms(2) [of "?L - 1 - ?z"] t by linarith
qed

lemma bits_of_0: "bits_of (0 :: 'a::len word) = replicate LENGTH('a) False"
  by (rule nth_equalityI) (simp_all add: bits_of_nth)

lemma zeros_of_0: "leading_zeros (0 :: 'a::len word) = LENGTH('a)" "trailing_zeros (0 :: 'a::len word) = LENGTH('a)"
  by (simp_all add: leading_zeros_def trailing_zeros_def bits_of_0 takeWhile_replicate)

lemma unat_small_count: "k \<le> LENGTH('a) \<Longrightarrow> unat (of_nat k :: 'a::len word) = k"
  using le_less_trans [OF _ less_exp, of k "LENGTH('a)"] by (simp add: unsigned_of_nat take_bit_nat_eq_self)

text \<open>C31: Bit counts.  For every word, of any width: I32/I64 POPCNT gives the number of its set bits; CTZ the
  position of the lowest set bit and CLZ the distance of the highest set bit from the top bit, both
  the width for zero.\<close>

theorem count_bits:
  fixes x :: "'a::len word"
  shows "unat (go_popcnt x) = card {n. n < LENGTH('a) \<and> bit x n}
    \<and> unat (go_ctz x) = (if x = 0 then LENGTH('a) else Min {n. bit x n})
    \<and> unat (go_clz x) = (if x = 0 then LENGTH('a) else LENGTH('a) - 1 - Max {n. bit x n})"
proof -
  let ?S = "{n. bit x n}"
  have sub: "?S \<subseteq> {..<LENGTH('a)}" using bit_imp_le_length by auto
  then have fin: "finite ?S" by (rule finite_subset) simp
  have "card {n. n < LENGTH('a) \<and> bit x n} \<le> card {..<LENGTH('a)}" by (rule card_mono) auto
  then have pop: "unat (go_popcnt x) = card {n. n < LENGTH('a) \<and> bit x n}"
    by (simp add: go_popcnt_def ones_count_card unat_small_count)
  have "trailing_zeros x = Min ?S \<and> leading_zeros x = LENGTH('a) - 1 - Max ?S \<and> Min ?S < LENGTH('a)" if "x \<noteq> 0"
  proof -
    have "\<exists>n. bit x n" using that by (metis bit_0_eq bit_eqI bot_apply bot_bool_def)
    then have ne: "?S \<noteq> {}" by blast
    have mem: "bit x (Min ?S)" "bit x (Max ?S)" using Min_in [OF fin ne] Max_in [OF fin ne] by blast+
    show ?thesis
      using trailing_zeros_eqI [OF mem(1)] leading_zeros_eqI [OF mem(2)] Min_le [OF fin] Max_ge [OF fin] bit_imp_le_length [OF mem(1)]
      by blast
  qed
  then show ?thesis using pop by (auto simp: go_ctz_def go_clz_def zeros_of_0 unat_small_count)
qed

section \<open>Tags of the bitwise operations\<close>

lemma boxed_kindI:
  assumes "drop_bit 52 u = 0x7FF" and "drop_bit 49 u AND 7 = kind_tag k" and k: "k \<notin> {KindF64, KindText, KindAny}"
  shows "boxed_kind u = k"
proof -
  have "kind_tag k \<noteq> 0" using k by (cases k) auto
  moreover have "drop_bit 49 u AND 7 = drop_bit 49 (u AND 0x000FFFFFFFFFFFFF)"
    by (rule bit_word_eqI) (auto simp: mask_consts bit_simps)
  ultimately have "u AND 0x000FFFFFFFFFFFFF \<noteq> 0" using assms(2) by (metis drop_bit_of_0)
  then show ?thesis using assms by (simp add: boxed_kind_def kind_of_tag_kind_tag)
qed

lemma boxed_kind_top:
  assumes "boxed_kind u = k" "k \<in> {KindI32, KindI8, KindI1}"
  shows "drop_bit 52 u = 0x7FF" "drop_bit 49 u AND 7 = kind_tag k"
  using assms by (auto simp: boxed_kind_def kind_of_tag_def split: if_splits)

lemma box_bitop_bits:
  "drop_bit 52 (box_and a b) = drop_bit 52 a AND drop_bit 52 b"
  "drop_bit 49 (box_and a b) AND 7 = (drop_bit 49 a AND 7) AND (drop_bit 49 b AND 7)"
  "drop_bit 52 (box_or a b) = drop_bit 52 a OR drop_bit 52 b"
  "drop_bit 49 (box_or a b) AND 7 = (drop_bit 49 a AND 7) OR (drop_bit 49 b AND 7)"
  "drop_bit 52 (box_xor a b) = drop_bit 52 a"
  "drop_bit 49 (box_xor a b) AND 7 = drop_bit 49 a AND 7"
  by (rule bit_word_eqI; auto simp: box_and_def box_or_def box_xor_def mask_consts bit_simps)+

lemma as_i32_bitop:
  "as_i32 (box_and a b) = as_i32 a AND as_i32 b" "as_i32 (box_or a b) = as_i32 a OR as_i32 b"
  "as_i32 (box_xor a b) = as_i32 a XOR as_i32 b"
  by (rule bit_word_eqI; auto simp: as_i32_def box_and_def box_or_def box_xor_def mask_consts bit_simps)+

end
