(* ===== verification/Machine.thy ===== *)
theory Machine
  imports Heap Arith
begin

text \<open>
  The interpreter's state (\<^verbatim>\<open>interp/interp.go\<close>) and the instruction handlers of \<^verbatim>\<open>interp/threaded.go\<close> that
  move values between the operand stack, the locals, globals, upvalues and constants, branch, and work
  on references.

  A handler is compiled once per code position (the outer Go function, reading its operands from the
  code) and run many times (the closure it returns).  Here \<open>op_x c ip\<close> is the compile step; \<open>None\<close> is
  its index panic on truncated code.  A panicking handler leaves the state as it was at the panic,
  because the exception machinery unwinds from there: a run's outcome is \<open>Inl\<close> of the trap and that
  state.  The hooks of the tiered compiler (\<^verbatim>\<open>c.entry\<close>, \<^verbatim>\<open>c.backedge\<close>) only start native compilation; the
  model runs with tiering off.
\<close>

section \<open>State\<close>

record threader =
  tr_types :: "gotype list"
  tr_constants :: "boxed list"
  tr_locals :: "kind list"
  tr_globals :: "kind list"
  tr_captures :: "kind list"
  tr_code :: code
  tr_exact :: bool

text \<open>
  \<^verbatim>\<open>upvals\<close> is a slice aliasing the storage of the closure being run, so a frame keeps the closure's
  address; \<^verbatim>\<open>nil\<close> is \<open>None\<close>.
\<close>

record frame =
  f_addr :: int
  f_returns :: nat
  f_code :: threader
  f_upvals :: "int option"
  f_ref :: int
  f_release :: bool
  f_coro :: int
  f_ip :: int
  f_bp :: nat

record machine =
  m_heap :: heap
  m_types :: "gotype list"
  m_constants :: "boxed list"
  m_globals :: "boxed list"
  m_gtypes :: "gotype list"
  m_main :: gofunction
  m_exact :: bool
  m_frames :: "frame list"
  m_fp :: nat
  m_stack :: "boxed list"
  m_sp :: nat

type_synonym run = "(trap \<times> machine) + machine"

definition seqm :: "run \<Rightarrow> (machine \<Rightarrow> run) \<Rightarrow> run" where
  "seqm r f = (case r of Inl x \<Rightarrow> Inl x | Inr m \<Rightarrow> f m)"

lemma seqm_simps [simp]: "seqm (Inl x) f = Inl x" "seqm (Inr m) f = f m"
  by (simp_all add: seqm_def)

section \<open>Access to the state\<close>

definition fr :: "machine \<Rightarrow> frame" where
  "fr m = m_frames m ! (m_fp m - 1)"

definition set_fr :: "(frame \<Rightarrow> frame) \<Rightarrow> machine \<Rightarrow> machine" where
  "set_fr g m = m\<lparr>m_frames := (m_frames m)[m_fp m - 1 := g (fr m)]\<rparr>"

definition advance :: "int \<Rightarrow> machine \<Rightarrow> machine" where
  "advance n = set_fr (\<lambda>f. f\<lparr>f_ip := f_ip f + n\<rparr>)"

definition top :: "machine \<Rightarrow> nat \<Rightarrow> boxed" where
  "top m k = m_stack m ! (m_sp m - k)"

definition poke :: "nat \<Rightarrow> boxed \<Rightarrow> machine \<Rightarrow> machine" where
  "poke a v m = m\<lparr>m_stack := (m_stack m)[a := v]\<rparr>"

definition set_top :: "nat \<Rightarrow> boxed \<Rightarrow> machine \<Rightarrow> machine" where
  "set_top k v m = poke (m_sp m - k) v m"

definition push :: "boxed \<Rightarrow> machine \<Rightarrow> machine" where
  "push v m = m\<lparr>m_stack := (m_stack m)[m_sp m := v], m_sp := m_sp m + 1\<rparr>"

definition popn :: "nat \<Rightarrow> machine \<Rightarrow> machine" where
  "popn n m = m\<lparr>m_sp := m_sp m - n\<rparr>"

definition full :: "machine \<Rightarrow> bool" where
  "full m \<longleftrightarrow> m_sp m = length (m_stack m)"

text \<open>Heap operations inside a handler.  A failed allocation has collected exactly once before.\<close>

definition on_heap :: "(heap \<Rightarrow> trap + heap) \<Rightarrow> machine \<Rightarrow> run" where
  "on_heap g m = (case g (m_heap m) of Inl t \<Rightarrow> Inl (t, m) | Inr h \<Rightarrow> Inr (m\<lparr>m_heap := h\<rparr>))"

definition retain_m :: "boxed \<Rightarrow> machine \<Rightarrow> run" where
  "retain_m v = on_heap (retain_box v)"

definition release_m :: "boxed \<Rightarrow> machine \<Rightarrow> run" where
  "release_m v = on_heap (release_box v)"

definition with_alloc :: "hval \<Rightarrow> machine \<Rightarrow> (int \<Rightarrow> machine \<Rightarrow> run) \<Rightarrow> run" where
  "with_alloc v m k =
     (case alloc v (m_heap m) of
        Inr (a, h) \<Rightarrow> k (int a) (m\<lparr>m_heap := h\<rparr>)
      | Inl t \<Rightarrow> Inl (t, case gc (m_heap m) of Inr h \<Rightarrow> m\<lparr>m_heap := h\<rparr> | Inl _ \<Rightarrow> m))"

definition with_box64 :: "64 word \<Rightarrow> machine \<Rightarrow> (boxed \<Rightarrow> machine \<Rightarrow> run) \<Rightarrow> run" where
  "with_box64 v m k =
     (if is_boxable v then k (box_i64 v) m else with_alloc (HI64 v) m (\<lambda>a. k (box_ref a)))"

definition with_unbox64 :: "boxed \<Rightarrow> machine \<Rightarrow> (64 word \<Rightarrow> machine \<Rightarrow> run) \<Rightarrow> run" where
  "with_unbox64 b m k =
     (case unbox_i64 b (m_heap m) of Inl t \<Rightarrow> Inl (t, m) | Inr (v, h) \<Rightarrow> k v (m\<lparr>m_heap := h\<rparr>))"

definition with_cell :: "int \<Rightarrow> machine \<Rightarrow> (hval \<Rightarrow> machine \<Rightarrow> run) \<Rightarrow> run" where
  "with_cell a m k = (case cell_at a (m_heap m) of Inl t \<Rightarrow> Inl (t, m) | Inr v \<Rightarrow> k v m)"

definition upvals_of :: "machine \<Rightarrow> frame \<Rightarrow> boxed list" where
  "upvals_of m f = (case f_upvals f of None \<Rightarrow> []
     | Some a \<Rightarrow> (case h_cells (m_heap m) ! nat a of HClosure ps rs fn ups \<Rightarrow> ups | _ \<Rightarrow> []))"

definition set_upval :: "nat \<Rightarrow> boxed \<Rightarrow> machine \<Rightarrow> machine" where
  "set_upval k v m = (case f_upvals (fr m) of None \<Rightarrow> m
     | Some a \<Rightarrow> (case h_cells (m_heap m) ! nat a of
         HClosure ps rs fn ups \<Rightarrow> m\<lparr>m_heap := (m_heap m)\<lparr>h_cells :=
           (h_cells (m_heap m))[nat a := HClosure ps rs fn (ups[k := v])]\<rparr>\<rparr>
       | _ \<Rightarrow> m))"

text \<open>Slots of these kinds never hold a reference, so their handlers skip the counts.\<close>

definition plain :: "kind \<Rightarrow> bool" where
  "plain k \<longleftrightarrow> repr k \<in> {KindI32, KindF32, KindF64}"

definition fail_with :: "trap \<Rightarrow> machine \<Rightarrow> run" where
  "fail_with t m = Inl (t, m)"

section \<open>Stack operations and branches\<close>

definition op_nop :: "threader \<Rightarrow> nat \<Rightarrow> (machine \<Rightarrow> run) option" where
  "op_nop c ip =
     (let skip = (if tr_exact c then 1 else int (length (takeWhile (\<lambda>b. b = NOP) (drop ip (tr_code c))))) in
      Some (\<lambda>m. Inr (advance skip m)))"

definition op_unreachable :: "threader \<Rightarrow> nat \<Rightarrow> (machine \<Rightarrow> run) option" where
  "op_unreachable c ip = Some (\<lambda>m. Inl (TUnreachable, advance 1 m))"

definition do_drop :: "machine \<Rightarrow> run" where
  "do_drop m =
     (if m_sp m = 0 then Inl (TStackUnderflow, m)
      else seqm (release_m (top m 1) m) (\<lambda>m1. Inr (advance 1 (popn 1 m1))))"

definition do_dup :: "machine \<Rightarrow> run" where
  "do_dup m =
     (if m_sp m = 0 then Inl (TStackUnderflow, m)
      else if full m then Inl (TStackOverflow, m)
      else seqm (retain_m (top m 1) m) (\<lambda>m1. Inr (advance 1 (push (top m 1) m1))))"

definition do_swap :: "machine \<Rightarrow> run" where
  "do_swap m =
     (if m_sp m < 2 then Inl (TStackUnderflow, m)
      else Inr (advance 1 (set_top 1 (top m 2) (set_top 2 (top m 1) m))))"

definition op_br :: "threader \<Rightarrow> nat \<Rightarrow> (machine \<Rightarrow> run) option" where
  "op_br c ip = map_option (\<lambda>off m. Inr (advance (off + 3) m)) (parse_i16 (tr_code c) (ip + 1))"

definition do_br_if :: "int \<Rightarrow> machine \<Rightarrow> run" where
  "do_br_if off m =
     (if m_sp m = 0 then Inl (TStackUnderflow, m)
      else let m1 = popn 1 m in
        if as_i32 (top m 1) \<noteq> 0 then Inr (advance (off + 3) m1) else Inr (advance 3 m1))"

definition op_br_if :: "threader \<Rightarrow> nat \<Rightarrow> (machine \<Rightarrow> run) option" where
  "op_br_if c ip = map_option do_br_if (parse_i16 (tr_code c) (ip + 1))"

definition do_br_table :: "int list \<Rightarrow> machine \<Rightarrow> run" where
  "do_br_table offs m =
     (let count = int (length offs) - 1; advance_by = count * 2 + 4 in
      if m_sp m = 0 then Inl (TStackUnderflow, m)
      else let c = sint (as_i32 (top m 1)); cond = (if c < 0 \<or> count \<le> c then count else c) in
        Inr (advance (offs ! nat cond + advance_by) (popn 1 m)))"

fun parse_offsets :: "code \<Rightarrow> nat \<Rightarrow> nat \<Rightarrow> int list option" where
  "parse_offsets c at 0 = Some []"
| "parse_offsets c at (Suc n) =
     Option.bind (parse_i16 c at) (\<lambda>off. map_option (\<lambda>offs. off # offs) (parse_offsets c (at + 2) n))"

definition op_br_table :: "threader \<Rightarrow> nat \<Rightarrow> (machine \<Rightarrow> run) option" where
  "op_br_table c ip = Option.bind (idx (tr_code c) (ip + 1)) (\<lambda>count.
     map_option do_br_table (parse_offsets (tr_code c) (ip + 2) (unat count + 1)))"

definition do_select :: "machine \<Rightarrow> run" where
  "do_select m =
     (if m_sp m < 3 then Inl (TStackUnderflow, m)
      else let v2 = top m 2; v1 = top m 3;
               selected = (if as_i32 (top m 1) = 0 then v2 else v1);
               discarded = (if as_i32 (top m 1) = 0 then v1 else v2) in
        seqm (release_m discarded m) (\<lambda>m1. Inr (advance 1 (popn 2 (set_top 3 selected m1)))))"

section \<open>Globals, locals, constants and upvalues\<close>

text \<open>
  Each access comes in a plain and a counting form; the compile step picks the plain one for a slot
  declared with a plain kind.
\<close>

definition get_from :: "(machine \<Rightarrow> boxed list) \<Rightarrow> nat \<Rightarrow> int \<Rightarrow> bool \<Rightarrow> machine \<Rightarrow> run" where
  "get_from sel k w plainly m =
     (if full m then Inl (TStackOverflow, m)
      else if length (sel m) \<le> k then Inl (TSegFault, m)
      else let r0 = sel m ! k in
        if plainly then Inr (advance w (push r0 m))
        else seqm (retain_m r0 m) (\<lambda>m1. Inr (advance w (push r0 m1))))"

definition set_global :: "nat \<Rightarrow> boxed \<Rightarrow> machine \<Rightarrow> machine" where
  "set_global k v m = m\<lparr>m_globals := (m_globals m)[k := v]\<rparr>"

text \<open>The common shape of the \<^verbatim>\<open>SET\<close> handlers: \<open>old\<close> is the slot's value, \<open>store\<close> writes it.\<close>

definition do_set :: "boxed \<Rightarrow> (boxed \<Rightarrow> machine \<Rightarrow> machine) \<Rightarrow> int \<Rightarrow> bool \<Rightarrow> machine \<Rightarrow> run" where
  "do_set old store w plainly m =
     (let val = top m 1 in
      if plainly then Inr (advance w (popn 1 (store val m)))
      else seqm (if old \<noteq> val then release_m old m else Inr m)
             (\<lambda>m1. Inr (advance w (popn 1 (store val m1)))))"

definition do_tee :: "boxed \<Rightarrow> (boxed \<Rightarrow> machine \<Rightarrow> machine) \<Rightarrow> int \<Rightarrow> bool \<Rightarrow> machine \<Rightarrow> run" where
  "do_tee old store w plainly m =
     (let val = top m 1 in
      if plainly then Inr (advance w (store val m))
      else seqm (if old \<noteq> val then seqm (retain_m val m) (release_m old) else Inr m)
             (\<lambda>m1. Inr (advance w (store val m1))))"

definition plain_at :: "kind list \<Rightarrow> nat \<Rightarrow> bool" where
  "plain_at ks k \<longleftrightarrow> k < length ks \<and> plain (ks ! k)"

definition op_global_get :: "threader \<Rightarrow> nat \<Rightarrow> (machine \<Rightarrow> run) option" where
  "op_global_get c ip = map_option (\<lambda>v. let i0 = nat v in
     get_from m_globals i0 3 (plain_at (tr_globals c) i0)) (parse_u16 (tr_code c) (ip + 1))"

definition global_slot :: "(boxed \<Rightarrow> (boxed \<Rightarrow> machine \<Rightarrow> machine) \<Rightarrow> int \<Rightarrow> bool \<Rightarrow> machine \<Rightarrow> run) \<Rightarrow>
    nat \<Rightarrow> bool \<Rightarrow> machine \<Rightarrow> run" where
  "global_slot act k plainly m =
     (if m_sp m = 0 then Inl (TStackUnderflow, m)
      else if length (m_globals m) \<le> k then Inl (TSegFault, m)
      else act (m_globals m ! k) (set_global k) 3 plainly m)"

definition op_global_set :: "threader \<Rightarrow> nat \<Rightarrow> (machine \<Rightarrow> run) option" where
  "op_global_set c ip = map_option (\<lambda>v. global_slot do_set (nat v) (plain_at (tr_globals c) (nat v)))
     (parse_u16 (tr_code c) (ip + 1))"

definition op_global_tee :: "threader \<Rightarrow> nat \<Rightarrow> (machine \<Rightarrow> run) option" where
  "op_global_tee c ip = map_option (\<lambda>v. global_slot do_tee (nat v) (plain_at (tr_globals c) (nat v)))
     (parse_u16 (tr_code c) (ip + 1))"

definition do_local_get :: "nat \<Rightarrow> bool \<Rightarrow> machine \<Rightarrow> run" where
  "do_local_get k plainly m =
     (if full m then Inl (TStackOverflow, m)
      else let i2 = f_bp (fr m) + k in
        if m_sp m \<le> i2 then Inl (TSegFault, m)
        else let r0 = m_stack m ! i2 in
          if plainly then Inr (advance 2 (push r0 m))
          else seqm (retain_m r0 m) (\<lambda>m1. Inr (advance 2 (push r0 m1))))"

definition op_local_get :: "threader \<Rightarrow> nat \<Rightarrow> (machine \<Rightarrow> run) option" where
  "op_local_get c ip = map_option (\<lambda>b. let i0 = unat b in
     if length (tr_locals c) \<le> i0 then fail_with TSegFault
     else do_local_get i0 (plain_at (tr_locals c) i0)) (idx (tr_code c) (ip + 1))"

definition local_slot :: "(boxed \<Rightarrow> (boxed \<Rightarrow> machine \<Rightarrow> machine) \<Rightarrow> int \<Rightarrow> bool \<Rightarrow> machine \<Rightarrow> run) \<Rightarrow>
    nat \<Rightarrow> bool \<Rightarrow> machine \<Rightarrow> run" where
  "local_slot act k plainly m =
     (if m_sp m = 0 then Inl (TStackUnderflow, m)
      else let addr = f_bp (fr m) + k in
        if m_sp m \<le> addr then Inl (TSegFault, m)
        else act (m_stack m ! addr) (poke addr) 2 plainly m)"

definition op_local_set :: "threader \<Rightarrow> nat \<Rightarrow> (machine \<Rightarrow> run) option" where
  "op_local_set c ip = map_option (\<lambda>b. local_slot do_set (unat b) (plain_at (tr_locals c) (unat b)))
     (idx (tr_code c) (ip + 1))"

definition op_local_tee :: "threader \<Rightarrow> nat \<Rightarrow> (machine \<Rightarrow> run) option" where
  "op_local_tee c ip = map_option (\<lambda>b. local_slot do_tee (unat b) (plain_at (tr_locals c) (unat b)))
     (idx (tr_code c) (ip + 1))"

definition do_const :: "boxed \<Rightarrow> machine \<Rightarrow> run" where
  "do_const r0 m =
     (if full m then Inl (TStackOverflow, m)
      else seqm (if boxed_kind r0 = KindRef then on_heap (retain (as_ref r0)) m else Inr m)
             (\<lambda>m1. Inr (advance 3 (push r0 m1))))"

definition op_const_get :: "threader \<Rightarrow> nat \<Rightarrow> (machine \<Rightarrow> run) option" where
  "op_const_get c ip = map_option (\<lambda>v. if length (tr_constants c) \<le> nat v then fail_with TSegFault
     else do_const (tr_constants c ! nat v)) (parse_u16 (tr_code c) (ip + 1))"

definition op_upval_get :: "threader \<Rightarrow> nat \<Rightarrow> (machine \<Rightarrow> run) option" where
  "op_upval_get c ip = map_option (\<lambda>b. get_from (\<lambda>m. upvals_of m (fr m)) (unat b) 2
     (plain_at (tr_captures c) (unat b))) (idx (tr_code c) (ip + 1))"

definition do_upval_set :: "nat \<Rightarrow> bool \<Rightarrow> machine \<Rightarrow> run" where
  "do_upval_set k plainly m =
     (if m_sp m = 0 then Inl (TStackUnderflow, m)
      else if length (upvals_of m (fr m)) \<le> k then Inl (TSegFault, m)
      else do_set (upvals_of m (fr m) ! k) (set_upval k) 2 plainly m)"

definition op_upval_set :: "threader \<Rightarrow> nat \<Rightarrow> (machine \<Rightarrow> run) option" where
  "op_upval_set c ip = map_option (\<lambda>b. do_upval_set (unat b) (plain_at (tr_captures c) (unat b)))
     (idx (tr_code c) (ip + 1))"

section \<open>References\<close>

definition do_ref_null :: "machine \<Rightarrow> run" where
  "do_ref_null m =
     (if full m then Inl (TStackOverflow, m)
      else seqm (on_heap (retain 0) m) (\<lambda>m1. Inr (advance 1 (push boxed_null m1))))"

text \<open>\<^verbatim>\<open>Unbox\<close> of a scalar word, as a heap value; \<open>HNil\<close> for the reserved tag.\<close>

definition unbox_scalar :: "boxed \<Rightarrow> hval" where
  "unbox_scalar v = (case boxed_kind v of
       KindI32 \<Rightarrow> HI32 (as_i32 v) | KindI8 \<Rightarrow> HI8 (as_i8 v) | KindI1 \<Rightarrow> HI1 (as_bool v)
     | KindI64 \<Rightarrow> HI64 (as_i64 v) | KindF32 \<Rightarrow> HF32 (as_f32 v) | KindF64 \<Rightarrow> HF64 (as_f64 v)
     | _ \<Rightarrow> HNil)"

definition do_ref_new :: "machine \<Rightarrow> run" where
  "do_ref_new m =
     (if m_sp m = 0 then Inl (TStackUnderflow, m)
      else if boxed_kind (top m 1) = KindRef then Inl (TTypeMismatch, m)
      else with_alloc (unbox_scalar (top m 1)) m (\<lambda>a m1. Inr (advance 1 (set_top 1 (box_ref a) m1))))"

text \<open>\<^verbatim>\<open>box\<close> of the scalar in a \<^verbatim>\<open>ref\<close> cell; every other value is a type mismatch.\<close>

definition with_box_cell :: "hval \<Rightarrow> machine \<Rightarrow> (boxed \<Rightarrow> machine \<Rightarrow> run) \<Rightarrow> run" where
  "with_box_cell v m k = (case v of
       HI1 b \<Rightarrow> k (box_i1 b) m | HI8 w \<Rightarrow> k (box_i8 w) m | HI32 w \<Rightarrow> k (box_i32 w) m
     | HI64 w \<Rightarrow> with_box64 w m k | HF32 w \<Rightarrow> k (box_f32 w) m | HF64 w \<Rightarrow> k (box_f64 w) m
     | _ \<Rightarrow> Inl (TTypeMismatch, m))"

definition is_scalar_cell :: "hval \<Rightarrow> bool" where
  "is_scalar_cell v = (case v of HI1 _ \<Rightarrow> True | HI8 _ \<Rightarrow> True | HI32 _ \<Rightarrow> True | HI64 _ \<Rightarrow> True
     | HF32 _ \<Rightarrow> True | HF64 _ \<Rightarrow> True | _ \<Rightarrow> False)"

definition do_ref_get :: "machine \<Rightarrow> run" where
  "do_ref_get m =
     (if m_sp m = 0 then Inl (TStackUnderflow, m)
      else let r = top m 1 in
        if boxed_kind r \<noteq> KindRef then Inl (TTypeMismatch, m)
        else with_cell (as_ref r) m (\<lambda>v m. with_box_cell v m (\<lambda>result m1.
          seqm (on_heap (release (as_ref r)) m1) (\<lambda>m2. Inr (advance 1 (push result (popn 1 m2)))))))"

definition set_cell :: "int \<Rightarrow> hval \<Rightarrow> machine \<Rightarrow> machine" where
  "set_cell a v m = m\<lparr>m_heap := (m_heap m)\<lparr>h_cells := (h_cells (m_heap m))[nat a := v]\<rparr>\<rparr>"

definition do_ref_set :: "machine \<Rightarrow> run" where
  "do_ref_set m =
     (if m_sp m < 2 then Inl (TStackUnderflow, m)
      else let value = top m 1; r = top m 2 in
        if boxed_kind value = KindRef then Inl (TTypeMismatch, m)
        else if boxed_kind r \<noteq> KindRef then Inl (TTypeMismatch, m)
        else with_cell (as_ref r) m (\<lambda>v m.
          if \<not> is_scalar_cell v then Inl (TTypeMismatch, m)
          else seqm (on_heap (release (as_ref r)) (popn 2 (set_cell (as_ref r) (unbox_scalar value) m)))
                 (\<lambda>m1. Inr (advance 1 m1))))"

text \<open>\<^verbatim>\<open>Type\<close> of a heap value; a slot without one (\<^verbatim>\<open>nil\<close>) panics.\<close>

definition elem_type :: "kind \<Rightarrow> gotype" where
  "elem_type k = (case k of KindI1 \<Rightarrow> TI1 | KindI8 \<Rightarrow> TI8 | KindI32 \<Rightarrow> TI32 | KindI64 \<Rightarrow> TI64
     | KindF32 \<Rightarrow> TF32 | KindF64 \<Rightarrow> TF64 | _ \<Rightarrow> TAny)"

fun hval_type :: "hval \<Rightarrow> gotype option" where
  "hval_type HNil = None"
| "hval_type HNull = Some TAny"
| "hval_type (HI1 _) = Some TI1"
| "hval_type (HI8 _) = Some TI8"
| "hval_type (HI32 _) = Some TI32"
| "hval_type (HI64 _) = Some TI64"
| "hval_type (HF32 _) = Some TF32"
| "hval_type (HF64 _) = Some TF64"
| "hval_type (HString _) = Some TString"
| "hval_type (HFunc f) = Some (TFunc (fn_params f) (fn_returns f))"
| "hval_type (HClosure ps rs _ _) = Some (TFunc ps rs)"
| "hval_type (HArray t _) = Some t"
| "hval_type (HTyped k _) = Some (TArray (elem_type k))"
| "hval_type (HStruct fs _) = Some (TStruct fs)"
| "hval_type (HError _ _ _) = Some TError"
| "hval_type (HCoro c) = Some (TFunc (co_params c) (co_results c))"

definition with_type :: "int \<Rightarrow> machine \<Rightarrow> (gotype \<Rightarrow> run) \<Rightarrow> run" where
  "with_type a m k = with_cell a m (\<lambda>v m. case hval_type v of None \<Rightarrow> Inl (TGoPanic, m) | Some t \<Rightarrow> k t)"

definition do_ref_test :: "gotype \<Rightarrow> machine \<Rightarrow> run" where
  "do_ref_test t m =
     (if m_sp m = 0 then Inl (TStackUnderflow, m)
      else let val = top m 1; finish = (\<lambda>cond. seqm (release_m val m)
              (\<lambda>m1. Inr (advance 3 (set_top 1 (box_i1 cond) m1)))) in
        if boxed_kind val = KindRef then with_type (as_ref val) m (\<lambda>u. finish (ty_equals t u))
        else finish (ty_kind t = boxed_kind val))"

definition do_ref_cast :: "gotype \<Rightarrow> machine \<Rightarrow> run" where
  "do_ref_cast t m =
     (if m_sp m = 0 then Inl (TStackUnderflow, m)
      else let val = top m 1; finish = (\<lambda>ok. if ok then Inr (advance 3 m) else Inl (TTypeMismatch, m)) in
        if boxed_kind val = KindRef then with_type (as_ref val) m (\<lambda>u. finish (ty_cast t u))
        else finish (case boxed_type val of None \<Rightarrow> t = TAny | Some u \<Rightarrow> ty_cast t u))"

definition typed_op :: "(gotype \<Rightarrow> machine \<Rightarrow> run) \<Rightarrow> threader \<Rightarrow> nat \<Rightarrow> (machine \<Rightarrow> run) option" where
  "typed_op act c ip = map_option (\<lambda>v. if length (tr_types c) \<le> nat v then fail_with TSegFault
     else act (tr_types c ! nat v)) (parse_u16 (tr_code c) (ip + 1))"

definition op_ref_test :: "threader \<Rightarrow> nat \<Rightarrow> (machine \<Rightarrow> run) option" where
  "op_ref_test = typed_op do_ref_test"

definition op_ref_cast :: "threader \<Rightarrow> nat \<Rightarrow> (machine \<Rightarrow> run) option" where
  "op_ref_cast = typed_op do_ref_cast"

definition do_ref_is_null :: "machine \<Rightarrow> run" where
  "do_ref_is_null m =
     (if m_sp m = 0 then Inl (TStackUnderflow, m)
      else seqm (release_m (top m 1) (set_top 1 (box_i1 (as_ref (top m 1) = 0)) m)) (\<lambda>m1. Inr (advance 1 m1)))"

definition do_ref_cmp :: "(boxed \<Rightarrow> boxed \<Rightarrow> bool) \<Rightarrow> machine \<Rightarrow> run" where
  "do_ref_cmp p m =
     (if m_sp m < 2 then Inl (TStackUnderflow, m)
      else let v1 = top m 1; v2 = top m 2 in
        seqm (release_m v1 (set_top 1 (box_i1 (p v2 v1)) (popn 1 m)))
          (\<lambda>m1. seqm (release_m v2 m1) (\<lambda>m2. Inr (advance 1 m2))))"

definition do_ref_eq :: "machine \<Rightarrow> run" where
  "do_ref_eq = do_ref_cmp (\<lambda>a b. a = b)"

definition do_ref_ne :: "machine \<Rightarrow> run" where
  "do_ref_ne = do_ref_cmp (\<lambda>a b. a \<noteq> b)"

end
