(* ===== verification/Calls.thy ===== *)
theory Calls
  imports Machine
begin

text \<open>
  Calls, returns, coroutines and exceptions (\<^verbatim>\<open>interp/threaded.go\<close>, \<^verbatim>\<open>CALL\<close> to \<^verbatim>\<open>CORO_VALUE\<close> and \<^verbatim>\<open>THROW\<close> to
  \<^verbatim>\<open>ERROR_CODE\<close>; \<^verbatim>\<open>interp/interp.go\<close>, \<^verbatim>\<open>handle\<close>, \<^verbatim>\<open>handler\<close>, \<^verbatim>\<open>land\<close>, \<^verbatim>\<open>discard\<close>, \<^verbatim>\<open>wrap\<close>; \<^verbatim>\<open>interp/coroutine.go\<close>).

  The compiled code of a function, \<^verbatim>\<open>i.code[addr]\<close>, is a function of the bytes \<^verbatim>\<open>i.instrs[addr]\<close> and the
  function's slots, so the model computes the unit when a frame starts it.  Host functions and the
  iterators over strings and maps are not heap values of the model; a call or a resume of one is the
  type mismatch of the default branch.  Frame slots above \<^verbatim>\<open>fp\<close> are dead: every field is written
  before the frame is entered, so the model writes a new frame in one go once nothing can fail.
\<close>

section \<open>Code units\<close>

definition nil_unit :: threader where
  "nil_unit = \<lparr>tr_types = [], tr_constants = [], tr_locals = [], tr_globals = [], tr_captures = [],
     tr_code = [], tr_exact = False\<rparr>"

definition global_decls :: "gotype list \<Rightarrow> kind list" where
  "global_decls ts = map (\<lambda>t. if t = TAny then KindAny else ty_kind t) ts"

definition unit_of :: "machine \<Rightarrow> gofunction \<Rightarrow> code \<Rightarrow> threader" where
  "unit_of m fn c = \<lparr>tr_types = m_types m, tr_constants = m_constants m, tr_locals = slots fn,
     tr_globals = global_decls (m_gtypes m), tr_captures = kinds_of (fn_captures fn), tr_code = c,
     tr_exact = m_exact m\<rparr>"

definition with_code :: "int \<Rightarrow> machine \<Rightarrow> (threader \<Rightarrow> run) \<Rightarrow> run" where
  "with_code a m k =
     (if a < 0 \<or> int (length (h_instrs (m_heap m))) \<le> a then Inl (TGoPanic, m)
      else let c = h_instrs (m_heap m) ! nat a in
        if a = 0 then k (unit_of m (m_main m) c)
        else case cell_at a (m_heap m) of Inr (HFunc fn) \<Rightarrow> k (unit_of m fn c) | _ \<Rightarrow> k nil_unit)"

definition is_coro :: "int \<Rightarrow> machine \<Rightarrow> bool" where
  "is_coro a m \<longleftrightarrow> 0 \<le> a \<and> a < int (length (h_coros (m_heap m))) \<and> h_coros (m_heap m) ! nat a"

section \<open>Ranges of the stack\<close>

definition clear_range :: "nat \<Rightarrow> nat \<Rightarrow> machine \<Rightarrow> machine" where
  "clear_range a n m = m\<lparr>m_stack := take a (m_stack m) @ replicate n 0 @ drop (a + n) (m_stack m)\<rparr>"

definition move_range :: "nat \<Rightarrow> nat \<Rightarrow> nat \<Rightarrow> machine \<Rightarrow> machine" where
  "move_range dst src n m = m\<lparr>m_stack := take dst (m_stack m) @ take n (drop src (m_stack m)) @ drop (dst + n) (m_stack m)\<rparr>"

definition slice :: "nat \<Rightarrow> nat \<Rightarrow> machine \<Rightarrow> boxed list" where
  "slice lo hi m = take (hi - lo) (drop lo (m_stack m))"

fun release_vals :: "boxed list \<Rightarrow> machine \<Rightarrow> run" where
  "release_vals [] m = Inr m"
| "release_vals (v # vs) m = seqm (release_m v m) (release_vals vs)"

text \<open>A Go slice expression with its bounds the wrong way round panics.\<close>

definition release_range :: "nat \<Rightarrow> nat \<Rightarrow> machine \<Rightarrow> run" where
  "release_range lo hi m = (if hi < lo then Inl (TGoPanic, m) else release_vals (slice lo hi m) m)"

definition set_sp :: "nat \<Rightarrow> machine \<Rightarrow> machine" where
  "set_sp n m = m\<lparr>m_sp := n\<rparr>"

section \<open>Frames\<close>

definition release_fr :: "frame \<Rightarrow> machine \<Rightarrow> run" where
  "release_fr f m = (if f_release f then on_heap (release (f_ref f)) m else Inr m)"

definition push_frame :: "frame \<Rightarrow> machine \<Rightarrow> machine" where
  "push_frame f m = m\<lparr>m_frames := (m_frames m)[m_fp m := f], m_fp := m_fp m + 1\<rparr>"

definition pop_frame :: "(frame \<Rightarrow> frame) \<Rightarrow> machine \<Rightarrow> machine" where
  "pop_frame g m = (set_fr g m)\<lparr>m_fp := m_fp m - 1\<rparr>"

definition new_coro :: "gotype list \<Rightarrow> gotype list \<Rightarrow> coro" where
  "new_coro ps rs = \<lparr>co_params = ps, co_results = rs, co_image = [], co_upvals = None, co_value = 0, co_addr = 0,
     co_ref = 0, co_returns = 0, co_ip = 0, co_release = False, co_done = False\<rparr>"

text \<open>What a callee is: its code, the reference the frame owns, its upvalues, its type, its locals.\<close>

record callee =
  ce_code :: int
  ce_ref :: int
  ce_upvals :: "int option"
  ce_params :: "gotype list"
  ce_returns :: "gotype list"
  ce_locals :: nat

definition with_callee :: "int \<Rightarrow> machine \<Rightarrow> run option \<Rightarrow> (callee \<Rightarrow> run) \<Rightarrow> run" where
  "with_callee addr m guard k = with_cell addr m (\<lambda>v m. case v of
       HFunc fn \<Rightarrow> (case guard of Some r \<Rightarrow> r | None \<Rightarrow>
         k \<lparr>ce_code = addr, ce_ref = addr, ce_upvals = None, ce_params = fn_params fn, ce_returns = fn_returns fn,
            ce_locals = length (fn_locals fn)\<rparr>)
     | HClosure ps rs fa ups \<Rightarrow> (case guard of Some r \<Rightarrow> r | None \<Rightarrow>
         with_cell fa m (\<lambda>w m. case w of
             HFunc fn \<Rightarrow> k \<lparr>ce_code = fa, ce_ref = addr, ce_upvals = Some addr, ce_params = ps, ce_returns = rs,
               ce_locals = length (fn_locals fn)\<rparr>
           | _ \<Rightarrow> Inl (TTypeMismatch, m)))
     | _ \<Rightarrow> Inl (TTypeMismatch, m))"

text \<open>A new frame over the arguments: the callee's slot on the stack becomes the first local.\<close>

definition enter :: "callee \<Rightarrow> bool \<Rightarrow> machine \<Rightarrow> run" where
  "enter ce coro m =
     (let ps = length (ce_params ce) in
      if m_sp m \<le> ps then Inl (TStackUnderflow, m)
      else if length (m_stack m) + 1 < m_sp m + ce_locals ce then Inl (TStackOverflow, m)
      else let bp = m_sp m - ps - 1; m1 = clear_range (m_sp m - 1) (ce_locals ce) m;
        start = (\<lambda>co m2. with_code (ce_code ce) m2 (\<lambda>u. Inr (push_frame
          \<lparr>f_addr = ce_code ce, f_returns = length (ce_returns ce), f_code = u, f_upvals = ce_upvals ce,
           f_ref = ce_ref ce, f_release = True, f_coro = co, f_ip = 0, f_bp = bp\<rparr>
          (advance 1 (set_sp (bp + ps + ce_locals ce) m2))))) in
        if coro then with_code (ce_code ce) m1 (\<lambda>_. with_alloc (HCoro (new_coro (ce_params ce) (ce_returns ce))) m1 start)
        else start 0 m1)"

definition do_call :: "machine \<Rightarrow> run" where
  "do_call m =
     (if m_sp m = 0 then Inl (TStackUnderflow, m)
      else with_callee (as_ref (top m 1)) m
        (if m_fp m = length (m_frames m) then Some (Inl (TFrameOverflow, m)) else None)
        (\<lambda>ce. enter ce (is_coro (ce_code ce) m) m))"

section \<open>Returns\<close>

definition mod_coro :: "int \<Rightarrow> (coro \<Rightarrow> coro) \<Rightarrow> machine \<Rightarrow> machine" where
  "mod_coro a g m = (case cell_at a (m_heap m) of Inr (HCoro c) \<Rightarrow> set_cell a (HCoro (g c)) m | _ \<Rightarrow> m)"

definition with_coro :: "int \<Rightarrow> machine \<Rightarrow> (coro \<Rightarrow> machine \<Rightarrow> run) \<Rightarrow> run" where
  "with_coro a m k = with_cell a m (\<lambda>v m. case v of HCoro c \<Rightarrow> k c m | _ \<Rightarrow> Inl (TTypeMismatch, m))"

text \<open>A coroutine that runs to its end leaves its result in the handle, and the handle to its caller.\<close>

definition coro_return :: "frame \<Rightarrow> machine \<Rightarrow> run" where
  "coro_return f m = with_coro (f_coro f) m (\<lambda>_ m.
     seqm (if 0 < f_returns f
           then seqm (release_range (f_bp f) (m_sp m - 1) m) (\<lambda>m1. Inr (mod_coro (f_coro f) (\<lambda>c. c\<lparr>co_value := top m1 1\<rparr>) m1))
           else seqm (release_range (f_bp f) (m_sp m) m) (\<lambda>m1. seqm (on_heap (retain 0) m1)
             (\<lambda>m2. Inr (mod_coro (f_coro f) (\<lambda>c. c\<lparr>co_value := boxed_null\<rparr>) m2))))
       (\<lambda>m3. seqm (release_fr f (mod_coro (f_coro f) (\<lambda>c. c\<lparr>co_done := True, co_image := [], co_upvals := None\<rparr>) m3))
         (\<lambda>m4. let m5 = pop_frame (\<lambda>f. f\<lparr>f_code := nil_unit, f_upvals := None, f_coro := 0\<rparr>)
                          (mod_coro (f_coro f) (\<lambda>c. c\<lparr>co_ref := 0, co_release := False\<rparr>) m4) in
            if length (m_stack m5) \<le> f_bp f then Inl (TGoPanic, m5)
            else Inr (set_sp (f_bp f + 1) (poke (f_bp f) (box_ref (f_coro f)) m5)))))"

definition do_return :: "nat \<Rightarrow> bool \<Rightarrow> machine \<Rightarrow> run" where
  "do_return n owned m =
     (if m_fp m = 1 then Inl (TFrameUnderflow, m)
      else let f = fr m in
        if m_sp m < f_returns f then Inl (TStackUnderflow, m)
        else if f_coro f \<noteq> 0 then coro_return f m
        else seqm (if owned \<or> m_sp m \<noteq> f_bp f + n + f_returns f
                   then release_range (f_bp f) (m_sp m - f_returns f) m else Inr m)
          (\<lambda>m1. seqm (release_fr f (set_sp (f_bp f + f_returns f) (move_range (f_bp f) (m_sp m1 - f_returns f) (f_returns f) m1)))
            (\<lambda>m2. Inr (pop_frame (\<lambda>f. f\<lparr>f_code := nil_unit\<rparr>) m2))))"

definition op_return :: "threader \<Rightarrow> nat \<Rightarrow> (machine \<Rightarrow> run) option" where
  "op_return c ip = Some (do_return (length (tr_locals c)) (list_ex (\<lambda>k. \<not> plain k) (tr_locals c)))"

text \<open>\<^verbatim>\<open>RETURN_CALL\<close>: the frame is reused, except the root's, which a call stacks on.\<close>

definition reuse_frame :: "callee \<Rightarrow> machine \<Rightarrow> run" where
  "reuse_frame ce m =
     (let ps = length (ce_params ce); ls = ce_locals ce; f = fr m; base = f_bp f in
      if length (m_stack m) < base + ps + ls then Inl (TStackOverflow, m)
      else seqm (release_range base (m_sp m - ps - 1) m)
        (\<lambda>m1. seqm (release_fr f (move_range base (m_sp m1 - ps - 1) ps m1))
          (\<lambda>m2. with_code (ce_code ce) (clear_range (base + ps) ls m2) (\<lambda>u. Inr (set_sp (base + ps + ls)
             (set_fr (\<lambda>f. f\<lparr>f_code := u, f_upvals := ce_upvals ce, f_addr := ce_code ce, f_ref := ce_ref ce,
                f_ip := 0, f_bp := base, f_returns := length (ce_returns ce), f_release := True\<rparr>)
               (clear_range (base + ps) ls m2)))))))"

definition do_return_call :: "machine \<Rightarrow> run" where
  "do_return_call m =
     (if m_sp m = 0 then Inl (TStackUnderflow, m)
      else with_callee (as_ref (top m 1)) m None (\<lambda>ce.
        if m_sp m \<le> length (ce_params ce) then Inl (TStackUnderflow, m)
        else if m_fp m = 1 then (if m_fp m = length (m_frames m) then Inl (TFrameOverflow, m) else enter ce False m)
        else reuse_frame ce m))"

section \<open>Coroutines\<close>

definition do_yield :: "machine \<Rightarrow> run" where
  "do_yield m =
     (if m_sp m = 0 then Inl (TStackUnderflow, m)
      else let m1 = advance 1 m in
        if m_fp m = 1 then Inl (TYield, m1)
        else let f = fr m1 in with_coro (f_coro f) m1 (\<lambda>_ m1.
          let m2 = mod_coro (f_coro f) (\<lambda>c. c\<lparr>co_value := top m1 1, co_addr := f_addr f, co_ref := f_ref f,
                     co_returns := f_returns f, co_release := f_release f, co_ip := f_ip f, co_upvals := f_upvals f\<rparr>)
                   (popn 1 m1); bp = f_bp f in
          if m_sp m2 < bp then Inl (TGoPanic, m2)
          else let m3 = clear_range bp (m_sp m2 - bp) (mod_coro (f_coro f) (\<lambda>c. c\<lparr>co_image := slice bp (m_sp m2) m2\<rparr>) m2);
                   m4 = pop_frame (\<lambda>f. f\<lparr>f_code := nil_unit, f_upvals := None, f_coro := 0\<rparr>) m3 in
            Inr (set_sp (bp + 1) (poke bp (box_ref (f_coro f)) m4))))"

definition put_image :: "nat \<Rightarrow> boxed list \<Rightarrow> machine \<Rightarrow> machine" where
  "put_image base vs m = m\<lparr>m_stack := take base (m_stack m) @ vs @ drop (base + length vs) (m_stack m)\<rparr>"

definition do_resume :: "machine \<Rightarrow> run" where
  "do_resume m =
     (if m_sp m < 2 then Inl (TStackUnderflow, m)
      else if m_fp m = length (m_frames m) then Inl (TFrameOverflow, m)
      else let sent = top m 1; handle = top m 2 in
        if boxed_kind handle \<noteq> KindRef then Inl (TTypeMismatch, m)
        else let a = as_ref handle in with_coro a m (\<lambda>co m.
          if co_done co then Inl (TCoroutineDone, m)
          else let m1 = popn 2 m; base = m_sp m1 in
            if length (m_stack m) < base + length (co_image co) + 1 then Inl (TStackOverflow, m1)
            else seqm (release_m (co_value co) m1) (\<lambda>m2.
              let m3 = push sent (set_sp (base + length (co_image co))
                         (put_image base (co_image co) (mod_coro a (\<lambda>c. c\<lparr>co_value := 0\<rparr>) m2))) in
              with_code (co_addr co) m3 (\<lambda>u. Inr (push_frame
                \<lparr>f_addr = co_addr co, f_returns = co_returns co, f_code = u, f_upvals = co_upvals co, f_ref = co_ref co,
                 f_release = co_release co, f_coro = a, f_ip = co_ip co, f_bp = base\<rparr>
                (advance 1 (mod_coro a (\<lambda>c. c\<lparr>co_image := [], co_upvals := None, co_ref := 0, co_release := False\<rparr>) m3)))))))"

definition do_coro_done :: "machine \<Rightarrow> run" where
  "do_coro_done m =
     (if m_sp m = 0 then Inl (TStackUnderflow, m)
      else if boxed_kind (top m 1) \<noteq> KindRef then Inl (TTypeMismatch, m)
      else with_coro (as_ref (top m 1)) m (\<lambda>co m. Inr (advance 1 (set_top 1 (box_i1 (co_done co)) m))))"

definition do_coro_value :: "machine \<Rightarrow> run" where
  "do_coro_value m =
     (if m_sp m = 0 then Inl (TStackUnderflow, m)
      else let handle = top m 1 in
        if boxed_kind handle \<noteq> KindRef then Inl (TTypeMismatch, m)
        else with_coro (as_ref handle) m (\<lambda>co m. seqm (retain_m (co_value co) m) (\<lambda>m1.
          seqm (release_m handle m1) (\<lambda>m2. Inr (advance 1 (set_top 1 (co_value co) m2))))))"

section \<open>Exceptions\<close>

text \<open>
  \<open>handler_at m k\<close> searches the frames from the \<open>k\<close>-th down: the active instruction in the top frame,
  the call site (\<^verbatim>\<open>ip\<close> is already past the one-byte call) in the callers.
\<close>

definition covers_ip :: "int \<Rightarrow> handler \<Rightarrow> bool" where
  "covers_ip ip h \<longleftrightarrow> h_start h \<le> ip \<and> ip < h_end h"

fun handler_at :: "machine \<Rightarrow> nat \<Rightarrow> (nat \<times> handler) option" where
  "handler_at m 0 = None"
| "handler_at m (Suc k) =
     (let f = m_frames m ! k; ip = (if Suc k = m_fp m then f_ip f else f_ip f - 1);
          hs = h_handlers (m_heap m) in
      case (if f_addr f < 0 \<or> int (length hs) \<le> f_addr f then None
            else find (covers_ip ip) (hs ! nat (f_addr f))) of
        Some h \<Rightarrow> Some (Suc k, h)
      | None \<Rightarrow> handler_at m k)"

definition find_handler :: "machine \<Rightarrow> (nat \<times> handler) option" where
  "find_handler m = handler_at m (m_fp m)"

definition discard :: "machine \<Rightarrow> run" where
  "discard m =
     (let f = fr m in
      seqm (release_fr f m) (\<lambda>m1. seqm (if f_coro f \<noteq> 0 then on_heap (release (f_coro f)) m1 else Inr m1)
        (\<lambda>m2. Inr (pop_frame (\<lambda>f. f\<lparr>f_code := nil_unit, f_upvals := None, f_coro := 0\<rparr>) m2))))"

fun unwind :: "nat \<Rightarrow> machine \<Rightarrow> run" where
  "unwind 0 m = Inr m"
| "unwind (Suc n) m = seqm (discard m) (unwind n)"

definition land :: "nat \<Rightarrow> handler \<Rightarrow> boxed \<Rightarrow> machine \<Rightarrow> run" where
  "land fp h exc m = seqm (unwind (m_fp m - fp) m) (\<lambda>m1.
     let base = nat (int (f_bp (fr m1)) + h_depth h) in
     seqm (release_vals (rev (slice base (m_sp m1) m1)) m1) (\<lambda>m2.
       if int (f_bp (fr m1)) + h_depth h < 0 \<or> length (m_stack m2) \<le> base then Inl (TGoPanic, m2)
       else Inr (set_sp (base + 1) (poke base exc (set_fr (\<lambda>f. f\<lparr>f_ip := h_catch h\<rparr>) m2)))))"

text \<open>The text of a trap; of a Go runtime panic only the prefix every one of them has.\<close>

fun trap_message :: "trap \<Rightarrow> string" where
  "trap_message TUnknownOpcode = ''unknown opcode''"
| "trap_message TUnreachable = ''unreachable executed''"
| "trap_message TSegFault = ''segmentation fault''"
| "trap_message TStackOverflow = ''stack overflow''"
| "trap_message TStackUnderflow = ''stack underflow''"
| "trap_message TFrameOverflow = ''frame overflow''"
| "trap_message TFrameUnderflow = ''frame underflow''"
| "trap_message TTypeMismatch = ''type mismatch''"
| "trap_message TDivideByZero = ''divide by zero''"
| "trap_message TIndexOutOfRange = ''index out of range''"
| "trap_message TFuelExhausted = ''fuel exhausted''"
| "trap_message THeapExhausted = ''heap exhausted''"
| "trap_message TCoroutineDone = ''coroutine done''"
| "trap_message TUncaught = ''uncaught exception''"
| "trap_message TYield = ''yield''"
| "trap_message TGoPanic = ''runtime error''"

definition wrap :: "trap \<Rightarrow> machine \<Rightarrow> (boxed \<Rightarrow> machine \<Rightarrow> run) \<Rightarrow> run" where
  "wrap t m k = with_alloc (HError (trap_code t) (trap_message t) boxed_null) m (\<lambda>a. k (box_ref a))"

text \<open>
  \<^verbatim>\<open>handle\<close>: \<open>None\<close> if no handler takes the trap.  It runs inside a deferred function, so a panic of its
  own (\<open>Inl\<close>) is not recovered by anyone.
\<close>

definition handle :: "trap \<Rightarrow> machine \<Rightarrow> run option" where
  "handle t m =
     (if t = TUncaught then None
      else case find_handler m of None \<Rightarrow> None | Some (fp, h) \<Rightarrow> Some (wrap t m (land fp h)))"

definition do_throw :: "machine \<Rightarrow> run" where
  "do_throw m =
     (if m_sp m = 0 then Inl (TStackUnderflow, m)
      else let exc = top m 1; m1 = popn 1 m in
        case find_handler m1 of
          Some (fp, h) \<Rightarrow> land fp h exc m1
        | None \<Rightarrow>
          if boxed_kind exc = KindRef
          then with_cell (as_ref exc) m1 (\<lambda>v m1. Inl (if v = HNil then TGoPanic else TUncaught, m1))
          else Inl (if unbox_scalar exc = HNil then TGoPanic else TUncaught, m1))"

section \<open>Structured errors\<close>

text \<open>\<open>render\<close> is the text \<^verbatim>\<open>String\<close> gives a value that is not a string.\<close>

definition do_error_new :: "(heap \<Rightarrow> boxed \<Rightarrow> string) \<Rightarrow> machine \<Rightarrow> run" where
  "do_error_new render m =
     (if m_sp m < 2 then Inl (TStackUnderflow, m)
      else if boxed_kind (top m 1) \<noteq> KindI32 then Inl (TTypeMismatch, m)
      else let payload = top m 2;
        finish = (\<lambda>msg m. with_alloc (HError (sint (as_i32 (top m 1))) msg payload) m
          (\<lambda>a m1. Inr (advance 1 (set_top 1 (box_ref a) (popn 1 m1))))) in
        if boxed_kind payload = KindRef
        then with_cell (as_ref payload) m (\<lambda>v m. case v of
            HString s \<Rightarrow> finish s m | HNil \<Rightarrow> Inl (TGoPanic, m) | _ \<Rightarrow> finish (render (m_heap m) payload) m)
        else if unbox_scalar payload = HNil then Inl (TGoPanic, m)
        else finish (render (m_heap m) payload) m)"

definition with_error :: "(int \<Rightarrow> boxed \<Rightarrow> boxed \<Rightarrow> machine \<Rightarrow> run) \<Rightarrow> machine \<Rightarrow> run" where
  "with_error k m =
     (if m_sp m = 0 then Inl (TStackUnderflow, m)
      else let b = top m 1 in
        if boxed_kind b \<noteq> KindRef then Inl (TTypeMismatch, m)
        else with_cell (as_ref b) m (\<lambda>v m. case v of HError code msg val \<Rightarrow> k code val b m | _ \<Rightarrow> Inl (TTypeMismatch, m)))"

definition do_error_get :: "machine \<Rightarrow> run" where
  "do_error_get = with_error (\<lambda>code val b m. seqm (retain_m val m) (\<lambda>m1.
     seqm (release_m b m1) (\<lambda>m2. Inr (advance 1 (set_top 1 val m2)))))"

definition do_error_code :: "machine \<Rightarrow> run" where
  "do_error_code = with_error (\<lambda>code val b m. seqm (release_m b m) (\<lambda>m1.
     Inr (advance 1 (set_top 1 (box_i32 (word_of_int code)) m1))))"

end
