(* ===== verification/HeapInv.thy ===== *)
theory HeapInv
  imports Heap
begin

text \<open>
  Exact reference counting.  \<open>ext\<close> is the number of references to a slot held outside the heap: by
  the stack, the globals, the constants, the frames, or the host.  The invariant \<open>hinv\<close> says that
  every count is exact (slot 0, the null reference, is only bounded below: the collector and
  \<^verbatim>\<open>releaseBox\<close> leave its count alone), that a slot with count zero is empty and on the free list
  once, and that no value refers to a slot outside the heap.  \<open>work\<close> are references being released.
\<close>

section \<open>Counting\<close>

definition edges :: "hval list \<Rightarrow> nat \<Rightarrow> int" where
  "edges cells a = int (sum_list (map (\<lambda>v. count_list (refs v) (int a)) cells))"

definition pending :: "int list \<Rightarrow> nat \<Rightarrow> int" where
  "pending work a = int (count_list work (int a))"

lemma edges_nonneg [simp]: "0 \<le> edges cells a"
  by (simp add: edges_def)

lemma pending_nonneg [simp]: "0 \<le> pending w a"
  by (simp add: pending_def)

lemma pending_simps [rc_simps]:
  "pending [] a = 0" "pending (x # w) a = (if x = int a then 1 else 0) + pending w a"
  "pending (v @ w) a = pending v a + pending w a" "pending (rev w) a = pending w a"
  by (simp_all add: pending_def count_list_append count_list_rev)

lemma edges_update:
  "k < length cells \<Longrightarrow> edges (cells[k := v]) a = edges cells a - pending (refs (cells ! k)) a + pending (refs v) a"
  unfolding edges_def pending_def
proof (induction cells arbitrary: k)
  case (Cons c cs)
  then show ?case by (cases k) auto
qed simp

lemma edges_append [rc_simps]: "edges (cells @ [v]) a = edges cells a + pending (refs v) a"
  by (simp add: edges_def pending_def)

lemma edges_member: "k < length cells \<Longrightarrow> pending (refs (cells ! k)) a \<le> edges cells a"
  unfolding edges_def pending_def
proof (induction cells arbitrary: k)
  case (Cons c cs)
  then show ?case by (cases k) fastforce+
qed simp

lemma pending_pos: "r \<in> set w \<Longrightarrow> 0 \<le> r \<Longrightarrow> 1 \<le> pending w (nat r)"
  using count_list_0_iff [of w r] by (simp add: pending_def)

lemma pending_zero: "int a \<notin> set w \<Longrightarrow> pending w a = 0"
  by (simp add: pending_def)

lemma edges_pos: "k < length cells \<Longrightarrow> r \<in> set (refs (cells ! k)) \<Longrightarrow> 0 \<le> r \<Longrightarrow> 1 \<le> edges cells (nat r)"
  using edges_member [of k cells "nat r"] pending_pos [of r "refs (cells ! k)"] by linarith

section \<open>The invariant\<close>

definition in_heap :: "heap \<Rightarrow> int list \<Rightarrow> bool" where
  "in_heap h rs \<longleftrightarrow> (\<forall>r\<in>set rs. 0 \<le> r \<and> r < int (length (h_cells h)))"

text \<open>
  What the code keeps true of a value on its own: a struct has one word per field, a typed array a
  scalar element kind, and a suspended frame its callable exactly when it must release one.
\<close>

definition cell_ok :: "hval \<Rightarrow> bool" where
  "cell_ok v = (case v of
       HStruct fs ds \<Rightarrow> length ds = length fs
     | HTyped k ds \<Rightarrow> k \<in> {KindI1, KindI8, KindI32, KindI64, KindF32, KindF64}
     | HCoro c \<Rightarrow> 0 \<le> co_ref c \<and> (co_release c \<longleftrightarrow> 0 < co_ref c)
         \<and> (\<forall>a. co_upvals c = Some a \<longrightarrow> a = co_ref c \<and> co_release c)
     | _ \<Rightarrow> True)"

lemma cell_ok_simps [simp]:
  "cell_ok HNil" "cell_ok HNull" "cell_ok (HI64 w)" "cell_ok (HString s)" "cell_ok (HArray t es)"
  "cell_ok (HFunc f)" "cell_ok (HError c s b)" "cell_ok (HClosure ps rs fa ups)"
  by (simp_all add: cell_ok_def)

definition hinv :: "int list \<Rightarrow> (nat \<Rightarrow> int) \<Rightarrow> heap \<Rightarrow> bool" where
  "hinv work ext h \<longleftrightarrow>
     length (h_rc h) = length (h_cells h) \<and> 0 < length (h_cells h)
     \<and> h_cells h ! 0 = HNull
     \<and> (\<forall>v\<in>set (h_cells h). in_heap h (refs v)) \<and> (\<forall>v\<in>set (h_cells h). cell_ok v) \<and> in_heap h work
     \<and> (\<forall>a. 0 \<le> ext a \<and> (length (h_cells h) \<le> a \<longrightarrow> ext a = 0)) \<and> 1 \<le> ext 0
     \<and> ext 0 + edges (h_cells h) 0 + pending work 0 \<le> h_rc h ! 0
     \<and> (\<forall>a. 0 < a \<longrightarrow> a < length (h_cells h) \<longrightarrow>
          h_rc h ! a = ext a + edges (h_cells h) a + pending work a)
     \<and> (\<forall>a. 0 < a \<longrightarrow> a < length (h_cells h) \<longrightarrow> h_rc h ! a = 0 \<longrightarrow> h_cells h ! a = HNil)
     \<and> distinct (h_free h) \<and> set (h_free h) = {a. 0 < a \<and> a < length (h_cells h) \<and> h_rc h ! a = 0}"

lemma hinvD:
  assumes "hinv work ext h"
  shows "length (h_rc h) = length (h_cells h)" "0 < length (h_cells h)" "refs (h_cells h ! 0) = []"
    "\<And>v. v \<in> set (h_cells h) \<Longrightarrow> in_heap h (refs v)" "in_heap h work" "\<And>a. 0 \<le> ext a" "1 \<le> ext 0"
    "ext 0 + edges (h_cells h) 0 + pending work 0 \<le> h_rc h ! 0"
    "\<And>a. 0 < a \<Longrightarrow> a < length (h_cells h) \<Longrightarrow> h_rc h ! a = ext a + edges (h_cells h) a + pending work a"
    "\<And>a. 0 < a \<Longrightarrow> a < length (h_cells h) \<Longrightarrow> h_rc h ! a = 0 \<Longrightarrow> h_cells h ! a = HNil"
    "distinct (h_free h)" "set (h_free h) = {a. 0 < a \<and> a < length (h_cells h) \<and> h_rc h ! a = 0}"
    "\<And>a. length (h_cells h) \<le> a \<Longrightarrow> ext a = 0"
    "\<And>v. v \<in> set (h_cells h) \<Longrightarrow> cell_ok v" "h_cells h ! 0 = HNull"
  using assms by (auto simp: hinv_def)

text \<open>A count is never negative, and what a live value refers to is live.\<close>

lemma hinv_rc0: "hinv work ext h \<Longrightarrow> 1 \<le> h_rc h ! 0"
  using hinvD(7,8) [of work ext h] edges_nonneg [of "h_cells h" 0] pending_nonneg [of work 0] by linarith

lemma hinv_rc_nonneg: "hinv work ext h \<Longrightarrow> a < length (h_cells h) \<Longrightarrow> 0 \<le> h_rc h ! a"
proof (cases "a = 0")
  case False
  assume h: "hinv work ext h" and a: "a < length (h_cells h)"
  then show ?thesis using hinvD(9) [OF h _ a] hinvD(6) [OF h, of a] False by simp
next
  case True
  assume h: "hinv work ext h"
  show ?thesis using hinv_rc0 [OF h] True by simp
qed

lemma hinv_ref_live:
  assumes h: "hinv work ext h" and a: "a < length (h_cells h)" and r: "r \<in> set (refs (h_cells h ! a))"
  shows "0 \<le> r" "r < int (length (h_cells h))" "0 < h_rc h ! nat r"
proof -
  show r0: "0 \<le> r" and rl: "r < int (length (h_cells h))"
    using hinvD(4) [OF h nth_mem [OF a]] r by (auto simp: in_heap_def)
  have e: "1 \<le> edges (h_cells h) (nat r)" by (rule edges_pos [OF a r r0])
  show "0 < h_rc h ! nat r"
  proof (cases "nat r = 0")
    case True
    then show ?thesis using hinv_rc0 [OF h] by simp
  next
    case False
    then have "h_rc h ! nat r = ext (nat r) + edges (h_cells h) (nat r) + pending work (nat r)"
      using hinvD(9) [OF h, of "nat r"] rl r0 by simp
    then show ?thesis using e hinvD(6) [OF h, of "nat r"] pending_nonneg [of work "nat r"] by linarith
  qed
qed

section \<open>Release\<close>

text \<open>What an operation leaves alone: the size of the heap and the values of the slots still live.\<close>

definition keeps :: "heap \<Rightarrow> heap \<Rightarrow> bool" where
  "keeps h h' \<longleftrightarrow> length (h_cells h') = length (h_cells h)
     \<and> (\<forall>a<length (h_cells h). 0 < h_rc h' ! a \<longrightarrow> 0 < h_rc h ! a \<and> h_cells h' ! a = h_cells h ! a)"

lemma keeps_refl: "keeps h h"
  by (simp add: keeps_def)

lemma keeps_trans: "keeps h h1 \<Longrightarrow> keeps h1 h2 \<Longrightarrow> keeps h h2"
  unfolding keeps_def by metis

text \<open>Taking one pending reference off a slot.\<close>

lemma hinv_decrement:
  assumes h: "hinv (r # w) ext h" and h1: "h1 = h\<lparr>h_rc := (h_rc h)[nat r := h_rc h ! nat r - 1]\<rparr>"
    and nz: "h_rc h1 ! nat r \<noteq> 0"
  shows "hinv w ext h1" "keeps h h1"
proof -
  have r: "0 \<le> r" "r < int (length (h_cells h))" using hinvD(5) [OF h] by (auto simp: in_heap_def)
  then have k: "nat r < length (h_cells h)" "nat r < length (h_rc h)" using hinvD(1) [OF h] by simp_all
  have p: "pending (r # w) a = (if a = nat r then 1 else 0) + pending w a" for a
    using r by (auto simp: rc_simps)
  have rc: "h_rc h1 ! a = (if a = nat r then h_rc h ! a - 1 else h_rc h ! a)" for a
    using k h1 by (auto simp: nth_list_update)
  have ge: "0 < h_rc h1 ! nat r"
  proof -
    have "1 \<le> h_rc h ! nat r"
    proof (cases "nat r = 0")
      case True
      then show ?thesis using hinv_rc0 [OF h] by simp
    next
      case False
      then show ?thesis using hinvD(9) [OF h _ k(1)] p [of "nat r"] hinvD(6) [OF h, of "nat r"]
          edges_nonneg [of "h_cells h" "nat r"] pending_nonneg [of w "nat r"] by simp
    qed
    then show ?thesis using rc [of "nat r"] nz by simp
  qed
  show "hinv w ext h1"
    unfolding hinv_def
  proof (intro conjI allI impI ballI)
    show "length (h_rc h1) = length (h_cells h1)" "0 < length (h_cells h1)" "h_cells h1 ! 0 = HNull"
      "0 \<le> ext a" "1 \<le> ext 0" "distinct (h_free h1)" for a
      using hinvD [OF h] h1 by simp_all
    show "ext a = 0" if "length (h_cells h1) \<le> a" for a using hinvD(13) [OF h] that h1 by simp
    show "in_heap h1 (refs v)" if "v \<in> set (h_cells h1)" for v
      using that hinvD(4) [OF h] h1 by (simp add: in_heap_def)
    show "cell_ok v" if "v \<in> set (h_cells h1)" for v using that hinvD(14) [OF h] h1 by simp
    show "in_heap h1 w" using hinvD(5) [OF h] h1 by (simp add: in_heap_def)
    show "ext 0 + edges (h_cells h1) 0 + pending w 0 \<le> h_rc h1 ! 0"
      using hinvD(8) [OF h] p [of 0] rc [of 0] h1 by (simp split: if_splits)
    show "h_rc h1 ! a = ext a + edges (h_cells h1) a + pending w a"
      if "0 < a" "a < length (h_cells h1)" for a
      using hinvD(9) [OF h that(1)] that p [of a] rc [of a] h1 by (simp split: if_splits)
    show "h_cells h1 ! a = HNil" if "0 < a" "a < length (h_cells h1)" "h_rc h1 ! a = 0" for a
      using that rc [of a] nz hinvD(10) [OF h that(1)] h1 by (auto split: if_splits)
    show "set (h_free h1) = {a. 0 < a \<and> a < length (h_cells h1) \<and> h_rc h1 ! a = 0}"
      using hinvD(12) [OF h] rc ge h1 hinv_rc_nonneg [OF h k(1)] by auto
  qed
  show "keeps h h1" using rc ge h1 by (auto simp: keeps_def split: if_splits)
qed


lemma hinv_reclaim:
  assumes h: "hinv (r # w) ext h" and h1: "h1 = h\<lparr>h_rc := (h_rc h)[nat r := h_rc h ! nat r - 1]\<rparr>"
    and z: "h_rc h1 ! nat r = 0" and v: "v = h_cells h ! nat r"
  shows "hinv (rev (refs v) @ w) ext (reclaim (nat r) v h1)" "keeps h (reclaim (nat r) v h1)"
proof -
  let ?k = "nat r" and ?h2 = "reclaim (nat r) v h1"
  have r: "0 \<le> r" "r < int (length (h_cells h))" using hinvD(5) [OF h] by (auto simp: in_heap_def)
  then have k: "?k < length (h_cells h)" "?k < length (h_rc h)" using hinvD(1) [OF h] by simp_all
  have p: "pending (r # w) a = (if a = ?k then 1 else 0) + pending w a" for a
    using r by (auto simp: rc_simps)
  have rc: "h_rc ?h2 ! a = (if a = ?k then 0 else h_rc h ! a)" for a
    using k h1 z by (auto simp: nth_list_update)
  have nz: "?k \<noteq> 0"
  proof
    assume 0: "?k = 0"
    then have "h_rc h ! 0 = 1" using z h1 k by simp
    then show False using hinvD(7,8) [OF h] p [of 0] 0 edges_nonneg [of "h_cells h" 0] pending_nonneg [of w 0]
      by simp
  qed
  have one: "h_rc h ! ?k = 1" using z h1 k by simp
  have cells: "h_cells ?h2 = (h_cells h)[?k := HNil]" using h1 by simp
  have e: "edges (h_cells ?h2) a = edges (h_cells h) a - pending (refs v) a" for a
    using edges_update [OF k(1), of HNil a] v cells by (simp add: rc_simps)
  have "1 = ext ?k + edges (h_cells h) ?k + (1 + pending w ?k)"
    using hinvD(9) [OF h _ k(1)] nz one p [of ?k] by simp
  moreover have "pending (refs v) ?k \<le> edges (h_cells h) ?k" using edges_member [OF k(1)] v by simp
  ultimately have zero: "ext ?k = 0" "edges (h_cells h) ?k = 0" "pending w ?k = 0" "pending (refs v) ?k = 0"
    using hinvD(6) [OF h, of ?k] edges_nonneg [of "h_cells h" ?k] pending_nonneg [of w ?k]
      pending_nonneg [of "refs v" ?k] by linarith+
  show "hinv (rev (refs v) @ w) ext ?h2"
    unfolding hinv_def
  proof (intro conjI allI impI ballI)
    show "length (h_rc ?h2) = length (h_cells ?h2)" "0 < length (h_cells ?h2)" "h_cells ?h2 ! 0 = HNull"
      "0 \<le> ext a" "1 \<le> ext 0" for a
      using hinvD [OF h] h1 cells nz by simp_all
    show "ext a = 0" if "length (h_cells ?h2) \<le> a" for a using hinvD(13) [OF h] that unfolding cells by simp
    show "cell_ok u" if "u \<in> set (h_cells ?h2)" for u
      using that hinvD(14) [OF h, of u] unfolding cells by (auto dest: set_update_subset_insert [THEN subsetD])
    show "in_heap ?h2 (refs u)" if "u \<in> set (h_cells ?h2)" for u
    proof -
      from that have "u = HNil \<or> u \<in> set (h_cells h)" unfolding cells by (auto dest: set_update_subset_insert [THEN subsetD])
      then show ?thesis using hinvD(4) [OF h] cells by (auto simp: in_heap_def)
    qed
    show "in_heap ?h2 (rev (refs v) @ w)"
      using hinvD(5) [OF h] hinvD(4) [OF h nth_mem [OF k(1)]] cells v by (auto simp: in_heap_def)
    show "ext 0 + edges (h_cells ?h2) 0 + pending (rev (refs v) @ w) 0 \<le> h_rc ?h2 ! 0"
      using hinvD(8) [OF h] p [of 0] rc [of 0] nz e [of 0] by (simp add: rc_simps split: if_splits)
    show "h_rc ?h2 ! a = ext a + edges (h_cells ?h2) a + pending (rev (refs v) @ w) a"
      if "0 < a" "a < length (h_cells ?h2)" for a
    proof -
      have al: "a < length (h_cells h)" using that(2) unfolding cells by simp
      show ?thesis using hinvD(9) [OF h that(1) al] p [of a] rc [of a] e [of a] zero
        by (cases "a = ?k") (simp_all add: rc_simps)
    qed
    show "h_cells ?h2 ! a = HNil" if "0 < a" "a < length (h_cells ?h2)" "h_rc ?h2 ! a = 0" for a
    proof -
      have al: "a < length (h_cells h)" using that(2) unfolding cells by simp
      show ?thesis unfolding cells using that(3) rc [of a] hinvD(10) [OF h that(1) al] al
        by (cases "a = ?k") simp_all
    qed
    have nf: "?k \<notin> set (h_free h)" using hinvD(12) [OF h] one by simp
    then show "distinct (h_free ?h2)" using hinvD(11) [OF h] h1 by simp
    show "set (h_free ?h2) = {a. 0 < a \<and> a < length (h_cells ?h2) \<and> h_rc ?h2 ! a = 0}"
    proof -
      have "length (h_cells ?h2) = length (h_cells h)" unfolding cells by simp
      then show ?thesis using hinvD(12) [OF h] rc nz k(1) h1 by (auto simp: rc)
    qed
  qed
  show "keeps h ?h2" using rc cells by (auto simp: keeps_def)
qed

lemma release_loop_inv:
  "hinv work ext h \<Longrightarrow> \<exists>h'. release_loop work h = Inr h' \<and> hinv [] ext h' \<and> keeps h h'"
proof (induction work h rule: release_loop.induct)
  case (1 h)
  then show ?case by (simp add: keeps_refl)
next
  case (2 r w h)
  let ?h1 = "h\<lparr>h_rc := (h_rc h)[nat r := h_rc h ! nat r - 1]\<rparr>" and ?v = "h_cells h ! nat r"
  have ok: "\<not> (r < 0 \<or> int (length (h_rc h)) \<le> r \<or> int (length (h_cells h)) \<le> r)"
    using hinvD(1,5) [OF "2.prems"] by (auto simp: in_heap_def)
  show ?case
  proof (cases "h_rc ?h1 ! nat r = 0")
    case True
    note R = hinv_reclaim [OF "2.prems" refl True refl]
    have eq: "release_loop (r # w) h = release_loop (rev (refs ?v) @ w) (reclaim (nat r) ?v ?h1)"
      using ok True by (simp add: Let_def)
    from "2.IH"(1) [OF ok refl refl True refl] R(1) obtain h' where
      "release_loop (rev (refs ?v) @ w) (reclaim (nat r) ?v ?h1) = Inr h'" "hinv [] ext h'"
      "keeps (reclaim (nat r) ?v ?h1) h'" by auto
    then show ?thesis using eq keeps_trans [OF R(2)] by auto
  next
    case False
    note R = hinv_decrement [OF "2.prems" refl False]
    have eq: "release_loop (r # w) h = release_loop w ?h1" using ok False by (simp add: Let_def)
    from "2.IH"(2) [OF ok refl refl False R(1)] obtain h' where
      "release_loop w ?h1 = Inr h'" "hinv [] ext h'" "keeps ?h1 h'" by blast
    then show ?thesis using eq keeps_trans [OF R(2)] by auto
  qed
qed

text \<open>Moving a reference from the outside to the pending list, and back.\<close>

lemma hinv_pend:
  assumes h: "hinv w ext h" and a: "a < length (h_cells h)" and e: "1 \<le> ext a" "a = 0 \<longrightarrow> 2 \<le> ext a"
  shows "hinv (int a # w) (ext(a := ext a - 1)) h"
  using hinvD [OF h] a e unfolding hinv_def by (auto simp: rc_simps in_heap_def)

lemma release_exact_lemma:
  assumes "hinv [] ext h" and "a < length (h_cells h)" and "1 \<le> ext a" and "a = 0 \<longrightarrow> 2 \<le> ext a"
  shows "\<exists>h'. release (int a) h = Inr h' \<and> hinv [] (ext(a := ext a - 1)) h' \<and> keeps h h'"
proof -
  have p: "hinv [int a] (ext(a := ext a - 1)) h" by (rule hinv_pend [OF assms])
  have ok: "\<not> (int a < 0 \<or> int (length (h_rc h)) \<le> int a)" using assms(1,2) hinvD(1) by force
  show ?thesis
  proof (cases "h_rc h ! a > 1")
    case True
    let ?h1 = "h\<lparr>h_rc := (h_rc h)[nat (int a) := h_rc h ! nat (int a) - 1]\<rparr>"
    have nz: "h_rc ?h1 ! nat (int a) \<noteq> 0" using True assms(2) hinvD(1) [OF assms(1)] by simp
    show ?thesis using hinv_decrement [OF p refl nz] ok True by (simp add: release_def)
  next
    case False
    then show ?thesis using release_loop_inv [OF p] ok by (simp add: release_def)
  qed
qed

text \<open>C3: \<^verbatim>\<open>release\<close> keeps counts exact.  Releasing a reference the caller owns never panics; the counts
  stay exact for one external reference less, every slot that stays live keeps its value, and every
  slot that became unowned is emptied and returned to the free list, in cascades of any depth.\<close>

theorem release_exact:
  assumes "hinv [] ext h" and "a < length (h_cells h)" and "1 \<le> ext a" and "a = 0 \<longrightarrow> 2 \<le> ext a"
  shows "\<exists>h'. release (int a) h = Inr h' \<and> hinv [] (ext(a := ext a - 1)) h' \<and> keeps h h'"
  by (rule release_exact_lemma [OF assms])

text \<open>
  A small heap: the null slot, two arrays that refer to each other, a string the host holds, and an
  array the host holds that refers to the string and to one of the pair.
\<close>

definition sample_pool :: pool where
  "sample_pool = \<lparr>pl_values = [], pl_live = 0, pl_peak = 0\<rparr>"

definition sample_array :: "int list \<Rightarrow> hval" where
  "sample_array rs = HArray (TArray TString) (map box_ref rs)"

definition sample_heap :: heap where
  "sample_heap = \<lparr>h_cells = [HNull, sample_array [2], sample_array [1], HString ''s'', sample_array [3, 3]],
     h_rc = [1, 1, 1, 3, 1], h_free = [], h_trial = [], h_cap = 5, h_base = 1, h_target = 0, h_limit = 6,
     h_structs = sample_pool, h_arrays = sample_pool, h_instrs = [], h_handlers = [], h_coros = []\<rparr>"

definition sample_ext :: "nat \<Rightarrow> int" where
  "sample_ext a = (if a = 0 \<or> a = 3 \<or> a = 4 then 1 else 0)"

lemma sample_refs: "refs (sample_array [2]) = [2]" "refs (sample_array [1]) = [1]" "refs (sample_array [3, 3]) = [3, 3]"
  by (simp_all add: sample_array_def box_refs_def)

lemma sample_hinv: "hinv [] sample_ext sample_heap"
proof -
  have c: "h_cells sample_heap = [HNull, sample_array [2], sample_array [1], HString ''s'', sample_array [3, 3]]"
    and rc: "h_rc sample_heap = [1, 1, 1, 3, 1]" and f: "h_free sample_heap = []" by (simp_all add: sample_heap_def)
  have five: "0 < a \<Longrightarrow> a < 5 \<Longrightarrow> a = 1 \<or> a = 2 \<or> a = 3 \<or> a = 4" for a :: nat by linarith
  have e: "edges (h_cells sample_heap) 0 = 0" "edges (h_cells sample_heap) 1 = 1" "edges (h_cells sample_heap) 2 = 1"
    "edges (h_cells sample_heap) 3 = 2" "edges (h_cells sample_heap) 4 = 0"
    by (simp_all add: c edges_def sample_refs)
  show ?thesis
    unfolding hinv_def
  proof (intro conjI allI impI ballI)
    show "h_rc sample_heap ! a = sample_ext a + edges (h_cells sample_heap) a + pending [] a"
      if "0 < a" "a < length (h_cells sample_heap)" for a
      using five [of a] that e by (auto simp: c rc sample_ext_def rc_simps)
    show "h_cells sample_heap ! a = HNil" if "0 < a" "a < length (h_cells sample_heap)" "h_rc sample_heap ! a = 0" for a
      using five [of a] that by (auto simp: c rc)
    show "set (h_free sample_heap) = {a. 0 < a \<and> a < length (h_cells sample_heap) \<and> h_rc sample_heap ! a = 0}"
    proof -
      have "h_rc sample_heap ! a \<noteq> 0" if "0 < a" "a < length (h_cells sample_heap)" for a
        using five [of a] that by (auto simp: c rc)
      then have "{a. 0 < a \<and> a < length (h_cells sample_heap) \<and> h_rc sample_heap ! a = 0} = {}" by blast
      then show ?thesis by (simp add: f)
    qed
    show "cell_ok v" if "v \<in> set (h_cells sample_heap)" for v
      using that by (auto simp: c sample_array_def)
    show "in_heap sample_heap (refs v)" if "v \<in> set (h_cells sample_heap)" for v
      using that by (auto simp: c in_heap_def sample_refs)
    show "0 \<le> sample_ext a" for a by (simp add: sample_ext_def)
    show "sample_ext a = 0" if "length (h_cells sample_heap) \<le> a" for a using that by (simp add: c sample_ext_def)
  qed (use e in \<open>simp_all add: c rc f in_heap_def sample_ext_def rc_simps\<close>)
qed

theorem release_exact_witness:
  "\<exists>h'. release 4 sample_heap = Inr h' \<and> hinv [] (sample_ext(4 := 0)) h' \<and> keeps sample_heap h'"
  using release_exact [OF sample_hinv, of 4] by (simp add: sample_heap_def sample_ext_def)

end
