(* ===== verification/HeapGc.thy ===== *)
theory HeapGc
  imports HeapInv
begin

text \<open>
  The collector is correct: on an exact heap it cannot fail, it empties exactly the slots that no
  external reference reaches, it leaves the others alone, and the counts stay exact.
\<close>

section \<open>Trial counts\<close>

lemma scan_refs_spec:
  "\<forall>r\<in>set rs. 0 \<le> r \<and> r < int (length rc) \<and> (r \<noteq> 0 \<longrightarrow> 0 < rc ! nat r) \<Longrightarrow> length trial = length rc \<Longrightarrow>
   \<exists>t'. scan_refs rc rs trial = Inr t' \<and> length t' = length rc
     \<and> (\<forall>b. 0 < b \<longrightarrow> b < length rc \<longrightarrow> t' ! b = trial ! b - pending rs b)"
proof (induction rs arbitrary: trial)
  case Nil
  then show ?case by (simp add: rc_simps)
next
  case (Cons r rs)
  show ?case
  proof (cases "r = 0")
    case True
    then show ?thesis using Cons.IH [of trial] Cons.prems by (auto simp: rc_simps)
  next
    case False
    let ?t = "trial[nat r := trial ! nat r - 1]"
    have r: "\<not> (r < 0 \<or> int (length rc) \<le> r \<or> rc ! nat r \<le> 0)" "0 \<le> r" "nat r < length trial"
      using Cons.prems False by auto
    obtain t' where t': "scan_refs rc rs ?t = Inr t'" "length t' = length rc"
      "\<And>b. 0 < b \<Longrightarrow> b < length rc \<Longrightarrow> t' ! b = ?t ! b - pending rs b"
      using Cons.IH [of ?t] Cons.prems by auto
    show ?thesis
    proof (intro exI conjI allI impI)
      show "scan_refs rc (r # rs) trial = Inr t'" using False r t'(1) by simp
      show "length t' = length rc" by (rule t'(2))
      fix b assume "0 < b" "b < length rc"
      then show "t' ! b = trial ! b - pending (r # rs) b"
        using t'(3) [of b] r by (auto simp: rc_simps nth_list_update)
    qed
  qed
qed

text \<open>The edges out of the slots of a list.\<close>

definition out_of :: "heap \<Rightarrow> nat list \<Rightarrow> nat \<Rightarrow> int" where
  "out_of h as b = sum_list (map (\<lambda>a. pending (refs (h_cells h ! a)) b) as)"

lemma out_of_all: "out_of h [0..<length (h_cells h)] b = edges (h_cells h) b"
proof -
  have "edges cells b = sum_list (map (\<lambda>v. pending (refs v) b) cells)" for cells
    by (induction cells) (auto simp: edges_def pending_def)
  then have "edges (h_cells h) b = sum_list (map (\<lambda>v. pending (refs v) b) (map ((!) (h_cells h)) [0..<length (h_cells h)]))"
    by (simp add: map_nth)
  then show ?thesis by (simp add: out_of_def comp_def)
qed

lemma out_of_heap:
  assumes "refs (h_cells h ! 0) = []" "0 < length (h_cells h)"
  shows "out_of h [1..<length (h_cells h)] b = edges (h_cells h) b"
proof -
  have "[0..<length (h_cells h)] = 0 # [1..<length (h_cells h)]" using assms(2) by (simp add: upt_conv_Cons)
  then show ?thesis using out_of_all [of h b] assms(1) by (simp add: out_of_def rc_simps)
qed

lemma dead_refs:
  assumes h: "hinv [] ext h" and a: "0 < a" "a < length (h_cells h)" "h_rc h ! a \<le> 0"
  shows "refs (h_cells h ! a) = []"
  using hinvD(10) [OF h a(1,2)] hinv_rc_nonneg [OF h a(2)] a(3) by simp

lemma scan_from_spec:
  assumes h: "hinv [] ext h"
  shows "set as \<subseteq> {1..<length (h_cells h)} \<Longrightarrow> length trial = length (h_rc h) \<Longrightarrow>
    \<exists>t'. scan_from h as trial = Inr t' \<and> length t' = length (h_rc h)
      \<and> (\<forall>b. 0 < b \<longrightarrow> b < length (h_rc h) \<longrightarrow> t' ! b = trial ! b - out_of h as b)"
proof (induction as arbitrary: trial)
  case (Cons a as)
  then have a: "0 < a" "a < length (h_cells h)" by auto
  show ?case
  proof (cases "h_rc h ! a \<le> 0")
    case True
    then show ?thesis using Cons dead_refs [OF h a True] by (auto simp: out_of_def rc_simps)
  next
    case False
    have "\<forall>r\<in>set (refs (h_cells h ! a)). 0 \<le> r \<and> r < int (length (h_rc h)) \<and> (r \<noteq> 0 \<longrightarrow> 0 < h_rc h ! nat r)"
      using hinv_ref_live [OF h a(2)] hinvD(1) [OF h] by auto
    from scan_refs_spec [OF this Cons.prems(2)] obtain t1 where t1:
      "scan_refs (h_rc h) (refs (h_cells h ! a)) trial = Inr t1" "length t1 = length (h_rc h)"
      "\<And>b. 0 < b \<Longrightarrow> b < length (h_rc h) \<Longrightarrow> t1 ! b = trial ! b - pending (refs (h_cells h ! a)) b" by blast
    from Cons.IH [OF _ t1(2)] Cons.prems(1) obtain t' where t': "scan_from h as t1 = Inr t'" "length t' = length (h_rc h)"
      "\<And>b. 0 < b \<Longrightarrow> b < length (h_rc h) \<Longrightarrow> t' ! b = t1 ! b - out_of h as b" by auto
    show ?thesis using False t1 t' by (auto simp: out_of_def)
  qed
qed (simp add: out_of_def)

lemma scan_spec:
  assumes h: "hinv [] ext h"
  obtains t where "scan h = Inr (h\<lparr>h_trial := t\<rparr>)" "length t = length (h_rc h)"
    "\<And>b. 0 < b \<Longrightarrow> b < length (h_cells h) \<Longrightarrow> t ! b = ext b"
proof -
  note L = hinvD(1) [OF h]
  from scan_from_spec [OF h, of "[1..<length (h_rc h)]" "h_rc h"] obtain t where
    t: "scan_from h [1..<length (h_rc h)] (h_rc h) = Inr t" "length t = length (h_rc h)"
    "\<And>b. 0 < b \<Longrightarrow> b < length (h_rc h) \<Longrightarrow> t ! b = h_rc h ! b - out_of h [1..<length (h_rc h)] b"
    using L by auto
  have e: "t ! b = ext b" if "0 < b" "b < length (h_cells h)" for b
    using t(3) [of b] hinvD(9) [OF h that] out_of_heap [OF hinvD(3,2) [OF h], of b] that L by (simp add: rc_simps)
  have "\<not> list_ex (\<lambda>a. h_rc h ! a > 0 \<and> t ! a < 0) [1..<length (h_rc h)]"
    using e hinvD(6) [OF h] L by (auto simp: list_ex_iff not_less)
  then show thesis using that [OF _ t(2)] t(1) e by (simp add: scan_def)
qed

section \<open>Marking\<close>

text \<open>A slot is reachable when an external owner, or a reachable slot, refers to it.\<close>

inductive hreach :: "(nat \<Rightarrow> int) \<Rightarrow> heap \<Rightarrow> nat \<Rightarrow> bool" for ext h where
  root: "0 < a \<Longrightarrow> a < length (h_cells h) \<Longrightarrow> 0 < ext a \<Longrightarrow> hreach ext h a"
| edge: "hreach ext h a \<Longrightarrow> r \<in> set (refs (h_cells h ! a)) \<Longrightarrow> 0 < r \<Longrightarrow> hreach ext h (nat r)"

lemma hreach_live:
  assumes h: "hinv [] ext h"
  shows "hreach ext h a \<Longrightarrow> 0 < a \<and> a < length (h_cells h) \<and> 0 < h_rc h ! a"
proof (induction rule: hreach.induct)
  case (root a)
  then show ?case using hinvD(9) [OF h root(1,2)] edges_nonneg [of "h_cells h" a] pending_nonneg [of "[]" a]
    by linarith
next
  case (edge a r)
  then show ?case using hinv_ref_live [OF h _ edge.hyps(2)] by auto
qed

definition marked :: "int list \<Rightarrow> nat set" where
  "marked t = {a. 0 < a \<and> a < length t \<and> t ! a < 0}"

text \<open>The state of the marking: unmarked entries still hold their external count.\<close>

definition mark_inv :: "(nat \<Rightarrow> int) \<Rightarrow> heap \<Rightarrow> int list \<times> nat list \<Rightarrow> bool" where
  "mark_inv ext h s \<longleftrightarrow> length (fst s) = length (h_rc h)
     \<and> set (snd s) \<subseteq> marked (fst s) \<and> marked (fst s) \<subseteq> {a. hreach ext h a}
     \<and> (\<forall>a. 0 < a \<longrightarrow> a < length (h_rc h) \<longrightarrow> 0 \<le> fst s ! a \<longrightarrow> fst s ! a = ext a)"

lemma mark_push_spec:
  assumes inv: "mark_inv ext h s" and r: "0 \<le> r" "r < int (length (h_rc h))" "r \<noteq> 0 \<longrightarrow> hreach ext h (nat r) \<and> 0 < h_rc h ! nat r"
  shows "mark_inv ext h (mark_push h r s)"
    "marked (fst (mark_push h r s)) = marked (fst s) \<union> (if r = 0 then {} else {nat r})"
    "set (snd s) \<subseteq> set (snd (mark_push h r s))"
    "set (snd (mark_push h r s)) = set (snd s) \<union> (marked (fst (mark_push h r s)) - marked (fst s))"
proof -
  obtain t w where s: "s = (t, w)" by force
  have L: "length t = length (h_rc h)" using inv s by (simp add: mark_inv_def)
  have all: "mark_inv ext h (mark_push h r s) \<and>
    marked (fst (mark_push h r s)) = marked (fst s) \<union> (if r = 0 then {} else {nat r}) \<and>
    set (snd s) \<subseteq> set (snd (mark_push h r s)) \<and>
    set (snd (mark_push h r s)) = set (snd s) \<union> (marked (fst (mark_push h r s)) - marked (fst s))"
  proof (cases "r = 0 \<or> t ! nat r < 0")
    case True
    then have p: "mark_push h r s = s" using s r by (auto simp: mark_push_def)
    have "r = 0 \<or> nat r \<in> marked t" using True r L by (auto simp: marked_def)
    then show ?thesis using p inv s by auto
  next
    case False
    let ?t = "t[nat r := - (t ! nat r) - 1]"
    have p: "mark_push h r s = (?t, nat r # w)" using False s r by (auto simp: mark_push_def)
    have nr: "0 < nat r" "nat r < length t" "0 \<le> t ! nat r" using False r L by auto
    have m: "marked ?t = insert (nat r) (marked t)" using nr by (auto simp: marked_def nth_list_update)
    have "nat r \<notin> marked t" using nr by (simp add: marked_def)
    moreover have "mark_inv ext h (?t, nat r # w)"
      unfolding mark_inv_def fst_conv snd_conv
    proof (intro conjI allI impI)
      show "length ?t = length (h_rc h)" using L by simp
      show "set (nat r # w) \<subseteq> marked ?t" using inv s m by (auto simp: mark_inv_def)
      show "marked ?t \<subseteq> {a. hreach ext h a}" using inv s m r(3) False by (auto simp: mark_inv_def)
      show "?t ! a = ext a" if a: "0 < a" "a < length (h_rc h)" "0 \<le> ?t ! a" for a
      proof -
        have "a \<noteq> nat r" using a(3) nr by auto
        then show ?thesis using inv s a by (simp add: mark_inv_def)
      qed
    qed
    ultimately show ?thesis using p m s False by auto
  qed
  then show "mark_inv ext h (mark_push h r s)"
    "marked (fst (mark_push h r s)) = marked (fst s) \<union> (if r = 0 then {} else {nat r})"
    "set (snd s) \<subseteq> set (snd (mark_push h r s))"
    "set (snd (mark_push h r s)) = set (snd s) \<union> (marked (fst (mark_push h r s)) - marked (fst s))" by blast+
qed

lemma mark_pushes_spec:
  "mark_inv ext h s \<Longrightarrow> \<forall>r\<in>set rs. 0 \<le> r \<and> r < int (length (h_rc h)) \<and> (r \<noteq> 0 \<longrightarrow> hreach ext h (nat r) \<and> 0 < h_rc h ! nat r) \<Longrightarrow>
   mark_inv ext h (fold (mark_push h) rs s)
   \<and> marked (fst (fold (mark_push h) rs s)) = marked (fst s) \<union> {nat r | r. r \<in> set rs \<and> r \<noteq> 0}
   \<and> set (snd (fold (mark_push h) rs s)) = set (snd s) \<union> (marked (fst (fold (mark_push h) rs s)) - marked (fst s))"
proof (induction rs arbitrary: s)
  case (Cons r rs)
  let ?s1 = "mark_push h r s"
  have r: "0 \<le> r" "r < int (length (h_rc h))" "r \<noteq> 0 \<longrightarrow> hreach ext h (nat r) \<and> 0 < h_rc h ! nat r"
    using Cons.prems(2) by auto
  note P = mark_push_spec [OF Cons.prems(1) r]
  have rs: "\<forall>r\<in>set rs. 0 \<le> r \<and> r < int (length (h_rc h)) \<and> (r \<noteq> 0 \<longrightarrow> hreach ext h (nat r) \<and> 0 < h_rc h ! nat r)"
    using Cons.prems(2) by simp
  note IH = Cons.IH [OF P(1) rs]
  note i = IH [THEN conjunct1] and m = IH [THEN conjunct2, THEN conjunct1]
    and w = IH [THEN conjunct2, THEN conjunct2]
  show ?case
  proof (intro conjI)
    show "mark_inv ext h (fold (mark_push h) (r # rs) s)" using i by simp
    show "marked (fst (fold (mark_push h) (r # rs) s)) = marked (fst s) \<union> {nat r' | r'. r' \<in> set (r # rs) \<and> r' \<noteq> 0}"
      using m P(2) by auto
    show "set (snd (fold (mark_push h) (r # rs) s)) = set (snd s) \<union> (marked (fst (fold (mark_push h) (r # rs) s)) - marked (fst s))"
      using w m P(2,4) by auto
  qed
qed simp


definition closed_but :: "heap \<Rightarrow> nat set \<Rightarrow> nat set \<Rightarrow> bool" where
  "closed_but h M W \<longleftrightarrow> (\<forall>a\<in>M - W. \<forall>r\<in>set (refs (h_cells h ! a)). r \<noteq> 0 \<longrightarrow> nat r \<in> M)"

lemma hreach_refs:
  assumes h: "hinv [] ext h" and a: "hreach ext h a"
  shows "\<forall>r\<in>set (refs (h_cells h ! a)). 0 \<le> r \<and> r < int (length (h_rc h)) \<and> (r \<noteq> 0 \<longrightarrow> hreach ext h (nat r) \<and> 0 < h_rc h ! nat r)"
proof
  fix r assume r: "r \<in> set (refs (h_cells h ! a))"
  have l: "a < length (h_cells h)" using hreach_live [OF h a] by simp
  note R = hinv_ref_live [OF h l r]
  have "r \<noteq> 0 \<Longrightarrow> hreach ext h (nat r)" using hreach.edge [OF a r] R(1) by simp
  then show "0 \<le> r \<and> r < int (length (h_rc h)) \<and> (r \<noteq> 0 \<longrightarrow> hreach ext h (nat r) \<and> 0 < h_rc h ! nat r)"
    using R hinvD(1) [OF h] by simp
qed

lemma mark_loop_spec:
  assumes h: "hinv [] ext h"
  shows "mark_inv ext h s \<Longrightarrow> closed_but h (marked (fst s)) (set (snd s)) \<Longrightarrow>
    mark_inv ext h (mark_loop h s, []) \<and> marked (fst s) \<subseteq> marked (mark_loop h s)
    \<and> closed_but h (marked (mark_loop h s)) {}"
proof (induction "mark_weight s" arbitrary: s rule: less_induct)
  case less
  have L: "length (fst s) = length (h_rc h)" using less.prems(1) by (simp add: mark_inv_def)
  show ?case
  proof (cases "snd s")
    case Nil
    then have eq: "mark_loop h s = fst s" by (simp add: mark_loop.simps)
    then show ?thesis using less.prems Nil by (simp add: mark_inv_def)
  next
    case (Cons a w)
    let ?s0 = "(fst s, w)" and ?rs = "refs (h_cells h ! a)"
    let ?s1 = "fold (mark_push h) ?rs ?s0"
    have am: "a \<in> marked (fst s)" using less.prems(1) Cons by (auto simp: mark_inv_def)
    then have ar: "hreach ext h a" using less.prems(1) by (auto simp: mark_inv_def)
    have i0: "mark_inv ext h ?s0" using less.prems(1) Cons by (auto simp: mark_inv_def)
    note P = mark_pushes_spec [OF i0 hreach_refs [OF h ar]]
    note i1 = P [THEN conjunct1] and m1 = P [THEN conjunct2, THEN conjunct1]
      and w1 = P [THEN conjunct2, THEN conjunct2]
    have lt: "mark_weight ?s1 < mark_weight s"
      using mark_pushes_weight [of ?s0 h ?rs] L Cons by (simp add: mark_weight_def)
    have cl: "closed_but h (marked (fst ?s1)) (set (snd ?s1))"
      unfolding closed_but_def
    proof (intro ballI impI)
      fix b r assume b: "b \<in> marked (fst ?s1) - set (snd ?s1)" and r: "r \<in> set (refs (h_cells h ! b))" "r \<noteq> 0"
      have bm: "b \<in> marked (fst s)" "b \<notin> set w" using b w1 by auto
      show "nat r \<in> marked (fst ?s1)"
      proof (cases "b = a")
        case True
        then show ?thesis using r m1 by auto
      next
        case False
        then have "b \<in> marked (fst s) - set (snd s)" using bm Cons by simp
        then have "nat r \<in> marked (fst s)" using less.prems(2) r unfolding closed_but_def by blast
        then show ?thesis using m1 by simp
      qed
    qed
    have eq: "mark_loop h s = mark_loop h ?s1" using Cons L by (subst mark_loop.simps) simp
    have sub: "marked (fst s) \<subseteq> marked (fst ?s1)" using m1 by auto
    from less.hyps [OF lt i1 cl] sub show ?thesis unfolding eq by blast
  qed
qed

lemma mark_spec:
  assumes h: "hinv [] ext h" and L: "length t = length (h_rc h)"
    and t: "\<And>b. 0 < b \<Longrightarrow> b < length (h_cells h) \<Longrightarrow> t ! b = ext b"
  obtains t' where "mark (h\<lparr>h_trial := t\<rparr>) = h\<lparr>h_trial := t'\<rparr>" "length t' = length (h_rc h)"
    "marked t' = {a. hreach ext h a}"
proof -
  let ?h = "h\<lparr>h_trial := t\<rparr>"
  have refs_same: "hreach ext ?h = hreach ext h"
  proof -
    have "hreach ext ?h a \<Longrightarrow> hreach ext h a" for a
      by (induction rule: hreach.induct) (auto intro: hreach.intros)
    moreover have "hreach ext h a \<Longrightarrow> hreach ext ?h a" for a
      by (induction rule: hreach.induct) (auto intro: hreach.intros)
    ultimately show ?thesis by blast
  qed
  have h': "hinv [] ext ?h" using h unfolding hinv_def by (simp add: in_heap_def)
  note RC = hinvD(1) [OF h]
  let ?f = "\<lambda>a s. if h_rc ?h ! a > 0 \<and> fst s ! a > 0 then mark_push ?h (int a) s else s"
  have roots: "mark_inv ext ?h s \<Longrightarrow> marked (fst s) = set (snd s) \<Longrightarrow> set as \<subseteq> {1..<length (h_cells h)} \<Longrightarrow>
      mark_inv ext ?h (fold ?f as s) \<and> marked (fst (fold ?f as s)) = set (snd (fold ?f as s))
      \<and> marked (fst s) \<subseteq> marked (fst (fold ?f as s)) \<and> {a \<in> set as. 0 < ext a} \<subseteq> marked (fst (fold ?f as s))" for as s
  proof (induction as arbitrary: s)
    case (Cons a as)
    have a: "0 < a" "a < length (h_cells h)" using Cons.prems(3) by auto
    have step: "mark_inv ext ?h (?f a s) \<and> marked (fst (?f a s)) = set (snd (?f a s))
        \<and> marked (fst s) \<subseteq> marked (fst (?f a s)) \<and> (0 < ext a \<longrightarrow> a \<in> marked (fst (?f a s)))"
    proof (cases "h_rc ?h ! a > 0 \<and> fst s ! a > 0")
      case True
      have "fst s ! a = ext a" using Cons.prems(1) a True RC by (simp add: mark_inv_def)
      then have "hreach ext ?h a" using True a by (intro hreach.root) simp_all
      then have q: "0 \<le> int a" "int a < int (length (h_rc ?h))"
        "int a \<noteq> 0 \<longrightarrow> hreach ext ?h (nat (int a)) \<and> 0 < h_rc ?h ! nat (int a)" using a True RC by simp_all
      note P = mark_push_spec [OF Cons.prems(1) q]
      show ?thesis using P Cons.prems(2) True a by auto
    next
      case False
      have "0 < ext a \<Longrightarrow> a \<in> marked (fst s)"
      proof (rule ccontr)
        assume e: "0 < ext a" and n: "a \<notin> marked (fst s)"
        have "a < length (fst s)" using Cons.prems(1) a RC by (simp add: mark_inv_def)
        then have "fst s ! a = ext a" using n a Cons.prems(1) RC by (auto simp: mark_inv_def marked_def)
        moreover have "0 < h_rc ?h ! a" using hreach_live [OF h' hreach.root [of a ?h ext]] a e by simp
        ultimately show False using False e by simp
      qed
      then show ?thesis unfolding if_not_P [OF False] using Cons.prems(1,2) by simp
    qed
    have as: "set as \<subseteq> {1..<length (h_cells h)}" using Cons.prems(3) by simp
    define g where "g = ?f a s"
    define G where "G = fold ?f as g"
    have e: "fold ?f (a # as) s = G" by (simp only: G_def g_def fold_Cons o_apply)
    note st = step [folded g_def]
    note IH = Cons.IH [OF st [THEN conjunct1] st [THEN conjunct2, THEN conjunct1] as, folded G_def]
    show ?case unfolding e
    proof (intro conjI)
      show "marked (fst s) \<subseteq> marked (fst G)" using IH st by blast
      have "0 < ext a \<longrightarrow> a \<in> marked (fst G)" using IH st by blast
      then show "{a' \<in> set (a # as). 0 < ext a'} \<subseteq> marked (fst G)" using IH by auto
    qed (use IH in simp_all)
  qed simp
  let ?s = "fold ?f [1..<length (h_rc h)] (t, [])"
  have m0: "marked t = {}"
  proof -
    have "\<not> t ! x < 0" if "0 < x" "x < length t" for x
      using t [OF that(1)] that(2) hinvD(6) [OF h, of x] L RC by simp
    then show ?thesis by (auto simp: marked_def)
  qed
  have i0: "mark_inv ext ?h (t, [])" using L t m0 RC by (simp add: mark_inv_def)
  have R: "mark_inv ext ?h ?s \<and> marked (fst ?s) = set (snd ?s) \<and> {} \<subseteq> marked (fst ?s)
      \<and> {a \<in> set [1..<length (h_rc h)]. 0 < ext a} \<subseteq> marked (fst ?s)"
    using roots [OF i0, of "[1..<length (h_rc h)]"] m0 RC by auto
  have c0: "closed_but ?h (marked (fst ?s)) (set (snd ?s))" using R by (simp add: closed_but_def)
  note M = mark_loop_spec [OF h' R [THEN conjunct1] c0]
  let ?t = "mark_loop ?h ?s"
  have sub: "marked ?t \<subseteq> {a. hreach ext h a}" using M refs_same by (auto simp: mark_inv_def)
  have sup: "hreach ext h a \<Longrightarrow> a \<in> marked ?t" for a
  proof (induction rule: hreach.induct)
    case (root a)
    then have "a \<in> {a \<in> set [1..<length (h_rc h)]. 0 < ext a}" using RC by simp
    then show ?case using R M by blast
  next
    case (edge a r)
    then show ?case using M [THEN conjunct2, THEN conjunct2] by (simp add: closed_but_def)
  qed
  have "mark ?h = h\<lparr>h_trial := ?t\<rparr>" by (simp add: mark_def Let_def)
  moreover have "length ?t = length (h_rc h)" using M by (simp add: mark_inv_def)
  moreover have "marked ?t = {a. hreach ext h a}" using sub sup by blast
  ultimately show thesis by (rule that)
qed


section \<open>Sweeping\<close>

lemma sweep_refs_spec:
  "length trial = length rc \<Longrightarrow> \<forall>b\<in>marked trial. pending rs b \<le> rc ! b \<Longrightarrow>
   length (fold (sweep_ref trial) rs rc) = length rc
   \<and> (\<forall>b<length rc. fold (sweep_ref trial) rs rc ! b = (if b \<in> marked trial then rc ! b - pending rs b else rc ! b))"
proof (induction rs arbitrary: rc)
  case Nil
  then show ?case by (simp add: rc_simps)
next
  case (Cons r rs)
  show ?case
  proof (cases "0 < r \<and> r < int (length rc) \<and> rc ! nat r > 0 \<and> trial ! nat r < 0")
    case True
    let ?rc = "rc[nat r := rc ! nat r - 1]"
    have s: "sweep_ref trial r rc = ?rc" using True by (simp add: sweep_ref_def)
    have k: "nat r < length rc" "nat r \<in> marked trial" using True Cons.prems(1) by (auto simp: marked_def)
    have ri: "r = int (nat r)" using True by simp
    have v: "?rc ! b = rc ! b - (if r = int b then 1 else 0)" for b
      using k by (subst (2) ri) (auto simp: nth_list_update)
    have p: "\<forall>b\<in>marked trial. pending rs b \<le> ?rc ! b" using Cons.prems(2) by (auto simp: rc_simps v)
    have l: "length trial = length ?rc" using Cons.prems(1) by simp
    have nm: "r \<noteq> int b" if "b \<notin> marked trial" for b using k(2) that ri by (metis of_nat_eq_iff)
    show ?thesis using Cons.IH [OF l p] nm by (auto simp: s v rc_simps)
  next
    case False
    then have s: "sweep_ref trial r rc = rc" by (auto simp: sweep_ref_def)
    have nb: "r \<noteq> int b" if b: "b \<in> marked trial" for b
    proof
      assume r: "r = int b"
      have "pending (r # rs) b \<le> rc ! b" using Cons.prems(2) b by blast
      then have "1 + pending rs b \<le> rc ! b" using r by (simp add: rc_simps)
      then have "1 \<le> rc ! b" using pending_nonneg [of rs b] by linarith
      then show False using False r b Cons.prems(1) by (auto simp: marked_def)
    qed
    have p: "\<forall>b\<in>marked trial. pending rs b \<le> rc ! b" using Cons.prems(2) nb by (auto simp: rc_simps)
    show ?thesis using Cons.IH [OF Cons.prems(1) p] nb by (auto simp: s rc_simps)
  qed
qed

text \<open>The state after the slots below \<open>k\<close> were swept.\<close>

definition swept :: "(nat \<Rightarrow> int) \<Rightarrow> heap \<Rightarrow> nat \<Rightarrow> heap \<Rightarrow> bool" where
  "swept ext h k g \<longleftrightarrow> h_trial g = h_trial h
     \<and> length (h_rc g) = length (h_rc h) \<and> length (h_cells g) = length (h_cells h)
     \<and> (\<forall>b<length (h_cells h). h_cells g ! b =
          (if b < k \<and> 0 < b \<and> b \<notin> marked (h_trial h) then HNil else h_cells h ! b))
     \<and> (\<forall>b\<in>marked (h_trial h). h_rc g ! b = ext b + edges (h_cells g) b)
     \<and> (\<forall>b. 0 < b \<longrightarrow> b < length (h_cells h) \<longrightarrow> b \<notin> marked (h_trial h) \<longrightarrow>
          h_rc g ! b = (if b < k then 0 else h_rc h ! b))
     \<and> h_rc g ! 0 = h_rc h ! 0
     \<and> distinct (h_free g)
     \<and> set (h_free g) = {b. 0 < b \<and> b < length (h_cells h) \<and> b \<notin> marked (h_trial h) \<and> (b < k \<or> h_rc h ! b = 0)}"

lemma marked_range: "length (h_trial h) = length (h_rc h) \<Longrightarrow> length (h_rc h) = length (h_cells h) \<Longrightarrow>
  b \<in> marked (h_trial h) \<Longrightarrow> 0 < b \<and> b < length (h_cells h)"
  by (simp add: marked_def)

lemma sweep1_swept:
  assumes h: "hinv [] ext h" and L: "length (h_trial h) = length (h_rc h)"
    and m: "marked (h_trial h) = {a. hreach ext h a}"
    and k: "0 < k" "k < length (h_cells h)" and g: "swept ext h k g"
  shows "swept ext h (Suc k) (sweep1 k g)"
proof -
  note RC = hinvD(1) [OF h]
  have gt: "h_trial g = h_trial h" and gl: "length (h_rc g) = length (h_rc h)" "length (h_cells g) = length (h_cells h)"
    and gc: "\<And>b. b < length (h_cells h) \<Longrightarrow> h_cells g ! b = (if b < k \<and> 0 < b \<and> b \<notin> marked (h_trial h) then HNil else h_cells h ! b)"
    and gm: "\<And>b. b \<in> marked (h_trial h) \<Longrightarrow> h_rc g ! b = ext b + edges (h_cells g) b"
    and gd: "\<And>b. 0 < b \<Longrightarrow> b < length (h_cells h) \<Longrightarrow> b \<notin> marked (h_trial h) \<Longrightarrow> h_rc g ! b = (if b < k then 0 else h_rc h ! b)"
    and g0: "h_rc g ! 0 = h_rc h ! 0" and gf: "distinct (h_free g)"
      "set (h_free g) = {b. 0 < b \<and> b < length (h_cells h) \<and> b \<notin> marked (h_trial h) \<and> (b < k \<or> h_rc h ! b = 0)}"
    using g by (auto simp: swept_def)
  have mark_iff: "h_trial h ! k < 0 \<longleftrightarrow> k \<in> marked (h_trial h)" using k L RC by (simp add: marked_def)
  show ?thesis
  proof (cases "h_rc g ! k \<le> 0 \<or> h_trial g ! k < 0")
    case True
    then have s: "sweep1 k g = g" by (simp add: sweep1_def)
    have dead: "h_rc h ! k = 0 \<and> h_cells h ! k = HNil" if "k \<notin> marked (h_trial h)"
    proof -
      have "h_rc g ! k \<le> 0" using True that gt mark_iff by auto
      then have "h_rc h ! k = 0" using gd [OF k that] hinv_rc_nonneg [OF h k(2)] by simp
      then show ?thesis using hinvD(10) [OF h k] by simp
    qed
    show ?thesis unfolding s swept_def
    proof (intro conjI allI impI ballI)
      show "h_cells g ! b = (if b < Suc k \<and> 0 < b \<and> b \<notin> marked (h_trial h) then HNil else h_cells h ! b)"
        if "b < length (h_cells h)" for b using gc [OF that] dead by (auto simp: less_Suc_eq)
      show "h_rc g ! b = (if b < Suc k then 0 else h_rc h ! b)"
        if "0 < b" "b < length (h_cells h)" "b \<notin> marked (h_trial h)" for b
        using gd [OF that] dead that by (auto simp: less_Suc_eq)
      show "set (h_free g) = {b. 0 < b \<and> b < length (h_cells h) \<and> b \<notin> marked (h_trial h) \<and> (b < Suc k \<or> h_rc h ! b = 0)}"
        unfolding gf(2) using dead by (auto simp: less_Suc_eq)
    qed (use gt gl gm g0 gf in simp_all)
  next
    case False
    then have km: "k \<notin> marked (h_trial h)" and pos: "0 < h_rc h ! k"
      using mark_iff gt gd [OF k] by auto
    have ck: "h_cells g ! k = h_cells h ! k" using gc [OF k(2)] by simp
    let ?v = "h_cells h ! k" and ?rc = "fold (sweep_ref (h_trial g)) (refs (h_cells h ! k)) (h_rc g)"
    have pend: "\<forall>b\<in>marked (h_trial g). pending (refs ?v) b \<le> h_rc g ! b"
    proof
      fix b assume b: "b \<in> marked (h_trial g)"
      have "pending (refs ?v) b \<le> edges (h_cells g) b" using edges_member [of k "h_cells g" b] ck k gl by simp
      then show "pending (refs ?v) b \<le> h_rc g ! b" using gm b gt hinvD(6) [OF h, of b] by simp
    qed
    have tl: "length (h_trial g) = length (h_rc g)" using L gt gl by simp
    note S = sweep_refs_spec [OF tl pend]
    have rcl: "length ?rc = length (h_rc g)" using S by blast
    have rcv: "?rc ! b = (if b \<in> marked (h_trial h) then h_rc g ! b - pending (refs ?v) b else h_rc g ! b)"
      if "b < length (h_cells h)" for b using S that gl RC gt by simp
    let ?g = "sweep1 k g"
    have s: "?g = reclaim k ?v (g\<lparr>h_rc := ?rc[k := 0]\<rparr>)"
      using False by (simp add: sweep1_def Let_def ck)
    have rc: "h_rc ?g ! b = (if b = k then 0 else ?rc ! b)" if "b < length (h_cells h)" for b
      using that rcl gl RC s by (auto simp: nth_list_update)
    have ed: "edges (h_cells ?g) b = edges (h_cells g) b - pending (refs ?v) b" for b
      using edges_update [of k "h_cells g" HNil b] ck k gl s by (simp add: rc_simps)
    show ?thesis unfolding swept_def
    proof (intro conjI allI impI ballI)
      show "h_trial ?g = h_trial h" "length (h_rc ?g) = length (h_rc h)" "length (h_cells ?g) = length (h_cells h)"
        using s gt gl rcl by simp_all
      show "h_cells ?g ! b = (if b < Suc k \<and> 0 < b \<and> b \<notin> marked (h_trial h) then HNil else h_cells h ! b)"
        if "b < length (h_cells h)" for b
        using gc [OF that] s that gl km k by (auto simp: nth_list_update less_Suc_eq)
      show "h_rc ?g ! b = ext b + edges (h_cells ?g) b" if b: "b \<in> marked (h_trial h)" for b
      proof -
        have "b < length (h_cells h)" using marked_range [OF L RC b] by simp
        then show ?thesis using rc [of b] rcv [of b] gm [OF b] b km ed [of b] by (auto split: if_splits)
      qed
      show "h_rc ?g ! b = (if b < Suc k then 0 else h_rc h ! b)"
        if "0 < b" "b < length (h_cells h)" "b \<notin> marked (h_trial h)" for b
        using rc [OF that(2)] rcv [OF that(2)] gd [OF that] that by (auto simp: less_Suc_eq)
      have "0 \<notin> marked (h_trial h)" by (simp add: marked_def)
      moreover have "0 < length (h_cells h)" using k by linarith
      ultimately show "h_rc ?g ! 0 = h_rc h ! 0" using rc [of 0] rcv [of 0] k(1) g0 by simp
      have kf: "k \<notin> set (h_free g)" unfolding gf(2) using pos by simp
      show "distinct (h_free ?g)" using gf(1) kf s by simp
      show "set (h_free ?g) = {b. 0 < b \<and> b < length (h_cells h) \<and> b \<notin> marked (h_trial h) \<and> (b < Suc k \<or> h_rc h ! b = 0)}"
        using gf(2) s km k by (auto simp: less_Suc_eq)
    qed
  qed
qed


lemma edges_zero: "\<forall>v\<in>set cells. int b \<notin> set (refs v) \<Longrightarrow> edges cells b = 0"
  by (induction cells) (auto simp: edges_def)

lemma edges_cleared:
  "length cs = length ds \<Longrightarrow> \<forall>k<length cs. cs ! k = HNil \<or> cs ! k = ds ! k \<Longrightarrow> edges cs b \<le> edges ds b"
proof (induction cs ds rule: list_induct2)
  case (Cons c cs d ds)
  have "\<forall>k<length cs. cs ! k = HNil \<or> cs ! k = ds ! k" using Cons.prems by (metis Suc_less_eq length_Cons nth_Cons_Suc)
  then have "edges cs b \<le> edges ds b" by (rule Cons.IH)
  moreover have "c = HNil \<or> c = d" using Cons.prems by fastforce
  ultimately show ?case by (auto simp: edges_def)
qed simp

lemma sweep_swept:
  assumes h: "hinv [] ext h" and L: "length (h_trial h) = length (h_rc h)"
    and m: "marked (h_trial h) = {a. hreach ext h a}"
  shows "swept ext h (length (h_cells h)) (sweep h)"
proof -
  let ?n = "length (h_cells h)"
  note RC = hinvD(1) [OF h]
  have s1: "swept ext h 1 h"
    unfolding swept_def
  proof (intro conjI allI impI ballI)
    show "h_rc h ! b = ext b + edges (h_cells h) b" if "b \<in> marked (h_trial h)" for b
      using hinvD(9) [OF h] marked_range [OF L RC that] by (simp add: rc_simps)
    have "b \<notin> marked (h_trial h)" if "h_rc h ! b = 0" for b
      using hreach_live [OF h, of b] that m by auto
    then show "set (h_free h) = {b. 0 < b \<and> b < ?n \<and> b \<notin> marked (h_trial h) \<and> (b < 1 \<or> h_rc h ! b = 0)}"
      using hinvD(12) [OF h] by auto
  qed (use hinvD(11) [OF h] in auto)
  have step: "swept ext h k g \<Longrightarrow> 0 < k \<Longrightarrow> k \<le> ?n \<Longrightarrow> swept ext h ?n (fold sweep1 [k..<?n] g)" for k g
  proof (induction "?n - k" arbitrary: k g)
    case 0
    then show ?case by simp
  next
    case (Suc d)
    then have k: "k < ?n" by simp
    have "[k..<?n] = k # [Suc k..<?n]" using k by (simp add: upt_conv_Cons)
    moreover have "swept ext h ?n (fold sweep1 [Suc k..<?n] (sweep1 k g))"
      by (rule Suc.hyps(1)) (use Suc k sweep1_swept [OF h L m _ k] in simp_all)
    ultimately show ?case by simp
  qed
  show ?thesis unfolding sweep_def by (rule step [OF s1]) (use hinvD(2) [OF h] in linarith)+
qed

lemma pace_simps [simp]:
  "h_cells (pace h) = h_cells h" "h_rc (pace h) = h_rc h" "h_free (pace h) = h_free h"
  by (simp_all add: pace_def Let_def)

lemma hinv_pace: "hinv w ext h \<Longrightarrow> hinv w ext (pace h)"
  by (simp add: hinv_def in_heap_def)

lemma swept_inv:
  assumes h: "hinv [] ext h" and L: "length (h_trial h) = length (h_rc h)"
    and m: "marked (h_trial h) = {a. hreach ext h a}" and g: "swept ext h (length (h_cells h)) g"
  shows "hinv [] ext g" "\<And>a. 0 < a \<Longrightarrow> a < length (h_cells h) \<Longrightarrow> 0 < h_rc g ! a \<longleftrightarrow> hreach ext h a"
proof -
  let ?n = "length (h_cells h)"
  note RC = hinvD(1) [OF h]
  have gl: "length (h_rc g) = length (h_rc h)" "length (h_cells g) = ?n"
    and gc: "\<And>b. b < ?n \<Longrightarrow> h_cells g ! b = (if 0 < b \<and> \<not> hreach ext h b then HNil else h_cells h ! b)"
    and gm: "\<And>b. hreach ext h b \<Longrightarrow> h_rc g ! b = ext b + edges (h_cells g) b"
    and gd: "\<And>b. 0 < b \<Longrightarrow> b < ?n \<Longrightarrow> \<not> hreach ext h b \<Longrightarrow> h_rc g ! b = 0"
    and g0: "h_rc g ! 0 = h_rc h ! 0" and gf: "distinct (h_free g)"
      "set (h_free g) = {b. 0 < b \<and> b < ?n \<and> \<not> hreach ext h b}"
    using g m by (auto simp: swept_def)
  have refs_reach: "hreach ext h b" if "a < ?n" "int b \<in> set (refs (h_cells g ! a))" "0 < b" for a b
  proof -
    have "a \<noteq> 0"
    proof
      assume "a = 0"
      moreover have "h_cells g ! 0 = h_cells h ! 0" using gc [of 0] hinvD(2) [OF h] by simp
      ultimately show False using that(2) hinvD(3) [OF h] by simp
    qed
    then have "hreach ext h a \<and> int b \<in> set (refs (h_cells h ! a))" using gc [OF that(1)] that(2) by (auto split: if_splits)
    then show ?thesis using hreach.edge [of ext h a "int b"] that(3) by simp
  qed
  have pos: "0 < h_rc g ! b" if r: "hreach ext h b" for b
    using r
  proof cases
    case root
    then show ?thesis using gm [OF r] edges_nonneg [of "h_cells g" b] by linarith
  next
    case (edge a r')
    then have a: "a < ?n" "0 < a" using hreach_live [OF h] by blast+
    have "r' \<in> set (refs (h_cells g ! a))" using gc [OF a(1)] edge by simp
    then have "1 \<le> edges (h_cells g) b" using edges_pos [of a "h_cells g" r'] a gl edge by simp
    then show ?thesis using gm [OF r] hinvD(6) [OF h, of b] by linarith
  qed
  show iff: "0 < h_rc g ! a \<longleftrightarrow> hreach ext h a" if "0 < a" "a < ?n" for a
    using pos gd [OF that] by force
  have ez: "edges (h_cells g) b = 0" if "0 < b" "\<not> hreach ext h b" for b
    using edges_zero [of "h_cells g" b] refs_reach that gl by (metis in_set_conv_nth)
  show "hinv [] ext g"
    unfolding hinv_def
  proof (intro conjI allI impI ballI)
    show "length (h_rc g) = length (h_cells g)" "0 < length (h_cells g)" using gl RC hinvD(2) [OF h] by simp_all
    show "h_cells g ! 0 = HNull" using gc [of 0] hinvD(2,15) [OF h] by simp
    show "cell_ok v" if "v \<in> set (h_cells g)" for v
    proof -
      from that obtain b where "b < ?n" "v = h_cells g ! b" using gl by (auto simp: in_set_conv_nth)
      then have "v = HNil \<or> v \<in> set (h_cells h)" using gc [of b] by auto
      then show ?thesis using hinvD(14) [OF h] by auto
    qed
    show "in_heap g (refs v)" if "v \<in> set (h_cells g)" for v
    proof -
      from that obtain b where "b < ?n" "v = h_cells g ! b" using gl by (auto simp: in_set_conv_nth)
      then have "v = HNil \<or> v \<in> set (h_cells h)" using gc [of b] by auto
      then show ?thesis using hinvD(4) [OF h] gl by (auto simp: in_heap_def)
    qed
    show "in_heap g []" by (simp add: in_heap_def)
    show "0 \<le> ext a" "1 \<le> ext 0" for a using hinvD(6,7) [OF h] by simp_all
    show "ext a = 0" if "length (h_cells g) \<le> a" for a using hinvD(13) [OF h] that gl by simp
    have "edges (h_cells g) 0 \<le> edges (h_cells h) 0"
      by (rule edges_cleared) (use gl gc in auto)
    then show "ext 0 + edges (h_cells g) 0 + pending [] 0 \<le> h_rc g ! 0" using hinvD(8) [OF h] g0 by linarith
    show "h_rc g ! a = ext a + edges (h_cells g) a + pending [] a" if a: "0 < a" "a < length (h_cells g)" for a
    proof (cases "hreach ext h a")
      case True
      then show ?thesis using gm by (simp add: rc_simps)
    next
      case False
      then have "ext a = 0" using hreach.root [of a h ext] a gl hinvD(6) [OF h, of a] by fastforce
      then show ?thesis using gd [OF a(1) _ False] ez [OF a(1) False] a gl by (simp add: rc_simps)
    qed
    show "h_cells g ! a = HNil" if "0 < a" "a < length (h_cells g)" "h_rc g ! a = 0" for a
      using that gc [of a] pos [of a] gl by auto
    show "distinct (h_free g)" by (rule gf(1))
    show "set (h_free g) = {a. 0 < a \<and> a < length (h_cells g) \<and> h_rc g ! a = 0}"
      unfolding gf(2) using pos gd gl by force
  qed
qed

lemma gc_exact_lemma:
  assumes h: "hinv [] ext h"
  shows "\<exists>h'. gc h = Inr h' \<and> hinv [] ext h' \<and> length (h_cells h') = length (h_cells h)
    \<and> (\<forall>a. 0 < a \<longrightarrow> a < length (h_cells h) \<longrightarrow>
         (0 < h_rc h' ! a \<longleftrightarrow> hreach ext h a) \<and> (hreach ext h a \<longrightarrow> h_cells h' ! a = h_cells h ! a))"
proof -
  from scan_spec [OF h] obtain t where t: "scan h = Inr (h\<lparr>h_trial := t\<rparr>)" "length t = length (h_rc h)"
    "\<And>b. 0 < b \<Longrightarrow> b < length (h_cells h) \<Longrightarrow> t ! b = ext b" by blast
  from mark_spec [OF h t(2,3)] obtain t' where t': "mark (h\<lparr>h_trial := t\<rparr>) = h\<lparr>h_trial := t'\<rparr>"
    "length t' = length (h_rc h)" "marked t' = {a. hreach ext h a}" by blast
  let ?h = "h\<lparr>h_trial := t'\<rparr>"
  have h': "hinv [] ext ?h" using h unfolding hinv_def by (simp add: in_heap_def)
  have same: "hreach ext ?h = hreach ext h"
  proof -
    have "hreach ext ?h a \<Longrightarrow> hreach ext h a" for a by (induction rule: hreach.induct) (auto intro: hreach.intros)
    moreover have "hreach ext h a \<Longrightarrow> hreach ext ?h a" for a by (induction rule: hreach.induct) (auto intro: hreach.intros)
    ultimately show ?thesis by blast
  qed
  have L: "length (h_trial ?h) = length (h_rc ?h)" and m: "marked (h_trial ?h) = {a. hreach ext ?h a}"
    using t' same by simp_all
  note S = sweep_swept [OF h' L m]
  note I = swept_inv [OF h' L m S]
  have eq: "gc h = Inr (pace (sweep ?h))" using t(1) t'(1) by (simp add: gc_def)
  show ?thesis
  proof (intro exI conjI allI impI)
    show "gc h = Inr (pace (sweep ?h))" by (rule eq)
    show "hinv [] ext (pace (sweep ?h))" by (rule hinv_pace [OF I(1)])
    show "length (h_cells (pace (sweep ?h))) = length (h_cells h)" using S by (simp add: swept_def)
    fix a assume a: "0 < a" "a < length (h_cells h)"
    show "0 < h_rc (pace (sweep ?h)) ! a \<longleftrightarrow> hreach ext h a" using I(2) [of a] a same by simp
    assume "hreach ext h a"
    then show "h_cells (pace (sweep ?h)) ! a = h_cells h ! a" using S a m same by (simp add: swept_def)
  qed
qed

text \<open>C2: The collector.  On a heap with exact counts a collection never fails; afterwards a slot is live
  exactly when some external reference reaches it, so unreachable cycles are gone and nothing
  reachable is; every live slot still holds its value, and the counts are exact again.\<close>

theorem gc_exact:
  assumes h: "hinv [] ext h"
  shows "\<exists>h'. gc h = Inr h' \<and> hinv [] ext h' \<and> length (h_cells h') = length (h_cells h)
    \<and> (\<forall>a. 0 < a \<longrightarrow> a < length (h_cells h) \<longrightarrow>
         (0 < h_rc h' ! a \<longleftrightarrow> hreach ext h a) \<and> (hreach ext h a \<longrightarrow> h_cells h' ! a = h_cells h ! a))"
  by (rule gc_exact_lemma [OF h])

theorem gc_exact_witness:
  "\<exists>h'. gc sample_heap = Inr h' \<and> hinv [] sample_ext h' \<and> h_cells h' ! 3 = HString ''s'' \<and> h_rc h' ! 3 > 0"
proof -
  have l: "length (h_cells sample_heap) = 5" and c: "h_cells sample_heap ! 3 = HString ''s''"
    by (simp_all add: sample_heap_def)
  have "hreach sample_ext sample_heap 3" by (rule hreach.intros(1)) (simp_all add: l sample_ext_def)
  then show ?thesis using gc_exact [OF sample_hinv] l c by auto
qed

end
