(* ===== verification/HeapAlloc.thy ===== *)
theory HeapAlloc
  imports HeapGc
begin

text \<open>
  Allocation and retention keep the heap exact, and the contract the rest of the interpreter relies
  on: a store with counted references, stated once as a locale and discharged by this heap.
\<close>

section \<open>Placing a value\<close>

text \<open>The external counts after a value whose references the caller owned was put into slot \<open>a\<close>.\<close>

definition moved :: "(nat \<Rightarrow> int) \<Rightarrow> hval \<Rightarrow> nat \<Rightarrow> nat \<Rightarrow> int" where
  "moved ext v a = (\<lambda>b. ext b - pending (refs v) b + (if b = a then 1 else 0))"

definition owns_refs :: "(nat \<Rightarrow> int) \<Rightarrow> heap \<Rightarrow> hval \<Rightarrow> bool" where
  "owns_refs ext h v \<longleftrightarrow> cell_ok v \<and> in_heap h (refs v) \<and> (\<forall>b. pending (refs v) b \<le> ext b) \<and> pending (refs v) 0 < ext 0"

lemma moved_ext:
  assumes "hinv [] ext h" "owns_refs ext h v" "0 < a"
  shows "0 \<le> moved ext v a b" "1 \<le> moved ext v a 0"
  using assms(2,3) by (auto simp: moved_def owns_refs_def)

lemma moved_out:
  assumes "hinv [] ext h" "owns_refs ext h v" "length (h_cells h) \<le> b" "b \<noteq> a"
  shows "moved ext v a b = 0"
proof -
  have "int b \<notin> set (refs v)" using assms(2,3) by (auto simp: owns_refs_def in_heap_def)
  then show ?thesis using hinvD(13) [OF assms(1,3)] assms(4) by (simp add: moved_def pending_zero)
qed

lemma hinv_reuse:
  assumes h: "hinv [] ext h" and o: "owns_refs ext h v" and r: "reuse v h = Some (a, h')"
  shows "hinv [] (moved ext v a) h'" "0 < a" "a < length (h_cells h)" "h_cells h' = (h_cells h)[a := v]"
    "h_rc h ! a = 0"
proof -
  from r obtain fr where fr: "h_free h = a # fr"
    and h'eq: "h' = h\<lparr>h_free := fr, h_cells := (h_cells h)[a := v], h_rc := (h_rc h)[a := 1]\<rparr>"
    by (auto simp: reuse_def split: list.splits)
  have "a \<in> set (h_free h)" using fr by simp
  then have a: "0 < a" "a < length (h_cells h)" "h_rc h ! a = 0" using hinvD(12) [OF h] by auto
  then show "0 < a" "a < length (h_cells h)" "h_rc h ! a = 0" by simp_all
  show c: "h_cells h' = (h_cells h)[a := v]" using h'eq by simp
  have nil: "h_cells h ! a = HNil" using hinvD(10) [OF h a] .
  have e: "edges (h_cells h') b = edges (h_cells h) b + pending (refs v) b" for b
    using edges_update [OF a(2), of v b] nil c by (simp add: rc_simps)
  have rc: "h_rc h' ! b = (if b = a then 1 else h_rc h ! b)" if "b < length (h_cells h)" for b
    using that a hinvD(1) [OF h] h'eq by (simp add: nth_list_update)
  have z: "ext a = 0" "edges (h_cells h) a = 0"
    using hinvD(9) [OF h a(1,2)] a(3) hinvD(6) [OF h, of a] edges_nonneg [of "h_cells h" a]
      pending_simps(1) [of a] by linarith+
  have pz: "pending (refs v) a = 0" using o z(1) pending_nonneg [of "refs v" a] by (metis order_antisym owns_refs_def)
  have lc: "length (h_cells h') = length (h_cells h)" using c by simp
  show "hinv [] (moved ext v a) h'"
    unfolding hinv_def
  proof (intro conjI allI impI ballI)
    show "length (h_rc h') = length (h_cells h')" "0 < length (h_cells h')" using h'eq hinvD(1,2) [OF h] by simp_all
    show "h_cells h' ! 0 = HNull" using c a hinvD(15) [OF h] by simp
    show "cell_ok u" if "u \<in> set (h_cells h')" for u
    proof -
      from that have "u = v \<or> u \<in> set (h_cells h)" unfolding c by (auto dest: set_update_subset_insert [THEN subsetD])
      then show ?thesis using hinvD(14) [OF h] o by (auto simp: owns_refs_def)
    qed
    show "in_heap h' (refs u)" if "u \<in> set (h_cells h')" for u
    proof -
      from that have "u = v \<or> u \<in> set (h_cells h)" unfolding c by (auto dest: set_update_subset_insert [THEN subsetD])
      then show ?thesis using hinvD(4) [OF h] o lc by (auto simp: in_heap_def owns_refs_def)
    qed
    show "in_heap h' []" by (simp add: in_heap_def)
    show "0 \<le> moved ext v a b" "1 \<le> moved ext v a 0" for b using moved_ext [OF h o a(1)] by simp_all
    show "moved ext v a b = 0" if "length (h_cells h') \<le> b" for b
      using moved_out [OF h o] that lc a(2) by simp
    show "moved ext v a 0 + edges (h_cells h') 0 + pending [] 0 \<le> h_rc h' ! 0"
      using hinvD(8) [OF h] e [of 0] rc [of 0] hinvD(2) [OF h] a by (simp add: moved_def)
    show "h_rc h' ! b = moved ext v a b + edges (h_cells h') b + pending [] b"
      if "0 < b" "b < length (h_cells h')" for b
    proof -
      have bl: "b < length (h_cells h)" using that(2) lc by simp
      show ?thesis using hinvD(9) [OF h that(1) bl] e [of b] rc [OF bl] z pz
        by (cases "b = a") (simp_all add: moved_def rc_simps)
    qed
    show "h_cells h' ! b = HNil" if "0 < b" "b < length (h_cells h')" "h_rc h' ! b = 0" for b
    proof -
      have bl: "b < length (h_cells h)" using that(2) lc by simp
      then have "b \<noteq> a" "h_rc h ! b = 0" using rc [OF bl] that(3) by (auto split: if_splits)
      then show ?thesis using hinvD(10) [OF h that(1) bl] c by simp
    qed
    show "distinct (h_free h')" using hinvD(11) [OF h] fr h'eq by simp
    have "set fr = set (h_free h) - {a}" using fr hinvD(11) [OF h] by auto
    then show "set (h_free h') = {b. 0 < b \<and> b < length (h_cells h') \<and> h_rc h' ! b = 0}"
    proof -
      have f: "h_free h' = fr" using h'eq by simp
      show ?thesis unfolding f \<open>set fr = _\<close> hinvD(12) [OF h] lc using rc by (auto split: if_splits)
    qed
  qed
qed

lemma hinv_grow:
  assumes h: "hinv [] ext h" and o: "owns_refs ext h v" and g: "grow v h = Inr (a, h')"
  shows "hinv [] (moved ext v a) h'" "a = length (h_cells h)" "h_cells h' = h_cells h @ [v]"
proof -
  from g have aeq: "a = length (h_cells h)" and c: "h_cells h' = h_cells h @ [v]"
    and r: "h_rc h' = h_rc h @ [1]" and f: "h_free h' = h_free h"
    by (auto simp: grow_def Let_def split: if_splits)
  then show "a = length (h_cells h)" "h_cells h' = h_cells h @ [v]" by simp_all
  have a0: "0 < a" using aeq hinvD(2) [OF h] by simp
  have e: "edges (h_cells h') b = edges (h_cells h) b + pending (refs v) b" for b by (simp add: c rc_simps)
  have rc: "h_rc h' ! b = (if b = a then 1 else h_rc h ! b)" if "b \<le> a" for b
    using that r aeq hinvD(1) [OF h] by (auto simp: nth_append)
  have noref: "int a \<notin> set (refs u)" if "u \<in> set (h_cells h)" for u
    using hinvD(4) [OF h that] aeq by (auto simp: in_heap_def)
  have z: "edges (h_cells h) a = 0" by (rule edges_zero) (use noref in blast)
  have pz: "pending (refs v) a = 0" using o aeq by (intro pending_zero) (auto simp: owns_refs_def in_heap_def)
  have lc: "length (h_cells h') = Suc a" using c aeq by simp
  have za: "ext a = 0" using hinvD(13) [OF h, of a] aeq by simp
  show "hinv [] (moved ext v a) h'"
    unfolding hinv_def
  proof (intro conjI allI impI ballI)
    show "length (h_rc h') = length (h_cells h')" "0 < length (h_cells h')" using r c hinvD(1) [OF h] by simp_all
    show "h_cells h' ! 0 = HNull" using c a0 aeq hinvD(15) [OF h] by (simp add: nth_append)
    show "cell_ok u" if "u \<in> set (h_cells h')" for u
      using that hinvD(14) [OF h] o unfolding c by (auto simp: owns_refs_def)
    show "in_heap h' (refs u)" if "u \<in> set (h_cells h')" for u
    proof -
      from that have "u = v \<or> u \<in> set (h_cells h)" unfolding c by auto
      then show ?thesis using hinvD(4) [OF h] o lc aeq by (force simp: in_heap_def owns_refs_def)
    qed
    show "in_heap h' []" by (simp add: in_heap_def)
    show "0 \<le> moved ext v a b" "1 \<le> moved ext v a 0" for b using moved_ext [OF h o a0] by simp_all
    show "moved ext v a b = 0" if "length (h_cells h') \<le> b" for b
      using moved_out [OF h o] that lc aeq by simp
    show "moved ext v a 0 + edges (h_cells h') 0 + pending [] 0 \<le> h_rc h' ! 0"
      using hinvD(8) [OF h] e [of 0] rc [of 0] a0 by (simp add: moved_def)
    show "h_rc h' ! b = moved ext v a b + edges (h_cells h') b + pending [] b"
      if b: "0 < b" "b < length (h_cells h')" for b
    proof (cases "b = a")
      case True
      then show ?thesis using rc [of b] e [of b] z za pz by (simp add: moved_def rc_simps)
    next
      case False
      then show ?thesis using rc [of b] e [of b] hinvD(9) [OF h b(1)] b lc aeq by (simp add: moved_def rc_simps)
    qed
    show "h_cells h' ! b = HNil" if "0 < b" "b < length (h_cells h')" "h_rc h' ! b = 0" for b
    proof -
      have "b \<noteq> a" "b < length (h_cells h)" "h_rc h ! b = 0" using rc [of b] that lc aeq by (auto split: if_splits)
      then show ?thesis using hinvD(10) [OF h that(1)] c by (simp add: nth_append)
    qed
    show "distinct (h_free h')" using hinvD(11) [OF h] f by simp
    show "set (h_free h') = {b. 0 < b \<and> b < length (h_cells h') \<and> h_rc h' ! b = 0}"
      unfolding f hinvD(12) [OF h] using rc lc aeq by (auto split: if_splits)
  qed
qed

text \<open>
  What an operation leaves reachable: every slot an external reference reached is still live with the
  value it had.
\<close>

definition preserves :: "(nat \<Rightarrow> int) \<Rightarrow> heap \<Rightarrow> heap \<Rightarrow> bool" where
  "preserves ext h h' \<longleftrightarrow> length (h_cells h) \<le> length (h_cells h') \<and>
     (\<forall>b. hreach ext h b \<longrightarrow> 0 < h_rc h' ! b \<and> h_cells h' ! b = h_cells h ! b)"

lemma preserves_gc:
  assumes h: "hinv [] ext h" and g: "gc h = Inr h1"
  shows "hinv [] ext h1" "preserves ext h h1" "length (h_cells h1) = length (h_cells h)"
    "\<And>b. hreach ext h b \<Longrightarrow> hreach ext h1 b"
proof -
  from gc_exact_lemma [OF h] g have G: "hinv [] ext h1" "length (h_cells h1) = length (h_cells h)"
    "\<And>a. 0 < a \<Longrightarrow> a < length (h_cells h) \<Longrightarrow> (0 < h_rc h1 ! a \<longleftrightarrow> hreach ext h a)"
    "\<And>a. 0 < a \<Longrightarrow> a < length (h_cells h) \<Longrightarrow> hreach ext h a \<Longrightarrow> h_cells h1 ! a = h_cells h ! a" by auto
  then show "hinv [] ext h1" "length (h_cells h1) = length (h_cells h)" by simp_all
  show "preserves ext h h1" using G hreach_live [OF h] by (auto simp: preserves_def)
  show "hreach ext h1 b" if "hreach ext h b" for b
    using that
  proof (induction rule: hreach.induct)
    case (root a)
    then show ?case using G(2) by (intro hreach.root) simp_all
  next
    case (edge a r)
    have "h_cells h1 ! a = h_cells h ! a" using G(4) hreach_live [OF h edge.hyps(1)] edge.hyps(1) by simp
    then have "r \<in> set (refs (h_cells h1 ! a))" using edge.hyps(2) by simp
    then show ?case using hreach.edge [OF edge.IH] edge.hyps(3) by simp
  qed
qed


lemma preserves_refl: "hinv [] ext h \<Longrightarrow> preserves ext h h"
  using hreach_live by (auto simp: preserves_def)

lemma preserves_trans:
  "preserves ext h h1 \<Longrightarrow> (\<And>b. hreach ext h b \<Longrightarrow> hreach ext h1 b) \<Longrightarrow> preserves ext h1 h2 \<Longrightarrow> preserves ext h h2"
  by (auto simp: preserves_def)

text \<open>Where a value was placed: exact counts, the value in its slot, the reachable slots untouched.\<close>

definition placed :: "(nat \<Rightarrow> int) \<Rightarrow> heap \<Rightarrow> hval \<Rightarrow> nat \<times> heap \<Rightarrow> bool" where
  "placed ext h v r \<longleftrightarrow> (case r of (a, h') \<Rightarrow> hinv [] (moved ext v a) h' \<and> 0 < a \<and> a < length (h_cells h') \<and> a \<le> length (h_cells h)
     \<and> h_cells h' ! a = v \<and> \<not> hreach ext h a \<and> preserves ext h h')"

lemma hinv_track [simp]: "hinv w ext (track v h) \<longleftrightarrow> hinv w ext h"
  by (simp add: hinv_def in_heap_def)

lemma placed_track: "placed ext h v (a, h') \<Longrightarrow> placed ext h v (a, track u h')"
  by (simp add: placed_def preserves_def)

lemma reuse_placed:
  assumes h: "hinv [] ext h" and o: "owns_refs ext h v" and r: "reuse v h = Some (a, h')"
  shows "placed ext h v (a, h')"
proof -
  note R = hinv_reuse [OF h o r]
  have na: "\<not> hreach ext h a" using hreach_live [OF h] R(5) by fastforce
  have "preserves ext h h'"
    unfolding preserves_def
  proof (intro conjI allI impI)
    show "length (h_cells h) \<le> length (h_cells h')" using R(4) by simp
    fix b assume b: "hreach ext h b"
    then have n: "b \<noteq> a" "b < length (h_cells h)" "0 < h_rc h ! b" using na hreach_live [OF h b] by auto
    show "h_cells h' ! b = h_cells h ! b" using n R(4) by simp
    have "h_rc h' = (h_rc h)[a := 1]" using r by (auto simp: reuse_def split: list.splits)
    then show "0 < h_rc h' ! b" using n by simp
  qed
  with R na show ?thesis by (simp add: placed_def)
qed

lemma grow_placed:
  assumes h: "hinv [] ext h" and o: "owns_refs ext h v" and g: "grow v h = Inr (a, h')"
  shows "placed ext h v (a, h')"
proof -
  note R = hinv_grow [OF h o g]
  have r: "h_rc h' = h_rc h @ [1]" using g by (auto simp: grow_def Let_def split: if_splits)
  have "preserves ext h h'"
    unfolding preserves_def
  proof (intro conjI allI impI)
    show "length (h_cells h) \<le> length (h_cells h')" using R(3) by simp
    fix b assume b: "hreach ext h b"
    then have n: "b < length (h_cells h)" "0 < h_rc h ! b" using hreach_live [OF h b] by auto
    then show "h_cells h' ! b = h_cells h ! b" "0 < h_rc h' ! b"
      using R(3) r hinvD(1) [OF h] by (simp_all add: nth_append)
  qed
  moreover have "\<not> hreach ext h a" using hreach_live [OF h] R(2) by fastforce
  ultimately show ?thesis using R hinvD(2) [OF h] by (simp add: placed_def)
qed

lemma placed_gc:
  assumes h: "hinv [] ext h" and g: "gc h = Inr h1" and p: "placed ext h1 v (a, h')"
  shows "placed ext h v (a, h')"
  using p preserves_gc [OF h g] preserves_trans [of ext h h1 h'] by (auto simp: placed_def)

lemma owns_gc: "hinv [] ext h \<Longrightarrow> gc h = Inr h1 \<Longrightarrow> owns_refs ext h v \<Longrightarrow> owns_refs ext h1 v"
  using preserves_gc(3) by (simp add: owns_refs_def in_heap_def)

lemma grow_outcome: "grow v h = Inl t \<Longrightarrow> t = THeapExhausted \<and> 0 < h_limit h \<and> h_limit h \<le> int (length (h_cells h))"
  by (auto simp: grow_def Let_def split: if_splits)

lemma finish_placed:
  assumes h: "hinv [] ext h" and o: "owns_refs ext h v"
  shows "(case reuse v h of Some (a, h4) \<Rightarrow> Inr (a, track v h4) | None \<Rightarrow> grow v h) = r \<Longrightarrow>
    r = Inl THeapExhausted \<and> 0 < h_limit h \<and> h_limit h \<le> int (length (h_cells h)) \<and> h_free h = []
    \<or> (\<exists>a h'. r = Inr (a, h') \<and> placed ext h v (a, h'))"
proof (cases "reuse v h")
  case None
  then have f: "h_free h = []" by (auto simp: reuse_def split: list.splits)
  assume "(case reuse v h of Some (a, h4) \<Rightarrow> Inr (a, track v h4) | None \<Rightarrow> grow v h) = r"
  then have "grow v h = r" using None by simp
  then show ?thesis using f grow_outcome [of v h] grow_placed [OF h o] by (cases r) auto
next
  case (Some x)
  obtain a h4 where x: "x = (a, h4)" by force
  assume "(case reuse v h of Some (a, h4) \<Rightarrow> Inr (a, track v h4) | None \<Rightarrow> grow v h) = r"
  then show ?thesis using Some x placed_track [OF reuse_placed [OF h o]] by auto
qed

lemma gc_limit: "gc h = Inr h1 \<Longrightarrow> h_limit h1 = h_limit h"
proof -
  have s: "h_limit (sweep1 a g) = h_limit g" for a g by (simp add: sweep1_def Let_def)
  have f: "h_limit (fold sweep1 as g) = h_limit g" for as g by (induction as arbitrary: g) (simp_all add: s)
  have p: "h_limit (pace (sweep (mark g))) = h_limit g" for g
    by (simp add: pace_def sweep_def f mark_def Let_def)
  assume "gc h = Inr h1"
  then obtain t where "h1 = pace (sweep (mark (h\<lparr>h_trial := t\<rparr>)))"
    by (auto simp: gc_def scan_def tbind_Inr simp del: list_ex_iff split: if_splits)
  then show ?thesis using p by simp
qed

lemma alloc_exact_lemma:
  assumes "hinv [] ext h" and "owns_refs ext h v"
  shows "alloc v h = Inl THeapExhausted \<and> 0 < h_limit h \<and> h_limit h \<le> int (length (h_cells h))
      \<and> (\<exists>h1. gc h = Inr h1 \<and> h_free h1 = [])
    \<or> (\<exists>a h'. alloc v h = Inr (a, h') \<and> placed ext h v (a, h'))"
proof -
  let ?P = "\<lambda>r. r = Inl THeapExhausted \<and> 0 < h_limit h \<and> h_limit h \<le> int (length (h_cells h))
      \<and> (\<exists>h1. gc h = Inr h1 \<and> h_free h1 = [])
    \<or> (\<exists>a h'. r = Inr (a, h') \<and> placed ext h v (a, h'))"
  have after: "?P (case reuse v h1 of Some (a, h4) \<Rightarrow> Inr (a, track v h4) | None \<Rightarrow> grow v h1)"
    if g: "gc h = Inr h1" for h1
    using finish_placed [OF preserves_gc(1) [OF assms(1) g] owns_gc [OF assms(1) g assms(2)] refl]
      placed_gc [OF assms(1) g] gc_limit [OF g] preserves_gc(3) [OF assms(1) g] g by auto
  obtain h1 where g: "gc h = Inr h1" using gc_exact_lemma [OF assms(1)] by blast
  define c where "c = (h_target h > 0 \<and> int (length (h_cells h)) - int (length (h_free h)) \<ge> h_target h)"
  have "?P (alloc v h)"
  proof (cases c)
    case True
    then have "alloc v h = (case reuse v h1 of Some (a, h4) \<Rightarrow> Inr (a, track v h4) | None \<Rightarrow> grow v h1)"
      using g by (simp add: alloc_def c_def [symmetric] Let_def split: option.split)
    then show ?thesis using after [OF g] by simp
  next
    case False
    show ?thesis
    proof (cases "reuse v h")
      case (Some x)
      obtain a h4 where x: "x = (a, h4)" by force
      have "alloc v h = Inr (a, track v h4)" using False Some x by (simp add: alloc_def c_def [symmetric] Let_def)
      then show ?thesis using placed_track [OF reuse_placed [OF assms]] Some x by blast
    next
      case None
      let ?fl = "length (h_cells h) = h_cap h \<or> h_limit h > 0 \<and> int (length (h_cells h)) \<ge> h_limit h"
      have eq: "alloc v h = (if ?fl then (case reuse v h1 of Some (a, h4) \<Rightarrow> Inr (a, track v h4) | None \<Rightarrow> grow v h1)
          else grow v h)"
        using False None g by (simp add: alloc_def c_def [symmetric] Let_def)
      show ?thesis
      proof (cases ?fl)
        case True
        show ?thesis unfolding eq if_P [OF True] by (rule after [OF g])
      next
        case nf: False
        then obtain x where "grow v h = Inr x" using grow_outcome [of v h] by (cases "grow v h") auto
        then show ?thesis unfolding eq if_not_P [OF nf] using grow_placed [OF assms] by (cases x) auto
      qed
    qed
  qed
  then show ?thesis .
qed

text \<open>C4: Allocation.  Given exact counts and a value whose references the caller owns, \<^verbatim>\<open>alloc\<close> either
  reports an exhausted heap, and only when a limit is set and every slot up to it is in use after a
  collection, or returns a slot nothing reached before, holding the value, with exact counts (the
  slot's one reference is now the caller's, the value's references are the slot's) and every slot an
  owner could reach unchanged, whether or not it collected on the way.\<close>

theorem alloc_exact:
  assumes "hinv [] ext h" and "owns_refs ext h v"
  shows "(\<exists>a h'. alloc v h = Inr (a, h') \<and> hinv [] (moved ext v a) h' \<and> h_cells h' ! a = v
      \<and> \<not> hreach ext h a \<and> preserves ext h h')
    \<or> alloc v h = Inl THeapExhausted \<and> 0 < h_limit h \<and> h_limit h \<le> int (length (h_cells h))
      \<and> (\<exists>h1. gc h = Inr h1 \<and> h_free h1 = [])"
  using alloc_exact_lemma [OF assms] by (auto simp: placed_def)


section \<open>The contract\<close>

text \<open>
  What the instruction handlers use of the heap: counted references that can be taken and dropped
  without a panic as long as the books of their owners are right.  \<open>inv ext\<close> is the invariant for
  external counts \<open>ext\<close>, \<open>valid_ref\<close> says that a reference names a live slot.
\<close>

locale counted_store =
  fixes inv :: "(nat \<Rightarrow> int) \<Rightarrow> 's \<Rightarrow> bool"
    and take_ref :: "int \<Rightarrow> 's \<Rightarrow> trap + 's"
    and drop_ref :: "int \<Rightarrow> 's \<Rightarrow> trap + 's"
    and live :: "'s \<Rightarrow> nat \<Rightarrow> bool"
    and content :: "'s \<Rightarrow> nat \<Rightarrow> 'v"
  assumes take_ok: "inv ext s \<Longrightarrow> live s a \<Longrightarrow>
      \<exists>s'. take_ref (int a) s = Inr s' \<and> inv (ext(a := ext a + 1)) s'
        \<and> (\<forall>b. live s b \<longrightarrow> live s' b \<and> content s' b = content s b)"
    and drop_ok: "inv ext s \<Longrightarrow> 1 \<le> ext a \<Longrightarrow> a = 0 \<longrightarrow> 2 \<le> ext a \<Longrightarrow>
      \<exists>s'. drop_ref (int a) s = Inr s' \<and> inv (ext(a := ext a - 1)) s'
        \<and> (\<forall>b. live s' b \<longrightarrow> live s b \<and> content s' b = content s b)"
    and owned_live: "inv ext s \<Longrightarrow> 1 \<le> ext a \<Longrightarrow> live s a"
begin

primrec drop_refs :: "nat list \<Rightarrow> 's \<Rightarrow> trap + 's" where
  "drop_refs [] s = Inr s"
| "drop_refs (a # as) s = tbind (drop_ref (int a) s) (drop_refs as)"

text \<open>Dropping every reference of a list the caller owns: no slot still owned loses its content.\<close>

lemma drop_refs_ok:
  "inv ext s \<Longrightarrow> \<forall>a. int (count_list as a) + (if a = 0 then 1 else 0) \<le> ext a \<Longrightarrow>
   \<exists>s'. drop_refs as s = Inr s' \<and> inv (\<lambda>a. ext a - int (count_list as a)) s'
     \<and> (\<forall>b. live s' b \<longrightarrow> live s b \<and> content s' b = content s b)"
proof (induction as arbitrary: ext s)
  case (Cons a as)
  have a: "1 \<le> ext a" "a = 0 \<longrightarrow> 2 \<le> ext a" using Cons.prems(2) [rule_format, of a] by (auto split: if_splits)
  from drop_ok [OF Cons.prems(1) a] obtain s1 where s1: "drop_ref (int a) s = Inr s1" "inv (ext(a := ext a - 1)) s1"
    "\<forall>b. live s1 b \<longrightarrow> live s b \<and> content s1 b = content s b" by blast
  have "\<forall>b. int (count_list as b) + (if b = 0 then 1 else 0) \<le> (ext(a := ext a - 1)) b"
  proof
    fix b
    show "int (count_list as b) + (if b = 0 then 1 else 0) \<le> (ext(a := ext a - 1)) b"
      using Cons.prems(2) [rule_format, of b] by (auto split: if_splits)
  qed
  from Cons.IH [OF s1(2) this] obtain s' where s': "drop_refs as s1 = Inr s'"
    "inv (\<lambda>b. (ext(a := ext a - 1)) b - int (count_list as b)) s'"
    "\<forall>b. live s' b \<longrightarrow> live s1 b \<and> content s' b = content s1 b" by blast
  have "(\<lambda>b. (ext(a := ext a - 1)) b - int (count_list as b)) = (\<lambda>b. ext b - int (count_list (a # as) b))"
    by (rule HOL.ext) auto
  with s1 s' show ?case by auto
qed simp

text \<open>A copy that is dropped again leaves the books as they were.\<close>

lemma take_drop_ok:
  assumes "inv ext s" "live s a" "0 \<le> ext a" "a = 0 \<longrightarrow> 1 \<le> ext a"
  shows "\<exists>s1 s2. take_ref (int a) s = Inr s1 \<and> drop_ref (int a) s1 = Inr s2 \<and> inv ext s2"
proof -
  from take_ok [OF assms(1,2)] obtain s1 where s1: "take_ref (int a) s = Inr s1" "inv (ext(a := ext a + 1)) s1" by blast
  have b: "1 \<le> (ext(a := ext a + 1)) a" "a = 0 \<longrightarrow> 2 \<le> (ext(a := ext a + 1)) a" using assms(3,4) by auto
  have e: "(ext(a := ext a + 1))(a := (ext(a := ext a + 1)) a - 1) = ext" by simp
  show ?thesis using drop_ok [OF s1(2) b, unfolded e] s1(1) by blast
qed

end

definition slot_value :: "heap \<Rightarrow> nat \<Rightarrow> hval" where
  "slot_value h a = h_cells h ! a"

definition slot_live :: "heap \<Rightarrow> nat \<Rightarrow> bool" where
  "slot_live h a \<longleftrightarrow> alive h (int a)"

lemma retain_exact_lemma:
  assumes h: "hinv [] ext h" and l: "slot_live h a"
  shows "\<exists>h'. retain (int a) h = Inr h' \<and> hinv [] (ext(a := ext a + 1)) h' \<and> h_cells h' = h_cells h
    \<and> (\<forall>b. slot_live h b \<longrightarrow> slot_live h' b)"
proof -
  have a: "a < length (h_cells h)" "0 < h_rc h ! a" using l by (auto simp: slot_live_def alive_def)
  let ?h = "h\<lparr>h_rc := (h_rc h)[a := h_rc h ! a + 1]\<rparr>"
  have r: "retain (int a) h = Inr ?h" using a hinvD(1) [OF h] by (simp add: retain_def retains_def)
  have rc: "h_rc ?h ! b = (if b = a then h_rc h ! b + 1 else h_rc h ! b)" for b
    using a hinvD(1) [OF h] by (auto simp: nth_list_update)
  have "hinv [] (ext(a := ext a + 1)) ?h"
    unfolding hinv_def
  proof (intro conjI allI impI ballI)
    show "set (h_free ?h) = {b. 0 < b \<and> b < length (h_cells ?h) \<and> h_rc ?h ! b = 0}"
      using hinvD(12) [OF h] rc a by auto
    show "h_cells ?h ! b = HNil" if "0 < b" "b < length (h_cells ?h)" "h_rc ?h ! b = 0" for b
      using that rc [of b] a hinvD(10) [OF h that(1)] by (auto split: if_splits)
    show "h_rc ?h ! b = (ext(a := ext a + 1)) b + edges (h_cells ?h) b + pending [] b"
      if "0 < b" "b < length (h_cells ?h)" for b
    proof (cases "b = a")
      case True
      then show ?thesis using hinvD(9) [OF h, of a] that a hinvD(1) [OF h] by simp
    next
      case False
      then show ?thesis using hinvD(9) [OF h, of b] that by simp
    qed
    show "(ext(a := ext a + 1)) 0 + edges (h_cells ?h) 0 + pending [] 0 \<le> h_rc ?h ! 0"
      using hinvD(8) [OF h] rc [of 0] by simp
    show "0 \<le> (ext(a := ext a + 1)) b" "1 \<le> (ext(a := ext a + 1)) 0" for b
      using hinvD(6,7) [OF h] by (simp_all add: add_nonneg_pos)
    show "(ext(a := ext a + 1)) b = 0" if "length (h_cells ?h) \<le> b" for b
      using hinvD(13) [OF h] that a by simp
    show "cell_ok v" if "v \<in> set (h_cells ?h)" for v using hinvD(14) [OF h] that by simp
    show "in_heap ?h (refs v)" if "v \<in> set (h_cells ?h)" for v
      using hinvD(4) [OF h] that by (simp add: in_heap_def)
  qed (use hinvD [OF h] in \<open>simp_all add: in_heap_def\<close>)
  moreover have "slot_live h b \<Longrightarrow> slot_live ?h b" for b using rc [of b] by (auto simp: slot_live_def alive_def)
  ultimately show ?thesis using r by auto
qed

lemma owned_slot_live:
  assumes h: "hinv [] ext h" and a: "1 \<le> ext a"
  shows "slot_live h a"
proof -
  have l: "a < length (h_cells h)" using hinvD(13) [OF h, of a] a by linarith
  have "0 < h_rc h ! a"
  proof (cases "a = 0")
    case True
    then show ?thesis using hinv_rc0 [OF h] by simp
  next
    case False
    then show ?thesis using hinvD(9) [OF h _ l] edges_nonneg [of "h_cells h" a] pending_nonneg [of "[]" a] a by linarith
  qed
  then show ?thesis using l by (simp add: slot_live_def alive_def)
qed

interpretation cs: counted_store "hinv []" retain release slot_live slot_value
proof
  fix ext h a assume h: "hinv [] ext h"
  show "slot_live h a \<Longrightarrow> \<exists>s'. retain (int a) h = Inr s' \<and> hinv [] (ext(a := ext a + 1)) s'
      \<and> (\<forall>b. slot_live h b \<longrightarrow> slot_live s' b \<and> slot_value s' b = slot_value h b)"
    using retain_exact_lemma [OF h] by (metis slot_value_def)
  show "\<exists>s'. release (int a) h = Inr s' \<and> hinv [] (ext(a := ext a - 1)) s'
      \<and> (\<forall>b. slot_live s' b \<longrightarrow> slot_live h b \<and> slot_value s' b = slot_value h b)"
    if e: "1 \<le> ext a" "a = 0 \<longrightarrow> 2 \<le> ext a"
  proof -
    have a: "a < length (h_cells h)" using owned_slot_live [OF h e(1)] by (simp add: slot_live_def alive_def)
    from release_exact_lemma [OF h a e] obtain h' where r: "release (int a) h = Inr h'"
      "hinv [] (ext(a := ext a - 1)) h'" "keeps h h'" by blast
    then have "slot_live h' b \<Longrightarrow> slot_live h b \<and> slot_value h' b = slot_value h b" for b
      by (auto simp: keeps_def slot_live_def alive_def slot_value_def)
    with r show ?thesis by blast
  qed
  show "1 \<le> ext a \<Longrightarrow> slot_live h a" by (rule owned_slot_live [OF h])
qed

theorem alloc_exact_witness:
  "(\<exists>a h'. alloc (HString ''t'') sample_heap = Inr (a, h') \<and> hinv [] (moved sample_ext (HString ''t'') a) h'
      \<and> h_cells h' ! a = HString ''t'' \<and> \<not> hreach sample_ext sample_heap a \<and> preserves sample_ext sample_heap h')"
proof -
  have o: "owns_refs sample_ext sample_heap (HString ''t'')"
    by (simp add: owns_refs_def in_heap_def rc_simps sample_ext_def)
  have "h_limit sample_heap = 6" "length (h_cells sample_heap) = 5" by (simp_all add: sample_heap_def)
  with alloc_exact [OF sample_hinv o] show ?thesis by auto
qed

end
