(* ===== verification/MachineInv.thy ===== *)
theory MachineInv
  imports Machine HeapAlloc
begin

text \<open>
  The books of the whole machine.  Every reference held by the operand stack, the globals, the
  constants and the active frames is one count of its slot; \<open>e\<close> stands for what the host holds.  The
  invariant \<open>minv\<close> says that the heap's counts are exact for these roots.  The lemmas follow the
  roots through the state updates the handlers are made of, for any predicate on references, so that
  one set of rules serves both the counts of a slot and the absence of negative references.
\<close>

section \<open>Counting roots\<close>

definition cnt :: "(int \<Rightarrow> bool) \<Rightarrow> int list \<Rightarrow> int" where
  "cnt P rs = int (length (filter P rs))"

lemma cnt_simps [simp]: "cnt P [] = 0" "cnt P (r # rs) = (if P r then 1 else 0) + cnt P rs"
  "cnt P (rs @ ss) = cnt P rs + cnt P ss"
  by (simp_all add: cnt_def)

lemma cnt_nonneg [simp]: "0 \<le> cnt P rs"
  by (simp add: cnt_def)

lemma pending_cnt: "pending rs a = cnt (\<lambda>r. r = int a) rs"
  by (induction rs) (auto simp: pending_def)

definition bx :: "(int \<Rightarrow> bool) \<Rightarrow> boxed list \<Rightarrow> int" where
  "bx P vs = cnt P (box_refs vs)"

lemma bx_simps [simp]: "bx P [] = 0" "bx P (v # w # vs) = bx P [v] + bx P (w # vs)" "bx P (vs @ ws) = bx P vs + bx P ws"
  by (simp_all add: bx_def box_refs_def)

lemma bx_Cons: "bx P (v # vs) = bx P [v] + bx P vs"
  by (cases vs) auto

lemma bx_nonneg [simp]: "0 \<le> bx P vs"
  by (simp add: bx_def)

lemma bx_1: "bx P [v] = (if boxed_kind v = KindRef \<and> P (as_ref v) then 1 else 0)"
  by (simp add: bx_def box_refs_def)

lemma bx_update: "k < length vs \<Longrightarrow> bx P (vs[k := v]) = bx P vs - bx P [vs ! k] + bx P [v]"
proof (induction vs arbitrary: k)
  case (Cons w ws)
  then show ?case by (cases k) (auto simp: bx_Cons [of P _ ws] bx_Cons [of P _ "ws[_ := v]"])
qed simp

lemma bx_member: "v \<in> set vs \<Longrightarrow> bx P [v] \<le> bx P vs"
proof (induction vs)
  case (Cons w ws)
  have "0 \<le> bx P ws" "0 \<le> bx P [w]" by (rule bx_nonneg)+
  with Cons show ?case unfolding bx_Cons [of P w ws] by (cases "v = w") (simp, simp add: add_increasing)
qed simp

definition operands_of :: "machine \<Rightarrow> boxed list" where
  "operands_of m = take (m_sp m) (m_stack m)"

definition frame_refs :: "frame \<Rightarrow> int list" where
  "frame_refs f = (if f_release f then [f_ref f] else []) @ (if f_coro f \<noteq> 0 then [f_coro f] else [])"

definition active :: "machine \<Rightarrow> frame list" where
  "active m = take (m_fp m) (m_frames m)"

definition tally :: "machine \<Rightarrow> (int \<Rightarrow> bool) \<Rightarrow> int" where
  "tally m P = bx P (operands_of m) + bx P (m_globals m) + bx P (m_constants m)
     + cnt P (concat (map frame_refs (active m)))"

text \<open>A frame owns its callable exactly when it must release it, and its upvalues are that callable's.\<close>

definition frame_ok :: "frame \<Rightarrow> bool" where
  "frame_ok f \<longleftrightarrow> 0 \<le> f_ref f \<and> (f_release f \<longleftrightarrow> 0 < f_ref f)
     \<and> (\<forall>a. f_upvals f = Some a \<longrightarrow> a = f_ref f \<and> f_release f)"

lemma frame_ok_ip [simp]: "frame_ok (f\<lparr>f_ip := i\<rparr>) = frame_ok f"
  by (simp add: frame_ok_def)

definition shape :: "machine \<Rightarrow> bool" where
  "shape m \<longleftrightarrow> m_sp m \<le> length (m_stack m) \<and> 0 < m_fp m \<and> m_fp m \<le> length (m_frames m)
     \<and> (\<forall>f\<in>set (active m). frame_ok f \<and> f_bp f < length (m_stack m))"

definition minv :: "(nat \<Rightarrow> int) \<Rightarrow> machine \<Rightarrow> bool" where
  "minv e m \<longleftrightarrow> shape m \<and> (\<forall>a. 0 \<le> e a) \<and> 1 \<le> e 0 \<and> tally m (\<lambda>r. r < 0) = 0
     \<and> hinv [] (\<lambda>a. tally m (\<lambda>r. r = int a) + e a) (m_heap m)"

lemma tally_nonneg [simp]: "0 \<le> tally m P"
  by (simp add: tally_def add_nonneg_nonneg)

section \<open>The state updates\<close>

lemma m_heap_updates [simp]:
  "m_heap (push v m) = m_heap m" "m_heap (popn n m) = m_heap m" "m_heap (poke k v m) = m_heap m"
  "m_heap (set_top k v m) = m_heap m" "m_heap (advance i m) = m_heap m" "m_heap (set_global k v m) = m_heap m"
  "m_heap (set_fr g m) = m_heap m"
  by (simp_all add: push_def popn_def poke_def set_top_def advance_def set_fr_def set_global_def)

lemma m_sp_updates [simp]:
  "m_sp (push v m) = m_sp m + 1" "m_sp (popn n m) = m_sp m - n" "m_sp (poke k v m) = m_sp m"
  "m_sp (set_top k v m) = m_sp m" "m_sp (advance i m) = m_sp m" "m_sp (set_global k v m) = m_sp m"
  "m_sp (set_fr g m) = m_sp m" "m_sp (m\<lparr>m_heap := h\<rparr>) = m_sp m"
  by (simp_all add: push_def popn_def poke_def set_top_def advance_def set_fr_def set_global_def)

lemma m_stack_updates [simp]:
  "m_stack (push v m) = (m_stack m)[m_sp m := v]" "m_stack (popn n m) = m_stack m"
  "m_stack (poke k v m) = (m_stack m)[k := v]" "m_stack (set_top k v m) = (m_stack m)[m_sp m - k := v]"
  "m_stack (advance i m) = m_stack m" "m_stack (set_global k v m) = m_stack m" "m_stack (set_fr g m) = m_stack m"
  by (simp_all add: push_def popn_def poke_def set_top_def advance_def set_fr_def set_global_def)

lemma m_globals_updates [simp]:
  "m_globals (push v m) = m_globals m" "m_globals (popn n m) = m_globals m"
  "m_globals (poke k v m) = m_globals m" "m_globals (set_top k v m) = m_globals m"
  "m_globals (advance i m) = m_globals m" "m_globals (set_global k v m) = (m_globals m)[k := v]"
  "m_globals (set_fr g m) = m_globals m"
  by (simp_all add: push_def popn_def poke_def set_top_def advance_def set_fr_def set_global_def)

lemma m_frames_updates [simp]:
  "m_frames (push v m) = m_frames m" "m_frames (popn n m) = m_frames m" "m_frames (poke k v m) = m_frames m"
  "m_frames (set_top k v m) = m_frames m" "m_frames (set_global k v m) = m_frames m"
  "m_fp (push v m) = m_fp m" "m_fp (popn n m) = m_fp m" "m_fp (poke k v m) = m_fp m"
  "m_fp (set_top k v m) = m_fp m" "m_fp (advance i m) = m_fp m" "m_fp (set_global k v m) = m_fp m"
  "m_fp (set_fr g m) = m_fp m"
  by (simp_all add: push_def popn_def poke_def set_top_def advance_def set_fr_def set_global_def)

lemma m_constants_updates [simp]:
  "m_constants (push v m) = m_constants m" "m_constants (popn n m) = m_constants m"
  "m_constants (poke k v m) = m_constants m" "m_constants (set_top k v m) = m_constants m"
  "m_constants (advance i m) = m_constants m" "m_constants (set_global k v m) = m_constants m"
  "m_constants (set_fr g m) = m_constants m"
  by (simp_all add: push_def popn_def poke_def set_top_def advance_def set_fr_def set_global_def)

lemma fr_updates [simp]:
  "fr (push v m) = fr m" "fr (popn n m) = fr m" "fr (poke k v m) = fr m" "fr (set_top k v m) = fr m"
  "fr (set_global k v m) = fr m" "fr (m\<lparr>m_heap := h\<rparr>) = fr m"
  by (simp_all add: fr_def)

lemma top_updates [simp]: "top (m\<lparr>m_heap := h\<rparr>) k = top m k" "top (advance i m) k = top m k" "top (popn n m) k = m_stack m ! (m_sp m - n - k)"
  by (simp_all add: top_def)

lemma fr_active: "shape m \<Longrightarrow> fr m \<in> set (active m)"
  by (auto simp: shape_def active_def fr_def in_set_conv_nth intro!: exI [of _ "m_fp m - 1"])

lemma active_set_fr: "shape m \<Longrightarrow> active (set_fr g m) = (active m)[m_fp m - 1 := g (fr m)]"
  by (simp add: active_def set_fr_def shape_def take_update_swap)

lemma concat_same:
  "k < length fs \<Longrightarrow> frame_refs g = frame_refs (fs ! k) \<Longrightarrow> concat (map frame_refs (fs[k := g])) = concat (map frame_refs fs)"
  by (metis length_map list_update_id map_update nth_map)

lemma active_nth: "shape m \<Longrightarrow> active m ! (m_fp m - 1) = fr m \<and> m_fp m - 1 < length (active m)"
  by (auto simp: shape_def active_def fr_def)

text \<open>The roots through each update.\<close>

lemma tally_heap [simp]: "tally (m\<lparr>m_heap := h\<rparr>) P = tally m P"
  by (simp add: tally_def operands_of_def active_def)

lemma tally_advance [simp]: "shape m \<Longrightarrow> tally (advance i m) P = tally m P"
  using active_nth [of m] concat_same [of "m_fp m - 1" "active m" "(fr m)\<lparr>f_ip := f_ip (fr m) + i\<rparr>"]
  by (simp add: tally_def operands_of_def advance_def active_set_fr frame_refs_def)

lemma tally_push [simp]: "m_sp m < length (m_stack m) \<Longrightarrow> tally (push v m) P = tally m P + bx P [v]"
  by (simp add: tally_def operands_of_def active_def push_def take_Suc_conv_app_nth)

lemma tally_poke [simp]:
  "k < m_sp m \<Longrightarrow> m_sp m \<le> length (m_stack m) \<Longrightarrow> tally (poke k v m) P = tally m P - bx P [m_stack m ! k] + bx P [v]"
  by (simp add: tally_def operands_of_def active_def take_update_swap bx_update)

lemma tally_set_top [simp]:
  "0 < k \<Longrightarrow> k \<le> m_sp m \<Longrightarrow> m_sp m \<le> length (m_stack m) \<Longrightarrow>
   tally (set_top k v m) P = tally m P - bx P [top m k] + bx P [v]"
  by (simp add: set_top_def top_def)

lemma tally_pop1 [simp]:
  assumes "0 < m_sp m" "m_sp m \<le> length (m_stack m)"
  shows "tally (popn (Suc 0) m) P = tally m P - bx P [top m 1]"
proof -
  have "m_sp m - 1 < length (m_stack m)" using assms by simp
  from take_Suc_conv_app_nth [OF this] assms
  have "operands_of m = take (m_sp m - 1) (m_stack m) @ [top m 1]" by (simp add: operands_of_def top_def)
  moreover have "operands_of (popn 1 m) = take (m_sp m - 1) (m_stack m)" by (simp add: operands_of_def)
  ultimately show ?thesis by (simp add: tally_def active_def)
qed

lemma popn_add: "popn (a + b) m = popn a (popn b m)"
  by (simp add: popn_def)

lemma tally_pop2 [simp]:
  assumes "2 \<le> m_sp m" "m_sp m \<le> length (m_stack m)"
  shows "tally (popn 2 m) P = tally m P - bx P [top m 1] - bx P [top m 2]"
proof -
  have "popn 2 m = popn (Suc 0) (popn (Suc 0) m)" using popn_add [of 1 1 m] by (simp add: numeral_2_eq_2)
  then show ?thesis using assms by (simp add: top_def numeral_2_eq_2)
qed

lemma tally_set_global [simp]:
  "k < length (m_globals m) \<Longrightarrow> tally (set_global k v m) P = tally m P - bx P [m_globals m ! k] + bx P [v]"
  by (simp add: tally_def operands_of_def active_def bx_update)

lemma shape_updates [simp]:
  "shape m \<Longrightarrow> m_sp m < length (m_stack m) \<Longrightarrow> shape (push v m)"
  "shape m \<Longrightarrow> shape (popn n m)" "shape m \<Longrightarrow> shape (poke k v m)" "shape m \<Longrightarrow> shape (set_top k v m)"
  "shape m \<Longrightarrow> shape (set_global k v m)" "shape m \<Longrightarrow> shape (m\<lparr>m_heap := h\<rparr>)"
  by (auto simp: shape_def active_def)

lemma shape_set_fr:
  assumes "shape m" "frame_ok (g (fr m))" "f_bp (g (fr m)) < length (m_stack m)"
  shows "shape (set_fr g m)"
  using active_set_fr [of m g] assms set_update_subset_insert [of "active m" "m_fp m - 1" "g (fr m)"]
  unfolding shape_def by (auto simp: set_fr_def)

lemma shape_advance [simp]: "shape m \<Longrightarrow> shape (advance i m)"
  using fr_active [of m] unfolding advance_def by (intro shape_set_fr) (auto simp: shape_def)

section \<open>Taking and dropping a reference\<close>

definition covers_ref :: "(nat \<Rightarrow> int) \<Rightarrow> boxed \<Rightarrow> bool" where
  "covers_ref E v \<longleftrightarrow> bx (\<lambda>r. r < 0) [v] = 0 \<and> (\<forall>a. bx (\<lambda>r. r = int a) [v] + (if a = 0 then 1 else 0) \<le> E a)"

lemma covers_refD:
  assumes "covers_ref E v" "boxed_kind v = KindRef"
  shows "0 \<le> as_ref v" "1 + (if as_ref v = 0 then 1 else 0) \<le> E (nat (as_ref v))"
proof -
  show r: "0 \<le> as_ref v" using assms by (auto simp: covers_ref_def bx_1 split: if_splits)
  have "bx (\<lambda>r. r = int (nat (as_ref v))) [v] + (if nat (as_ref v) = 0 then 1 else 0) \<le> E (nat (as_ref v))"
    using assms(1) unfolding covers_ref_def by blast
  then show "1 + (if as_ref v = 0 then 1 else 0) \<le> E (nat (as_ref v))"
    using r assms(2) by (simp add: bx_1 nat_eq_iff split: if_splits)
qed

lemma hinv_ext_0:
  assumes h: "hinv w E h" and "\<forall>a. a \<noteq> 0 \<longrightarrow> E' a = E a" "1 \<le> E' 0" "E' 0 \<le> E 0"
  shows "hinv w E' h"
  unfolding hinv_def
proof (intro conjI allI impI ballI)
  show "0 \<le> E' a" for a using hinvD(6) [OF h, of a] assms(2,3) by (cases "a = 0") auto
  show "E' a = 0" if "length (h_cells h) \<le> a" for a
    using hinvD(13) [OF h that] hinvD(2) [OF h] that assms(2) by (cases "a = 0") auto
  show "E' 0 + edges (h_cells h) 0 + pending w 0 \<le> h_rc h ! 0" using hinvD(8) [OF h] assms(4) by linarith
  show "h_rc h ! a = E' a + edges (h_cells h) a + pending w a" if "0 < a" "a < length (h_cells h)" for a
    using hinvD(9) [OF h that] that assms(2) by simp
qed (use hinvD [OF h] assms(3) in auto)

lemma release_box_ok:
  assumes h: "hinv [] E h" and own: "covers_ref E v"
  shows "\<exists>h'. release_box v h = Inr h' \<and> hinv [] (\<lambda>a. E a - bx (\<lambda>r. r = int a) [v]) h'
    \<and> (\<forall>b. slot_live h' b \<longrightarrow> slot_live h b \<and> slot_value h' b = slot_value h b)"
proof (cases "boxed_kind v = KindRef")
  case False
  then show ?thesis using h by (auto simp: release_box_def bx_1)
next
  case ref: True
  note c = covers_refD [OF own ref]
  let ?a = "nat (as_ref v)"
  have e: "(\<lambda>a. E a - bx (\<lambda>r. r = int a) [v]) = E(?a := E ?a - 1)"
    using ref c(1) by (auto simp: bx_1 fun_eq_iff)
  show ?thesis
  proof (cases "as_ref v = 0")
    case True
    have "hinv [] (E(?a := E ?a - 1)) h" by (rule hinv_ext_0 [OF h]) (use c True in auto)
    then show ?thesis using True ref by (simp add: release_box_def e)
  next
    case False
    have "1 \<le> E ?a" "?a = 0 \<longrightarrow> 2 \<le> E ?a" using c False by auto
    from cs.drop_ok [OF h this] show ?thesis using False ref c(1) by (simp add: release_box_def e)
  qed
qed

lemma retain_box_ok:
  assumes h: "hinv [] E h" and own: "covers_ref E v"
  shows "\<exists>h'. retain_box v h = Inr h' \<and> hinv [] (\<lambda>a. E a + bx (\<lambda>r. r = int a) [v]) h'"
proof (cases "boxed_kind v = KindRef")
  case False
  then show ?thesis using h by (auto simp: retain_box_def bx_1)
next
  case ref: True
  note c = covers_refD [OF own ref]
  let ?a = "nat (as_ref v)"
  have e: "(\<lambda>a. E a + bx (\<lambda>r. r = int a) [v]) = E(?a := E ?a + 1)"
    using ref c(1) by (auto simp: bx_1 fun_eq_iff)
  have "1 \<le> E ?a" using c(2) by (auto split: if_splits)
  from cs.take_ok [OF h cs.owned_live [OF h this]] show ?thesis using ref c(1) by (auto simp: retain_box_def e)
qed

lemma release_m_ok:
  assumes "hinv [] E (m_heap m)" "covers_ref E v"
  obtains h' where "release_m v m = Inr (m\<lparr>m_heap := h'\<rparr>)" "hinv [] (\<lambda>a. E a - bx (\<lambda>r. r = int a) [v]) h'"
  using release_box_ok [OF assms] by (auto simp: release_m_def on_heap_def)

lemma retain_m_ok:
  assumes "hinv [] E (m_heap m)" "covers_ref E v"
  obtains h' where "retain_m v m = Inr (m\<lparr>m_heap := h'\<rparr>)" "hinv [] (\<lambda>a. E a + bx (\<lambda>r. r = int a) [v]) h'"
  using retain_box_ok [OF assms] by (auto simp: retain_m_def on_heap_def)

section \<open>Using the invariant\<close>

definition books :: "(nat \<Rightarrow> int) \<Rightarrow> machine \<Rightarrow> nat \<Rightarrow> int" where
  "books e m a = tally m (\<lambda>r. r = int a) + e a"

lemma minvD:
  assumes "minv e m"
  shows "shape m" "\<And>a. 0 \<le> e a" "1 \<le> e 0" "tally m (\<lambda>r. r < 0) = 0" "hinv [] (books e m) (m_heap m)"
    "m_sp m \<le> length (m_stack m)"
  using assms by (auto simp: minv_def shape_def books_def [abs_def])

lemma minvI:
  assumes "shape m" "\<And>a. 0 \<le> e a" "1 \<le> e 0" "tally m (\<lambda>r. r < 0) = 0" "hinv [] E h" "m_heap m = h"
    "\<And>a. tally m (\<lambda>r. r = int a) + e a = E a"
  shows "minv e m"
proof -
  have "(\<lambda>a. tally m (\<lambda>r. r = int a) + e a) = E" using assms(7) by (rule HOL.ext)
  then show ?thesis using assms by (simp add: minv_def)
qed

text \<open>A handler's last state has the books of its first, shifted by \<open>d\<close>, and the heap follows.\<close>

lemma minv_step:
  assumes m: "minv e m" and h: "hinv [] E h" and "m_heap m' = h" and "shape m \<Longrightarrow> shape m'"
    and t: "shape m \<Longrightarrow> m_sp m \<le> length (m_stack m) \<Longrightarrow> (\<And>P. tally m' P = tally m P + d P)"
    and "d (\<lambda>r. r < 0) = 0" and "\<And>a. E a = books e m a + d (\<lambda>r. r = int a)"
  shows "minv e m'"
  using minvD [OF m] t [OF minvD(1,6) [OF m]] assms(3,4,6,7)
  by (intro minvI [OF _ _ _ _ h]) (auto simp: books_def)

lemma covers_tally:
  assumes m: "minv e m" and v: "\<And>P. bx P [v] \<le> tally m P"
  shows "covers_ref (books e m) v"
  unfolding covers_ref_def
proof (intro conjI allI)
  show "bx (\<lambda>r. r < 0) [v] = 0" using v [of "\<lambda>r. r < 0"] minvD(4) [OF m] bx_nonneg [of "\<lambda>r. r < 0" "[v]"] by linarith
  show "bx (\<lambda>r. r = int a) [v] + (if a = 0 then 1 else 0) \<le> books e m a" for a
    using v [of "\<lambda>r. r = int a"] minvD(2) [OF m, of a] minvD(3) [OF m] by (cases "a = 0") (auto simp: books_def)
qed

lemma tally_ge:
  "v \<in> set (operands_of m) \<union> set (m_globals m) \<union> set (m_constants m) \<Longrightarrow> bx P [v] \<le> tally m P"
proof -
  assume "v \<in> set (operands_of m) \<union> set (m_globals m) \<union> set (m_constants m)"
  then have "bx P [v] \<le> bx P (operands_of m) \<or> bx P [v] \<le> bx P (m_globals m) \<or> bx P [v] \<le> bx P (m_constants m)"
    using bx_member by blast
  moreover have "0 \<le> bx P (operands_of m)" "0 \<le> bx P (m_globals m)" "0 \<le> bx P (m_constants m)"
    "0 \<le> cnt P (concat (map frame_refs (active m)))" by (rule bx_nonneg cnt_nonneg)+
  ultimately show ?thesis unfolding tally_def by linarith
qed

lemma covers_slot: "minv e m \<Longrightarrow> k < m_sp m \<Longrightarrow> covers_ref (books e m) (m_stack m ! k)"
  using minvD(6) [of e m]
  by (intro covers_tally tally_ge) (auto simp: operands_of_def in_set_conv_nth intro!: exI [of _ k])

lemma covers_top: "minv e m \<Longrightarrow> 0 < k \<Longrightarrow> k \<le> m_sp m \<Longrightarrow> covers_ref (books e m) (top m k)"
  unfolding top_def by (rule covers_slot) auto

lemma covers_global: "minv e m \<Longrightarrow> k < length (m_globals m) \<Longrightarrow> covers_ref (books e m) (m_globals m ! k)"
  by (intro covers_tally tally_ge) auto

definition okrun :: "(nat \<Rightarrow> int) \<Rightarrow> run \<Rightarrow> bool" where
  "okrun e r \<longleftrightarrow> (case r of Inr m \<Rightarrow> minv e m | Inl (t, m) \<Rightarrow> t \<noteq> TGoPanic \<and> minv e m)"

lemma okrun_simps [simp]: "okrun e (Inr m) = minv e m" "okrun e (Inl (t, m)) \<longleftrightarrow> t \<noteq> TGoPanic \<and> minv e m"
  by (simp_all add: okrun_def)

lemma covers_nonneg: "covers_ref E v \<Longrightarrow> bx (\<lambda>r. r < 0) [v] = 0"
  by (simp add: covers_ref_def)

section \<open>Handlers that keep the books\<close>

lemma books_drop: assumes m: "minv e m" shows "okrun e (do_drop m)"
proof (cases "m_sp m = 0")
  case False
  note c = covers_top [OF m, of 1]
  from release_m_ok [OF minvD(5) [OF m] c] False obtain h' where
    h': "release_m (top m 1) m = Inr (m\<lparr>m_heap := h'\<rparr>)" "hinv [] (\<lambda>a. books e m a - bx (\<lambda>r. r = int a) [top m 1]) h'"
    by auto
  have "minv e (advance 1 (popn 1 (m\<lparr>m_heap := h'\<rparr>)))"
    by (rule minv_step [OF m h'(2), where d = "\<lambda>P. - bx P [top m 1]"]) (use False covers_nonneg [OF c] in simp_all)
  then show ?thesis using False h' by (simp add: do_drop_def)
qed (use m in \<open>simp add: do_drop_def\<close>)

lemma okrun_trap: "minv e m \<Longrightarrow> t \<noteq> TGoPanic \<Longrightarrow> okrun e (Inl (t, m))"
  by simp

lemma books_dup: assumes m: "minv e m" shows "okrun e (do_dup m)"
proof (cases "m_sp m = 0 \<or> full m")
  case False
  then have sp: "m_sp m < length (m_stack m)" using minvD(6) [OF m] by (simp add: full_def)
  have c: "covers_ref (books e m) (top m 1)" using covers_top [OF m, of 1] False by simp
  from retain_m_ok [OF minvD(5) [OF m] c] obtain h' where
    h': "retain_m (top m 1) m = Inr (m\<lparr>m_heap := h'\<rparr>)" "hinv [] (\<lambda>a. books e m a + bx (\<lambda>r. r = int a) [top m 1]) h'" .
  have "minv e (advance 1 (push (top m 1) (m\<lparr>m_heap := h'\<rparr>)))"
    by (rule minv_step [OF m h'(2), where d = "\<lambda>P. bx P [top m 1]"]) (use sp covers_nonneg [OF c] in simp_all)
  then show ?thesis using False h' by (simp add: do_dup_def)
qed (use m in \<open>auto simp: do_dup_def\<close>)

lemma books_swap: assumes m: "minv e m" shows "okrun e (do_swap m)"
proof (cases "m_sp m < 2")
  case False
  have "top (set_top 2 (top m 1) m) 1 = top m 1"
    using False minvD(6) [OF m] by (simp add: top_def nth_list_update)
  then have "minv e (advance 1 (set_top 1 (top m 2) (set_top 2 (top m 1) m)))"
    by (intro minv_step [OF m minvD(5) [OF m], where d = "\<lambda>P. 0"]) (use False in simp_all)
  then show ?thesis using False by (simp add: do_swap_def)
qed (use m in \<open>simp add: do_swap_def\<close>)

lemma pop_scalar: assumes m: "minv e m" and "0 < m_sp m" and "boxed_kind (top m 1) \<noteq> KindRef"
  shows "minv e (advance i (popn 1 m))"
  by (rule minv_step [OF m minvD(5) [OF m], where d = "\<lambda>P. 0"]) (use assms in \<open>simp_all add: bx_1\<close>)

lemma books_br_if:
  assumes m: "minv e m" and "m_sp m \<noteq> 0 \<Longrightarrow> boxed_kind (top m 1) \<noteq> KindRef"
  shows "okrun e (do_br_if off m)" "okrun e (do_br_table offs m)"
  using pop_scalar [OF m] assms by (auto simp: do_br_if_def do_br_table_def Let_def)

lemma books_select:
  assumes m: "minv e m" and sc: "3 \<le> m_sp m \<Longrightarrow> boxed_kind (top m 1) \<noteq> KindRef"
  shows "okrun e (do_select m)"
proof (cases "m_sp m < 3")
  case False
  define b where "b = (as_i32 (top m 1) = 0)"
  define s d where "s = (if b then top m 2 else top m 3)" and "d = (if b then top m 3 else top m 2)"
  have c: "covers_ref (books e m) d" unfolding d_def using covers_top [OF m] False by auto
  from release_m_ok [OF minvD(5) [OF m] c] obtain h' where
    h': "release_m d m = Inr (m\<lparr>m_heap := h'\<rparr>)" "hinv [] (\<lambda>a. books e m a - bx (\<lambda>r. r = int a) [d]) h'" .
  have t: "top (set_top 3 s m') 1 = top m' 1" "top (set_top 3 s m') 2 = top m' 2"
    if "\<not> m_sp m' < 3" "m_sp m' \<le> length (m_stack m')" for m'
    using that by (simp_all add: top_def nth_list_update)
  have z: "bx P [top m 1] = 0" for P using sc False by (simp add: bx_1)
  have "minv e (advance 1 (popn 2 (set_top 3 s (m\<lparr>m_heap := h'\<rparr>))))"
    by (rule minv_step [OF m h'(2), where d = "\<lambda>P. - bx P [d]"]; cases b;
        insert False z t [of "m\<lparr>m_heap := h'\<rparr>"] covers_nonneg [OF c]; simp add: s_def d_def)
  then show ?thesis using False h' by (simp add: do_select_def Let_def s_def d_def b_def)
qed (use m in \<open>simp add: do_select_def\<close>)

text \<open>Copies onto the stack: of a word \<open>r\<close> some root holds, or of a word that is no reference.\<close>

lemma books_copy:
  assumes m: "minv e m" and nf: "m_sp m < length (m_stack m)"
    and c: "covers_ref (books e m) r" and pl: "plainly \<Longrightarrow> boxed_kind r \<noteq> KindRef"
  shows "okrun e (if plainly then Inr (advance i (push r m))
     else seqm (retain_m r m) (\<lambda>m1. Inr (advance i (push r m1))))"
proof (cases plainly)
  case True
  then have "minv e (advance i (push r m))"
    by (intro minv_step [OF m minvD(5) [OF m], where d = "\<lambda>P. 0"]) (use nf pl in \<open>simp_all add: bx_1\<close>)
  then show ?thesis using True by simp
next
  case False
  from retain_m_ok [OF minvD(5) [OF m] c] obtain h' where
    h': "retain_m r m = Inr (m\<lparr>m_heap := h'\<rparr>)" "hinv [] (\<lambda>a. books e m a + bx (\<lambda>r. r = int a) [r]) h'" .
  have "minv e (advance i (push r (m\<lparr>m_heap := h'\<rparr>)))"
    by (rule minv_step [OF m h'(2), where d = "\<lambda>P. bx P [r]"]) (use nf covers_nonneg [OF c] in simp_all)
  then show ?thesis using False h' by simp
qed

lemma not_full: "minv e m \<Longrightarrow> \<not> full m \<Longrightarrow> m_sp m < length (m_stack m)"
  using minvD(6) [of e m] by (simp add: full_def)

lemma books_global_get:
  assumes m: "minv e m" and pl: "\<And>r. plainly \<Longrightarrow> r \<in> set (m_globals m) \<Longrightarrow> boxed_kind r \<noteq> KindRef"
  shows "okrun e (get_from m_globals k w plainly m)"
  using m books_copy [OF m not_full [OF m] covers_global [OF m], of k plainly w] pl
  by (auto simp: get_from_def Let_def)

lemma books_local_get:
  assumes m: "minv e m" and pl: "plainly \<Longrightarrow> boxed_kind (m_stack m ! (f_bp (fr m) + k)) \<noteq> KindRef"
  shows "okrun e (do_local_get k plainly m)"
  using m books_copy [OF m not_full [OF m] covers_slot [OF m], of "f_bp (fr m) + k" plainly 2] pl
  by (auto simp: do_local_get_def Let_def)

lemma books_const:
  assumes m: "minv e m" and r: "r \<in> set (m_constants m)"
  shows "okrun e (do_const r m)"
proof -
  have c: "covers_ref (books e m) r" by (rule covers_tally [OF m tally_ge]) (use r in simp)
  have "do_const r m = (if full m then Inl (TStackOverflow, m) else
      seqm (retain_m r m) (\<lambda>m1. Inr (advance 3 (push r m1))))"
    by (simp add: do_const_def retain_m_def retain_box_def on_heap_def)
  then show ?thesis using m books_copy [OF m not_full [OF m] c, of False 3] by simp
qed

lemma books_ref_null: assumes m: "minv e m" shows "okrun e (do_ref_null m)"
proof (cases "full m")
  case False
  have "slot_live (m_heap m) 0"
    by (rule cs.owned_live [OF minvD(5) [OF m]]) (use minvD(3) [OF m] in \<open>simp add: books_def add_increasing\<close>)
  from cs.take_ok [OF minvD(5) [OF m] this] obtain h' where
    h': "on_heap (retain 0) m = Inr (m\<lparr>m_heap := h'\<rparr>)" "hinv [] ((books e m)(0 := books e m 0 + 1)) h'"
    by (auto simp: on_heap_def)
  have "minv e (advance 1 (push boxed_null (m\<lparr>m_heap := h'\<rparr>)))"
    by (rule minv_step [OF m h'(2), where d = "\<lambda>P. bx P [boxed_null]"])
      (use not_full [OF m False] in \<open>simp_all add: bx_1 boxed_null_ref\<close>)
  then show ?thesis using False h' by (simp add: do_ref_null_def)
qed (use m in \<open>simp add: do_ref_null_def\<close>)

text \<open>Stores: \<open>store\<close> replaces the root \<open>old\<close>, and leaves the top of the stack in place.\<close>

definition replaces :: "machine \<Rightarrow> boxed \<Rightarrow> (boxed \<Rightarrow> machine \<Rightarrow> machine) \<Rightarrow> bool" where
  "replaces m old store \<longleftrightarrow> (\<forall>h. let m' = store (top m 1) (m\<lparr>m_heap := h\<rparr>) in
     m_heap m' = h \<and> shape m' \<and> m_sp m' = m_sp m \<and> top m' 1 = top m 1
     \<and> (\<forall>P. tally m' P = tally m P - bx P [old] + bx P [top m 1]))"

lemma replacesD:
  assumes "replaces m old store"
  shows "m_heap (store (top m 1) (m\<lparr>m_heap := h\<rparr>)) = h" "shape (store (top m 1) (m\<lparr>m_heap := h\<rparr>))"
    "m_sp (store (top m 1) (m\<lparr>m_heap := h\<rparr>)) = m_sp m" "top (store (top m 1) (m\<lparr>m_heap := h\<rparr>)) 1 = top m 1"
    "tally (store (top m 1) (m\<lparr>m_heap := h\<rparr>)) P = tally m P - bx P [old] + bx P [top m 1]"
  using assms by (auto simp: replaces_def Let_def)

lemma heap_same: "m\<lparr>m_heap := m_heap m\<rparr> = m"
  by simp

text \<open>
  A \<^verbatim>\<open>SET\<close> that stores the very reference the slot already holds drops the operand's count on the
  floor: the books then balance only with one more reference outside.
\<close>

lemma books_set:
  assumes m: "minv e m" and sp: "0 < m_sp m" and st: "replaces m old store" and c: "covers_ref (books e m) old"
    and e': "e' = (if plainly \<or> old = top m 1 then \<lambda>a. e a + bx (\<lambda>r. r = int a) [old] else e)"
  shows "okrun e' (do_set old store w plainly m)"
proof (cases "plainly \<or> old = top m 1")
  case True
  let ?m = "store (top m 1) (m\<lparr>m_heap := m_heap m\<rparr>)"
  note r = replacesD [OF st, of "m_heap m"]
  have l: "m_sp ?m \<le> length (m_stack ?m)" using r(2) by (simp add: shape_def)
  have t: "tally (advance w (popn 1 ?m)) P = tally m P - bx P [old]" for P
    using tally_pop1 [of ?m P] r l sp by simp
  have "minv e' (advance w (popn 1 ?m))"
  proof (rule minvI [OF _ _ _ _ minvD(5) [OF m]])
    show "tally (advance w (popn 1 ?m)) (\<lambda>r. r < 0) = 0"
      using t minvD(4) [OF m] covers_nonneg [OF c] by simp
    show "0 \<le> e' a" for a using minvD(2) [OF m, of a] e' True by (simp add: add_nonneg_nonneg)
    show "1 \<le> e' 0" using minvD(3) [OF m] e' True by (simp add: add_increasing2)
    show "tally (advance w (popn 1 ?m)) (\<lambda>r. r = int a) + e' a = books e m a" for a
      using t e' True by (simp add: books_def)
  qed (use r in simp_all)
  then show ?thesis using True by (auto simp: do_set_def Let_def)
next
  case False
  from release_m_ok [OF minvD(5) [OF m] c] obtain h' where
    h': "release_m old m = Inr (m\<lparr>m_heap := h'\<rparr>)" "hinv [] (\<lambda>a. books e m a - bx (\<lambda>r. r = int a) [old]) h'" .
  let ?m = "store (top m 1) (m\<lparr>m_heap := h'\<rparr>)"
  note r = replacesD [OF st, of h']
  have l: "m_sp ?m \<le> length (m_stack ?m)" using r(2) by (simp add: shape_def)
  have t: "tally (advance w (popn 1 ?m)) P = tally m P - bx P [old]" for P
    using tally_pop1 [of ?m P] r l sp by simp
  have "minv e (advance w (popn 1 ?m))"
    by (rule minv_step [OF m h'(2), where d = "\<lambda>P. - bx P [old]"]) (use r t covers_nonneg [OF c] in simp_all)
  then show ?thesis using False h' e' by (simp add: do_set_def Let_def)
qed

lemma books_tee:
  assumes m: "minv e m" and sp: "0 < m_sp m" and st: "replaces m old store" and c: "covers_ref (books e m) old"
    and pl: "plainly \<Longrightarrow> boxed_kind old \<noteq> KindRef \<and> boxed_kind (top m 1) \<noteq> KindRef"
  shows "okrun e (do_tee old store w plainly m)"
proof (cases "plainly \<or> old = top m 1")
  case True
  let ?m = "store (top m 1) (m\<lparr>m_heap := m_heap m\<rparr>)"
  note r = replacesD [OF st, of "m_heap m"]
  have "minv e (advance w ?m)"
    by (rule minv_step [OF m minvD(5) [OF m], where d = "\<lambda>P. 0"]) (use r pl True in \<open>auto simp: bx_1\<close>)
  then show ?thesis using True by (auto simp: do_tee_def Let_def)
next
  case False
  let ?v = "top m 1"
  have cv: "covers_ref (books e m) ?v" by (rule covers_top [OF m]) (use sp in auto)
  from retain_m_ok [OF minvD(5) [OF m] cv] obtain h1 where
    h1: "retain_m ?v m = Inr (m\<lparr>m_heap := h1\<rparr>)" "hinv [] (\<lambda>a. books e m a + bx (\<lambda>r. r = int a) [?v]) h1" .
  have c1: "covers_ref (\<lambda>a. books e m a + bx (\<lambda>r. r = int a) [?v]) old"
    unfolding covers_ref_def
  proof (intro conjI allI)
    show "bx (\<lambda>r. r = int a) [old] + (if a = 0 then 1 else 0) \<le> books e m a + bx (\<lambda>r. r = int a) [?v]" for a
      using c bx_nonneg [of "\<lambda>r. r = int a" "[?v]"] unfolding covers_ref_def by (meson add_increasing2 order_trans)
  qed (rule covers_nonneg [OF c])
  from release_m_ok [of _ "m\<lparr>m_heap := h1\<rparr>", OF _ c1] h1(2) obtain h' where
    h': "release_m old (m\<lparr>m_heap := h1\<rparr>) = Inr (m\<lparr>m_heap := h'\<rparr>)"
      "hinv [] (\<lambda>a. books e m a + bx (\<lambda>r. r = int a) [?v] - bx (\<lambda>r. r = int a) [old]) h'" by auto
  note r = replacesD [OF st, of h']
  have "minv e (advance w (store ?v (m\<lparr>m_heap := h'\<rparr>)))"
    by (rule minv_step [OF m h'(2), where d = "\<lambda>P. bx P [?v] - bx P [old]"])
      (use r covers_nonneg [OF c] covers_nonneg [OF cv] in simp_all)
  then show ?thesis using False h1 h' by (simp add: do_tee_def Let_def)
qed

lemma replaces_global: "minv e m \<Longrightarrow> k < length (m_globals m) \<Longrightarrow> replaces m (m_globals m ! k) (set_global k)"
  using minvD(1) [of e m] by (simp add: replaces_def Let_def top_def)

lemma replaces_local:
  assumes m: "minv e m" and k: "k < m_sp m"
  shows "replaces m (m_stack m ! k) (poke k)"
  using minvD(1,6) [OF m] k by (auto simp: replaces_def Let_def top_def nth_list_update)

section \<open>Allocating scalars\<close>

definition leaf :: "hval \<Rightarrow> bool" where
  "leaf v \<longleftrightarrow> refs v = [] \<and> cell_ok v"

lemma alloc_leaf:
  assumes h: "hinv [] E h" and v: "leaf v" and e: "1 \<le> E 0"
  shows "(\<exists>a h'. alloc v h = Inr (a, h') \<and> hinv [] (\<lambda>b. E b + (if b = a then 1 else 0)) h'
      \<and> h_cells h' ! a = v \<and> a \<le> length (h_cells h))
    \<or> (alloc v h = Inl THeapExhausted \<and> (\<exists>h1. gc h = Inr h1 \<and> hinv [] E h1))"
proof -
  have o: "owns_refs E h v"
    using v e hinvD(6) [OF h] by (auto simp: owns_refs_def leaf_def in_heap_def pending_simps)
  have mv: "moved E v a = (\<lambda>b. E b + (if b = a then 1 else 0))" for a
    using v by (auto simp: moved_def leaf_def pending_simps)
  from alloc_exact_lemma [OF h o] show ?thesis
  proof (elim disjE exE conjE)
    fix a h' assume "alloc v h = Inr (a, h')" "placed E h v (a, h')"
    then show ?thesis using mv by (auto simp: placed_def)
  next
    assume "alloc v h = Inl THeapExhausted"
    then show ?thesis using gc_exact_lemma [OF h] by blast
  qed
qed

section \<open>Concrete machines\<close>

text \<open>
  A machine about to run, with an operand stack \<open>vs\<close> over a heap of two values, with the counts \<open>vs\<close>
  accounts for; and one whose values are a spilled \<^verbatim>\<open>i64\<close> (slot 1) and a string (slot 2).
\<close>

definition sample_frame :: frame where
  "sample_frame = \<lparr>f_addr = 0, f_returns = 0, f_code = \<lparr>tr_types = [], tr_constants = [], tr_locals = [],
     tr_globals = [], tr_captures = [], tr_code = [], tr_exact = False\<rparr>, f_upvals = None, f_ref = 0,
     f_release = False, f_coro = 0, f_ip = 0, f_bp = 0\<rparr>"

definition machine_on :: "hval \<Rightarrow> hval \<Rightarrow> boxed list \<Rightarrow> machine" where
  "machine_on u v vs = \<lparr>m_heap = \<lparr>h_cells = [HNull, u, v],
       h_rc = [1 + bx (\<lambda>r. r = 0) vs, bx (\<lambda>r. r = 1) vs, bx (\<lambda>r. r = 2) vs], h_free = [], h_trial = [], h_cap = 8,
       h_base = 1, h_target = 0, h_limit = 8, h_structs = sample_pool, h_arrays = sample_pool, h_instrs = [[], [], []],
       h_handlers = [[], [], []], h_coros = [False, False, False]\<rparr>,
     m_types = [], m_constants = [], m_globals = [], m_gtypes = [],
     m_main = \<lparr>fn_params = [], fn_returns = [], fn_locals = [], fn_captures = [], fn_code = [], fn_handlers = []\<rparr>,
     m_exact = False, m_frames = [sample_frame, sample_frame], m_fp = 1, m_stack = vs @ replicate 8 0, m_sp = length vs\<rparr>"

definition sample_machine :: "boxed list \<Rightarrow> machine" where
  "sample_machine vs = machine_on (HI64 (2 ^ 62)) (HString ''s'') vs"

definition host_null :: "nat \<Rightarrow> int" where
  "host_null a = (if a = 0 then 1 else 0)"

lemma machine_on_minv:
  assumes r: "set (box_refs vs) \<subseteq> {0, 1, 2}" and p: "1 \<in> set (box_refs vs)" "2 \<in> set (box_refs vs)"
    and uv: "leaf u" "leaf v"
  shows "minv host_null (machine_on u v vs)"
proof -
  let ?m = "machine_on u v vs"
  have t: "tally ?m P = bx P vs" for P
    by (simp add: tally_def operands_of_def active_def machine_on_def sample_frame_def frame_refs_def)
  have pos: "0 < bx (\<lambda>r. r = k) vs" if "k \<in> set (box_refs vs)" for k
    using that by (auto simp: bx_def cnt_def filter_empty_conv)
  have zero: "bx P vs = 0" if "\<And>r. r \<in> {0, 1, 2} \<Longrightarrow> \<not> P r" for P
    using that r by (auto simp: bx_def cnt_def filter_empty_conv)
  have c: "h_cells (m_heap ?m) = [HNull, u, v]"
    and rc: "h_rc (m_heap ?m) = [1 + bx (\<lambda>r. r = 0) vs, bx (\<lambda>r. r = 1) vs, bx (\<lambda>r. r = 2) vs]"
    and f: "h_free (m_heap ?m) = []" by (simp_all add: machine_on_def)
  have lf: "refs u = []" "refs v = []" "cell_ok u" "cell_ok v" using uv by (simp_all add: leaf_def)
  have two: "0 < a \<Longrightarrow> a < 3 \<Longrightarrow> a = 1 \<or> a = 2" for a :: nat by linarith
  have e: "edges (h_cells (m_heap ?m)) a = 0" for a by (simp add: c edges_def lf)
  have h: "hinv [] (\<lambda>a. bx (\<lambda>r. r = int a) vs + host_null a) (m_heap ?m)"
    unfolding hinv_def
  proof (intro conjI allI impI ballI)
    have nz: "h_rc (m_heap ?m) ! a \<noteq> 0" if "0 < a" "a < length (h_cells (m_heap ?m))" for a
      using two [of a] that pos p by (fastforce simp: c rc)
    then show "h_cells (m_heap ?m) ! a = HNil" if "0 < a" "a < length (h_cells (m_heap ?m))" "h_rc (m_heap ?m) ! a = 0" for a
      using that by blast
    show "set (h_free (m_heap ?m)) = {a. 0 < a \<and> a < length (h_cells (m_heap ?m)) \<and> h_rc (m_heap ?m) ! a = 0}"
      using nz by (auto simp: f)
    show "h_rc (m_heap ?m) ! a = bx (\<lambda>r. r = int a) vs + host_null a + edges (h_cells (m_heap ?m)) a + pending [] a"
      if "0 < a" "a < length (h_cells (m_heap ?m))" for a
      using two [of a] that e [of a] by (auto simp: c rc host_null_def pending_simps)
    show "cell_ok w" if "w \<in> set (h_cells (m_heap ?m))" for w using that lf by (auto simp: c)
    show "in_heap (m_heap ?m) (refs w)" if "w \<in> set (h_cells (m_heap ?m))" for w
      using that lf by (auto simp: c in_heap_def)
    show "0 \<le> bx (\<lambda>r. r = int a) vs + host_null a" for a by (simp add: host_null_def)
    show "bx (\<lambda>r. r = int a) vs + host_null a = 0" if "length (h_cells (m_heap ?m)) \<le> a" for a
    proof -
      have "3 \<le> a" using that by (simp add: c)
      then have "bx (\<lambda>r. r = int a) vs = 0" by (intro zero) auto
      then show ?thesis using \<open>3 \<le> a\<close> by (simp add: host_null_def)
    qed
  qed (use e in \<open>simp_all add: c rc f in_heap_def host_null_def pending_simps\<close>)
  have n: "bx (\<lambda>r. r < 0) vs = 0" by (rule zero) auto
  show ?thesis
    unfolding minv_def t
  proof (intro conjI allI)
    show "shape ?m" by (simp add: shape_def active_def machine_on_def sample_frame_def frame_ok_def)
  qed (use h n in \<open>simp_all add: host_null_def\<close>)
qed

lemma sample_minv:
  assumes "set (box_refs vs) \<subseteq> {0, 1, 2}" "1 \<in> set (box_refs vs)" "2 \<in> set (box_refs vs)"
  shows "minv host_null (sample_machine vs)"
  unfolding sample_machine_def by (rule machine_on_minv [OF assms]) (simp_all add: leaf_def)

lemma box_refs_simps: "box_refs [] = []" "box_refs (v # vs) = (if boxed_kind v = KindRef then [as_ref v] else []) @ box_refs vs"
  by (simp_all add: box_refs_def)


section \<open>What the moves promise\<close>

lemma books_br: "minv e m \<Longrightarrow> minv e (advance i m)"
  by (rule minv_step [OF _ minvD(5), where d = "\<lambda>P. 0"]) (simp_all add: minvD(1))

lemma books_global_slot:
  assumes m: "minv e m" and pl: "plainly \<Longrightarrow> boxed_kind (m_globals m ! k) \<noteq> KindRef"
  shows "okrun e (get_from m_globals k 3 plainly m)"
    and "(plainly \<Longrightarrow> boxed_kind (top m 1) \<noteq> KindRef) \<Longrightarrow> okrun e (global_slot do_tee k plainly m)"
    and "plainly \<Longrightarrow> okrun e (global_slot do_set k plainly m)"
proof -
  show "okrun e (get_from m_globals k 3 plainly m)"
    using m books_copy [OF m not_full [OF m] covers_global [OF m], of k plainly 3] pl by (auto simp: get_from_def Let_def)
  show "okrun e (global_slot do_tee k plainly m)" if "plainly \<Longrightarrow> boxed_kind (top m 1) \<noteq> KindRef"
    using m books_tee [OF m _ replaces_global [OF m] covers_global [OF m], of k plainly 3] pl that
    by (auto simp: global_slot_def)
  show "okrun e (global_slot do_set k plainly m)" if plainly
    using m books_set [OF m _ replaces_global [OF m] covers_global [OF m] refl, of k plainly 3] pl that
    by (auto simp: global_slot_def bx_1)
qed

lemma books_local_slot:
  assumes m: "minv e m" and pl: "plainly \<Longrightarrow> boxed_kind (m_stack m ! (f_bp (fr m) + k)) \<noteq> KindRef"
  shows "okrun e (do_local_get k plainly m)"
    and "(plainly \<Longrightarrow> boxed_kind (top m 1) \<noteq> KindRef) \<Longrightarrow> okrun e (local_slot do_tee k plainly m)"
    and "plainly \<Longrightarrow> okrun e (local_slot do_set k plainly m)"
proof -
  show "okrun e (do_local_get k plainly m)" by (rule books_local_get [OF m pl])
  show "okrun e (local_slot do_tee k plainly m)" if "plainly \<Longrightarrow> boxed_kind (top m 1) \<noteq> KindRef"
    using m books_tee [OF m _ replaces_local [OF m] covers_slot [OF m], of "f_bp (fr m) + k" plainly 2] pl that
    by (auto simp: local_slot_def Let_def)
  show "okrun e (local_slot do_set k plainly m)" if plainly
    using m books_set [OF m _ replaces_local [OF m] covers_slot [OF m] refl, of "f_bp (fr m) + k" plainly 2] pl that
    by (auto simp: local_slot_def Let_def bx_1)
qed

text \<open>C17: Moves keep the books.  On every outcome, traps included, these keep the machine's reference books
  exact: DROP, DUP, SWAP, REF_NULL, BR, CONST_GET of a constant of the pool, and GLOBAL_GET, LOCAL_GET,
  GLOBAL_TEE and LOCAL_TEE in the form that counts references; BR_IF, BR_TABLE and SELECT when the
  condition on top is not a reference; and the forms without counting, which the translation picks
  for slots of plain kind, of GLOBAL_GET, LOCAL_GET, GLOBAL_SET, LOCAL_SET, GLOBAL_TEE and LOCAL_TEE when
  the word in the slot (for TEE also the word on top) is not a reference.  Counted SETs are not
  among them.\<close>

theorem moves_keep_books:
  assumes m: "minv e m"
  shows "okrun e (do_drop m) \<and> okrun e (do_dup m) \<and> okrun e (do_swap m) \<and> okrun e (do_ref_null m)
    \<and> pred_option (\<lambda>br. okrun e (br m)) (op_br c ip)
    \<and> list_all (\<lambda>r. okrun e (do_const r m)) (m_constants m)
    \<and> okrun e (get_from m_globals k 3 False m) \<and> okrun e (do_local_get k False m)
    \<and> okrun e (global_slot do_tee k False m) \<and> okrun e (local_slot do_tee k False m)
    \<and> (m_sp m = 0 \<or> boxed_kind (top m 1) \<noteq> KindRef \<longrightarrow>
         okrun e (do_br_if off m) \<and> okrun e (do_br_table offs m) \<and> okrun e (do_select m))
    \<and> (boxed_kind (m_globals m ! k) \<noteq> KindRef \<longrightarrow>
         okrun e (get_from m_globals k 3 True m) \<and> okrun e (global_slot do_set k True m)
         \<and> (boxed_kind (top m 1) \<noteq> KindRef \<longrightarrow> okrun e (global_slot do_tee k True m)))
    \<and> (boxed_kind (m_stack m ! (f_bp (fr m) + k)) \<noteq> KindRef \<longrightarrow>
         okrun e (do_local_get k True m) \<and> okrun e (local_slot do_set k True m)
         \<and> (boxed_kind (top m 1) \<noteq> KindRef \<longrightarrow> okrun e (local_slot do_tee k True m)))"
proof (intro conjI impI)
  show "pred_option (\<lambda>br. okrun e (br m)) (op_br c ip)"
    by (cases "parse_i16 (tr_code c) (ip + 1)") (simp_all add: op_br_def books_br [OF m])
  show "list_all (\<lambda>r. okrun e (do_const r m)) (m_constants m)" using books_const [OF m] by (simp add: list_all_iff)
qed (use books_drop [OF m] books_dup [OF m] books_swap [OF m] books_ref_null [OF m] books_br_if [OF m] books_select [OF m]
  books_global_slot [OF m] books_local_slot [OF m] in auto)

theorem moves_keep_books_witness:
  "okrun host_null (do_dup (sample_machine [box_ref 1, box_ref 2]))
   \<and> okrun host_null (do_select (sample_machine [box_ref 1, box_ref 2, box_i32 0]))"
proof -
  have "minv host_null (sample_machine [box_ref 1, box_ref 2])"
    "minv host_null (sample_machine [box_ref 1, box_ref 2, box_i32 0])"
    by (rule sample_minv; simp add: box_refs_simps)+
  moreover have "boxed_kind (top (sample_machine [box_ref 1, box_ref 2, box_i32 0]) 1) \<noteq> KindRef"
    by (simp add: top_def sample_machine_def machine_on_def)
  ultimately show ?thesis
    using moves_keep_books [of host_null "sample_machine [box_ref 1, box_ref 2]"]
      moves_keep_books [of host_null "sample_machine [box_ref 1, box_ref 2, box_i32 0]"] by blast
qed

text \<open>C32: LOCAL_SET and GLOBAL_SET release the value they overwrite, and the books stay exact, unless the
  slot already holds the very reference being stored: then the operand's count is never given back
  and the reference leaks.\<close>

theorem stores_leak_equal:
  assumes m: "minv e m" and sp: "0 < m_sp m"
  shows "(f_bp (fr m) + k < m_sp m \<longrightarrow>
        (if m_stack m ! (f_bp (fr m) + k) = top m 1
         then okrun (\<lambda>a. e a + bx (\<lambda>r. r = int a) [top m 1]) (local_slot do_set k False m)
         else okrun e (local_slot do_set k False m)))
    \<and> (k < length (m_globals m) \<longrightarrow>
        (if m_globals m ! k = top m 1
         then okrun (\<lambda>a. e a + bx (\<lambda>r. r = int a) [top m 1]) (global_slot do_set k False m)
         else okrun e (global_slot do_set k False m)))"
  using books_set [OF m sp replaces_local [OF m] covers_slot [OF m] refl, of "f_bp (fr m) + k" False 2]
    books_set [OF m sp replaces_global [OF m] covers_global [OF m] refl, of k False 3] sp
  by (auto simp: local_slot_def global_slot_def Let_def)

theorem stores_leak_equal_witness:
  "okrun (\<lambda>a. host_null a + (if a = 2 then 1 else 0)) (local_slot do_set 0 False (sample_machine [box_ref 2, box_ref 1, box_ref 2]))"
proof -
  let ?m = "sample_machine [box_ref 2, box_ref 1, box_ref 2]"
  have m: "minv host_null ?m" by (rule sample_minv) (simp_all add: box_refs_simps)
  have f: "m_sp ?m = 3" "f_bp (fr ?m) = 0" "top ?m 1 = box_ref 2" "m_stack ?m ! 0 = box_ref 2"
    by (simp_all add: sample_machine_def machine_on_def fr_def sample_frame_def top_def)
  have "(\<lambda>a. host_null a + bx (\<lambda>r. r = int a) [box_ref 2]) = (\<lambda>a. host_null a + (if a = 2 then 1 else 0))"
    by (auto simp: bx_1)
  then show ?thesis using stores_leak_equal [OF m, of 0] f by simp
qed

end
