(* ===== verification/CallsInv.thy ===== *)
theory CallsInv
  imports Calls MachineInv
begin

text \<open>
  The books through calls, returns, coroutines and exceptions.  Some of these operations can lose a
  count (a reference that nothing will release), but none can take one it does not own: from a
  machine with exact books every outcome, traps included, is a machine whose books are exact once the
  lost counts are added to the host's.  \<open>has h L\<close> is what the proofs track: the heap is exact for
  roots that include at least \<open>L\<close>.
\<close>

section \<open>The code tables keep their length\<close>

lemma code_len_reclaim [simp]: "length (h_instrs (reclaim a v h)) = length (h_instrs h)"
  by (cases v) (auto simp: reclaim_def finalize_def remove_code_def Let_def)

lemma code_len_loop: "release_loop w h = Inr h' \<Longrightarrow> length (h_instrs h') = length (h_instrs h)"
proof (induction w h rule: release_loop.induct)
  case (2 a w h)
  then show ?case by (auto simp: Let_def split: if_splits)
qed simp

lemma code_len_release: "release a h = Inr h' \<Longrightarrow> length (h_instrs h') = length (h_instrs h)"
  using code_len_loop [of "[a]" h h'] by (auto simp: release_def Let_def split: if_splits)

lemma code_len_retain: "retain a h = Inr h' \<Longrightarrow> length (h_instrs h') = length (h_instrs h)"
  by (auto simp: retain_def retains_def split: if_splits)

lemma code_len_box:
  "release_box v h = Inr h' \<Longrightarrow> length (h_instrs h') = length (h_instrs h)"
  "retain_box v h = Inr h' \<Longrightarrow> length (h_instrs h') = length (h_instrs h)"
  using code_len_release [of "as_ref v" h h'] code_len_retain [of "as_ref v" h h']
  by (auto simp: release_box_def retain_box_def Let_def split: if_splits)

section \<open>Lower bounds on the roots\<close>

definition has :: "heap \<Rightarrow> (nat \<Rightarrow> int) \<Rightarrow> bool" where
  "has h L \<longleftrightarrow> (\<exists>E. hinv [] E h \<and> (\<forall>a. L a \<le> E a))"

lemma hasI: "hinv [] E h \<Longrightarrow> (\<And>a. L a \<le> E a) \<Longrightarrow> has h L"
  by (auto simp: has_def)

lemma has_le: "has h L \<Longrightarrow> (\<And>a. L' a \<le> L a) \<Longrightarrow> has h L'"
  unfolding has_def by (meson order_trans)

lemma covers_more: "covers_ref L v \<Longrightarrow> (\<And>a. L a \<le> E a) \<Longrightarrow> covers_ref E v"
  unfolding covers_ref_def by (meson order_trans)

text \<open>The slots that roots hold throughout keep their values.\<close>

definition same_cells :: "(nat \<Rightarrow> int) \<Rightarrow> heap \<Rightarrow> heap \<Rightarrow> bool" where
  "same_cells L h h' \<longleftrightarrow> length (h_instrs h') = length (h_instrs h)
     \<and> (\<forall>a. 1 \<le> L a \<longrightarrow> h_cells h' ! a = h_cells h ! a)"

lemma same_cellsI:
  assumes h: "hinv [] E h'" and "\<And>a. L a \<le> E a"
    and k: "\<forall>b. slot_live h' b \<longrightarrow> slot_live h b \<and> slot_value h' b = slot_value h b"
    and l: "length (h_instrs h') = length (h_instrs h)"
  shows "same_cells L h h'"
  unfolding same_cells_def
proof (intro allI impI conjI l)
  fix a assume "1 \<le> L a"
  then have "1 \<le> E a" using assms(2) [of a] by linarith
  from owned_slot_live [OF h this] show "h_cells h' ! a = h_cells h ! a" using k by (simp add: slot_value_def)
qed

lemma same_cells_refl: "same_cells L h h"
  by (simp add: same_cells_def)

lemma same_cells_trans: "same_cells L h h1 \<Longrightarrow> same_cells L' h1 h2 \<Longrightarrow> (\<And>a. L' a \<le> L a) \<Longrightarrow> same_cells L' h h2"
  unfolding same_cells_def by (metis order_trans)

lemma has_release:
  assumes h: "has (m_heap m) L" and c: "covers_ref L v"
  shows "\<exists>h'. release_m v m = Inr (m\<lparr>m_heap := h'\<rparr>) \<and> has h' (\<lambda>a. L a - bx (\<lambda>r. r = int a) [v])
    \<and> same_cells (\<lambda>a. L a - bx (\<lambda>r. r = int a) [v]) (m_heap m) h'"
proof -
  from h obtain E where E: "hinv [] E (m_heap m)" "\<And>a. L a \<le> E a" by (auto simp: has_def)
  from release_box_ok [OF E(1) covers_more [OF c E(2)]] obtain h' where
    h': "release_box v (m_heap m) = Inr h'" "hinv [] (\<lambda>a. E a - bx (\<lambda>r. r = int a) [v]) h'"
      "\<forall>b. slot_live h' b \<longrightarrow> slot_live (m_heap m) b \<and> slot_value h' b = slot_value (m_heap m) b" by blast
  note le = diff_right_mono [OF E(2)]
  have "has h' (\<lambda>a. L a - bx (\<lambda>r. r = int a) [v])" by (rule hasI [OF h'(2)]) (rule le)
  moreover have "same_cells (\<lambda>a. L a - bx (\<lambda>r. r = int a) [v]) (m_heap m) h'"
    by (rule same_cellsI [OF h'(2) _ h'(3) code_len_box(1) [OF h'(1)]]) (rule le)
  ultimately show ?thesis using h'(1) by (intro exI [of _ h']) (simp add: release_m_def on_heap_def)
qed

lemma has_retain:
  assumes h: "has (m_heap m) L" and c: "covers_ref L v"
  shows "\<exists>h'. retain_m v m = Inr (m\<lparr>m_heap := h'\<rparr>) \<and> has h' (\<lambda>a. L a + bx (\<lambda>r. r = int a) [v])"
proof -
  from h obtain E where E: "hinv [] E (m_heap m)" "\<And>a. L a \<le> E a" by (auto simp: has_def)
  from retain_m_ok [OF E(1) covers_more [OF c E(2)]] obtain h' where
    h': "retain_m v m = Inr (m\<lparr>m_heap := h'\<rparr>)" "hinv [] (\<lambda>a. E a + bx (\<lambda>r. r = int a) [v]) h'" .
  have "has h' (\<lambda>a. L a + bx (\<lambda>r. r = int a) [v])" by (rule hasI [OF h'(2)]) (rule add_right_mono [OF E(2)])
  then show ?thesis using h'(1) by blast
qed

text \<open>A bare reference, as a frame holds it.\<close>

definition holds_ref :: "(nat \<Rightarrow> int) \<Rightarrow> int \<Rightarrow> bool" where
  "holds_ref L r \<longleftrightarrow> 0 \<le> r \<and> 1 + (if r = 0 then 1 else 0) \<le> L (nat r)"

lemma has_release_ref:
  assumes h: "has (m_heap m) L" and c: "holds_ref L r"
  shows "\<exists>h'. on_heap (release r) m = Inr (m\<lparr>m_heap := h'\<rparr>) \<and> has h' (\<lambda>a. L a - (if int a = r then 1 else 0))
    \<and> same_cells (\<lambda>a. L a - (if int a = r then 1 else 0)) (m_heap m) h'"
proof -
  from h obtain E where E: "hinv [] E (m_heap m)" "\<And>a. L a \<le> E a" by (auto simp: has_def)
  have r: "0 \<le> r" "1 + (if r = 0 then 1 else 0) \<le> E (nat r)" using c E(2) [of "nat r"] by (auto simp: holds_ref_def)
  then have "1 \<le> E (nat r)" "nat r = 0 \<longrightarrow> 2 \<le> E (nat r)" by (auto split: if_splits)
  from cs.drop_ok [OF E(1) this] r(1) obtain h' where
    h': "release r (m_heap m) = Inr h'" "hinv [] (E(nat r := E (nat r) - 1)) h'"
      "\<forall>b. slot_live h' b \<longrightarrow> slot_live (m_heap m) b \<and> slot_value h' b = slot_value (m_heap m) b" by auto
  have le: "L a - (if int a = r then 1 else 0) \<le> (E(nat r := E (nat r) - 1)) a" for a
    using E(2) [of a] r(1) by auto
  have "has h' (\<lambda>a. L a - (if int a = r then 1 else 0))" by (rule hasI [OF h'(2) le])
  moreover have "same_cells (\<lambda>a. L a - (if int a = r then 1 else 0)) (m_heap m) h'"
    by (rule same_cellsI [OF h'(2) le h'(3) code_len_release [OF h'(1)]])
  ultimately show ?thesis using h'(1) by (intro exI [of _ h']) (simp add: on_heap_def)
qed

lemma has_retain_null:
  assumes h: "has (m_heap m) L" and c: "1 \<le> L 0"
  shows "\<exists>h'. on_heap (retain 0) m = Inr (m\<lparr>m_heap := h'\<rparr>) \<and> has h' (\<lambda>a. L a + (if a = 0 then 1 else 0))"
proof -
  from h obtain E where E: "hinv [] E (m_heap m)" "\<And>a. L a \<le> E a" by (auto simp: has_def)
  have "1 \<le> E 0" using c E(2) [of 0] by linarith
  from cs.take_ok [OF E(1) cs.owned_live [OF E(1) this]] obtain h' where
    h': "retain 0 (m_heap m) = Inr h'" "hinv [] (E(0 := E 0 + 1)) h'" by auto
  have "has h' (\<lambda>a. L a + (if a = 0 then 1 else 0))" by (rule hasI [OF h'(2)]) (use E(2) in simp)
  then show ?thesis using h'(1) by (intro exI [of _ h']) (simp add: on_heap_def)
qed

definition covers_list :: "(nat \<Rightarrow> int) \<Rightarrow> boxed list \<Rightarrow> bool" where
  "covers_list L vs \<longleftrightarrow> bx (\<lambda>r. r < 0) vs = 0 \<and> (\<forall>a. bx (\<lambda>r. r = int a) vs + (if a = 0 then 1 else 0) \<le> L a)"

lemma covers_list_Cons:
  assumes "covers_list L (v # vs)"
  shows "covers_ref L v" "covers_list (\<lambda>a. L a - bx (\<lambda>r. r = int a) [v]) vs"
proof -
  have n: "bx (\<lambda>r. r < 0) [v] = 0" "bx (\<lambda>r. r < 0) vs = 0"
    using assms bx_Cons [of "\<lambda>r. r < 0" v vs] bx_nonneg [of "\<lambda>r. r < 0" "[v]"] bx_nonneg [of "\<lambda>r. r < 0" vs]
    unfolding covers_list_def by linarith+
  have a: "bx (\<lambda>r. r = int a) [v] + bx (\<lambda>r. r = int a) vs + (if a = 0 then 1 else 0) \<le> L a" for a
    using assms unfolding covers_list_def bx_Cons [of "\<lambda>r. r = int a" for a, of _ v vs] by blast
  show "covers_ref L v" unfolding covers_ref_def
  proof (intro conjI allI)
    show "bx (\<lambda>r. r = int a) [v] + (if a = 0 then 1 else 0) \<le> L a" for a
      using a [of a] bx_nonneg [of "\<lambda>r. r = int a" vs] by linarith
  qed (rule n)
  show "covers_list (\<lambda>a. L a - bx (\<lambda>r. r = int a) [v]) vs" unfolding covers_list_def
  proof (intro conjI allI)
    show "bx (\<lambda>r. r = int a) vs + (if a = 0 then 1 else 0) \<le> L a - bx (\<lambda>r. r = int a) [v]" for a
      using a [of a] by linarith
  qed (rule n)
qed

lemma has_release_vals:
  "has (m_heap m) L \<Longrightarrow> covers_list L vs \<Longrightarrow>
   \<exists>h'. release_vals vs m = Inr (m\<lparr>m_heap := h'\<rparr>) \<and> has h' (\<lambda>a. L a - bx (\<lambda>r. r = int a) vs)
     \<and> same_cells (\<lambda>a. L a - bx (\<lambda>r. r = int a) vs) (m_heap m) h'"
proof (induction vs arbitrary: m L)
  case Nil
  then show ?case by (intro exI [of _ "m_heap m"]) (simp add: same_cells_refl)
next
  case (Cons v vs)
  note c = covers_list_Cons [OF Cons.prems(2)]
  from has_release [OF Cons.prems(1) c(1)] obtain h1 where
    h1: "release_m v m = Inr (m\<lparr>m_heap := h1\<rparr>)" "has h1 (\<lambda>a. L a - bx (\<lambda>r. r = int a) [v])"
      "same_cells (\<lambda>a. L a - bx (\<lambda>r. r = int a) [v]) (m_heap m) h1" by blast
  have "has (m_heap (m\<lparr>m_heap := h1\<rparr>)) (\<lambda>a. L a - bx (\<lambda>r. r = int a) [v])" using h1(2) by simp
  from Cons.IH [OF this c(2)] obtain h' where
    h': "release_vals vs (m\<lparr>m_heap := h1\<rparr>) = Inr (m\<lparr>m_heap := h'\<rparr>)"
      "has h' (\<lambda>a. L a - bx (\<lambda>r. r = int a) [v] - bx (\<lambda>r. r = int a) vs)"
      "same_cells (\<lambda>a. L a - bx (\<lambda>r. r = int a) [v] - bx (\<lambda>r. r = int a) vs) h1 h'" by auto
  have eq: "L a - bx (\<lambda>r. r = int a) (v # vs) = L a - bx (\<lambda>r. r = int a) [v] - bx (\<lambda>r. r = int a) vs" for a
    by (simp add: bx_Cons [of _ v vs])
  have "same_cells (\<lambda>a. L a - bx (\<lambda>r. r = int a) [v] - bx (\<lambda>r. r = int a) vs) (m_heap m) h'"
    by (rule same_cells_trans [OF h1(3) h'(3)]) simp
  then show ?case using h1(1) h'(1,2) unfolding eq by auto
qed

text \<open>
  Replacing the value in a slot some root holds: the references the new value has beyond the old one's
  are taken from the roots, those it no longer has are left to the host.
\<close>

lemma has_update_cell:
  assumes h: "has h L" and a: "1 \<le> L a" "a \<noteq> 0" and v: "cell_ok v"
    and sub: "set (refs v) \<subseteq> set (refs (h_cells h ! a)) \<union> set as" "\<And>r. r \<in> set as \<Longrightarrow> 0 \<le> r"
    and le: "\<And>b. pending (refs v) b \<le> pending (refs (h_cells h ! a)) b + pending as b"
    and o: "\<And>b. pending as b + (if b = 0 then 1 else 0) \<le> L b"
  shows "has (h\<lparr>h_cells := (h_cells h)[a := v]\<rparr>) (\<lambda>b. L b + pending (refs (h_cells h ! a)) b - pending (refs v) b)"
proof -
  from h obtain E where h: "hinv [] E h" and L: "\<And>a. L a \<le> E a" by (auto simp: has_def)
  have "1 \<le> E a" using a(1) L [of a] by linarith
  from owned_slot_live [OF h this] have live: "a < length (h_cells h)" "0 < h_rc h ! a" by (auto simp: slot_live_def alive_def)
  let ?h = "h\<lparr>h_cells := (h_cells h)[a := v]\<rparr>" and ?u = "h_cells h ! a"
  let ?E = "\<lambda>b. E b + pending (refs ?u) b - pending (refs v) b"
  have e: "edges (h_cells ?h) b = edges (h_cells h) b - pending (refs ?u) b + pending (refs v) b" for b
    using edges_update [OF live(1), of v b] by simp
  have ub: "in_heap h (refs ?u)" by (rule hinvD(4) [OF h nth_mem [OF live(1)]])
  have ab: "r < int (length (h_cells h))" if r: "r \<in> set as" for r
  proof -
    have "1 \<le> pending as (nat r)" by (rule pending_pos [OF r sub(2) [OF r]])
    then have "E (nat r) \<noteq> 0" using o [of "nat r"] L [of "nat r"] by (simp split: if_splits)
    then show ?thesis using hinvD(13) [OF h, of "nat r"] sub(2) [OF r] by linarith
  qed
  have vb: "in_heap h (refs v)" using sub ab ub unfolding in_heap_def by blast
  have old: "pending (refs ?u) b = 0" "pending (refs v) b = 0" if "length (h_cells h) \<le> b" for b
    using ub vb that by (auto intro!: pending_zero simp: in_heap_def)
  have Ele: "L b - pending as b \<le> ?E b" for b using le [of b] L [of b] by linarith
  have "hinv [] ?E ?h"
    unfolding hinv_def
  proof (intro conjI allI impI ballI)
    show "h_cells ?h ! 0 = HNull" using hinvD(15) [OF h] a(2) by simp
    have mem: "u = v \<or> u \<in> set (h_cells h)" if "u \<in> set (h_cells ?h)" for u
      using that by (auto dest: set_update_subset_insert [THEN subsetD])
    show "in_heap ?h (refs u)" if "u \<in> set (h_cells ?h)" for u
      using mem [OF that] hinvD(4) [OF h, of u] vb by (auto simp: in_heap_def)
    show "cell_ok u" if "u \<in> set (h_cells ?h)" for u using mem [OF that] hinvD(14) [OF h, of u] v by auto
    show "0 \<le> ?E b" for b
    proof -
      have "pending as b \<le> L b" using o [of b] by (simp split: if_splits)
      then show ?thesis using Ele [of b] by linarith
    qed
    show "?E b = 0" if "length (h_cells ?h) \<le> b" for b
      using hinvD(13) [OF h, of b] old [of b] that by simp
    show "1 \<le> ?E 0" using o [of 0] Ele [of 0] by simp
    show "?E 0 + edges (h_cells ?h) 0 + pending [] 0 \<le> h_rc ?h ! 0" using hinvD(8) [OF h] e [of 0] by simp
    show "h_rc ?h ! b = ?E b + edges (h_cells ?h) b + pending [] b" if "0 < b" "b < length (h_cells ?h)" for b
      using hinvD(9) [OF h, of b] that e [of b] by simp
    show "h_cells ?h ! b = HNil" if "0 < b" "b < length (h_cells ?h)" "h_rc ?h ! b = 0" for b
      using hinvD(10) [OF h, of b] that live by (cases "b = a") auto
  qed (use hinvD [OF h] in \<open>simp_all add: in_heap_def\<close>)
  then show ?thesis by (rule hasI) (simp add: L)
qed

section \<open>Outcomes with exact books\<close>

definition state_of :: "run \<Rightarrow> machine" where
  "state_of r = (case r of Inl (t, m) \<Rightarrow> m | Inr m \<Rightarrow> m)"

lemma state_of_simps [simp]: "state_of (Inl (t, m)) = m" "state_of (Inr m) = m"
  by (simp_all add: state_of_def)

definition safe :: "(nat \<Rightarrow> int) \<Rightarrow> run \<Rightarrow> bool" where
  "safe e r \<longleftrightarrow> (\<exists>e'. (\<forall>a. e a \<le> e' a) \<and> minv e' (state_of r))"

lemma safe_refl [simp]: "minv e m \<Longrightarrow> safe e (Inl (t, m))" "minv e m \<Longrightarrow> safe e (Inr m)"
  by (auto simp: safe_def)

lemma safe_trap: "safe e (Inl (t, m)) = safe e (Inr m)"
  by (simp add: safe_def)

lemma okrun_safe: "okrun e r \<Longrightarrow> safe e r"
  by (auto simp: okrun_def safe_def state_of_def split: sum.splits)

lemma safe_has:
  assumes m: "minv e m" and h: "has h L" and "m_heap (state_of r) = h" and "shape (state_of r)"
    and "tally (state_of r) (\<lambda>r. r < 0) = 0" and t: "\<And>a. tally (state_of r) (\<lambda>r. r = int a) + e a \<le> L a"
  shows "safe e r"
proof -
  from h obtain E where E: "hinv [] E h" "\<And>a. L a \<le> E a" by (auto simp: has_def)
  let ?e = "\<lambda>a. E a - tally (state_of r) (\<lambda>r. r = int a)"
  have le: "e a \<le> ?e a" for a using t [of a] E(2) [of a] by linarith
  have "minv ?e (state_of r)"
  proof (rule minvI [OF assms(4) _ _ assms(5) E(1) assms(3)])
    show "0 \<le> ?e a" for a using le [of a] minvD(2) [OF m, of a] by linarith
    show "1 \<le> ?e 0" using le [of 0] minvD(3) [OF m] by linarith
  qed simp
  then show ?thesis unfolding safe_def using le by (intro exI [of _ ?e]) simp
qed

lemma minv_has: "minv e m \<Longrightarrow> has (m_heap m) (books e m)"
  using minvD(5) by (auto simp: has_def)


section \<open>Operands and the rest of the roots\<close>

definition rest :: "machine \<Rightarrow> (int \<Rightarrow> bool) \<Rightarrow> int" where
  "rest m P = bx P (m_globals m) + bx P (m_constants m) + cnt P (concat (map frame_refs (active m)))"

lemma tally_rest: "tally m P = bx P (operands_of m) + rest m P"
  by (simp add: tally_def rest_def)

lemma rest_nonneg [simp]: "0 \<le> rest m P"
  by (simp add: rest_def add_nonneg_nonneg)

lemma rest_updates [simp]:
  "rest (m\<lparr>m_heap := h\<rparr>) P = rest m P" "rest (set_sp n m) P = rest m P" "rest (clear_range a n m) P = rest m P"
  "rest (move_range a b n m) P = rest m P" "rest (put_image a vs m) P = rest m P" "rest (poke k v m) P = rest m P"
  "rest (popn n m) P = rest m P" "rest (push v m) P = rest m P" "rest (set_top k v m) P = rest m P"
  by (simp_all add: rest_def active_def set_sp_def clear_range_def move_range_def put_image_def poke_def popn_def push_def set_top_def)

lemma mod_coro_heap: "\<exists>h. mod_coro a g m = m\<lparr>m_heap := h\<rparr>"
proof -
  have "\<exists>h. m = m\<lparr>m_heap := h\<rparr>" by (intro exI [of _ "m_heap m"]) simp
  then show ?thesis unfolding mod_coro_def set_cell_def by (auto split: sum.splits hval.splits)
qed

lemma rest_advance [simp]: "shape m \<Longrightarrow> rest (advance i m) P = rest m P"
  using tally_advance [of m i P] by (simp add: tally_rest operands_of_def advance_def set_fr_def)

lemma rest_push_frame [simp]:
  "shape m \<Longrightarrow> m_fp m < length (m_frames m) \<Longrightarrow> rest (push_frame f m) P = rest m P + cnt P (frame_refs f)"
  by (simp add: rest_def active_def push_frame_def take_Suc_conv_app_nth)

lemma active_last: "shape m \<Longrightarrow> active m = take (m_fp m - 1) (m_frames m) @ [fr m]"
proof -
  assume "shape m"
  then have "m_fp m - 1 < length (m_frames m)" "0 < m_fp m" by (auto simp: shape_def)
  from take_Suc_conv_app_nth [OF this(1)] this(2) show ?thesis by (simp add: active_def fr_def)
qed

lemma rest_pop_frame [simp]:
  assumes "shape m"
  shows "rest (pop_frame g m) P = rest m P - cnt P (frame_refs (fr m))"
proof -
  have "active (pop_frame g m) = take (m_fp m - 1) (m_frames m)"
    by (simp add: active_def pop_frame_def set_fr_def)
  then show ?thesis using active_last [OF assms] by (simp add: rest_def pop_frame_def)
qed

lemma rest_set_fr [simp]:
  assumes "shape m"
  shows "rest (set_fr g m) P = rest m P - cnt P (frame_refs (fr m)) + cnt P (frame_refs (g (fr m)))"
proof -
  have "m_fp m - 1 < length (m_frames m)" using assms by (auto simp: shape_def)
  then have "active (set_fr g m) = take (m_fp m - 1) (m_frames m) @ [g (fr m)]"
    using active_set_fr [OF assms, of g] active_last [OF assms] by (simp add: list_update_append)
  then show ?thesis using active_last [OF assms] by (simp add: rest_def)
qed

lemma rest_frame: "shape m \<Longrightarrow> cnt P (frame_refs (fr m)) \<le> rest m P"
  using rest_nonneg [of "pop_frame id m" P] by simp

lemma shape_calls [simp]:
  "shape m \<Longrightarrow> n \<le> length (m_stack m) \<Longrightarrow> shape (set_sp n m)"
  "shape m \<Longrightarrow> a + n \<le> length (m_stack m) \<Longrightarrow> shape (clear_range a n m)"
  "shape m \<Longrightarrow> a + n \<le> length (m_stack m) \<Longrightarrow> b + n \<le> length (m_stack m) \<Longrightarrow> shape (move_range a b n m)"
  "shape m \<Longrightarrow> a + length vs \<le> length (m_stack m) \<Longrightarrow> shape (put_image a vs m)"
  by (auto simp: shape_def active_def set_sp_def clear_range_def move_range_def put_image_def)

lemma shape_push_frame [simp]:
  "shape m \<Longrightarrow> m_fp m < length (m_frames m) \<Longrightarrow> frame_ok f \<Longrightarrow> f_bp f < length (m_stack m) \<Longrightarrow> shape (push_frame f m)"
  by (auto simp: shape_def active_def push_frame_def take_Suc_conv_app_nth)

lemma shape_pop_frame [simp]: "shape m \<Longrightarrow> 1 < m_fp m \<Longrightarrow> shape (pop_frame g m)"
  using active_last [of m] by (auto simp: shape_def active_def pop_frame_def set_fr_def)

lemma m_stack_calls [simp]:
  "m_stack (set_sp n m) = m_stack m" "m_stack (push_frame f m) = m_stack m" "m_stack (pop_frame g m) = m_stack m"
  "m_stack (clear_range a n m) = take a (m_stack m) @ replicate n 0 @ drop (a + n) (m_stack m)"
  "m_stack (move_range a b n m) = take a (m_stack m) @ take n (drop b (m_stack m)) @ drop (a + n) (m_stack m)"
  "m_stack (put_image a vs m) = take a (m_stack m) @ vs @ drop (a + length vs) (m_stack m)"
  by (simp_all add: set_sp_def push_frame_def pop_frame_def set_fr_def clear_range_def move_range_def put_image_def)

lemma m_sp_calls [simp]:
  "m_sp (set_sp n m) = n" "m_sp (push_frame f m) = m_sp m" "m_sp (pop_frame g m) = m_sp m"
  "m_sp (clear_range a n m) = m_sp m" "m_sp (move_range a b n m) = m_sp m" "m_sp (put_image a vs m) = m_sp m"
  by (simp_all add: set_sp_def push_frame_def pop_frame_def set_fr_def clear_range_def move_range_def put_image_def)

lemma m_heap_calls [simp]:
  "m_heap (set_sp n m) = m_heap m" "m_heap (push_frame f m) = m_heap m" "m_heap (pop_frame g m) = m_heap m"
  "m_heap (clear_range a n m) = m_heap m" "m_heap (move_range a b n m) = m_heap m" "m_heap (put_image a vs m) = m_heap m"
  by (simp_all add: set_sp_def push_frame_def pop_frame_def set_fr_def clear_range_def move_range_def put_image_def)

lemma m_frames_calls [simp]:
  "m_frames (set_sp n m) = m_frames m" "m_fp (set_sp n m) = m_fp m" "m_fp (push_frame f m) = m_fp m + 1"
  "m_fp (pop_frame g m) = m_fp m - 1" "m_frames (clear_range a n m) = m_frames m" "m_fp (clear_range a n m) = m_fp m"
  "m_frames (move_range a b n m) = m_frames m" "m_fp (move_range a b n m) = m_fp m"
  "m_frames (put_image a vs m) = m_frames m" "m_fp (put_image a vs m) = m_fp m"
  "length (m_frames (advance i m)) = length (m_frames m)"
  by (simp_all add: set_sp_def push_frame_def pop_frame_def set_fr_def clear_range_def move_range_def put_image_def advance_def)

lemma fr_calls [simp]:
  "fr (set_sp n m) = fr m" "fr (clear_range a n m) = fr m" "fr (move_range a b n m) = fr m" "fr (put_image a vs m) = fr m"
  by (simp_all add: fr_def)

lemma slice_heap [simp]: "slice lo hi (m\<lparr>m_heap := h\<rparr>) = slice lo hi m"
  by (simp add: slice_def)

text \<open>The operands as what lies below a bound and what lies above it.\<close>

lemma operands_split:
  assumes "lo \<le> m_sp m"
  shows "operands_of m = take lo (m_stack m) @ slice lo (m_sp m) m"
  using take_add [of lo "m_sp m - lo" "m_stack m"] assms by (simp add: operands_of_def slice_def)

lemma slice_split: "lo \<le> k \<Longrightarrow> k \<le> hi \<Longrightarrow> slice lo hi m = slice lo k m @ slice k hi m"
  using take_add [of "k - lo" "hi - k" "drop lo (m_stack m)"] by (simp add: slice_def)

lemma slice_top: "0 < m_sp m \<Longrightarrow> m_sp m \<le> length (m_stack m) \<Longrightarrow> slice (m_sp m - 1) (m_sp m) m = [top m 1]"
  by (simp add: slice_def top_def take_Suc_conv_app_nth hd_drop_conv_nth [symmetric] take_Suc)

lemma boxed_kind_0 [simp]: "boxed_kind 0 = KindF64"
  by (simp add: boxed_kind_def)

lemma bx_zeros [simp]: "bx P (replicate n 0) = 0"
  by (induction n) (simp_all add: bx_Cons [of P 0] bx_1)


section \<open>Calls\<close>

lemma with_code_safe:
  assumes "safe e (Inr m)" "\<And>u. safe e (k u)"
  shows "safe e (with_code a m k)"
  using assms by (auto simp: with_code_def Let_def safe_trap split: sum.split hval.split)

lemma host_ge: "minv e m \<Longrightarrow> (if b = 0 then 1 else 0) \<le> e b"
  using minvD(2) [of e m b] minvD(3) [of e m] by (cases "b = 0") auto

lemma has_alloc:
  assumes h: "has h L" and o: "cell_ok v" "\<And>r. r \<in> set (refs v) \<Longrightarrow> 0 \<le> r"
    "\<And>b. pending (refs v) b + (if b = 0 then 1 else 0) \<le> L b"
  shows "(\<exists>a h'. alloc v h = Inr (a, h') \<and> 0 < a \<and> a \<le> length (h_cells h) \<and> has h' (\<lambda>b. L b - pending (refs v) b + (if b = a then 1 else 0)))
    \<or> (alloc v h = Inl THeapExhausted \<and> (\<exists>h1. gc h = Inr h1 \<and> has h1 L))"
proof -
  from h obtain E where E: "hinv [] E h" "\<And>a. L a \<le> E a" by (auto simp: has_def)
  have p: "pending (refs v) b \<le> E b" "pending (refs v) 0 < E 0" for b
    using o(3) [of b] o(3) [of 0] E(2) [of b] E(2) [of 0] by (auto split: if_splits)
  have "r < int (length (h_cells h))" if r: "r \<in> set (refs v)" for r
  proof -
    have "1 \<le> E (nat r)" using pending_pos [OF r o(2) [OF r]] p(1) [of "nat r"] by linarith
    then show ?thesis using hinvD(13) [OF E(1), of "nat r"] o(2) [OF r] by linarith
  qed
  then have ow: "owns_refs E h v" using o(1,2) p by (auto simp: owns_refs_def in_heap_def)
  from alloc_exact_lemma [OF E(1) ow] show ?thesis
  proof (elim disjE exE conjE)
    fix a h' assume a: "alloc v h = Inr (a, h')" "placed E h v (a, h')"
    have "hinv [] (moved E v a) h'" using a(2) by (simp add: placed_def)
    then have "has h' (\<lambda>b. L b - pending (refs v) b + (if b = a then 1 else 0))"
      by (rule hasI) (simp add: moved_def E(2))
    then show ?thesis using a by (auto simp: placed_def)
  next
    assume "alloc v h = Inl THeapExhausted"
    moreover obtain h1 where "gc h = Inr h1" "hinv [] E h1" using gc_exact_lemma [OF E(1)] by blast
    moreover have "has h1 L" by (rule hasI [OF \<open>hinv [] E h1\<close> E(2)])
    ultimately show ?thesis by blast
  qed
qed

lemma has_alloc_leaf:
  assumes h: "has h L" and v: "leaf v" and o: "\<And>b. (if b = 0 then 1 else 0) \<le> L b"
  shows "(\<exists>a h'. alloc v h = Inr (a, h') \<and> 0 < a \<and> a \<le> length (h_cells h) \<and> has h' (\<lambda>b. L b + (if b = a then 1 else 0)))
    \<or> (alloc v h = Inl THeapExhausted \<and> (\<exists>h1. gc h = Inr h1 \<and> has h1 L))"
proof -
  have r: "refs v = []" "cell_ok v" using v by (simp_all add: leaf_def)
  from has_alloc [OF h r(2)] show ?thesis using o unfolding r(1) pending_simps(1) by simp
qed

lemma cleared:
  assumes w: "shape m" and sp: "0 < m_sp m" and n: "m_sp m + n \<le> length (m_stack m) + 1"
  shows "shape (clear_range (m_sp m - 1) n m)"
    "tally (clear_range (m_sp m - 1) n m) P \<le> tally m P"
    "bx P (take (m_sp m - 1 + n) (m_stack (clear_range (m_sp m - 1) n m))) = bx P (take (m_sp m - 1) (m_stack m))"
    "tally m P = bx P (take (m_sp m - 1) (m_stack m)) + bx P [top m 1] + rest m P"
proof -
  have l: "m_sp m \<le> length (m_stack m)" using w by (simp add: shape_def)
  show "shape (clear_range (m_sp m - 1) n m)" by (rule shape_calls(2) [OF w]) (use n sp in linarith)
  have o: "operands_of m = take (m_sp m - 1) (m_stack m) @ [top m 1]"
    using operands_split [of "m_sp m - 1" m] slice_top [OF sp l] by simp
  show t: "tally m P = bx P (take (m_sp m - 1) (m_stack m)) + bx P [top m 1] + rest m P" by (simp add: tally_rest o)
  have "operands_of (clear_range (m_sp m - 1) n m) = (if n = 0 then operands_of m else take (m_sp m - 1) (m_stack m) @ [0])"
  proof (cases n)
    case (Suc k)
    have "take (m_sp m) (take (m_sp m - 1) (m_stack m) @ 0 # zs) = take (m_sp m - 1) (m_stack m) @ [0]" for zs
      using sp l by (simp add: take_Cons')
    then show ?thesis using Suc by (simp add: operands_of_def)
  qed (simp add: operands_of_def)
  then show "tally (clear_range (m_sp m - 1) n m) P \<le> tally m P"
    using t bx_nonneg [of P "[top m 1]"] by (simp add: tally_rest o bx_1)
  show "bx P (take (m_sp m - 1 + n) (m_stack (clear_range (m_sp m - 1) n m))) = bx P (take (m_sp m - 1) (m_stack m))"
    using n l sp by simp
qed

lemma safe_less:
  assumes m: "minv e m" and h: "has (m_heap m') (books e m)" and w: "shape m'"
    and t: "\<And>P. tally m' P \<le> tally m P" and r: "state_of r = m'"
  shows "safe e r"
proof (rule safe_has [OF m h])
  have "tally m' (\<lambda>r. r < 0) \<le> 0" using t [of "\<lambda>r. r < 0"] minvD(4) [OF m] by simp
  then show "tally (state_of r) (\<lambda>r. r < 0) = 0" using tally_nonneg [of m' "\<lambda>r. r < 0"] r by simp
  show "tally (state_of r) (\<lambda>r. r = int a) + e a \<le> books e m a" for a
    using t [of "\<lambda>r. r = int a"] r by (simp add: books_def)
qed (use w r in simp_all)

lemma books_0: "minv e m \<Longrightarrow> 1 \<le> books e m 0"
  using minvD(3) [of e m] tally_nonneg [of m "\<lambda>r. r = int 0"] unfolding books_def by linarith

definition callee_ok :: "machine \<Rightarrow> callee \<Rightarrow> bool" where
  "callee_ok m ce \<longleftrightarrow> ce_ref ce = as_ref (top m 1) \<and> 0 < ce_ref ce \<and> (\<forall>a. ce_upvals ce = Some a \<longrightarrow> a = ce_ref ce)"

lemma enter_safe:
  assumes m: "minv e m" and sp: "0 < m_sp m" and k: "boxed_kind (top m 1) = KindRef" and ce: "callee_ok m ce"
    and fp: "m_fp m < length (m_frames m)"
  shows "safe e (enter ce coro m)"
proof (cases "m_sp m \<le> length (ce_params ce) \<or> length (m_stack m) + 1 < m_sp m + ce_locals ce")
  case True
  then show ?thesis using m by (auto simp: enter_def Let_def)
next
  case False
  let ?n = "ce_locals ce" and ?ps = "length (ce_params ce)"
  define m1 where "m1 = clear_range (m_sp m - 1) ?n m"
  note w = minvD(1) [OF m]
  have n: "m_sp m + ?n \<le> length (m_stack m) + 1" using False by simp
  note c = cleared [OF w sp n, folded m1_def]
  define start where "start = (\<lambda>co m2. with_code (ce_code ce) m2 (\<lambda>u. Inr (push_frame
          \<lparr>f_addr = ce_code ce, f_returns = length (ce_returns ce), f_code = u, f_upvals = ce_upvals ce,
           f_ref = ce_ref ce, f_release = True, f_coro = co, f_ip = 0, f_bp = m_sp m - ?ps - 1\<rparr>
          (advance 1 (set_sp (m_sp m - ?ps - 1 + ?ps + ?n) m2)))))"
  have eq: "enter ce coro m = (if coro then with_code (ce_code ce) m1
      (\<lambda>_. with_alloc (HCoro (new_coro (ce_params ce) (ce_returns ce))) m1 start) else start 0 m1)"
    using False by (simp add: enter_def Let_def m1_def start_def)
  have sp': "m_sp m - ?ps - 1 + ?ps + ?n = m_sp m - 1 + ?n" using False by simp
  have m1: "m_heap m1 = m_heap m" "m_sp m1 = m_sp m" "length (m_frames m1) = length (m_frames m)" "m_fp m1 = m_fp m"
    "length (m_stack m1) = length (m_stack m)" "\<And>P. rest m1 P = rest m P"
    using n sp by (simp_all add: m1_def)
  have go: "safe e (start co (m1\<lparr>m_heap := h\<rparr>))"
    if h: "has h (\<lambda>a. books e m a + (if co \<noteq> 0 \<and> int a = co then 1 else 0))" and co: "0 \<le> co" for co h
    unfolding start_def
  proof (rule with_code_safe)
    have h0: "has h (books e m)" by (rule has_le [OF h]) simp
    show "safe e (Inr (m1\<lparr>m_heap := h\<rparr>))" by (rule safe_less [OF m]) (use h0 c in simp_all)
    fix u
    let ?m = "advance 1 (set_sp (m_sp m - ?ps - 1 + ?ps + ?n) (m1\<lparr>m_heap := h\<rparr>))"
    let ?f = "\<lparr>f_addr = ce_code ce, f_returns = length (ce_returns ce), f_code = u, f_upvals = ce_upvals ce,
           f_ref = ce_ref ce, f_release = True, f_coro = co, f_ip = 0, f_bp = m_sp m - ?ps - 1\<rparr>"
    have s1: "shape (set_sp (m_sp m - ?ps - 1 + ?ps + ?n) (m1\<lparr>m_heap := h\<rparr>))"
      by (rule shape_calls(1)) (use c(1) m1(5) n sp sp' in simp_all)
    then have s2: "shape ?m" by simp
    have fo: "frame_ok ?f" using ce by (auto simp: frame_ok_def callee_ok_def)
    have fl: "m_fp ?m < length (m_frames ?m)" using fp m1 by simp
    have bl: "m_sp m - Suc (length (ce_params ce)) < length (m_stack m1)" using sp minvD(6) [OF m] m1(5) by linarith
    have t: "tally (push_frame ?f ?m) P = tally m P + (if co \<noteq> 0 \<and> P co then 1 else 0)" for P
    proof -
      have "bx P (operands_of (push_frame ?f ?m)) = bx P (take (m_sp m - 1) (m_stack m))"
        using c(3) sp' by (simp add: operands_of_def)
      moreover have "rest (push_frame ?f ?m) P = rest m P + cnt P (frame_refs ?f)"
        using rest_push_frame [OF s2 fl] s1 m1(6) by simp
      moreover have "cnt P (frame_refs ?f) = bx P [top m 1] + (if co \<noteq> 0 \<and> P co then 1 else 0)"
        using ce k by (simp add: frame_refs_def callee_ok_def bx_1)
      ultimately show ?thesis using c(4) [of P] by (simp add: tally_rest)
    qed
    show "safe e (Inr (push_frame ?f ?m))"
    proof (rule safe_has [OF m h])
      show "shape (state_of (Inr (push_frame ?f ?m)))" using shape_push_frame [OF s2 fl fo] bl by simp
      show "tally (state_of (Inr (push_frame ?f ?m))) (\<lambda>r. r < 0) = 0" using t minvD(4) [OF m] co by simp
      show "tally (state_of (Inr (push_frame ?f ?m))) (\<lambda>r. r = int a) + e a \<le> books e m a + (if co \<noteq> 0 \<and> int a = co then 1 else 0)" for a
        using t by (simp add: books_def)
    qed simp
  qed
  have h0: "has (m_heap m) (books e m)" by (rule minv_has [OF m])
  show ?thesis
  proof (cases coro)
    case False
    have "m1\<lparr>m_heap := m_heap m\<rparr> = m1" using m1(1) by (metis heap_same)
    have "has (m_heap m) (\<lambda>a. books e m a + (if (0::int) \<noteq> 0 \<and> int a = 0 then 1 else 0))" using h0 by simp
    moreover have "m1\<lparr>m_heap := m_heap m\<rparr> = m1" by (metis heap_same m1(1))
    ultimately show ?thesis using go [of "m_heap m" 0] False eq by simp
  next
    case True
    let ?v = "HCoro (new_coro (ce_params ce) (ce_returns ce))"
    have lf: "leaf ?v" by (simp add: leaf_def cell_ok_def new_coro_def box_refs_def)
    have "(if b = 0 then 1 else 0) \<le> books e m b" for b
      using books_0 [OF m] minvD(2) [OF m, of b] tally_nonneg [of m "\<lambda>r. r = int b"] by (simp add: books_def)
    from has_alloc_leaf [OF h0 lf this]
have "safe e (with_alloc ?v m1 start)"
    proof (elim disjE exE conjE)
      fix a h' assume a: "alloc ?v (m_heap m) = Inr (a, h')" "0 < a"
        "has h' (\<lambda>b. books e m b + (if b = a then 1 else 0))"
      have "has h' (\<lambda>b. books e m b + (if int a \<noteq> 0 \<and> int b = int a then 1 else 0))"
        by (rule has_le [OF a(3)]) simp
      from go [OF this] show ?thesis using a(1) m1(1) by (simp add: with_alloc_def)
    next
      fix h1 assume a: "alloc ?v (m_heap m) = Inl THeapExhausted" "gc (m_heap m) = Inr h1" "has h1 (books e m)"
      have "safe e (Inl (THeapExhausted, m1\<lparr>m_heap := h1\<rparr>))" by (rule safe_less [OF m]) (use a(3) c in simp_all)
      then show ?thesis using a(1,2) m1(1) by (simp add: with_alloc_def)
    qed
    moreover have "safe e (Inr m1)" by (rule safe_less [OF m]) (use h0 c m1(1) in simp_all)
    ultimately show ?thesis using True eq by (simp add: with_code_safe)
  qed
qed

text \<open>
  The code tables: every function and every coroutine's resume address has an entry, as \<^verbatim>\<open>New\<close> and
  \<^verbatim>\<open>bind\<close> leave it.
\<close>

definition code_in :: "machine \<Rightarrow> int \<Rightarrow> bool" where
  "code_in m a \<longleftrightarrow> 0 \<le> a \<and> a < int (length (h_instrs (m_heap m)))"

definition coded :: "machine \<Rightarrow> bool" where
  "coded m \<longleftrightarrow> code_in m 0 \<and> (\<forall>f\<in>set (active m). code_in m (f_addr f))
     \<and> (\<forall>a<length (h_cells (m_heap m)). case h_cells (m_heap m) ! a of
          HFunc fn \<Rightarrow> code_in m (int a) | HCoro c \<Rightarrow> code_in m (co_addr c) | _ \<Rightarrow> True)"

lemma codedD:
  "coded m \<Longrightarrow> cell_at a (m_heap m) = Inr (HFunc fn) \<Longrightarrow> code_in m a"
  "coded m \<Longrightarrow> cell_at a (m_heap m) = Inr (HCoro c) \<Longrightarrow> code_in m (co_addr c)"
  unfolding coded_def by (auto simp: cell_at_def split: if_splits dest!: spec [of _ "nat a"])

lemma with_code_ok:
  assumes "code_in m a"
  shows "\<exists>u. \<forall>k. with_code a m k = k u"
proof -
  let ?c = "h_instrs (m_heap m) ! nat a"
  have "with_code a m k = k (if a = 0 then unit_of m (m_main m) ?c
      else case cell_at a (m_heap m) of Inr (HFunc fn) \<Rightarrow> unit_of m fn ?c | _ \<Rightarrow> nil_unit)" for k
    using assms by (auto simp: code_in_def with_code_def Let_def split: sum.split hval.split)
  then show ?thesis by blast
qed

lemma with_callee_safe:
  assumes m: "minv e m" and sp: "0 < m_sp m" and g: "\<And>r. guard = Some r \<Longrightarrow> safe e r"
    and k: "\<And>ce. callee_ok m ce \<Longrightarrow> guard = None \<Longrightarrow> (coded m \<Longrightarrow> code_in m (ce_code ce)) \<Longrightarrow> safe e (k ce)"
  shows "safe e (with_callee (as_ref (top m 1)) m guard k)"
proof -
  let ?a = "as_ref (top m 1)"
  have z: "0 < ?a" if "cell_at ?a (m_heap m) = Inr v" "v \<noteq> HNull" for v
  proof -
    have "?a \<noteq> 0" using that hinvD(15) [OF minvD(5) [OF m]] by (auto simp: cell_at_def split: if_splits)
    then show ?thesis using that(1) by (simp add: cell_at_def split: if_splits)
  qed
  have t: "safe e (Inl (t, m))" for t using m by simp
  show ?thesis
    unfolding with_callee_def with_cell_def
    using t g z codedD(1) [of m] by (auto split: sum.split hval.split option.split intro!: k simp: callee_ok_def)
qed

lemma call_safe:
  assumes m: "minv e m" and k: "0 < m_sp m \<Longrightarrow> boxed_kind (top m 1) = KindRef"
  shows "safe e (do_call m)"
proof (cases "m_sp m = 0")
  case False
  let ?guard = "if m_fp m = length (m_frames m) then Some (Inl (TFrameOverflow, m)) else None"
  have fp: "m_fp m \<le> length (m_frames m)" using minvD(1) [OF m] by (simp add: shape_def)
  have "safe e (with_callee (as_ref (top m 1)) m ?guard (\<lambda>ce. enter ce (is_coro (ce_code ce) m) m))"
  proof (rule with_callee_safe [OF m])
    show "safe e r" if "?guard = Some r" for r using that m by (auto split: if_splits)
    show "safe e (enter ce (is_coro (ce_code ce) m) m)" if "callee_ok m ce" "?guard = None" for ce
      by (rule enter_safe [OF m _ k that(1)]) (use False fp that(2) in \<open>auto split: if_splits\<close>)
  qed (use False in simp)
  then show ?thesis using False by (simp add: do_call_def)
qed (use m in \<open>simp add: do_call_def\<close>)

section \<open>Returns\<close>

lemma bx_take_le: "bx P (take n vs) \<le> bx P vs"
  using bx_nonneg [of P "drop n vs"] bx_simps(3) [of P "take n vs" "drop n vs"] by simp

lemma bx_drop_le: "bx P (drop n vs) \<le> bx P vs"
  using bx_nonneg [of P "take n vs"] bx_simps(3) [of P "take n vs" "drop n vs"] by simp

lemma bx_slice_le:
  assumes "hi \<le> m_sp m"
  shows "bx P (slice lo hi m) \<le> bx P (operands_of m)"
proof -
  have "slice lo hi m = drop lo (take hi (operands_of m))" using assms by (simp add: slice_def drop_take operands_of_def)
  then show ?thesis by (metis bx_drop_le bx_take_le order_trans)
qed

lemma covers_slice:
  assumes m: "minv e m" and "hi \<le> m_sp m"
  shows "covers_list (books e m) (slice lo hi m)"
  unfolding covers_list_def
proof (intro conjI allI)
  have le: "bx P (slice lo hi m) \<le> tally m P" for P
    using bx_slice_le [OF assms(2), of P lo] rest_nonneg [of m P] unfolding tally_rest by linarith
  show "bx (\<lambda>r. r < 0) (slice lo hi m) = 0"
    using le [of "\<lambda>r. r < 0"] minvD(4) [OF m] bx_nonneg [of "\<lambda>r. r < 0" "slice lo hi m"] by linarith
  show "bx (\<lambda>r. r = int a) (slice lo hi m) + (if a = 0 then 1 else 0) \<le> books e m a" for a
    using le [of "\<lambda>r. r = int a"] minvD(2) [OF m, of a] minvD(3) [OF m] by (cases "a = 0") (auto simp: books_def)
qed

lemma release_fr_has:
  assumes h: "has (m_heap m) L" and f: "frame_ok f" and o: "f_release f \<Longrightarrow> 1 \<le> L (nat (f_ref f))"
  shows "\<exists>h'. release_fr f m = Inr (m\<lparr>m_heap := h'\<rparr>) \<and> has h' (\<lambda>a. L a - (if f_release f \<and> int a = f_ref f then 1 else 0))
    \<and> same_cells (\<lambda>a. L a - (if f_release f \<and> int a = f_ref f then 1 else 0)) (m_heap m) h'"
proof (cases "f_release f")
  case True
  then have "holds_ref L (f_ref f)" using f o by (auto simp: holds_ref_def frame_ok_def)
  from has_release_ref [OF h this] show ?thesis using True by (simp add: release_fr_def)
next
  case False
  then show ?thesis using h by (intro exI [of _ "m_heap m"]) (simp add: release_fr_def same_cells_refl)
qed

lemma fr_ok: "minv e m \<Longrightarrow> frame_ok (fr m)"
  using minvD(1) [of e m] fr_active [of m] by (auto simp: shape_def)

text \<open>What the running frame owns is among the roots, whatever operands are set aside.\<close>

lemma frame_owned:
  assumes m: "minv e m" and f: "f_release (fr m)" and L: "\<And>a. rest m (\<lambda>r. r = int a) \<le> L a"
  shows "1 \<le> L (nat (f_ref (fr m)))"
proof -
  let ?a = "nat (f_ref (fr m))"
  have "f_ref (fr m) = int ?a" using fr_ok [OF m] by (simp add: frame_ok_def)
  then have "1 \<le> cnt (\<lambda>r. r = int ?a) (frame_refs (fr m))" using f by (simp add: frame_refs_def)
  then show ?thesis using rest_frame [OF minvD(1) [OF m], of "\<lambda>r. r = int ?a"] L [of ?a] by linarith
qed

lemma operands3:
  assumes "lo \<le> hi" "hi \<le> m_sp m"
  shows "operands_of m = take lo (m_stack m) @ slice lo hi m @ slice hi (m_sp m) m"
  using operands_split [of lo m] slice_split [OF assms, of m] assms by simp

lemma moved_operands:
  assumes "lo \<le> hi" "hi + n = m_sp m" "m_sp m \<le> length (m_stack m)"
  shows "operands_of (set_sp (lo + n) (move_range lo hi n m)) = take lo (m_stack m) @ slice hi (m_sp m) m"
proof -
  have "lo \<le> length (m_stack m)" "length (take n (drop hi (m_stack m))) = n" using assms by simp_all
  moreover have "m_sp m - hi = n" using assms by linarith
  ultimately show ?thesis by (simp add: operands_of_def slice_def)
qed

lemma plain_return:
  assumes m: "minv e m" and fp: "1 < m_fp m" and lo: "f_bp (fr m) \<le> hi" and hi: "hi + n = m_sp m"
    and co: "f_coro (fr m) = 0" and h: "has h (\<lambda>a. books e m a - bx (\<lambda>r. r = int a) (slice (f_bp (fr m)) hi m))"
  shows "safe e (seqm (release_fr (fr m) (set_sp (f_bp (fr m) + n) (move_range (f_bp (fr m)) hi n (m\<lparr>m_heap := h\<rparr>))))
     (\<lambda>m2. Inr (pop_frame g m2)))"
proof -
  let ?lo = "f_bp (fr m)"
  let ?m = "set_sp (?lo + n) (move_range ?lo hi n (m\<lparr>m_heap := h\<rparr>))"
  let ?L = "\<lambda>a. books e m a - bx (\<lambda>r. r = int a) (slice ?lo hi m)"
  note w = minvD(1) [OF m] and l = minvD(6) [OF m]
  have t: "tally m P = bx P (take ?lo (m_stack m)) + bx P (slice ?lo hi m) + bx P (slice hi (m_sp m) m) + rest m P" for P
    using operands3 [OF lo, of m] hi by (simp add: tally_rest)
  have fl: "f_release (fr m) \<Longrightarrow> 1 \<le> ?L (nat (f_ref (fr m)))"
  proof (rule frame_owned [OF m])
    show "rest m (\<lambda>r. r = int a) \<le> ?L a" for a
      using t [of "\<lambda>r. r = int a"] minvD(2) [OF m, of a] bx_nonneg [of "\<lambda>r. r = int a" "take ?lo (m_stack m)"]
        bx_nonneg [of "\<lambda>r. r = int a" "slice hi (m_sp m) m"] unfolding books_def by linarith
  qed
  have hm: "has (m_heap ?m) ?L" using h by simp
  from release_fr_has [OF hm fr_ok [OF m] fl] obtain h' where
    h': "release_fr (fr m) ?m = Inr (?m\<lparr>m_heap := h'\<rparr>)"
      "has h' (\<lambda>a. ?L a - (if f_release (fr m) \<and> int a = f_ref (fr m) then 1 else 0))" by auto
  have ws: "shape ?m" using w l lo hi by simp
  let ?m' = "pop_frame g (?m\<lparr>m_heap := h'\<rparr>)"
  have o: "operands_of ?m' = take ?lo (m_stack m) @ slice hi (m_sp m) m"
  proof -
    have "operands_of ?m' = operands_of (set_sp (?lo + n) (move_range ?lo hi n m))" by (simp add: operands_of_def)
    then show ?thesis using moved_operands [OF lo hi l] by simp
  qed
  have t': "tally ?m' P = tally m P - bx P (slice ?lo hi m) - cnt P (frame_refs (fr m))" for P
    using t [of P] rest_pop_frame [of "?m\<lparr>m_heap := h'\<rparr>" g P] ws unfolding tally_rest [of ?m'] o by simp
  have "safe e (Inr ?m')"
  proof (rule safe_has [OF m h'(2)])
    show "shape (state_of (Inr ?m'))" using ws fp by simp
    show "tally (state_of (Inr ?m')) (\<lambda>r. r < 0) = 0"
      using t' [of "\<lambda>r. r < 0"] minvD(4) [OF m] tally_nonneg [of ?m' "\<lambda>r. r < 0"] bx_nonneg [of "\<lambda>r. r < 0" "slice ?lo hi m"]
        cnt_nonneg [of "\<lambda>r. r < 0" "frame_refs (fr m)"] unfolding state_of_simps by linarith
    show "tally (state_of (Inr ?m')) (\<lambda>r. r = int a) + e a
        \<le> ?L a - (if f_release (fr m) \<and> int a = f_ref (fr m) then 1 else 0)" for a
      using t' [of "\<lambda>r. r = int a"] co by (auto simp: books_def frame_refs_def)
  qed simp
  then show ?thesis using h'(1) by simp
qed

lemma shape_fp: "shape m \<Longrightarrow> m_fp m \<noteq> 1 \<Longrightarrow> 1 < m_fp m"
  by (auto simp: shape_def)

lemma range_safe:
  assumes m: "minv e m" and hi: "hi \<le> m_sp m"
    and k: "\<And>h. lo \<le> hi \<Longrightarrow> has h (\<lambda>a. books e m a - bx (\<lambda>r. r = int a) (slice lo hi m)) \<Longrightarrow>
      length (h_instrs h) = length (h_instrs (m_heap m)) \<Longrightarrow> safe e (k (m\<lparr>m_heap := h\<rparr>))"
  shows "safe e (seqm (release_range lo hi m) k)"
proof (cases "hi < lo")
  case False
  from has_release_vals [OF minv_has [OF m] covers_slice [OF m hi, of lo]] obtain h where
    h: "release_vals (slice lo hi m) m = Inr (m\<lparr>m_heap := h\<rparr>)" "has h (\<lambda>a. books e m a - bx (\<lambda>r. r = int a) (slice lo hi m))"
    "length (h_instrs h) = length (h_instrs (m_heap m))" unfolding same_cells_def by blast
  then show ?thesis using k [OF _ h(2,3)] False by (simp add: release_range_def)
qed (use m in \<open>simp add: release_range_def\<close>)

lemma return_safe:
  assumes m: "minv e m" and co: "f_coro (fr m) \<noteq> 0 \<Longrightarrow> 1 < m_fp m \<Longrightarrow> safe e (coro_return (fr m) m)"
  shows "safe e (do_return n owned m)"
proof -
  let ?f = "fr m" and ?hi = "m_sp m - f_returns (fr m)"
  consider "m_fp m = 1" | "m_sp m < f_returns ?f" | "1 < m_fp m" "f_coro ?f \<noteq> 0" "f_returns ?f \<le> m_sp m"
    | "1 < m_fp m" "f_coro ?f = 0" "f_returns ?f \<le> m_sp m" using shape_fp [OF minvD(1) [OF m]] by linarith
  then show ?thesis
  proof cases
    case 4
    let ?k = "\<lambda>m1. seqm (release_fr ?f (set_sp (f_bp ?f + f_returns ?f) (move_range (f_bp ?f) (m_sp m1 - f_returns ?f) (f_returns ?f) m1)))
            (\<lambda>m2. Inr (pop_frame (\<lambda>f. f\<lparr>f_code := nil_unit\<rparr>) m2))"
    have eq: "do_return n owned m = seqm (if owned \<or> m_sp m \<noteq> f_bp ?f + n + f_returns ?f
        then release_range (f_bp ?f) ?hi m else Inr m) ?k" using 4 by (simp add: do_return_def Let_def)
    have k: "safe e (?k (m\<lparr>m_heap := h\<rparr>))" if "f_bp ?f \<le> ?hi"
      "has h (\<lambda>a. books e m a - bx (\<lambda>r. r = int a) (slice (f_bp ?f) ?hi m))" for h
      using plain_return [OF m 4(1) that(1) _ 4(2) that(2)] 4(3) by simp
    show ?thesis
    proof (cases "owned \<or> m_sp m \<noteq> f_bp ?f + n + f_returns ?f")
      case True
      then show ?thesis unfolding eq using range_safe [OF m, of ?hi "f_bp ?f" ?k] k by simp
    next
      case False
      have "has (m_heap m) (\<lambda>a. books e m a - bx (\<lambda>r. r = int a) (slice (f_bp ?f) ?hi m))"
        by (rule has_le [OF minv_has [OF m]]) simp
      then have "safe e (?k (m\<lparr>m_heap := m_heap m\<rparr>))" by (rule k [rotated]) (use False in simp)
      then show ?thesis unfolding eq using False by simp
    qed
  qed (use m co in \<open>auto simp: do_return_def Let_def\<close>)
qed

section \<open>Coroutines\<close>

lemma mod_coro_set:
  "0 \<le> a \<Longrightarrow> a < int (length (h_cells (m_heap m))) \<Longrightarrow> h_cells (m_heap m) ! nat a = HCoro c \<Longrightarrow>
   mod_coro a g m = m\<lparr>m_heap := (m_heap m)\<lparr>h_cells := (h_cells (m_heap m))[nat a := HCoro (g c)]\<rparr>\<rparr>"
  by (simp add: mod_coro_def cell_at_def set_cell_def)

lemma has_live: "has h L \<Longrightarrow> 1 \<le> L a \<Longrightarrow> a < length (h_cells h)"
proof -
  assume "has h L" and a: "1 \<le> L a"
  then obtain E where E: "hinv [] E h" "L a \<le> E a" by (auto simp: has_def)
  then have "1 \<le> E a" using a by linarith
  from owned_slot_live [OF E(1) this] show ?thesis by (simp add: slot_live_def alive_def)
qed

lemma coro_refs_le:
  assumes r: "co_ref c' = co_ref c \<or> co_ref c' = 0" and i: "co_image c' = co_image c \<or> co_image c' = []"
    and v: "box_refs [co_value c'] = box_refs [co_value c] \<or> box_refs [co_value c'] = as"
  shows "set (refs (HCoro c')) \<subseteq> set (refs (HCoro c)) \<union> set as"
    "pending (refs (HCoro c')) b \<le> pending (refs (HCoro c)) b + pending as b"
proof -
  have nil: "box_refs [] = []" by (simp add: box_refs_def)
  have v1: "set (box_refs [co_value c']) \<subseteq> set (box_refs [co_value c]) \<union> set as"
    "pending (box_refs [co_value c']) b \<le> pending (box_refs [co_value c]) b + pending as b"
    using v pending_nonneg [of as b] pending_nonneg [of "box_refs [co_value c]" b] by (auto simp: add_increasing)
  have i1: "set (box_refs (co_image c')) \<subseteq> set (box_refs (co_image c))"
    "pending (box_refs (co_image c')) b \<le> pending (box_refs (co_image c)) b"
    using i pending_nonneg [of "box_refs (co_image c)" b] by (auto simp: nil pending_simps(1))
  have r1: "set (if 0 < co_ref c' then [co_ref c'] else []) \<subseteq> set (if 0 < co_ref c then [co_ref c] else [])"
    "pending (if 0 < co_ref c' then [co_ref c'] else []) b \<le> pending (if 0 < co_ref c then [co_ref c] else []) b"
    using r pending_nonneg [of "if 0 < co_ref c then [co_ref c] else []" b] by (auto simp: pending_simps(1))
  show "set (refs (HCoro c')) \<subseteq> set (refs (HCoro c)) \<union> set as"
    using v1(1) i1(1) r1(1) unfolding refs.simps set_append by blast
  show "pending (refs (HCoro c')) b \<le> pending (refs (HCoro c)) b + pending as b"
    using v1(2) i1(2) r1(2) unfolding refs.simps pending_simps(3) by linarith
qed

lemma has_mod_coro:
  assumes h: "has (m_heap m) L" and a: "0 < a" "1 \<le> L (nat a)"
    and g: "\<And>c. h_cells (m_heap m) ! nat a = HCoro c \<Longrightarrow> cell_ok (HCoro c) \<Longrightarrow> cell_ok (HCoro (g c))
      \<and> (co_ref (g c) = co_ref c \<or> co_ref (g c) = 0) \<and> (co_image (g c) = co_image c \<or> co_image (g c) = [])
      \<and> (box_refs [co_value (g c)] = box_refs [co_value c] \<or> box_refs [co_value (g c)] = as)"
    and as: "\<And>r. r \<in> set as \<Longrightarrow> 0 \<le> r" and o: "\<And>b. pending as b + (if b = 0 then 1 else 0) \<le> L b"
  shows "\<exists>h'. mod_coro a g m = m\<lparr>m_heap := h'\<rparr> \<and> has h' (\<lambda>b. L b - pending as b)
    \<and> h_cells h' ! nat a = (case h_cells (m_heap m) ! nat a of HCoro c \<Rightarrow> HCoro (g c) | v \<Rightarrow> v)"
proof (cases "\<exists>c. h_cells (m_heap m) ! nat a = HCoro c")
  case True
  then obtain c where c: "h_cells (m_heap m) ! nat a = HCoro c" by blast
  have l: "nat a < length (h_cells (m_heap m))" by (rule has_live [OF h a(2)])
  from h obtain E where "hinv [] E (m_heap m)" by (auto simp: has_def)
  then have "cell_ok (HCoro c)" using hinvD(14) nth_mem [OF l] c by metis
  note g' = g [OF c this]
  have G: "cell_ok (HCoro (g c))" "set (refs (HCoro (g c))) \<subseteq> set (refs (HCoro c)) \<union> set as"
    "\<And>b. pending (refs (HCoro (g c))) b \<le> pending (refs (HCoro c)) b + pending as b"
    using g' coro_refs_le [of "g c" c as] by blast+
  have "has ((m_heap m)\<lparr>h_cells := (h_cells (m_heap m))[nat a := HCoro (g c)]\<rparr>)
     (\<lambda>b. L b + pending (refs (h_cells (m_heap m) ! nat a)) b - pending (refs (HCoro (g c))) b)"
    by (rule has_update_cell [OF h a(2), of "HCoro (g c)" as]) (use a G c as o in auto)
  then have "has ((m_heap m)\<lparr>h_cells := (h_cells (m_heap m))[nat a := HCoro (g c)]\<rparr>) (\<lambda>b. L b - pending as b)"
  proof (rule has_le)
    fix b
    have "pending (refs (HCoro (g c))) b \<le> pending (refs (h_cells (m_heap m) ! nat a)) b + pending as b" using G c by auto
    then show "L b - pending as b \<le> L b + pending (refs (h_cells (m_heap m) ! nat a)) b - pending (refs (HCoro (g c))) b"
      by linarith
  qed
  moreover have "mod_coro a g m = m\<lparr>m_heap := (m_heap m)\<lparr>h_cells := (h_cells (m_heap m))[nat a := HCoro (g c)]\<rparr>\<rparr>"
    by (rule mod_coro_set) (use a l c in auto)
  ultimately show ?thesis using c l by (intro exI conjI) auto
next
  case False
  then have "mod_coro a g m = m" by (auto simp: mod_coro_def cell_at_def split: sum.splits hval.splits if_splits)
  moreover have "has (m_heap m) (\<lambda>b. L b - pending as b)"
    by (rule has_le [OF h]) (simp add: pending_nonneg)
  ultimately show ?thesis using False by (intro exI [of _ "m_heap m"]) (auto split: hval.split)
qed

lemma box_refs_one: "box_refs [v] = (if boxed_kind v = KindRef then [as_ref v] else [])"
  by (simp add: box_refs_def)

lemma coro_frame:
  assumes m: "minv e m" and co: "f_coro (fr m) \<noteq> 0"
  shows "0 < f_coro (fr m)" "1 \<le> rest m (\<lambda>r. r = f_coro (fr m))"
    "\<And>P. P (f_coro (fr m)) \<Longrightarrow> (if f_release (fr m) \<and> P (f_ref (fr m)) then 1 else 0) + 1 \<le> rest m P"
proof -
  show r: "(if f_release (fr m) \<and> P (f_ref (fr m)) then 1 else 0) + 1 \<le> rest m P" if "P (f_coro (fr m))" for P
    using rest_frame [OF minvD(1) [OF m], of P] co that by (auto simp: frame_refs_def split: if_splits)
  show "1 \<le> rest m (\<lambda>r. r = f_coro (fr m))" using r [of "\<lambda>r. r = f_coro (fr m)"] by (simp split: if_splits)
  have "rest m (\<lambda>r. r < 0) = 0"
    using minvD(4) [OF m] rest_nonneg [of m "\<lambda>r. r < 0"] bx_nonneg [of "\<lambda>r. r < 0" "operands_of m"] unfolding tally_rest
    by linarith
  then have "\<not> f_coro (fr m) < 0" using r [of "\<lambda>r. r < 0"] by (auto split: if_splits)
  then show "0 < f_coro (fr m)" using co by linarith
qed

text \<open>The end both ways of leaving a coroutine share: the handle replaces the frame on the stack.\<close>

lemma leave_coro:
  assumes m: "minv e m" and co: "f_coro (fr m) \<noteq> 0" and fp: "1 < m_fp m" and small: "length (h_cells (m_heap m)) \<le> 2 ^ 31"
    and h: "has h (\<lambda>b. bx (\<lambda>r. r = int b) (take (f_bp (fr m)) (m_stack m)) + rest m (\<lambda>r. r = int b) + e b
        - (if f_release (fr m) \<and> int b = f_ref (fr m) then 1 else 0))"
    and m1: "m1 = m\<lparr>m_heap := h\<rparr> \<or> (\<exists>n st. m1 = m\<lparr>m_heap := h, m_sp := n, m_stack := st\<rparr> \<and> n \<le> length st
         \<and> length st = length (m_stack m) \<and> take (f_bp (fr m)) st = take (f_bp (fr m)) (m_stack m))"
    and bp: "f_bp (fr m) \<le> m_sp m"
  shows "safe e (Inr (set_sp (f_bp (fr m) + 1) (poke (f_bp (fr m)) (box_ref (f_coro (fr m))) (pop_frame g m1))))"
proof -
  let ?lo = "f_bp (fr m)" and ?a = "f_coro (fr m)"
  let ?m = "set_sp (?lo + 1) (poke ?lo (box_ref ?a) (pop_frame g m1))"
  note w = minvD(1) [OF m] and c = coro_frame [OF m co]
  have lo: "?lo < length (m_stack m)" using w fr_active [OF w] by (auto simp: shape_def)
  have f: "m_heap m1 = h" "m_frames m1 = m_frames m" "m_fp m1 = m_fp m" "m_globals m1 = m_globals m"
    "m_constants m1 = m_constants m" "length (m_stack m1) = length (m_stack m)" "take ?lo (m_stack m1) = take ?lo (m_stack m)"
    using m1 by auto
  have spl: "m_sp m1 \<le> length (m_stack m)" using m1 minvD(6) [OF m] by auto
  have r1: "rest m1 P = rest m P" for P using f by (simp add: rest_def active_def)
  have fr1: "fr m1 = fr m" using f by (simp add: fr_def)
  have w1: "shape m1" using w f spl by (auto simp: shape_def active_def)
  have "books e m (nat ?a) = bx (\<lambda>r. r = ?a) (operands_of m) + rest m (\<lambda>r. r = ?a) + e (nat ?a)"
    using c(1) by (simp add: books_def tally_rest)
  then have "1 \<le> books e m (nat ?a)"
    using c(2) minvD(2) [OF m, of "nat ?a"] bx_nonneg [of "\<lambda>r. r = ?a" "operands_of m"] by linarith
  from has_live [OF minv_has [OF m] this] have "nat ?a < 2 ^ 31" using small by linarith
  then have "?a < 2 ^ 31" using c(1) by simp
  then have ref: "boxed_kind (box_ref ?a) = KindRef" "as_ref (box_ref ?a) = ?a" using c(1) by simp_all
  have o: "operands_of ?m = take ?lo (m_stack m) @ [box_ref ?a]"
    using lo f(6,7) by (simp add: operands_of_def take_Suc_conv_app_nth)
  have t: "tally ?m P = bx P (take ?lo (m_stack m)) + (if P ?a then 1 else 0) + rest m P - cnt P (frame_refs (fr m))" for P
    using rest_pop_frame [OF w1, of g P] r1 fr1 ref unfolding tally_rest [of ?m] o by (simp add: bx_1)
  have fc: "cnt P (frame_refs (fr m)) = (if f_release (fr m) \<and> P (f_ref (fr m)) then 1 else 0) + (if P ?a then 1 else 0)" for P
    using co by (simp add: frame_refs_def)
  show ?thesis
  proof (rule safe_has [OF m h])
    show "shape (state_of (Inr ?m))"
      using w1 fp f lo by (intro shape_calls(1) shape_updates shape_pop_frame | simp)+
    have "bx (\<lambda>r. r < 0) (take ?lo (m_stack m)) = 0" "rest m (\<lambda>r. r < 0) = 0"
      using minvD(4) [OF m] rest_nonneg [of m "\<lambda>r. r < 0"] bx_nonneg [of "\<lambda>r. r < 0" "take ?lo (m_stack m)"]
        bx_nonneg [of "\<lambda>r. r < 0" "slice ?lo (m_sp m) m"] unfolding tally_rest operands_split [OF bp] bx_simps(3) by linarith+
    then show "tally (state_of (Inr ?m)) (\<lambda>r. r < 0) = 0"
      using t [of "\<lambda>r. r < 0"] c(1) tally_nonneg [of ?m "\<lambda>r. r < 0"] cnt_nonneg [of "\<lambda>r. r < 0" "frame_refs (fr m)"]
      unfolding state_of_simps by auto
    show "tally (state_of (Inr ?m)) (\<lambda>r. r = int b) + e b
        \<le> bx (\<lambda>r. r = int b) (take ?lo (m_stack m)) + rest m (\<lambda>r. r = int b) + e b
          - (if f_release (fr m) \<and> int b = f_ref (fr m) then 1 else 0)" for b
      using t [of "\<lambda>r. r = int b"] fc [of "\<lambda>r. r = int b"] by auto
  qed (use f in simp)
qed

lemma coro_return_safe:
  assumes m: "minv e m" and co: "f_coro (fr m) \<noteq> 0" and fp: "1 < m_fp m" and small: "length (h_cells (m_heap m)) \<le> 2 ^ 31"
    and ret: "f_returns (fr m) \<le> m_sp m"
  shows "safe e (coro_return (fr m) m)"
proof -
  let ?f = "fr m" and ?lo = "f_bp (fr m)" and ?a = "f_coro (fr m)"
  let ?K = "\<lambda>b. bx (\<lambda>r. r = int b) (take ?lo (m_stack m)) + rest m (\<lambda>r. r = int b) + e b"
  define last where "last = (\<lambda>m4. let m5 = pop_frame (\<lambda>f. f\<lparr>f_code := nil_unit, f_upvals := None, f_coro := 0\<rparr>)
                          (mod_coro ?a (\<lambda>c. c\<lparr>co_ref := 0, co_release := False\<rparr>) m4) in
            if length (m_stack m5) \<le> ?lo then Inl (TGoPanic, m5)
            else Inr (set_sp (?lo + 1) (poke ?lo (box_ref ?a) m5)))"
  define tail where "tail = (\<lambda>m3. seqm (release_fr ?f (mod_coro ?a (\<lambda>c. c\<lparr>co_done := True, co_image := [], co_upvals := None\<rparr>) m3)) last)"
  note c = coro_frame [OF m co]
  have K1: "1 \<le> ?K (nat ?a)" "1 \<le> ?K (nat ?a) - (if f_release ?f \<and> ?a = f_ref ?f then 1 else 0)"
  proof -
    have "?K (nat ?a) = bx (\<lambda>r. r = ?a) (take ?lo (m_stack m)) + rest m (\<lambda>r. r = ?a) + e (nat ?a)"
      using c(1) by simp
    then have k: "rest m (\<lambda>r. r = ?a) \<le> ?K (nat ?a)"
      using minvD(2) [OF m, of "nat ?a"] bx_nonneg [of "\<lambda>r. r = ?a" "take ?lo (m_stack m)"] by linarith
    then show "1 \<le> ?K (nat ?a)" using c(2) by linarith
    show "1 \<le> ?K (nat ?a) - (if f_release ?f \<and> ?a = f_ref ?f then 1 else 0)"
      using k c(2) c(3) [of "\<lambda>r. r = ?a"] by (cases "f_release ?f \<and> ?a = f_ref ?f") auto
  qed
  have K0: "(if b = 0 then 1 else 0) \<le> ?K b" for b
    using host_ge [OF m, of b] rest_nonneg [of m "\<lambda>r. r = int b"]
      bx_nonneg [of "\<lambda>r. r = int b" "take ?lo (m_stack m)"] by linarith
  have fref: "f_release ?f \<Longrightarrow> 0 < f_ref ?f" using fr_ok [OF m] by (simp add: frame_ok_def)
  have lo: "?lo < length (m_stack m)" using minvD(1) [OF m] fr_active [OF minvD(1) [OF m]] by (auto simp: shape_def)
  have tail: "safe e (tail (m\<lparr>m_heap := h\<rparr>))" if h: "has h ?K" and bp: "?lo \<le> m_sp m" for h
  proof -
    let ?g = "\<lambda>c. c\<lparr>co_done := True, co_image := [], co_upvals := None\<rparr>"
    have h0: "has (m_heap (m\<lparr>m_heap := h\<rparr>)) ?K" using h by simp
    from has_mod_coro [OF h0 c(1) K1(1), of ?g "[]"] K0 obtain h1 where
      h1: "mod_coro ?a ?g (m\<lparr>m_heap := h\<rparr>) = m\<lparr>m_heap := h1\<rparr>" "has h1 ?K"
        "h_cells h1 ! nat ?a = (case h_cells h ! nat ?a of HCoro c \<Rightarrow> HCoro (?g c) | v \<Rightarrow> v)"
      by (auto simp: pending_simps(1) cell_ok_def)
    have h1': "has (m_heap (m\<lparr>m_heap := h1\<rparr>)) ?K" using h1(2) by simp
    have "f_release ?f \<Longrightarrow> 1 \<le> ?K (nat (f_ref ?f))"
    proof (rule frame_owned [OF m])
      show "rest m (\<lambda>r. r = int b) \<le> ?K b" for b
        using minvD(2) [OF m, of b] bx_nonneg [of "\<lambda>r. r = int b" "take ?lo (m_stack m)"] by linarith
    qed
    from release_fr_has [OF h1' fr_ok [OF m] this] obtain h2 where
      h2: "release_fr ?f (m\<lparr>m_heap := h1\<rparr>) = Inr (m\<lparr>m_heap := h2\<rparr>)"
        "has h2 (\<lambda>b. ?K b - (if f_release ?f \<and> int b = f_ref ?f then 1 else 0))"
        "same_cells (\<lambda>b. ?K b - (if f_release ?f \<and> int b = f_ref ?f then 1 else 0)) h1 h2" by auto
    let ?L = "\<lambda>b. ?K b - (if f_release ?f \<and> int b = f_ref ?f then 1 else 0)"
    have La: "1 \<le> ?L (nat ?a)" using K1(2) c(1) by simp
    have L0: "(if b = 0 then 1 else 0) \<le> ?L b" for b
    proof (cases "f_release ?f \<and> int b = f_ref ?f")
      case True
      then have "1 \<le> cnt (\<lambda>r. r = int b) (frame_refs ?f)" "b \<noteq> 0" using fref by (auto simp: frame_refs_def)
      then have "1 \<le> ?K b" using rest_frame [OF minvD(1) [OF m], of "\<lambda>r. r = int b"] minvD(2) [OF m, of b]
          bx_nonneg [of "\<lambda>r. r = int b" "take ?lo (m_stack m)"] by linarith
      then show ?thesis using True \<open>b \<noteq> 0\<close> by simp
    next
      case False
      show ?thesis unfolding if_not_P [OF False] using K0 [of b] by linarith
    qed
    have h2': "has (m_heap (m\<lparr>m_heap := h2\<rparr>)) ?L" using h2(2) by simp
    let ?g2 = "\<lambda>c. c\<lparr>co_ref := 0, co_release := False\<rparr>"
    have up: "co_upvals c = None" if "h_cells h2 ! nat ?a = HCoro c" for c
    proof -
      have "h_cells h2 ! nat ?a = h_cells h1 ! nat ?a" using h2(3) La by (simp only: same_cells_def)
      then show ?thesis using h1(3) that by (auto split: hval.splits)
    qed
    from has_mod_coro [OF h2' c(1) La, of ?g2 "[]"] L0 up obtain h3 where
      h3: "mod_coro ?a ?g2 (m\<lparr>m_heap := h2\<rparr>) = m\<lparr>m_heap := h3\<rparr>" "has h3 ?L"
      by (auto simp: pending_simps(1) cell_ok_def)
    have "safe e (last (m\<lparr>m_heap := h2\<rparr>))"
      using leave_coro [OF m co fp small h3(2) _ bp, of "m\<lparr>m_heap := h3\<rparr>"] h3(1) lo by (simp add: last_def Let_def)
    then show ?thesis using h1(1) h2(1) by (simp add: tail_def)
  qed
  have split: "books e m b - bx (\<lambda>r. r = int b) (slice ?lo hi m) = bx (\<lambda>r. r = int b) (slice hi (m_sp m) m) + ?K b"
    if "?lo \<le> hi" "hi \<le> m_sp m" for b hi
    using operands3 [OF that] by (simp add: books_def tally_rest)
  have first: "safe e (seqm (if 0 < f_returns ?f
           then seqm (release_range ?lo (m_sp m - 1) m) (\<lambda>m1. Inr (mod_coro ?a (\<lambda>c. c\<lparr>co_value := top m1 1\<rparr>) m1))
           else seqm (release_range ?lo (m_sp m) m) (\<lambda>m1. seqm (on_heap (retain 0) m1)
             (\<lambda>m2. Inr (mod_coro ?a (\<lambda>c. c\<lparr>co_value := boxed_null\<rparr>) m2)))) tail)"
  proof (cases "0 < f_returns ?f")
    case True
    let ?v = "top m 1"
    have sp: "0 < m_sp m" using True ret by linarith
    have cv: "covers_ref (books e m) ?v" using covers_top [OF m, of 1] sp by simp
    have as: "pending (box_refs [?v]) b = bx (\<lambda>r. r = int b) [?v]" for b by (simp add: pending_cnt bx_def)
    have nn: "0 \<le> r" if "r \<in> set (box_refs [?v])" for r
      using that covers_nonneg [OF cv] by (auto simp: box_refs_one bx_1 split: if_splits)
    have k: "safe e (tail (mod_coro ?a (\<lambda>c. c\<lparr>co_value := ?v\<rparr>) (m\<lparr>m_heap := h\<rparr>)))"
      if lo: "?lo \<le> m_sp m - 1" and h: "has h (\<lambda>b. books e m b - bx (\<lambda>r. r = int b) (slice ?lo (m_sp m - 1) m))" for h
    proof -
      let ?L = "\<lambda>b. bx (\<lambda>r. r = int b) [?v] + ?K b"
      have L: "books e m b - bx (\<lambda>r. r = int b) (slice ?lo (m_sp m - 1) m) = ?L b" for b
        using split [OF lo] slice_top [OF sp minvD(6) [OF m]] by simp
      have h': "has (m_heap (m\<lparr>m_heap := h\<rparr>)) ?L" using h unfolding L by simp
      have La: "1 \<le> ?L (nat ?a)" using K1(1) bx_nonneg [of "\<lambda>r. r = int (nat ?a)" "[?v]"] by linarith
      have o: "pending (box_refs [?v]) b + (if b = 0 then 1 else 0) \<le> ?L b" for b unfolding as using K0 [of b] by linarith
      from has_mod_coro [OF h' c(1) La _ nn o, of "\<lambda>c. c\<lparr>co_value := ?v\<rparr>"] obtain h1 where
        "mod_coro ?a (\<lambda>c. c\<lparr>co_value := ?v\<rparr>) (m\<lparr>m_heap := h\<rparr>) = m\<lparr>m_heap := h1\<rparr>"
        "has h1 (\<lambda>b. ?L b - pending (box_refs [?v]) b)" by (auto simp: cell_ok_def)
      moreover have "has h1 ?K" by (rule has_le [OF calculation(2)]) (simp only: as)
      ultimately show ?thesis using tail [of h1] lo by simp
    qed
    have assoc: "seqm (seqm x f) g = seqm x (\<lambda>y. seqm (f y) g)" for x f g by (cases x) auto
    show ?thesis
      unfolding assoc if_P [OF True] by (rule range_safe [OF m]) (use k in simp_all)
  next
    case False
    have k: "safe e (seqm (on_heap (retain 0) (m\<lparr>m_heap := h\<rparr>)) (\<lambda>m2. tail (mod_coro ?a (\<lambda>c. c\<lparr>co_value := boxed_null\<rparr>) m2)))"
      if lo: "?lo \<le> m_sp m" and h: "has h (\<lambda>b. books e m b - bx (\<lambda>r. r = int b) (slice ?lo (m_sp m) m))" for h
    proof -
      have "slice (m_sp m) (m_sp m) m = []" by (simp add: slice_def)
      then have h': "has (m_heap (m\<lparr>m_heap := h\<rparr>)) ?K" using h split [OF lo order_refl] by simp
      have "1 \<le> ?K 0" using K0 [of 0] by simp
      from has_retain_null [OF h' this] obtain h1 where
        h1: "on_heap (retain 0) (m\<lparr>m_heap := h\<rparr>) = Inr (m\<lparr>m_heap := h1\<rparr>)" "has h1 (\<lambda>b. ?K b + (if b = 0 then 1 else 0))"
        by auto
      have h1': "has (m_heap (m\<lparr>m_heap := h1\<rparr>)) (\<lambda>b. ?K b + (if b = 0 then 1 else 0))" using h1(2) by simp
      have La: "1 \<le> ?K (nat ?a) + (if nat ?a = 0 then 1 else 0)" using K1(1) by (cases "nat ?a = 0") auto
      have p: "pending [0] b = (if b = 0 then 1 else 0)" for b by (simp add: pending_simps)
      have o: "pending [0] b + (if b = 0 then 1 else 0) \<le> ?K b + (if b = 0 then 1 else 0)" for b
        unfolding p using K0 [of b] by linarith
      from has_mod_coro [OF h1' c(1) La _ _ o, of "\<lambda>c. c\<lparr>co_value := boxed_null\<rparr>"] obtain h2 where
        "mod_coro ?a (\<lambda>c. c\<lparr>co_value := boxed_null\<rparr>) (m\<lparr>m_heap := h1\<rparr>) = m\<lparr>m_heap := h2\<rparr>"
        "has h2 (\<lambda>b. ?K b + (if b = 0 then 1 else 0) - pending [0] b)"
        by (auto simp: cell_ok_def box_refs_one boxed_null_ref)
      moreover have "has h2 ?K" by (rule has_le [OF calculation(2)]) (simp add: p)
      ultimately show ?thesis using tail [of h2] lo h1(1) by simp
    qed
    have assoc: "seqm (seqm x f) g = seqm x (\<lambda>y. seqm (f y) g)" for x f g by (cases x) auto
    show ?thesis
      unfolding assoc if_not_P [OF False] by (rule range_safe [OF m]) (use k in simp_all)
  qed
  show ?thesis
    using first m unfolding coro_return_def with_coro_def with_cell_def tail_def last_def
    by (auto split: sum.split hval.split)
qed

section \<open>Tail calls\<close>

lemma reuse_safe:
  assumes m: "minv e m" and sp: "length (ce_params ce) < m_sp m" and k: "boxed_kind (top m 1) = KindRef"
    and ce: "callee_ok m ce" and ci: "code_in m (ce_code ce)"
  shows "safe e (reuse_frame ce m)"
proof (cases "length (m_stack m) < f_bp (fr m) + length (ce_params ce) + ce_locals ce")
  case True
  then show ?thesis using m by (simp add: reuse_frame_def Let_def)
next
  case False
  let ?ps = "length (ce_params ce)" and ?ls = "ce_locals ce" and ?f = "fr m" and ?lo = "f_bp (fr m)"
  let ?hi = "m_sp m - ?ps - 1"
  define g where "g = (\<lambda>u (f :: frame). f\<lparr>f_code := u, f_upvals := ce_upvals ce, f_addr := ce_code ce, f_ref := ce_ref ce,
                f_ip := 0, f_bp := ?lo, f_returns := length (ce_returns ce), f_release := True\<rparr>)"
  note w = minvD(1) [OF m] and l = minvD(6) [OF m]
  have main: "safe e (seqm (release_fr ?f (move_range ?lo (m_sp (m\<lparr>m_heap := h\<rparr>) - ?ps - 1) ?ps (m\<lparr>m_heap := h\<rparr>)))
          (\<lambda>m2. with_code (ce_code ce) (clear_range (?lo + ?ps) ?ls m2) (\<lambda>u. Inr (set_sp (?lo + ?ps + ?ls)
             (set_fr (g u) (clear_range (?lo + ?ps) ?ls m2))))))"
    if lo: "?lo \<le> ?hi" and h: "has h (\<lambda>a. books e m a - bx (\<lambda>r. r = int a) (slice ?lo ?hi m))"
      and il: "length (h_instrs h) = length (h_instrs (m_heap m))" for h
  proof -
    let ?m = "move_range ?lo ?hi ?ps (m\<lparr>m_heap := h\<rparr>)"
    let ?A = "\<lambda>P. bx P (take ?lo (m_stack m)) + bx P (slice ?hi (m_sp m - 1) m) + bx P [top m 1] + rest m P"
    have t: "tally m P = bx P (slice ?lo ?hi m) + ?A P" for P
    proof -
      have "slice ?hi (m_sp m) m = slice ?hi (m_sp m - 1) m @ [top m 1]"
        using slice_split [of ?hi "m_sp m - 1" "m_sp m" m] slice_top [of m] sp l by simp
      then show ?thesis using operands3 [OF lo, of m] by (simp add: tally_rest)
    qed
    have L: "books e m a - bx (\<lambda>r. r = int a) (slice ?lo ?hi m) = ?A (\<lambda>r. r = int a) + e a" for a
      using t by (simp add: books_def)
    have hm: "has (m_heap ?m) (\<lambda>a. ?A (\<lambda>r. r = int a) + e a)" using h unfolding L by simp
    have "f_release ?f \<Longrightarrow> 1 \<le> ?A (\<lambda>r. r = int (nat (f_ref ?f))) + e (nat (f_ref ?f))"
    proof (rule frame_owned [OF m, of "\<lambda>a. ?A (\<lambda>r. r = int a) + e a"])
      show "rest m (\<lambda>r. r = int a) \<le> ?A (\<lambda>r. r = int a) + e a" for a
        using minvD(2) [OF m, of a] bx_nonneg [of "\<lambda>r. r = int a" "take ?lo (m_stack m)"]
          bx_nonneg [of "\<lambda>r. r = int a" "slice ?hi (m_sp m - 1) m"] bx_nonneg [of "\<lambda>r. r = int a" "[top m 1]"] by linarith
    qed
    from release_fr_has [OF hm fr_ok [OF m] this] obtain h2 where
      h2: "release_fr ?f ?m = Inr (?m\<lparr>m_heap := h2\<rparr>)"
        "has h2 (\<lambda>a. ?A (\<lambda>r. r = int a) + e a - (if f_release ?f \<and> int a = f_ref ?f then 1 else 0))"
        "length (h_instrs h2) = length (h_instrs h)" by (auto simp: same_cells_def)
    let ?m2 = "clear_range (?lo + ?ps) ?ls (?m\<lparr>m_heap := h2\<rparr>)"
    have "code_in ?m2 (ce_code ce)" using ci h2(3) il by (simp add: code_in_def)
    from with_code_ok [OF this] obtain u where
      u: "with_code (ce_code ce) ?m2 (\<lambda>u. Inr (set_sp (?lo + ?ps + ?ls) (set_fr (g u) ?m2)))
        = Inr (set_sp (?lo + ?ps + ?ls) (set_fr (g u) ?m2))" by blast
    let ?m' = "set_sp (?lo + ?ps + ?ls) (set_fr (g u) ?m2)"
    have lens: "?lo + ?ps + ?ls \<le> length (m_stack m)" "?hi + ?ps = m_sp m - 1" using False sp by linarith+
    have s1: "length (take ?ps (drop ?hi (m_stack m))) = ?ps" using lens l by simp
    have w2: "shape ?m2" using w lens l lo by simp
    have fr2: "fr ?m2 = ?f" by simp
    have st2: "length (m_stack ?m2) = length (m_stack m)" using lens l by simp
    have bp: "?lo < length (m_stack m)" using lo sp l by linarith
    have w3: "shape (set_fr (g u) ?m2)"
      by (rule shape_set_fr [OF w2]) (use ce bp st2 in \<open>auto simp: g_def frame_ok_def callee_ok_def\<close>)
    have w': "shape ?m'" by (rule shape_calls(1) [OF w3]) (use st2 lens(1) in \<open>simp only: m_stack_updates\<close>)
    have o: "operands_of ?m' = take ?lo (m_stack m) @ slice ?hi (m_sp m - 1) m @ replicate ?ls 0"
    proof -
      have "?lo \<le> length (m_stack m)" using lens by linarith
      moreover have "m_sp m - 1 - ?hi = ?ps" using lens(2) sp by linarith
      ultimately show ?thesis using s1 lens by (simp add: operands_of_def slice_def)
    qed
    have c1: "cnt P (frame_refs ?f) = (if f_release ?f \<and> P (f_ref ?f) then 1 else 0) + (if f_coro ?f \<noteq> 0 \<and> P (f_coro ?f) then 1 else 0)" for P
      by (simp add: frame_refs_def)
    have c2: "cnt P (frame_refs (g u ?f)) = bx P [top m 1] + (if f_coro ?f \<noteq> 0 \<and> P (f_coro ?f) then 1 else 0)" for P
      using ce k by (simp add: frame_refs_def g_def callee_ok_def bx_1)
    have t': "tally ?m' P = bx P (take ?lo (m_stack m)) + bx P (slice ?hi (m_sp m - 1) m) + rest m P
        - (if f_release ?f \<and> P (f_ref ?f) then 1 else 0) + bx P [top m 1]" for P
      using rest_set_fr [OF w2, of "g u" P] c1 [of P] c2 [of P] unfolding tally_rest [of ?m'] o by simp
    have "safe e (Inr ?m')"
    proof (rule safe_has [OF m h2(2)])
      show "shape (state_of (Inr ?m'))" using w' by simp
      have "0 \<le> (if f_release ?f \<and> f_ref ?f < 0 then 1 else (0::int))" by simp
      then show "tally (state_of (Inr ?m')) (\<lambda>r. r < 0) = 0"
        using t' [of "\<lambda>r. r < 0"] t [of "\<lambda>r. r < 0"] minvD(4) [OF m] tally_nonneg [of ?m' "\<lambda>r. r < 0"]
          bx_nonneg [of "\<lambda>r. r < 0" "slice ?lo ?hi m"] unfolding state_of_simps by linarith
      show "tally (state_of (Inr ?m')) (\<lambda>r. r = int a) + e a
          \<le> ?A (\<lambda>r. r = int a) + e a - (if f_release ?f \<and> int a = f_ref ?f then 1 else 0)" for a
      proof -
        have "(if f_release ?f \<and> f_ref ?f = int a then 1 else (0 :: int)) = (if f_release ?f \<and> int a = f_ref ?f then 1 else 0)"
          by auto
        then show ?thesis using t' [of "\<lambda>r. r = int a"] unfolding state_of_simps by linarith
      qed
    qed simp
    then show ?thesis using h2(1) u by simp
  qed
  have eq: "reuse_frame ce m = seqm (release_range ?lo ?hi m)
      (\<lambda>m1. seqm (release_fr ?f (move_range ?lo (m_sp m1 - ?ps - 1) ?ps m1))
          (\<lambda>m2. with_code (ce_code ce) (clear_range (?lo + ?ps) ?ls m2) (\<lambda>u. Inr (set_sp (?lo + ?ps + ?ls)
             (set_fr (g u) (clear_range (?lo + ?ps) ?ls m2))))))"
    using False by (simp add: reuse_frame_def Let_def g_def)
  have hi: "?hi \<le> m_sp m" by linarith
  show ?thesis unfolding eq by (rule range_safe [OF m hi]) (rule main)
qed

lemma return_call_safe:
  assumes m: "minv e m" and cd: "coded m" and k: "0 < m_sp m \<Longrightarrow> boxed_kind (top m 1) = KindRef"
  shows "safe e (do_return_call m)"
proof (cases "m_sp m = 0")
  case False
  let ?k = "\<lambda>ce. if m_sp m \<le> length (ce_params ce) then Inl (TStackUnderflow, m)
        else if m_fp m = 1 then (if m_fp m = length (m_frames m) then Inl (TFrameOverflow, m) else enter ce False m)
        else reuse_frame ce m"
  have fp: "m_fp m \<le> length (m_frames m)" using minvD(1) [OF m] by (simp add: shape_def)
  have "safe e (with_callee (as_ref (top m 1)) m None ?k)"
  proof (rule with_callee_safe [OF m])
    show "safe e (?k ce)" if "callee_ok m ce" "coded m \<Longrightarrow> code_in m (ce_code ce)" for ce
      using m fp False k that cd enter_safe [OF m _ k that(1), of False] reuse_safe [OF m _ k that(1)] by auto
  qed (use False in simp_all)
  then show ?thesis using False by (simp add: do_return_call_def)
qed (use m in \<open>simp add: do_return_call_def\<close>)

section \<open>Suspending and resuming\<close>

lemma minv_advance: "minv e m \<Longrightarrow> minv e (advance i m)"
  by (rule minv_step [of e m, OF _ minvD(5), where d = "\<lambda>P. 0"]) simp_all

lemma advance_calls [simp]: "f_bp (fr (advance i m)) = f_bp (fr m)" if "shape m"
proof -
  have "m_fp m - 1 < length (m_frames m)" using that by (auto simp: shape_def)
  then show ?thesis by (simp add: advance_def set_fr_def fr_def)
qed

lemma pending_boxes: "pending (box_refs vs) b = bx (\<lambda>r. r = int b) vs"
  by (simp add: pending_cnt bx_def)

lemma pending_coro:
  "pending (refs (HCoro c)) b = (if 0 < co_ref c \<and> co_ref c = int b then 1 else 0)
     + bx (\<lambda>r. r = int b) (co_image c) + bx (\<lambda>r. r = int b) [co_value c]"
  by (auto simp: pending_simps pending_boxes)

lemma bx_neg: "bx (\<lambda>r. r < 0) vs = 0 \<Longrightarrow> r \<in> set (box_refs vs) \<Longrightarrow> 0 \<le> r"
  by (auto simp: bx_def cnt_def filter_empty_conv)

lemma suspend:
  assumes m: "minv e m" and fp: "1 < m_fp m" and bp: "f_bp (fr m) < m_sp m" and co: "f_coro (fr m) \<noteq> 0"
    and small: "length (h_cells (m_heap m)) \<le> 2 ^ 31"
    and c: "cell_ok (HCoro c)" "co_ref c = f_ref (fr m)" "co_value c = top m 1"
      "co_image c = slice (f_bp (fr m)) (m_sp m - 1) m"
  shows "safe e (Inr (set_sp (f_bp (fr m) + 1) (poke (f_bp (fr m)) (box_ref (f_coro (fr m)))
     (pop_frame g (clear_range (f_bp (fr m)) (m_sp m - 1 - f_bp (fr m)) (set_cell (f_coro (fr m)) (HCoro c) (popn 1 m)))))))"
proof -
  let ?f = "fr m" and ?lo = "f_bp (fr m)" and ?a = "f_coro (fr m)" and ?hi = "m_sp m - 1"
  let ?R = "\<lambda>b. if f_release ?f \<and> int b = f_ref ?f then 1 else (0 :: int)"
  let ?K = "\<lambda>b. bx (\<lambda>r. r = int b) (take ?lo (m_stack m)) + rest m (\<lambda>r. r = int b) + e b - ?R b"
  note w = minvD(1) [OF m] and l = minvD(6) [OF m] and cf = coro_frame [OF m co] and fo = fr_ok [OF m]
  have t: "tally m P = bx P (take ?lo (m_stack m)) + bx P (slice ?lo ?hi m) + bx P [top m 1] + rest m P" for P
  proof -
    have "operands_of m = take ?lo (m_stack m) @ slice ?lo ?hi m @ [top m 1]"
      using operands3 [of ?lo ?hi m] slice_top [of m] bp l by simp
    then show ?thesis by (simp add: tally_rest)
  qed
  have R: "(if 0 < co_ref c \<and> co_ref c = int b then 1 else 0) = ?R b" for b
    using fo c(2) by (auto simp: frame_ok_def)
  have p: "pending (refs (HCoro c)) b = ?R b + bx (\<lambda>r. r = int b) (slice ?lo ?hi m) + bx (\<lambda>r. r = int b) [top m 1]" for b
    unfolding pending_coro R c(3,4) by simp
  have L: "books e m b = ?K b + pending (refs (HCoro c)) b" for b
    unfolding p books_def t by simp
  have Rr: "?R b + (if int b = ?a then 1 else 0) \<le> rest m (\<lambda>r. r = int b)" for b
    using rest_frame [OF w, of "\<lambda>r. r = int b"] co by (auto simp: frame_refs_def split: if_splits)
  have K0: "(if b = 0 then 1 else 0) \<le> ?K b" for b
  proof -
    have "0 \<le> (if int b = ?a then 1 else (0 :: int))" by simp
    then show ?thesis using host_ge [OF m, of b] Rr [of b] bx_nonneg [of "\<lambda>r. r = int b" "take ?lo (m_stack m)"] by linarith
  qed
  have neg: "bx (\<lambda>r. r < 0) (slice ?lo ?hi m) = 0" "bx (\<lambda>r. r < 0) [top m 1] = 0"
    using t [of "\<lambda>r. r < 0"] minvD(4) [OF m] rest_nonneg [of m "\<lambda>r. r < 0"] bx_nonneg [of "\<lambda>r. r < 0" "take ?lo (m_stack m)"]
      bx_nonneg [of "\<lambda>r. r < 0" "slice ?lo ?hi m"] bx_nonneg [of "\<lambda>r. r < 0" "[top m 1]"] by linarith+
  have nn: "0 \<le> r" if "r \<in> set (refs (HCoro c))" for r
    using that c(3,4) bx_neg [OF neg(1)] bx_neg [OF neg(2)] by (auto split: if_splits)
  have La: "1 \<le> books e m (nat ?a)"
  proof -
    have "(if int (nat ?a) = ?a then 1 else (0 :: int)) = 1" using cf(1) by simp
    then show ?thesis
      using L [of "nat ?a"] Rr [of "nat ?a"] minvD(2) [OF m, of "nat ?a"] pending_nonneg [of "refs (HCoro c)" "nat ?a"]
        bx_nonneg [of "\<lambda>r. r = int (nat ?a)" "take ?lo (m_stack m)"] by linarith
  qed
  let ?h = "(m_heap m)\<lparr>h_cells := (h_cells (m_heap m))[nat ?a := HCoro c]\<rparr>"
  have o: "pending (refs (HCoro c)) b + (if b = 0 then 1 else 0) \<le> books e m b" for b using K0 [of b] L [of b] by linarith
  have "has ?h (\<lambda>b. books e m b + pending (refs (h_cells (m_heap m) ! nat ?a)) b - pending (refs (HCoro c)) b)"
    by (rule has_update_cell [OF minv_has [OF m] La, of "HCoro c" "refs (HCoro c)"])
      (use cf(1) c(1) nn o in \<open>simp_all del: refs.simps\<close>)
  then have h: "has ?h ?K"
    by (rule has_le) (use L pending_nonneg [of "refs (h_cells (m_heap m) ! nat ?a)"] in \<open>simp add: add_increasing2\<close>)
  let ?m1 = "clear_range ?lo (?hi - ?lo) (set_cell ?a (HCoro c) (popn 1 m))"
  have m1: "?m1 = m\<lparr>m_heap := ?h, m_sp := ?hi, m_stack := take ?lo (m_stack m) @ replicate (?hi - ?lo) 0 @ drop ?hi (m_stack m)\<rparr>"
    using bp by (simp add: clear_range_def set_cell_def popn_def)
  have ex: "\<exists>n st. ?m1 = m\<lparr>m_heap := ?h, m_sp := n, m_stack := st\<rparr> \<and> n \<le> length st
      \<and> length st = length (m_stack m) \<and> take ?lo st = take ?lo (m_stack m)"
    by (intro exI conjI, rule m1) (use bp l in auto)
  show ?thesis by (rule leave_coro [OF m co fp small h disjI2 [OF ex] less_imp_le [OF bp]])
qed

lemma mod_coro_twice:
  assumes "cell_at a (m_heap m) = Inr (HCoro c)"
  shows "mod_coro a g2 (mod_coro a g1 m) = set_cell a (HCoro (g2 (g1 c))) m"
  using assms by (auto simp: mod_coro_def set_cell_def cell_at_def split: if_splits)

lemma mod_coro_popn: "mod_coro a g (popn n m) = popn n (mod_coro a g m)"
  by (auto simp: mod_coro_def set_cell_def popn_def split: sum.split hval.split)

lemma yield_safe:
  assumes m: "minv e m" and bp: "1 < m_fp m \<Longrightarrow> 0 < m_sp m \<Longrightarrow> f_bp (fr m) < m_sp m"
    and small: "length (h_cells (m_heap m)) \<le> 2 ^ 31"
  shows "safe e (do_yield m)"
proof -
  define m1 where "m1 = advance 1 m"
  have m1: "minv e m1" unfolding m1_def by (rule minv_advance [OF m])
  have f: "m_sp m1 = m_sp m" "m_fp m1 = m_fp m" "m_heap m1 = m_heap m" "f_bp (fr m1) = f_bp (fr m)"
    using minvD(1) [OF m] by (simp_all add: m1_def)
  show ?thesis
  proof (cases "m_sp m = 0 \<or> m_fp m = 1 \<or> \<not> (\<exists>c. cell_at (f_coro (fr m1)) (m_heap m1) = Inr (HCoro c))")
    case True
    then show ?thesis using m m1 unfolding do_yield_def Let_def m1_def [symmetric] with_coro_def with_cell_def
      by (auto split: sum.split hval.split)
  next
    case False
    then obtain c where c: "cell_at (f_coro (fr m1)) (m_heap m1) = Inr (HCoro c)" by blast
    let ?a = "f_coro (fr m1)" and ?f = "fr m1" and ?lo = "f_bp (fr m1)"
    have fp: "1 < m_fp m1" using False shape_fp [OF minvD(1) [OF m1]] f by simp
    have lo: "?lo < m_sp m1" using bp False fp f by simp
    have a0: "?a \<noteq> 0"
    proof
      assume "?a = 0"
      then show False using c hinvD(15) [OF minvD(5) [OF m1]] by (auto simp: cell_at_def split: if_splits)
    qed
    define c1 where "c1 = c\<lparr>co_value := top m1 1, co_addr := f_addr ?f, co_ref := f_ref ?f,
       co_returns := f_returns ?f, co_release := f_release ?f, co_ip := f_ip ?f, co_upvals := f_upvals ?f,
       co_image := slice ?lo (m_sp m1 - 1) m1\<rparr>"
    let ?g1 = "\<lambda>c. c\<lparr>co_value := top m1 1, co_addr := f_addr ?f, co_ref := f_ref ?f,
       co_returns := f_returns ?f, co_release := f_release ?f, co_ip := f_ip ?f, co_upvals := f_upvals ?f\<rparr>"
    let ?g2 = "\<lambda>c. c\<lparr>co_image := slice ?lo (m_sp m1 - 1) m1\<rparr>"
    have ms: "m_sp (mod_coro ?a ?g1 (popn 1 m1)) = m_sp m1 - 1" "slice ?lo (m_sp m1 - 1) (mod_coro ?a ?g1 (popn 1 m1)) = slice ?lo (m_sp m1 - 1) m1"
      using mod_coro_heap [of ?a ?g1 "popn 1 m1"] by (auto simp: popn_def slice_def)
    have ok: "cell_ok (HCoro c1)" using fr_ok [OF m1] by (auto simp: cell_ok_def c1_def frame_ok_def)
    have two: "mod_coro ?a ?g2 (mod_coro ?a ?g1 (popn 1 m1)) = set_cell ?a (HCoro c1) (popn 1 m1)"
      using mod_coro_twice [of ?a "popn 1 m1" c ?g2 ?g1] c by (simp add: c1_def)
    have eq: "do_yield m = Inr (set_sp (?lo + 1) (poke ?lo (box_ref ?a)
       (pop_frame (\<lambda>f. f\<lparr>f_code := nil_unit, f_upvals := None, f_coro := 0\<rparr>)
         (clear_range ?lo (m_sp m1 - 1 - ?lo) (set_cell ?a (HCoro c1) (popn 1 m1))))))"
      unfolding do_yield_def Let_def m1_def [symmetric] with_coro_def with_cell_def c sum.case hval.case ms two [symmetric]
      using False lo f by (simp add: not_less)
    show ?thesis
      unfolding eq by (rule suspend [OF m1 fp lo a0 _ ok]) (use small f in \<open>simp_all add: c1_def\<close>)
  qed
qed

end
