(* ===== verification/CoroInv.thy ===== *)
theory CoroInv
  imports CallsInv
begin

section \<open>Releasing what a running coroutine held\<close>

text \<open>
  \<^verbatim>\<open>RESUME\<close> releases the coroutine's last value before it clears the field.  A release only reads the
  slots it reclaims, so it commutes with the update of a slot that stays live.
\<close>

definition put_cell :: "nat \<Rightarrow> hval \<Rightarrow> heap \<Rightarrow> heap" where
  "put_cell a v h = h\<lparr>h_cells := (h_cells h)[a := v]\<rparr>"

lemma put_cell_simps [simp]:
  "h_cells (put_cell a v h) = (h_cells h)[a := v]" "h_rc (put_cell a v h) = h_rc h" "h_free (put_cell a v h) = h_free h"
  "(put_cell a v h)\<lparr>h_rc := rc\<rparr> = put_cell a v (h\<lparr>h_rc := rc\<rparr>)" "h_instrs (put_cell a v h) = h_instrs h"
  by (simp_all add: put_cell_def)

lemma reclaim_put: "x \<noteq> a \<Longrightarrow> reclaim x u (put_cell a v h) = put_cell a v (reclaim x u h)"
  by (cases u) (simp_all add: reclaim_def finalize_def remove_code_def put_cell_def Let_def list_update_swap)

lemma release_loop_rc: "release_loop w h = Inr h' \<Longrightarrow> a < length (h_rc h) \<Longrightarrow> h_rc h' ! a \<le> h_rc h ! a"
proof (induction w h rule: release_loop.induct)
  case (2 x w h)
  let ?h1 = "h\<lparr>h_rc := (h_rc h)[nat x := h_rc h ! nat x - 1]\<rparr>"
  have le: "h_rc ?h1 ! a \<le> h_rc h ! a" using "2.prems"(2) by (cases "nat x = a") auto
  from 2 show ?case using le by (fastforce simp: Let_def split: if_splits)
qed simp

lemma release_loop_put:
  "release_loop w (put_cell a v h) = Inr h2 \<Longrightarrow> 0 < h_rc h2 ! a \<Longrightarrow> a < length (h_rc h) \<Longrightarrow>
   \<exists>h1. release_loop w h = Inr h1 \<and> h2 = put_cell a v h1 \<and> h_cells h1 ! a = h_cells h ! a"
proof (induction w h rule: release_loop.induct)
  case (1 h)
  then show ?case by simp
next
  case (2 x w h)
  let ?h1 = "h\<lparr>h_rc := (h_rc h)[nat x := h_rc h ! nat x - 1]\<rparr>"
  have ok: "\<not> (x < 0 \<or> int (length (h_rc h)) \<le> x \<or> int (length (h_cells h)) \<le> x)"
    using "2.prems"(1) by (auto split: if_splits)
  show ?case
  proof (cases "h_rc ?h1 ! nat x = 0")
    case True
    let ?u = "h_cells h ! nat x"
    have step: "release_loop (x # w) (put_cell a v h)
        = release_loop (rev (refs ((h_cells h)[a := v] ! nat x)) @ w) (reclaim (nat x) ((h_cells h)[a := v] ! nat x) (put_cell a v ?h1))"
      using ok True by (simp add: Let_def)
    have xa: "nat x \<noteq> a"
    proof
      assume "nat x = a"
      then have "h_rc (reclaim (nat x) ((h_cells h)[a := v] ! nat x) (put_cell a v ?h1)) ! a = 0" using True by simp
      then show False using release_loop_rc [OF "2.prems"(1) [unfolded step], of a] "2.prems"(2,3) by simp
    qed
    have eq: "release_loop (x # w) (put_cell a v h) = release_loop (rev (refs ?u) @ w) (put_cell a v (reclaim (nat x) ?u ?h1))"
      using step xa reclaim_put [OF xa] by simp
    have "release_loop (x # w) h = release_loop (rev (refs ?u) @ w) (reclaim (nat x) ?u ?h1)"
      using ok True by (simp add: Let_def)
    with "2.IH"(1) [OF ok refl refl] True xa "2.prems" eq show ?thesis by simp
  next
    case False
    have "release_loop (x # w) (put_cell a v h) = release_loop w (put_cell a v ?h1)" "release_loop (x # w) h = release_loop w ?h1"
      using ok False by (simp_all add: Let_def)
    with "2.IH"(2) [OF ok refl refl False] "2.prems" show ?thesis by simp
  qed
qed

lemma release_put:
  assumes "release r (put_cell a v h) = Inr h2" "0 < h_rc h2 ! a" "a < length (h_rc h)"
  shows "\<exists>h1. release r h = Inr h1 \<and> h2 = put_cell a v h1 \<and> h_cells h1 ! a = h_cells h ! a"
  using assms release_loop_put [of "[r]" a v h h2]
  by (auto simp: release_def Let_def split: if_splits)

lemma release_box_put:
  assumes "release_box b (put_cell a v h) = Inr h2" "0 < h_rc h2 ! a" "a < length (h_rc h)"
  shows "\<exists>h1. release_box b h = Inr h1 \<and> h2 = put_cell a v h1 \<and> h_cells h1 ! a = h_cells h ! a"
  using assms release_put [of "as_ref b" a v h h2]
  by (auto simp: release_box_def Let_def split: if_splits)

lemma heap_upd_eq [simp]: "m\<lparr>m_heap := h\<rparr> = m\<lparr>m_heap := h'\<rparr> \<longleftrightarrow> h = h'"
proof
  assume "m\<lparr>m_heap := h\<rparr> = m\<lparr>m_heap := h'\<rparr>"
  then have "m_heap (m\<lparr>m_heap := h\<rparr>) = m_heap (m\<lparr>m_heap := h'\<rparr>)" by (rule arg_cong)
  then show "h = h'" by simp
qed simp

lemma covers_ref_I:
  assumes "\<And>r. r \<in> set (box_refs [v]) \<Longrightarrow> 0 \<le> r" "\<And>a. bx (\<lambda>r. r = int a) [v] + (if a = 0 then 1 else 0) \<le> L a"
  shows "covers_ref L v"
  using assms by (auto simp: covers_ref_def bx_1 box_refs_one)

text \<open>The value the coroutine held is dropped, and the field with it.\<close>

lemma drop_value:
  assumes m: "minv e m" and a: "0 < a" "1 \<le> books e m (nat a)" and c: "cell_at a (m_heap m) = Inr (HCoro co)"
    and same: "m_heap m1 = m_heap m"
  shows "\<exists>h. seqm (release_m (co_value co) m1) (\<lambda>m2. Inr (mod_coro a (\<lambda>c. c\<lparr>co_value := 0\<rparr>) m2)) = Inr (m1\<lparr>m_heap := h\<rparr>)
    \<and> has h (books e m) \<and> h_cells h ! nat a = HCoro (co\<lparr>co_value := 0\<rparr>) \<and> length (h_instrs h) = length (h_instrs (m_heap m))"
proof -
  let ?h = "m_heap m" and ?k = "nat a" and ?v = "co_value co"
  let ?c = "co\<lparr>co_value := 0\<rparr>"
  have cell: "?k < length (h_cells ?h)" "h_cells ?h ! ?k = HCoro co" using c by (auto simp: cell_at_def split: if_splits)
  note h = minvD(5) [OF m]
  have ok: "cell_ok (HCoro ?c)" using hinvD(14) [OF h nth_mem [OF cell(1)]] cell(2) by (auto simp: cell_ok_def)
  have nn: "0 \<le> r" if "r \<in> set (refs (HCoro co))" for r
    using hinvD(4) [OF h nth_mem [OF cell(1)]] cell(2) that unfolding in_heap_def by metis
  have sub: "set (refs (HCoro ?c)) \<subseteq> set (refs (h_cells ?h ! ?k)) \<union> set []"
    "pending (refs (HCoro ?c)) b \<le> pending (refs (h_cells ?h ! ?k)) b + pending [] b" for b
    using coro_refs_le [of ?c co "[]"] unfolding cell(2) by (simp_all add: box_refs_one)
  have "pending [] b + (if b = 0 then 1 else 0) \<le> books e m b" for b
    using host_ge [OF m, of b] tally_nonneg [of m "\<lambda>r. r = int b"] unfolding pending_simps(1) books_def by linarith
  from has_update_cell [OF minv_has [OF m] a(2) _ ok sub(1) _ sub(2) this] a(1)
  have "has (put_cell ?k (HCoro ?c) ?h) (\<lambda>b. books e m b + pending (refs (HCoro co)) b - pending (refs (HCoro ?c)) b)"
    by (simp add: put_cell_def cell(2) del: refs.simps)
  moreover have "pending (refs (HCoro co)) b - pending (refs (HCoro ?c)) b = bx (\<lambda>r. r = int b) [?v]" for b
    unfolding pending_coro by (simp add: bx_1)
  ultimately have hs: "has (put_cell ?k (HCoro ?c) ?h) (\<lambda>b. books e m b + bx (\<lambda>r. r = int b) [?v])"
    by (simp add: algebra_simps)
  have "covers_ref (\<lambda>b. books e m b + bx (\<lambda>r. r = int b) [?v]) ?v"
  proof (rule covers_ref_I)
    show "0 \<le> r" if "r \<in> set (box_refs [?v])" for r using nn [of r] that by simp
    show "bx (\<lambda>r. r = int b) [?v] + (if b = 0 then 1 else 0) \<le> books e m b + bx (\<lambda>r. r = int b) [?v]" for b
      using host_ge [OF m, of b] tally_nonneg [of m "\<lambda>r. r = int b"] unfolding books_def by linarith
  qed
  from has_release [of "m1\<lparr>m_heap := put_cell ?k (HCoro ?c) ?h\<rparr>", OF _ this] hs obtain h2 where
    h2: "release_box ?v (put_cell ?k (HCoro ?c) ?h) = Inr h2" "has h2 (books e m)"
      "same_cells (books e m) (put_cell ?k (HCoro ?c) ?h) h2"
    by (auto simp: release_m_def on_heap_def split: sum.splits)
  from h2(2) obtain E where E: "hinv [] E h2" "books e m ?k \<le> E ?k" by (auto simp: has_def)
  have "0 < h_rc h2 ! ?k" using owned_slot_live [OF E(1), of ?k] E(2) a by (simp add: slot_live_def alive_def)
  from release_box_put [OF h2(1) this] cell(1) hinvD(1) [OF h] obtain h1 where
    h1: "release_box ?v ?h = Inr h1" "h2 = put_cell ?k (HCoro ?c) h1" "h_cells h1 ! ?k = HCoro co" using cell(2) by auto
  have k1: "?k < length (h_cells h1)" using has_live [OF h2(2) a(2)] h1(2) by simp
  have "mod_coro a (\<lambda>c. c\<lparr>co_value := 0\<rparr>) (m1\<lparr>m_heap := h1\<rparr>) = m1\<lparr>m_heap := h2\<rparr>"
    using mod_coro_set [of a "m1\<lparr>m_heap := h1\<rparr>" co] a(1) k1 h1(2,3) by (simp add: put_cell_def)
  moreover have "release_m ?v m1 = Inr (m1\<lparr>m_heap := h1\<rparr>)" using h1(1) same by (simp add: release_m_def on_heap_def)
  moreover have "h_cells h2 ! ?k = HCoro ?c" using h1(2) k1 by simp
  moreover have "length (h_instrs h2) = length (h_instrs ?h)" using h2(3) by (simp add: same_cells_def)
  ultimately show ?thesis using h2(2) by (intro exI [of _ h2]) simp
qed

lemma resume_safe:
  assumes m: "minv e m" and cd: "coded m"
  shows "safe e (do_resume m)"
proof (cases "2 \<le> m_sp m \<and> m_fp m \<noteq> length (m_frames m) \<and> boxed_kind (top m 2) = KindRef
    \<and> (\<exists>co. cell_at (as_ref (top m 2)) (m_heap m) = Inr (HCoro co) \<and> \<not> co_done co)")
  case False
  then show ?thesis
    using m unfolding do_resume_def Let_def with_coro_def with_cell_def by (auto split: sum.split hval.split)
next
  case True
  let ?a = "as_ref (top m 2)"
  from True obtain co where sp: "2 \<le> m_sp m" and fp: "m_fp m \<noteq> length (m_frames m)" and k: "boxed_kind (top m 2) = KindRef"
    and c: "cell_at ?a (m_heap m) = Inr (HCoro co)" "\<not> co_done co" by blast
  note w = minvD(1) [OF m] and l = minvD(6) [OF m]
  let ?base = "m_sp m - 2" and ?n = "length (co_image co)"
  define m1 where "m1 = popn 2 m"
  have m1: "m_sp m1 = ?base" "m_heap m1 = m_heap m" "shape m1" "m_stack m1 = m_stack m" "\<And>P. rest m1 P = rest m P"
    "m_fp m1 = m_fp m" "m_frames m1 = m_frames m" using w by (simp_all add: m1_def)
  have op: "operands_of m = take ?base (m_stack m) @ [top m 2, top m 1]"
  proof -
    have "take (Suc (Suc ?base)) (m_stack m) = take ?base (m_stack m) @ [m_stack m ! ?base, m_stack m ! Suc ?base]"
      using sp l by (simp add: take_Suc_conv_app_nth)
    moreover have "Suc (Suc ?base) = m_sp m" "m_sp m - 1 = Suc ?base" using sp by linarith+
    ultimately show ?thesis by (simp add: operands_of_def top_def)
  qed
  have t: "tally m P = bx P (take ?base (m_stack m)) + bx P [top m 2] + bx P [top m 1] + rest m P" for P
    by (simp add: tally_rest op)
  have neg: "bx (\<lambda>r. r < 0) [top m 2] = 0" using covers_nonneg [OF covers_top [OF m, of 2]] sp by simp
  have a0: "0 < ?a"
  proof -
    have "?a \<noteq> 0" using c(1) hinvD(15) [OF minvD(5) [OF m]] by (auto simp: cell_at_def split: if_splits)
    then show ?thesis using neg k by (simp add: bx_1 split: if_splits)
  qed
  have ref: "bx P [top m 2] = (if P ?a then 1 else 0)" for P using k by (simp add: bx_1)
  have Ba: "1 \<le> books e m (nat ?a)"
    using t [of "\<lambda>r. r = int (nat ?a)"] ref [of "\<lambda>r. r = int (nat ?a)"] a0 minvD(2) [OF m, of "nat ?a"]
      bx_nonneg [of "\<lambda>r. r = int (nat ?a)" "take ?base (m_stack m)"] bx_nonneg [of "\<lambda>r. r = int (nat ?a)" "[top m 1]"]
      rest_nonneg [of m "\<lambda>r. r = int (nat ?a)"] unfolding books_def by (simp split: if_splits)
  show ?thesis
  proof (cases "length (m_stack m) < ?base + ?n + 1")
    case True
    have "safe e (Inl (TStackOverflow, m1))"
    proof (rule safe_less [OF m])
      show "tally m1 P \<le> tally m P" for P
        using tally_pop2 [OF sp l, of P] bx_nonneg [of P "[top m 1]"] bx_nonneg [of P "[top m 2]"] unfolding m1_def by linarith
    qed (use m1 minv_has [OF m] in simp_all)
    moreover have "do_resume m = Inl (TStackOverflow, m1)"
      using True sp fp k c by (simp add: do_resume_def Let_def with_coro_def with_cell_def m1_def)
    ultimately show ?thesis by simp
  next
    case False
    from drop_value [OF m a0 Ba c(1) m1(2)] obtain h where
      h: "seqm (release_m (co_value co) m1) (\<lambda>m2. Inr (mod_coro ?a (\<lambda>c. c\<lparr>co_value := 0\<rparr>) m2)) = Inr (m1\<lparr>m_heap := h\<rparr>)"
        "has h (books e m)" "h_cells h ! nat ?a = HCoro (co\<lparr>co_value := 0\<rparr>)" "length (h_instrs h) = length (h_instrs (m_heap m))"
      by blast
    from h(1) obtain m2 where m2: "release_m (co_value co) m1 = Inr m2" "mod_coro ?a (\<lambda>c. c\<lparr>co_value := 0\<rparr>) m2 = m1\<lparr>m_heap := h\<rparr>"
      by (cases "release_m (co_value co) m1") auto
    define m3 where "m3 = push (top m 1) (set_sp (?base + ?n) (put_image ?base (co_image co) (m1\<lparr>m_heap := h\<rparr>)))"
    let ?c = "co\<lparr>co_value := 0, co_image := [], co_upvals := None, co_ref := 0, co_release := False\<rparr>"
    let ?h3 = "h\<lparr>h_cells := (h_cells h)[nat ?a := HCoro ?c]\<rparr>"
    have al: "nat ?a < length (h_cells h)" by (rule has_live [OF h(2) Ba])
    have m3: "m_heap m3 = h" "m_sp m3 = ?base + ?n + 1" by (simp_all add: m3_def)
    have mc: "mod_coro ?a (\<lambda>c. c\<lparr>co_image := [], co_upvals := None, co_ref := 0, co_release := False\<rparr>) m3 = m3\<lparr>m_heap := ?h3\<rparr>"
      using mod_coro_set [of ?a m3 "co\<lparr>co_value := 0\<rparr>"] a0 al h(3) m3(1) by simp
    have "code_in m3 (co_addr co)" using codedD(2) [OF cd c(1)] h(4) m3(1) by (simp add: code_in_def)
    from with_code_ok [OF this] obtain u where u: "\<And>k. with_code (co_addr co) m3 k = k u" by blast
    let ?f = "\<lparr>f_addr = co_addr co, f_returns = co_returns co, f_code = u, f_upvals = co_upvals co, f_ref = co_ref co,
                 f_release = co_release co, f_coro = ?a, f_ip = co_ip co, f_bp = ?base\<rparr>"
    let ?m = "push_frame ?f (advance 1 (m3\<lparr>m_heap := ?h3\<rparr>))"
    have "do_resume m = seqm (release_m (co_value co) m1) (\<lambda>m2.
        let m3 = push (top m 1) (set_sp (m_sp m1 + ?n) (put_image (m_sp m1) (co_image co) (mod_coro ?a (\<lambda>c. c\<lparr>co_value := 0\<rparr>) m2))) in
        with_code (co_addr co) m3 (\<lambda>u. Inr (push_frame
                \<lparr>f_addr = co_addr co, f_returns = co_returns co, f_code = u, f_upvals = co_upvals co, f_ref = co_ref co,
                 f_release = co_release co, f_coro = ?a, f_ip = co_ip co, f_bp = m_sp m1\<rparr>
                (advance 1 (mod_coro ?a (\<lambda>c. c\<lparr>co_image := [], co_upvals := None, co_ref := 0, co_release := False\<rparr>) m3)))))"
      using False sp fp k c m1(4) by (simp add: do_resume_def Let_def with_coro_def with_cell_def m1_def)
    then have eq: "do_resume m = Inr ?m"
      unfolding m2(1) seqm_simps Let_def m2(2) m1(1) m3_def [symmetric] u mc .
    have cell: "nat ?a < length (h_cells (m_heap m))" "h_cells (m_heap m) ! nat ?a = HCoro co"
      using c(1) by (auto simp: cell_at_def split: if_splits)
    have okc: "cell_ok (HCoro co)" using hinvD(14) [OF minvD(5) [OF m] nth_mem [OF cell(1)]] cell(2) by simp
    have s0: "shape (put_image ?base (co_image co) (m1\<lparr>m_heap := h\<rparr>))" using m1 False by simp
    have ls: "length (m_stack (put_image ?base (co_image co) (m1\<lparr>m_heap := h\<rparr>))) = length (m_stack m)" using m1 False by simp
    have s1: "shape (set_sp (?base + ?n) (put_image ?base (co_image co) (m1\<lparr>m_heap := h\<rparr>)))"
      by (rule shape_calls(1) [OF s0]) (use ls False in simp)
    have s3: "shape m3" unfolding m3_def by (rule shape_updates(1) [OF s1]) (use ls False in simp)
    have l3: "length (m_stack m3) = length (m_stack m)" using ls by (simp add: m3_def)
    have fl: "m_fp (advance 1 (m3\<lparr>m_heap := ?h3\<rparr>)) < length (m_frames (advance 1 (m3\<lparr>m_heap := ?h3\<rparr>)))"
      using fp w m1(6,7) by (simp add: m3_def shape_def)
    have fo: "frame_ok ?f" using okc by (auto simp: frame_ok_def cell_ok_def)
    have bl: "f_bp ?f < length (m_stack (advance 1 (m3\<lparr>m_heap := ?h3\<rparr>)))" using l3 sp l by simp
    have o3: "operands_of m3 = take ?base (m_stack m) @ co_image co @ [top m 1]"
      using False l m1(4) by (simp add: m3_def operands_of_def take_Suc_conv_app_nth nth_append list_update_append)
    have r3: "rest m3 P = rest m P" for P using m1(5) by (simp add: m3_def)
    have fc: "cnt P (frame_refs ?f) = (if 0 < co_ref co \<and> P (co_ref co) then 1 else 0) + (if P ?a then 1 else 0)" for P
      using okc a0 by (simp add: frame_refs_def cell_ok_def)
    have t': "tally ?m P = tally m P + (if 0 < co_ref co \<and> P (co_ref co) then 1 else 0) + bx P (co_image co)" for P
    proof -
      have "operands_of ?m = operands_of m3" by (simp add: operands_of_def)
      moreover have "rest ?m P = rest m P + cnt P (frame_refs ?f)" using rest_push_frame [OF _ fl, of ?f P] s3 r3 by simp
      ultimately show ?thesis using fc [of P] t [of P] ref [of P] o3 by (simp add: tally_rest)
    qed
    have "has ?h3 (\<lambda>b. books e m b + (if 0 < co_ref co \<and> co_ref co = int b then 1 else 0) + bx (\<lambda>r. r = int b) (co_image co))"
    proof -
      have ok: "cell_ok (HCoro ?c)" by (simp add: cell_ok_def)
      have rn: "refs (HCoro ?c) = []" by (simp add: box_refs_def)
      have "pending [] b + (if b = 0 then 1 else 0) \<le> books e m b" for b
        using host_ge [OF m, of b] tally_nonneg [of m "\<lambda>r. r = int b"] unfolding pending_simps(1) books_def by linarith
      from has_update_cell [OF h(2) Ba _ ok _ _ _ this] a0
      have "has ?h3 (\<lambda>b. books e m b + pending (refs (HCoro (co\<lparr>co_value := 0\<rparr>))) b - pending (refs (HCoro ?c)) b)"
        unfolding rn h(3) by (simp add: pending_simps(1) del: refs.simps)
      then show ?thesis by (rule has_le) (unfold rn pending_coro, simp add: pending_simps(1) bx_1)
    qed
    then have "safe e (Inr ?m)"
    proof (rule safe_has [OF m])
      show "shape (state_of (Inr ?m))" using shape_push_frame [OF _ fl fo bl] s3 by simp
      have ri: "0 \<le> r" if "r \<in> set (refs (HCoro co))" for r
        using hinvD(4) [OF minvD(5) [OF m] nth_mem [OF cell(1)]] cell(2) that unfolding in_heap_def by metis
      have "\<not> r < 0" if "r \<in> set (box_refs (co_image co))" for r using ri [of r] that by simp
      then have "bx (\<lambda>r. r < 0) (co_image co) = 0" by (auto simp: bx_def cnt_def filter_empty_conv)
      moreover have "\<not> (0 < co_ref co \<and> co_ref co < 0)" by linarith
      ultimately show "tally (state_of (Inr ?m)) (\<lambda>r. r < 0) = 0" using t' minvD(4) [OF m] by simp
      show "tally (state_of (Inr ?m)) (\<lambda>r. r = int b) + e b
          \<le> books e m b + (if 0 < co_ref co \<and> co_ref co = int b then 1 else 0) + bx (\<lambda>r. r = int b) (co_image co)" for b
        unfolding state_of_simps t' books_def by simp
    qed simp
    then show ?thesis unfolding eq .
  qed
qed

section \<open>Reading a handle\<close>

lemma safe_le: "safe e r \<Longrightarrow> (\<And>a. e0 a \<le> e a) \<Longrightarrow> safe e0 r"
  unfolding safe_def by (meson order_trans)

lemma held_refs:
  assumes m: "minv e m" and c: "cell_at a (m_heap m) = Inr u"
  shows "0 \<le> a" "nat a < length (h_cells (m_heap m))" "h_cells (m_heap m) ! nat a = u"
    "\<And>r. r \<in> set (refs u) \<Longrightarrow> 0 \<le> r \<and> slot_live (m_heap m) (nat r)"
proof -
  show a: "0 \<le> a" "nat a < length (h_cells (m_heap m))" "h_cells (m_heap m) ! nat a = u"
    using c by (auto simp: cell_at_def split: if_splits)
  show "0 \<le> r \<and> slot_live (m_heap m) (nat r)" if "r \<in> set (refs u)" for r
    using hinv_ref_live [OF minvD(5) [OF m] a(2), of r] that a(3) by (simp add: slot_live_def alive_def)
qed

lemma retain_held:
  assumes m: "minv e m" and c: "cell_at a (m_heap m) = Inr u" and v: "set (box_refs [v]) \<subseteq> set (refs u)"
  shows "\<exists>h'. retain_m v m = Inr (m\<lparr>m_heap := h'\<rparr>) \<and> has h' (\<lambda>b. books e m b + bx (\<lambda>r. r = int b) [v])"
    "bx (\<lambda>r. r < 0) [v] = 0"
proof -
  have r: "0 \<le> as_ref v \<and> slot_live (m_heap m) (nat (as_ref v))" if "boxed_kind v = KindRef"
    using held_refs(4) [OF m c, of "as_ref v"] v that by (auto simp: box_refs_one)
  then show "bx (\<lambda>r. r < 0) [v] = 0" by (auto simp: bx_1)
  show "\<exists>h'. retain_m v m = Inr (m\<lparr>m_heap := h'\<rparr>) \<and> has h' (\<lambda>b. books e m b + bx (\<lambda>r. r = int b) [v])"
  proof (cases "boxed_kind v = KindRef")
    case True
    let ?k = "nat (as_ref v)"
    from cs.take_ok [OF minvD(5) [OF m]] r [OF True] obtain h' where
      h': "retain (as_ref v) (m_heap m) = Inr h'" "hinv [] ((books e m)(?k := books e m ?k + 1)) h'" by force
    have "has h' (\<lambda>b. books e m b + bx (\<lambda>r. r = int b) [v])"
      by (rule hasI [OF h'(2)]) (use r [OF True] in \<open>auto simp: bx_1\<close>)
    then show ?thesis using h'(1) True by (intro exI [of _ h']) (simp add: retain_m_def retain_box_def on_heap_def)
  next
    case False
    then show ?thesis using minv_has [OF m]
      by (intro exI [of _ "m_heap m"]) (simp add: retain_m_def retain_box_def on_heap_def bx_1)
  qed
qed

text \<open>The result replaces the handle: \<open>v\<close> was retained, the handle released.\<close>

lemma replace_top:
  assumes m: "minv e m" and sp: "0 < m_sp m" and n: "bx (\<lambda>r. r < 0) [v] = 0"
    and h: "has h (\<lambda>b. books e m b + bx (\<lambda>r. r = int b) [v] - bx (\<lambda>r. r = int b) [top m 1])"
  shows "safe e (Inr (advance 1 (set_top 1 v (m\<lparr>m_heap := h\<rparr>))))"
proof -
  note w = minvD(1) [OF m] and l = minvD(6) [OF m]
  have t: "tally (advance 1 (set_top 1 v (m\<lparr>m_heap := h\<rparr>))) P = tally m P - bx P [top m 1] + bx P [v]" for P
    using w sp l by simp
  have tn: "bx (\<lambda>r. r < 0) [top m 1] = 0" using covers_nonneg [OF covers_top [OF m, of 1]] sp by simp
  show ?thesis
  proof (rule safe_has [OF m h])
    show "shape (state_of (Inr (advance 1 (set_top 1 v (m\<lparr>m_heap := h\<rparr>)))))" using w by simp
    show "tally (state_of (Inr (advance 1 (set_top 1 v (m\<lparr>m_heap := h\<rparr>))))) (\<lambda>r. r < 0) = 0"
      using t minvD(4) [OF m] n tn by simp
    show "tally (state_of (Inr (advance 1 (set_top 1 v (m\<lparr>m_heap := h\<rparr>))))) (\<lambda>r. r = int b) + e b
        \<le> books e m b + bx (\<lambda>r. r = int b) [v] - bx (\<lambda>r. r = int b) [top m 1]" for b
      using t [of "\<lambda>r. r = int b"] by (simp add: books_def)
  qed simp
qed

lemma swap_handle:
  assumes m: "minv e m" and sp: "0 < m_sp m" and c: "cell_at a (m_heap m) = Inr u" and v: "set (box_refs [v]) \<subseteq> set (refs u)"
  shows "safe e (seqm (retain_m v m) (\<lambda>m1. seqm (release_m (top m 1) m1) (\<lambda>m2. Inr (advance 1 (set_top 1 v m2)))))"
proof -
  note R = retain_held [OF m c v]
  from R(1) obtain h1 where h1: "retain_m v m = Inr (m\<lparr>m_heap := h1\<rparr>)" "has h1 (\<lambda>b. books e m b + bx (\<lambda>r. r = int b) [v])" by blast
  have "covers_ref (\<lambda>b. books e m b + bx (\<lambda>r. r = int b) [v]) (top m 1)"
    by (rule covers_more [OF covers_top [OF m, of 1]]) (use sp in simp_all)
  from has_release [of "m\<lparr>m_heap := h1\<rparr>", OF _ this] h1(2) obtain h2 where
    "release_m (top m 1) (m\<lparr>m_heap := h1\<rparr>) = Inr (m\<lparr>m_heap := h2\<rparr>)"
    "has h2 (\<lambda>b. books e m b + bx (\<lambda>r. r = int b) [v] - bx (\<lambda>r. r = int b) [top m 1])" by auto
  then show ?thesis using replace_top [OF m sp R(2)] h1(1) by simp
qed

lemma coro_done_safe: assumes m: "minv e m" shows "safe e (do_coro_done m)"
proof -
  have "safe e (Inr (advance 1 (set_top 1 (box_i1 b) m)))" if sp: "0 < m_sp m" for b
  proof (rule safe_less [OF m])
    show "tally (advance 1 (set_top 1 (box_i1 b) m)) P \<le> tally m P" for P
      using minvD(1,6) [OF m] sp bx_nonneg [of P "[top m 1]"] by (simp add: bx_1)
  qed (use minvD(1) [OF m] minv_has [OF m] in simp_all)
  then show ?thesis using m unfolding do_coro_done_def with_coro_def with_cell_def by (auto split: sum.split hval.split)
qed

lemma coro_value_safe: assumes m: "minv e m" shows "safe e (do_coro_value m)"
proof -
  have "safe e (seqm (retain_m (co_value co) m) (\<lambda>m1. seqm (release_m (top m 1) m1) (\<lambda>m2. Inr (advance 1 (set_top 1 (co_value co) m2)))))"
    if "0 < m_sp m" "cell_at (as_ref (top m 1)) (m_heap m) = Inr (HCoro co)" for co
    by (rule swap_handle [OF m that]) auto
  then show ?thesis using m unfolding do_coro_value_def Let_def with_coro_def with_cell_def by (auto split: sum.split hval.split)
qed

lemma error_get_safe: assumes m: "minv e m" shows "safe e (do_error_get m)"
proof -
  have "safe e (seqm (retain_m v m) (\<lambda>m1. seqm (release_m (top m 1) m1) (\<lambda>m2. Inr (advance 1 (set_top 1 v m2)))))"
    if "0 < m_sp m" "cell_at (as_ref (top m 1)) (m_heap m) = Inr (HError code msg v)" for code msg v
    by (rule swap_handle [OF m that]) auto
  then show ?thesis using m unfolding do_error_get_def with_error_def Let_def with_cell_def by (auto split: sum.split hval.split)
qed

lemma error_code_safe: assumes m: "minv e m" shows "safe e (do_error_code m)"
proof -
  have "safe e (seqm (release_m (top m 1) m) (\<lambda>m1. Inr (advance 1 (set_top 1 (box_i32 w) m1))))" if sp: "0 < m_sp m" for w
  proof -
    from has_release [OF minv_has [OF m] covers_top [OF m, of 1]] sp obtain h where
      "release_m (top m 1) m = Inr (m\<lparr>m_heap := h\<rparr>)" "has h (\<lambda>b. books e m b - bx (\<lambda>r. r = int b) [top m 1])" by auto
    then show ?thesis using replace_top [OF m sp, of "box_i32 w" h] by (simp add: bx_1)
  qed
  then show ?thesis using m unfolding do_error_code_def with_error_def Let_def with_cell_def by (auto split: sum.split hval.split)
qed

lemma error_new_safe:
  assumes m: "minv e m" and small: "length (h_cells (m_heap m)) < 2 ^ 31"
  shows "safe e (do_error_new render m)"
proof -
  have main: "safe e (with_alloc (HError code msg (top m 2)) m (\<lambda>a m1. Inr (advance 1 (set_top 1 (box_ref a) (popn 1 m1)))))"
    if sp: "2 \<le> m_sp m" and k: "boxed_kind (top m 1) = KindI32" for code msg
  proof -
    let ?v = "HError code msg (top m 2)"
    note w = minvD(1) [OF m] and l = minvD(6) [OF m]
    have cv: "covers_ref (books e m) (top m 2)" using covers_top [OF m, of 2] sp by simp
    have p: "pending (refs ?v) b = bx (\<lambda>r. r = int b) [top m 2]" for b by (simp add: pending_boxes)
    have o: "pending (refs ?v) b + (if b = 0 then 1 else 0) \<le> books e m b" for b
      unfolding p using cv by (simp add: covers_ref_def)
    have nn: "0 \<le> r" if "r \<in> set (refs ?v)" for r using that bx_neg [OF covers_nonneg [OF cv]] by simp
    have z: "bx P [top m 1] = 0" for P using k by (simp add: bx_1)
    have ok: "cell_ok ?v" by simp
    have "(\<exists>a h'. alloc ?v (m_heap m) = Inr (a, h') \<and> 0 < a \<and> a \<le> length (h_cells (m_heap m))
        \<and> has h' (\<lambda>b. books e m b - pending (refs ?v) b + (if b = a then 1 else 0)))
      \<or> (alloc ?v (m_heap m) = Inl THeapExhausted \<and> (\<exists>h1. gc (m_heap m) = Inr h1 \<and> has h1 (books e m)))"
      by (rule has_alloc [OF minv_has [OF m] ok nn o])
    then show ?thesis
    proof (elim disjE exE conjE)
      fix a h' assume a: "alloc ?v (m_heap m) = Inr (a, h')" "0 < a" "a \<le> length (h_cells (m_heap m))"
        "has h' (\<lambda>b. books e m b - pending (refs ?v) b + (if b = a then 1 else 0))"
      have ra: "as_ref (box_ref (int a)) = int a" "boxed_kind (box_ref (int a)) = KindRef" using a(3) small by simp_all
      let ?m = "advance 1 (set_top 1 (box_ref (int a)) (popn 1 (m\<lparr>m_heap := h'\<rparr>)))"
      have t: "tally ?m P = tally m P - bx P [top m 2] + (if P (int a) then 1 else 0)" for P
        using w l sp z [of P] ra by (simp add: bx_1 [of P "box_ref (int a)"] top_def numeral_2_eq_2)
      have "safe e (Inr ?m)"
      proof (rule safe_has [OF m a(4)])
        show "shape (state_of (Inr ?m))" using w by simp
        show "tally (state_of (Inr ?m)) (\<lambda>r. r < 0) = 0" using t minvD(4) [OF m] covers_nonneg [OF cv] by simp
        show "tally (state_of (Inr ?m)) (\<lambda>r. r = int b) + e b
            \<le> books e m b - pending (refs ?v) b + (if b = a then 1 else 0)" for b
          unfolding p using t [of "\<lambda>r. r = int b"] by (simp add: books_def)
      qed simp
      then show ?thesis using a(1) by (simp add: with_alloc_def)
    next
      fix h1 assume a: "alloc ?v (m_heap m) = Inl THeapExhausted" "gc (m_heap m) = Inr h1" "has h1 (books e m)"
      have "safe e (Inl (THeapExhausted, m\<lparr>m_heap := h1\<rparr>))" by (rule safe_less [OF m]) (use a(3) w in simp_all)
      then show ?thesis using a(1,2) by (simp add: with_alloc_def)
    qed
  qed
  then show ?thesis using m unfolding do_error_new_def Let_def with_cell_def
    by (auto split: sum.split hval.split simp: not_less)
qed

end
