(* ===== verification/Unwind.thy ===== *)
theory Unwind
  imports CoroInv
begin

text \<open>
  Unwinding to an exception handler.  Unlike a call, it loses nothing: the books stay exact for the
  same host counts.  The frames above the handler give up what they own, the operands above the
  region's entry depth are released, and the exception keeps its one count.
\<close>

section \<open>Exact releases\<close>

definition kept :: "heap \<Rightarrow> heap \<Rightarrow> bool" where
  "kept h h' \<longleftrightarrow> (\<forall>b. slot_live h' b \<longrightarrow> slot_live h b \<and> slot_value h' b = slot_value h b)"

lemma kept_refl [simp]: "kept h h"
  by (simp add: kept_def)

lemma kept_trans: "kept h h1 \<Longrightarrow> kept h1 h2 \<Longrightarrow> kept h h2"
  by (simp add: kept_def)

lemma release_ref_ok:
  assumes h: "hinv [] E (m_heap m)" and c: "holds_ref E r"
  shows "\<exists>h'. on_heap (release r) m = Inr (m\<lparr>m_heap := h'\<rparr>) \<and> hinv [] (\<lambda>a. E a - (if int a = r then 1 else 0)) h'
    \<and> kept (m_heap m) h'"
proof -
  have r: "0 \<le> r" "1 \<le> E (nat r)" "nat r = 0 \<longrightarrow> 2 \<le> E (nat r)" using c by (auto simp: holds_ref_def split: if_splits)
  have e: "E(nat r := E (nat r) - 1) = (\<lambda>a. E a - (if int a = r then 1 else 0))" using r(1) by (auto simp: fun_eq_iff)
  from cs.drop_ok [OF h r(2,3)] r(1) show ?thesis unfolding e by (auto simp: on_heap_def kept_def)
qed

lemma release_box_kept:
  assumes "hinv [] E (m_heap m)" "covers_ref E v"
  shows "\<exists>h'. release_m v m = Inr (m\<lparr>m_heap := h'\<rparr>) \<and> hinv [] (\<lambda>a. E a - bx (\<lambda>r. r = int a) [v]) h' \<and> kept (m_heap m) h'"
  using release_box_ok [OF assms] by (auto simp: release_m_def on_heap_def kept_def)

lemma release_vals_ok:
  "hinv [] E (m_heap m) \<Longrightarrow> covers_list E vs \<Longrightarrow>
   \<exists>h'. release_vals vs m = Inr (m\<lparr>m_heap := h'\<rparr>) \<and> hinv [] (\<lambda>a. E a - bx (\<lambda>r. r = int a) vs) h' \<and> kept (m_heap m) h'"
proof (induction vs arbitrary: m E)
  case Nil
  then show ?case by (intro exI [of _ "m_heap m"]) simp
next
  case (Cons v vs)
  note c = covers_list_Cons [OF Cons.prems(2)]
  from release_box_kept [OF Cons.prems(1) c(1)] obtain h1 where
    h1: "release_m v m = Inr (m\<lparr>m_heap := h1\<rparr>)" "hinv [] (\<lambda>a. E a - bx (\<lambda>r. r = int a) [v]) h1" "kept (m_heap m) h1" by blast
  have "hinv [] (\<lambda>a. E a - bx (\<lambda>r. r = int a) [v]) (m_heap (m\<lparr>m_heap := h1\<rparr>))" using h1(2) by simp
  from Cons.IH [OF this c(2)] obtain h' where h': "release_vals vs (m\<lparr>m_heap := h1\<rparr>) = Inr (m\<lparr>m_heap := h'\<rparr>)"
    "hinv [] (\<lambda>a. E a - bx (\<lambda>r. r = int a) [v] - bx (\<lambda>r. r = int a) vs) h'" "kept h1 h'" by auto
  have "(\<lambda>a. E a - bx (\<lambda>r. r = int a) [v] - bx (\<lambda>r. r = int a) vs) = (\<lambda>a. E a - bx (\<lambda>r. r = int a) (v # vs))"
    by (rule HOL.ext) (simp add: bx_Cons [of _ v vs])
  then show ?case using h1(1) h' kept_trans [OF h1(3) h'(3)] by auto
qed

lemma bx_rev [simp]: "bx P (rev vs) = bx P vs"
  by (simp add: bx_def box_refs_def cnt_def rev_filter [symmetric] rev_map [symmetric])

lemma covers_rev [simp]: "covers_list E (rev vs) = covers_list E vs"
  by (simp add: covers_list_def)

section \<open>Discarding frames\<close>

lemma frame_holds:
  assumes m: "minv e m" and f: "f_release (fr m)"
  shows "holds_ref (books e m) (f_ref (fr m))"
proof -
  have r: "0 < f_ref (fr m)" using fr_ok [OF m] f by (simp add: frame_ok_def)
  have "rest m (\<lambda>r. r = int a) \<le> books e m a" for a
    using tally_rest [of m "\<lambda>r. r = int a"] bx_nonneg [of "\<lambda>r. r = int a" "operands_of m"] minvD(2) [OF m, of a]
    unfolding books_def by linarith
  from frame_owned [OF m f this] r show ?thesis by (simp add: holds_ref_def)
qed

lemma discard_ok:
  assumes m: "minv e m" and fp: "1 < m_fp m"
  shows "\<exists>m'. discard m = Inr m' \<and> minv e m' \<and> m_fp m' = m_fp m - 1 \<and> m_sp m' = m_sp m \<and> m_stack m' = m_stack m
    \<and> take (m_fp m - 1) (m_frames m') = take (m_fp m - 1) (m_frames m)
    \<and> kept (m_heap m) (m_heap m')"
proof -
  let ?f = "fr m"
  let ?r = "\<lambda>a. if f_release ?f \<and> int a = f_ref ?f then 1 else 0 :: int"
  let ?c = "\<lambda>a. if f_coro ?f \<noteq> 0 \<and> int a = f_coro ?f then 1 else 0 :: int"
  note w = minvD(1) [OF m]
  have s1: "\<exists>h. release_fr ?f m = Inr (m\<lparr>m_heap := h\<rparr>) \<and> hinv [] (\<lambda>a. books e m a - ?r a) h \<and> kept (m_heap m) h"
  proof (cases "f_release ?f")
    case True
    from release_ref_ok [OF minvD(5) [OF m] frame_holds [OF m True]] True show ?thesis by (simp add: release_fr_def)
  next
    case False
    then show ?thesis using minvD(5) [OF m] by (intro exI [of _ "m_heap m"]) (simp add: release_fr_def)
  qed
  then obtain h1 where h1: "release_fr ?f m = Inr (m\<lparr>m_heap := h1\<rparr>)" "hinv [] (\<lambda>a. books e m a - ?r a) h1"
    "kept (m_heap m) h1" by blast
  let ?m1 = "m\<lparr>m_heap := h1\<rparr>"
  have s2: "\<exists>h. (if f_coro ?f \<noteq> 0 then on_heap (release (f_coro ?f)) ?m1 else Inr ?m1) = Inr (m\<lparr>m_heap := h\<rparr>)
    \<and> hinv [] (\<lambda>a. books e m a - ?r a - ?c a) h \<and> kept (m_heap m) h"
  proof (cases "f_coro ?f = 0")
    case False
    note c = coro_frame [OF m False]
    have n: "int (nat (f_coro ?f)) = f_coro ?f" using c(1) by simp
    have "(if f_release ?f \<and> f_ref ?f = f_coro ?f then 1 else 0) + 1 \<le> rest m (\<lambda>r. r = f_coro ?f)" by (rule c(3)) simp
    then have "(if f_release ?f \<and> f_ref ?f = f_coro ?f then 1 else 0) + 1 \<le> books e m (nat (f_coro ?f))"
      using bx_nonneg [of "\<lambda>r. r = f_coro ?f" "operands_of m"] minvD(2) [OF m, of "nat (f_coro ?f)"]
      unfolding books_def tally_rest n by linarith
    moreover have "?r (nat (f_coro ?f)) = (if f_release ?f \<and> f_ref ?f = f_coro ?f then 1 else 0)" using n by auto
    ultimately have "holds_ref (\<lambda>a. books e m a - ?r a) (f_coro ?f)" using c(1) by (auto simp: holds_ref_def)
    with h1(2) have "\<exists>h'. on_heap (release (f_coro ?f)) ?m1 = Inr (?m1\<lparr>m_heap := h'\<rparr>)
      \<and> hinv [] (\<lambda>a. (books e m a - ?r a) - (if int a = f_coro ?f then 1 else 0)) h' \<and> kept (m_heap ?m1) h'"
      by (intro release_ref_ok) simp_all
    then show ?thesis using False kept_trans [OF h1(3)] by auto
  qed (use h1(2,3) in auto)
  then obtain h2 where h2: "(if f_coro ?f \<noteq> 0 then on_heap (release (f_coro ?f)) ?m1 else Inr ?m1) = Inr (m\<lparr>m_heap := h2\<rparr>)"
    "hinv [] (\<lambda>a. books e m a - ?r a - ?c a) h2" "kept (m_heap m) h2" by blast
  let ?m' = "pop_frame (\<lambda>f. f\<lparr>f_code := nil_unit, f_upvals := None, f_coro := 0\<rparr>) (m\<lparr>m_heap := h2\<rparr>)"
  have d: "discard m = Inr ?m'" using h1(1) h2(1) by (simp add: discard_def Let_def)
  have t: "tally ?m' P = tally m P - cnt P (frame_refs ?f)" for P
    using w by (simp add: tally_rest operands_of_def)
  have "cnt (\<lambda>r. r = int a) (frame_refs ?f) = ?r a + ?c a" for a by (auto simp: frame_refs_def)
  then have "minv e ?m'"
  proof (intro minvI [OF _ _ _ _ h2(2)])
    have "cnt (\<lambda>r. r < 0) (frame_refs ?f) \<le> rest m (\<lambda>r. r < 0)" by (rule rest_frame [OF w])
    then have "0 \<le> tally ?m' (\<lambda>r. r < 0) \<and> tally ?m' (\<lambda>r. r < 0) \<le> 0"
      using t [of "\<lambda>r. r < 0"] tally_nonneg [of ?m' "\<lambda>r. r < 0"] cnt_nonneg [of "\<lambda>r. r < 0" "frame_refs ?f"] minvD(4) [OF m]
      by linarith
    then show "tally ?m' (\<lambda>r. r < 0) = 0" by linarith
    show "shape ?m'" using w fp by simp
    show "tally ?m' (\<lambda>r. r = int a) + e a = books e m a - ?r a - ?c a"
      if "\<And>a. cnt (\<lambda>r. r = int a) (frame_refs ?f) = ?r a + ?c a" for a
      unfolding t that books_def by linarith
  qed (use minvD(2,3) [OF m] in simp_all)
  then show ?thesis using d h2(3) by (intro exI [of _ ?m']) (simp add: pop_frame_def set_fr_def)
qed

lemma unwind_ok:
  "minv e m \<Longrightarrow> n < m_fp m \<Longrightarrow>
   \<exists>m'. unwind n m = Inr m' \<and> minv e m' \<and> m_fp m' = m_fp m - n \<and> m_sp m' = m_sp m \<and> m_stack m' = m_stack m
    \<and> take (m_fp m - n) (m_frames m') = take (m_fp m - n) (m_frames m) \<and> kept (m_heap m) (m_heap m')"
proof (induction n arbitrary: m)
  case (Suc n)
  then have "1 < m_fp m" by linarith
  from discard_ok [OF Suc.prems(1) this] obtain m1 where m1: "discard m = Inr m1" "minv e m1" "m_fp m1 = m_fp m - 1"
    "m_sp m1 = m_sp m" "m_stack m1 = m_stack m" "take (m_fp m - 1) (m_frames m1) = take (m_fp m - 1) (m_frames m)"
    "kept (m_heap m) (m_heap m1)" by blast
  have "n < m_fp m1" using Suc.prems(2) m1(3) by linarith
  from Suc.IH [OF m1(2) this] obtain m' where m': "unwind n m1 = Inr m'" "minv e m'" "m_fp m' = m_fp m1 - n"
    "m_sp m' = m_sp m1" "m_stack m' = m_stack m1" "take (m_fp m1 - n) (m_frames m') = take (m_fp m1 - n) (m_frames m1)"
    "kept (m_heap m1) (m_heap m')" by blast
  have k: "m_fp m1 - n = m_fp m - Suc n" using m1(3) by linarith
  have "take (m_fp m - Suc n) (m_frames m1) = take (m_fp m - Suc n) (take (m_fp m - 1) (m_frames m1))" by (simp add: min_def)
  also have "\<dots> = take (m_fp m - Suc n) (m_frames m)" unfolding m1(6) by (simp add: min_def)
  finally show ?case using m1 m' kept_trans [OF m1(7) m'(7)] unfolding k by (intro exI [of _ m']) simp
qed simp

section \<open>Landing\<close>

lemma take_update_last: "k < length xs \<Longrightarrow> take (Suc k) (xs[k := v]) = take k xs @ [v]"
  by (simp add: take_Suc_conv_app_nth)

lemma fr_take: "take n (m_frames m') = take n (m_frames m) \<Longrightarrow> m_fp m' = n \<Longrightarrow> 0 < n \<Longrightarrow> fr m' = m_frames m ! (n - 1)"
  unfolding fr_def by (metis diff_less nth_take zero_less_one)

definition landing :: "machine \<Rightarrow> nat \<Rightarrow> handler \<Rightarrow> int" where
  "landing m fp h = int (f_bp (m_frames m ! (fp - 1))) + h_depth h"

text \<open>\<open>landed\<close>: what the guest sees at the handler.\<close>

definition landed :: "machine \<Rightarrow> nat \<Rightarrow> handler \<Rightarrow> boxed \<Rightarrow> machine \<Rightarrow> bool" where
  "landed m fp h exc m' \<longleftrightarrow> m_fp m' = fp \<and> f_ip (fr m') = h_catch h \<and> f_addr (fr m') = f_addr (m_frames m ! (fp - 1))
     \<and> operands_of m' = take (nat (landing m fp h)) (m_stack m) @ [exc]"

lemma land_ok:
  assumes m: "minv (\<lambda>a. e a + bx (\<lambda>r. r = int a) [exc]) m" and x: "bx (\<lambda>r. r < 0) [exc] = 0"
    and e: "\<And>a. 0 \<le> e a" "1 \<le> e 0" and fp: "0 < fp" "fp \<le> m_fp m"
    and b: "0 \<le> landing m fp h" "landing m fp h \<le> int (m_sp m)"
  shows "if landing m fp h < int (length (m_stack m))
    then \<exists>m'. land fp h exc m = Inr m' \<and> minv e m' \<and> landed m fp h exc m' \<and> kept (m_heap m) (m_heap m')
    else \<exists>m'. land fp h exc m = Inl (TGoPanic, m') \<and> minv (\<lambda>a. e a + bx (\<lambda>r. r = int a) [exc]) m'"
proof -
  let ?e = "\<lambda>a. e a + bx (\<lambda>r. r = int a) [exc]"
  have n: "m_fp m - fp < m_fp m" using fp minvD(1) [OF m] by linarith
  have k: "m_fp m - (m_fp m - fp) = fp" using fp by linarith
  from unwind_ok [OF m n] obtain m1 where m1: "unwind (m_fp m - fp) m = Inr m1" "minv ?e m1" "m_fp m1 = fp"
    "m_sp m1 = m_sp m" "m_stack m1 = m_stack m" "take fp (m_frames m1) = take fp (m_frames m)" "kept (m_heap m) (m_heap m1)" unfolding k by blast
  have f1: "fr m1 = m_frames m ! (fp - 1)" by (rule fr_take [OF m1(6,3) fp(1)])
  define base where "base = nat (landing m fp h)"
  have lb: "landing m fp h = int base" using b(1) by (simp add: base_def)
  have bs: "base \<le> m_sp m1" using b(2) lb m1(4) by linarith
  note w = minvD(1) [OF m1(2)]
  have "covers_list (books ?e m1) (rev (slice base (m_sp m1) m1))" using covers_slice [OF m1(2) order_refl] by simp
  from release_vals_ok [OF minvD(5) [OF m1(2)] this] obtain h2 where
    h2: "release_vals (rev (slice base (m_sp m1) m1)) m1 = Inr (m1\<lparr>m_heap := h2\<rparr>)"
    "hinv [] (\<lambda>a. books ?e m1 a - bx (\<lambda>r. r = int a) (slice base (m_sp m1) m1)) h2" "kept (m_heap m1) h2" by auto
  have o: "operands_of m1 = take base (m_stack m1) @ slice base (m_sp m1) m1" by (rule operands_split [OF bs])
  let ?m2 = "m1\<lparr>m_heap := h2\<rparr>"
  let ?m' = "set_sp (base + 1) (poke base exc (set_fr (\<lambda>f. f\<lparr>f_ip := h_catch h\<rparr>) ?m2))"
  have nb: "nat (int (f_bp (fr m1)) + h_depth h) = base" "int (f_bp (fr m1)) + h_depth h = int base"
    using f1 lb by (simp_all add: landing_def)
  have ld: "land fp h exc m = (if length (m_stack m) \<le> base then Inl (TGoPanic, ?m2) else Inr ?m')"
    using m1(1,5) h2(1) nb by (simp add: land_def)
  show ?thesis
  proof (cases "base < length (m_stack m)")
    case False
    have t: "tally ?m2 P = tally m1 P" for P by simp
    have lo: "base = m_sp m1" using False bs minvD(6) [OF m1(2)] m1(5) by simp
    then have z: "slice base (m_sp m1) m1 = []" by (simp add: slice_def)
    have "minv ?e ?m2" by (rule minv_step [OF m1(2) h2(2), where d = "\<lambda>P. 0"]) (simp_all add: z)
    then show ?thesis using False ld lb by simp
  next
    case True
    have sh: "shape (set_fr (\<lambda>f. f\<lparr>f_ip := h_catch h\<rparr>) ?m2)"
    proof (rule shape_set_fr)
      show "shape ?m2" using w by simp
    qed (use w fr_active [OF w] in \<open>auto simp: shape_def\<close>)
    have op: "operands_of ?m' = take base (m_stack m) @ [exc]"
      using True m1(5) by (simp add: operands_of_def take_update_last del: take_Suc)
    have r: "rest ?m' P = rest m1 P" for P using w by (simp add: frame_refs_def)
    have t1: "tally m1 P = bx P (take base (m_stack m)) + bx P (slice base (m_sp m1) m1) + rest m1 P" for P
      using o m1(5) by (simp add: tally_rest)
    have t: "tally ?m' P = bx P (take base (m_stack m)) + bx P [exc] + rest m1 P" for P
      by (simp only: tally_rest op r bx_simps)
    have "minv e ?m'"
    proof (rule minvI [where e = e and h = h2, OF _ e(1) e(2) _ h2(2)])
      show "shape ?m'" using sh True m1(5) by simp
      have "tally m1 (\<lambda>r. r < 0) = 0" by (rule minvD(4) [OF m1(2)])
      then show "tally ?m' (\<lambda>r. r < 0) = 0"
        using t1 [of "\<lambda>r. r < 0"] t [of "\<lambda>r. r < 0"] x tally_nonneg [of ?m' "\<lambda>r. r < 0"]
          bx_nonneg [of "\<lambda>r. r < 0" "slice base (m_sp m1) m1"] by linarith
      show "tally ?m' (\<lambda>r. r = int a) + e a = books ?e m1 a - bx (\<lambda>r. r = int a) (slice base (m_sp m1) m1)" for a
        unfolding t books_def t1 by linarith
    qed simp
    moreover have "m_fp ?m' = fp" "f_ip (fr ?m') = h_catch h" "f_addr (fr ?m') = f_addr (m_frames m ! (fp - 1))"
    proof -
      have "fp - 1 < length (m_frames m1)" using w m1(3) fp(1) by (auto simp: shape_def)
      then have "fr (set_fr (\<lambda>f. f\<lparr>f_ip := h_catch h\<rparr>) ?m2) = (fr m1)\<lparr>f_ip := h_catch h\<rparr>"
        using m1(3) by (simp add: fr_def set_fr_def)
      then show "m_fp ?m' = fp" "f_ip (fr ?m') = h_catch h" "f_addr (fr ?m') = f_addr (m_frames m ! (fp - 1))"
        using f1 m1(3) by (simp_all add: set_fr_def)
    qed
    ultimately have "minv e ?m' \<and> landed m fp h exc ?m' \<and> kept (m_heap m) (m_heap ?m')"
      using op kept_trans [OF m1(7) h2(3)] by (simp add: landed_def base_def)
    moreover have "land fp h exc m = Inr ?m'" using ld True by simp
    ultimately show ?thesis using True lb by (metis of_nat_less_iff)
  qed
qed


section \<open>Throwing and trapping\<close>

lemma handler_at_bound: "handler_at m k = Some (fp, h) \<Longrightarrow> 0 < fp \<and> fp \<le> k"
  by (induction k) (auto simp: Let_def split: option.splits if_splits)

lemma find_handler_popn [simp]: "find_handler (popn n m) = find_handler m" "find_handler (m\<lparr>m_heap := m_heap m\<rparr>) = find_handler m"
proof -
  have "handler_at (popn n m) k = handler_at m k" for k
    by (induction k) (simp_all add: popn_def Let_def split: option.split)
  then show "find_handler (popn n m) = find_handler m" by (simp add: find_handler_def popn_def)
qed (simp add: find_handler_def)

lemma minv_pop:
  assumes m: "minv e m" and sp: "0 < m_sp m"
  shows "minv (\<lambda>a. e a + bx (\<lambda>r. r = int a) [top m 1]) (popn 1 m)"
proof (rule minvI [OF _ _ _ _ minvD(5) [OF m]])
  have c: "bx (\<lambda>r. r < 0) [top m 1] = 0" by (rule covers_nonneg [OF covers_top [OF m]]) (use sp in simp_all)
  have t: "tally (popn 1 m) P = tally m P - bx P [top m 1]" for P
    using tally_pop1 [OF sp minvD(6) [OF m]] by simp
  show "tally (popn 1 m) (\<lambda>r. r < 0) = 0" unfolding t c using minvD(4) [OF m] by simp
  show "tally (popn 1 m) (\<lambda>r. r = int a) + (e a + bx (\<lambda>r. r = int a) [top m 1]) = books e m a" for a
    unfolding t books_def by simp
  show "0 \<le> e a + bx (\<lambda>r. r = int a) [top m 1]" for a
    using minvD(2) [OF m, of a] bx_nonneg [of "\<lambda>r. r = int a" "[top m 1]"] by linarith
  show "1 \<le> e 0 + bx (\<lambda>r. r = int 0) [top m 1]"
    using minvD(3) [OF m] bx_nonneg [of "\<lambda>r. r = int 0" "[top m 1]"] by linarith
qed (use minvD(1) [OF m] in simp_all)

lemma throw_lands:
  assumes m: "minv e m" and sp: "0 < m_sp m" and f: "find_handler m = Some (fp, h)"
    and b: "0 \<le> landing m fp h" "landing m fp h < int (m_sp m)"
  shows "\<exists>m'. do_throw m = Inr m' \<and> minv e m' \<and> landed m fp h (top m 1) m' \<and> kept (m_heap m) (m_heap m')"
proof -
  have l: "landing (popn 1 m) fp h = landing m fp h" by (simp add: landing_def popn_def)
  have x: "bx (\<lambda>r. r < 0) [top m 1] = 0" by (rule covers_nonneg [OF covers_top [OF m]]) (use sp in simp_all)
  have fp: "0 < fp" "fp \<le> m_fp (popn 1 m)" using handler_at_bound f by (auto simp: find_handler_def)
  have lt: "landing (popn 1 m) fp h < int (length (m_stack (popn 1 m)))" using b(2) minvD(6) [OF m] unfolding l by simp
  have "landing (popn 1 m) fp h \<le> int (m_sp (popn 1 m))" using b(2) sp unfolding l by simp
  from land_ok [OF minv_pop [OF m sp] x minvD(2,3) [OF m] fp b(1) [folded l] this, unfolded if_P [OF lt]]
  obtain m' where "land fp h (top m 1) (popn 1 m) = Inr m'" "minv e m'" "landed (popn 1 m) fp h (top m 1) m'"
    "kept (m_heap m) (m_heap m')" by auto
  moreover have "landed (popn 1 m) fp h v m' = landed m fp h v m'" for v unfolding landed_def l by (simp add: popn_def)
  ultimately show ?thesis using sp f unfolding do_throw_def Let_def find_handler_popn by auto
qed

lemma throw_uncaught:
  assumes m: "minv e m" and f: "find_handler m = None"
  shows "safe e (do_throw m)"
proof (cases "m_sp m = 0")
  case False
  have "safe e (Inl (t, popn 1 m))" for t
    unfolding safe_def state_of_simps
    by (intro exI [of _ "\<lambda>a. e a + bx (\<lambda>r. r = int a) [top m 1]"] conjI minv_pop [OF m]) (use False in simp_all)
  then show ?thesis using False f unfolding do_throw_def Let_def find_handler_popn with_cell_def
    by (auto split: sum.split)
qed (use m in \<open>simp add: do_throw_def\<close>)


lemma handle_lands:
  assumes m: "minv e m" and e0: "2 \<le> e 0" and t: "t \<noteq> TUncaught" and f: "find_handler m = Some (fp, h)"
    and small: "length (h_cells (m_heap m)) < 2 ^ 31"
    and b: "0 \<le> landing m fp h" "landing m fp h \<le> int (m_sp m)"
  shows "\<exists>r. handle t m = Some r \<and>
    (case r of
       Inr m' \<Rightarrow> minv (e(0 := e 0 - 1)) m' \<and> (\<exists>a. landed m fp h (box_ref (int a)) m'
          \<and> h_cells (m_heap m') ! a = HError (trap_code t) (trap_message t) boxed_null)
     | Inl (u, m') \<Rightarrow> u = THeapExhausted \<and> minv e m' \<or> u = TGoPanic \<and> landing m fp h = int (length (m_stack m)))"
proof -
  let ?v = "HError (trap_code t) (trap_message t) boxed_null" and ?e = "e(0 := e 0 - 1)"
  have r: "refs ?v = [0]" "cell_ok ?v" by (simp_all add: box_refs_simps)
  have n0: "pending [0] a = (if a = 0 then 1 else 0)" for a by (simp add: pending_simps)
  have ow: "owns_refs (books e m) (m_heap m) ?v"
  proof -
    have ge: "e a \<le> books e m a" for a unfolding books_def using tally_nonneg [of m "\<lambda>r. r = int a"] by linarith
    have "1 \<le> books e m 0" "1 < books e m 0" using ge [of 0] e0 by linarith+
    moreover have "0 \<le> books e m a" for a using ge [of a] minvD(2) [OF m, of a] by linarith
    moreover have "0 < length (h_cells (m_heap m))"
      using owned_slot_live [OF minvD(5) [OF m] \<open>1 \<le> books e m 0\<close>] by (simp add: slot_live_def alive_def)
    ultimately show ?thesis unfolding owns_refs_def r n0 using r(2) by (auto simp: in_heap_def)
  qed
  have h: "handle t m = Some (wrap t m (land fp h))" using t f by (simp add: handle_def)
  show ?thesis using alloc_exact_lemma [OF minvD(5) [OF m] ow]
  proof (elim disjE exE conjE)
    assume a: "alloc ?v (m_heap m) = Inl THeapExhausted"
    obtain h1 where h1: "gc (m_heap m) = Inr h1" "hinv [] (books e m) h1" using gc_exact_lemma [OF minvD(5) [OF m]] by blast
    have "minv e (m\<lparr>m_heap := h1\<rparr>)" by (rule minv_step [OF m h1(2), where d = "\<lambda>P. 0"]) simp_all
    then show ?thesis using h a h1(1) by (simp add: wrap_def with_alloc_def)
  next
    fix a h' assume a: "alloc ?v (m_heap m) = Inr (a, h')" "placed (books e m) (m_heap m) ?v (a, h')"
    then have p: "hinv [] (moved (books e m) ?v a) h'" "0 < a" "a \<le> length (h_cells (m_heap m))" "h_cells h' ! a = ?v"
      by (auto simp: placed_def)
    let ?m = "m\<lparr>m_heap := h'\<rparr>" and ?x = "box_ref (int a)"
    have x: "as_ref ?x = int a" "boxed_kind ?x = KindRef" using p(3) small by simp_all
    have bxx: "bx (\<lambda>r. r = int b) [?x] = (if b = a then 1 else 0)" for b using x by (auto simp: bx_1)
    have e1: "0 \<le> ?e b" "1 \<le> ?e 0" for b using minvD(2) [OF m] e0 by auto
    have m1: "minv (\<lambda>b. ?e b + bx (\<lambda>r. r = int b) [?x]) ?m"
    proof (rule minvI [OF _ _ _ _ p(1)])
      show "tally ?m (\<lambda>r. r = int b) + (?e b + bx (\<lambda>r. r = int b) [?x]) = moved (books e m) ?v a b" for b
        unfolding moved_def r(1) n0 bxx by (simp add: books_def)
      show "0 \<le> ?e b + bx (\<lambda>r. r = int b) [?x]" for b using e1(1) [of b] unfolding bxx by simp
      show "1 \<le> ?e 0 + bx (\<lambda>r. r = int 0) [?x]" using e1(2) p(2) unfolding bxx by simp
    qed (use minvD(1,4) [OF m] in simp_all)
    have fp: "0 < fp" "fp \<le> m_fp ?m" using handler_at_bound f by (auto simp: find_handler_def)
    have neg: "bx (\<lambda>r. r < 0) [?x] = 0" using x by (simp add: bx_1)
    have l: "landing ?m fp h = landing m fp h" "m_stack ?m = m_stack m" "int (m_sp ?m) = int (m_sp m)"
      by (simp_all add: landing_def)
    note L = land_ok [OF m1 neg e1 fp b [folded l(1,3)], unfolded l]
    have w: "wrap t m (land fp h) = land fp h ?x ?m" using a(1) by (simp add: wrap_def with_alloc_def)
    show ?thesis
    proof (cases "landing m fp h < int (length (m_stack m))")
      case True
      from L [unfolded if_P [OF True]] obtain m' where m': "land fp h ?x ?m = Inr m'" "minv ?e m'"
        "landed ?m fp h ?x m'" "kept h' (m_heap m')" by auto
      have ld: "landed m fp h ?x m'" using m'(3) by (simp add: landed_def landing_def)
      have "1 \<le> books ?e m' a"
      proof -
        have "bx (\<lambda>r. r = int a) [?x] \<le> tally m' (\<lambda>r. r = int a)"
          using ld by (intro tally_ge) (simp add: landed_def)
        then show ?thesis using bxx [of a] e1(1) [of a] unfolding books_def by simp
      qed
      from owned_slot_live [OF minvD(5) [OF m'(2)] this] m'(4) have "slot_value (m_heap m') a = slot_value h' a"
        by (simp add: kept_def)
      then have "h_cells (m_heap m') ! a = ?v" using p(4) by (simp add: slot_value_def)
      then show ?thesis using h w m'(1,2) ld by (intro exI [of _ "Inr m'"]) auto
    next
      case False
      have "int (m_sp m) \<le> int (length (m_stack m))" using minvD(6) [OF m] by simp
      then have "landing m fp h = int (length (m_stack m))" using False b(2) by linarith
      then show ?thesis using L [unfolded if_not_P [OF False]] h w by auto
    qed
  qed
qed

end
