(* ===== verification/CallSpec.thy ===== *)
theory CallSpec
  imports Unwind
begin

text \<open>
  What calls, returns, coroutines and exceptions promise: their effect on the stack and the frames, and
  that the reference books stay exact.
\<close>

section \<open>Calls\<close>

text \<open>The new frame, whatever word the callee was: it claims one count of the callable.\<close>

lemma enter_frame:
  assumes w: "shape m" and sp: "length (ce_params ce) < m_sp m" and ce: "callee_ok m ce" and fp: "m_fp m < length (m_frames m)"
    and st: "m_sp m + ce_locals ce \<le> length (m_stack m) + 1" and cd: "code_in m (ce_code ce)"
  shows "\<exists>m'. enter ce False m = Inr m' \<and> m_heap m' = m_heap m \<and> shape m'
    \<and> (\<forall>P. tally m' P + bx P [top m 1] = tally m P + (if P (as_ref (top m 1)) then 1 else 0))
    \<and> m_fp m' = m_fp m + 1 \<and> f_addr (fr m') = ce_code ce \<and> f_ref (fr m') = ce_ref ce \<and> f_release (fr m')
    \<and> f_ip (fr m') = 0 \<and> f_bp (fr m') = m_sp m - length (ce_params ce) - 1
    \<and> operands_of m' = take (m_sp m - 1) (m_stack m) @ replicate (ce_locals ce) 0"
proof -
  let ?n = "ce_locals ce" and ?ps = "length (ce_params ce)"
  have l: "m_sp m \<le> length (m_stack m)" using w by (simp add: shape_def)
  have sp0: "0 < m_sp m" using sp by linarith
  define m1 where "m1 = clear_range (m_sp m - 1) ?n m"
  note c = cleared [OF w sp0 st, folded m1_def]
  have m1: "m_heap m1 = m_heap m" "length (m_frames m1) = length (m_frames m)" "m_fp m1 = m_fp m"
    "length (m_stack m1) = length (m_stack m)" "\<And>P. rest m1 P = rest m P"
    using st sp0 by (simp_all add: m1_def)
  have sp': "m_sp m - ?ps - 1 + ?ps + ?n = m_sp m - 1 + ?n" using sp by simp
  let ?m2 = "advance 1 (set_sp (m_sp m - 1 + ?n) m1)"
  define f where "f = (\<lambda>u. \<lparr>f_addr = ce_code ce, f_returns = length (ce_returns ce), f_code = u, f_upvals = ce_upvals ce,
           f_ref = ce_ref ce, f_release = True, f_coro = 0, f_ip = 0, f_bp = m_sp m - ?ps - 1\<rparr>)"
  have ci: "code_in m1 (ce_code ce)" using cd m1(1) by (simp add: code_in_def)
  from with_code_ok [OF ci] obtain u where u: "\<And>k. with_code (ce_code ce) m1 k = k u" by blast
  have en: "enter ce False m = Inr (push_frame (f u) ?m2)"
    using sp st u [unfolded m1_def] by (simp add: enter_def Let_def m1_def f_def sp')
  have s1: "shape (set_sp (m_sp m - 1 + ?n) m1)" by (rule shape_calls(1)) (use c(1) m1(4) st sp0 in simp_all)
  then have s2: "shape ?m2" by simp
  have fo: "frame_ok (f u)" using ce by (auto simp: f_def frame_ok_def callee_ok_def)
  have fl: "m_fp ?m2 < length (m_frames ?m2)" using fp m1 by simp
  have bl: "f_bp (f u) < length (m_stack ?m2)" using sp l m1(4) by (simp add: f_def)
  have op: "operands_of (push_frame (f u) ?m2) = take (m_sp m - 1) (m_stack m) @ replicate ?n 0"
    using l st by (simp add: operands_of_def m1_def)
  have t: "tally (push_frame (f u) ?m2) P + bx P [top m 1] = tally m P + (if P (as_ref (top m 1)) then 1 else 0)" for P
  proof -
    have "rest (push_frame (f u) ?m2) P = rest m P + cnt P (frame_refs (f u))"
      using rest_push_frame [OF s2 fl] s1 m1(5) by simp
    moreover have "cnt P (frame_refs (f u)) = (if P (as_ref (top m 1)) then 1 else 0)"
      using ce by (simp add: f_def frame_refs_def callee_ok_def)
    ultimately show ?thesis using c(4) [of P] op by (simp add: tally_rest)
  qed
  have "fr (push_frame (f u) ?m2) = f u" using fl by (simp add: fr_def push_frame_def)
  then show ?thesis using en op m1(1,3) t shape_push_frame [OF s2 fl fo bl]
    by (intro exI [of _ "push_frame (f u) ?m2"]) (simp add: f_def)
qed

lemma enter_effect:
  assumes m: "minv e m" and sp: "length (ce_params ce) < m_sp m" and k: "boxed_kind (top m 1) = KindRef"
    and ce: "callee_ok m ce" and fp: "m_fp m < length (m_frames m)"
    and st: "m_sp m + ce_locals ce \<le> length (m_stack m) + 1" and cd: "code_in m (ce_code ce)"
  shows "\<exists>m'. enter ce False m = Inr m' \<and> minv e m' \<and> m_fp m' = m_fp m + 1 \<and> f_addr (fr m') = ce_code ce
    \<and> f_ip (fr m') = 0 \<and> f_bp (fr m') = m_sp m - length (ce_params ce) - 1
    \<and> operands_of m' = take (m_sp m - 1) (m_stack m) @ replicate (ce_locals ce) 0"
proof -
  from enter_frame [OF minvD(1) [OF m] sp ce fp st cd] obtain m' where
    m': "enter ce False m = Inr m'" "m_heap m' = m_heap m" "shape m'" "m_fp m' = m_fp m + 1" "f_addr (fr m') = ce_code ce"
      "f_ip (fr m') = 0" "f_bp (fr m') = m_sp m - length (ce_params ce) - 1"
      "operands_of m' = take (m_sp m - 1) (m_stack m) @ replicate (ce_locals ce) 0"
    and t: "\<And>P. tally m' P + bx P [top m 1] = tally m P + (if P (as_ref (top m 1)) then 1 else 0)" by blast
  have "tally m' P = tally m P + 0" for P using t [of P] k by (simp add: bx_1)
  then have "minv e m'" by (intro minv_step [OF m minvD(5) [OF m], where d = "\<lambda>P. 0"]) (use m' in simp_all)
  then show ?thesis using m' by blast
qed

lemma enter_unowned:
  assumes m: "minv e m" and k: "boxed_kind (top m 1) \<noteq> KindRef" and ref: "0 < as_ref (top m 1)" 
    and in_heap: "as_ref (top m 1) < int (length (h_cells (m_heap m)))"
    and m': "m_heap m' = m_heap m" "shape m'"
    and t: "\<And>P. tally m' P + bx P [top m 1] = tally m P + (if P (as_ref (top m 1)) then 1 else 0)"
  shows "\<not> minv e m'" "1 \<le> e (nat (as_ref (top m 1))) \<Longrightarrow> minv (e(nat (as_ref (top m 1)) := e (nat (as_ref (top m 1))) - 1)) m'"
proof -
  let ?r = "as_ref (top m 1)"
  have t': "tally m' P = tally m P + (if P ?r then 1 else 0)" for P using t [of P] k by (simp add: bx_1)
  let ?a = "nat ?r"
  have a: "0 < ?a" "?a < length (h_cells (m_heap m))" "int ?a = ?r" using ref in_heap by auto
  show "\<not> minv e m'"
  proof
    assume n: "minv e m'"
    have "h_rc (m_heap m) ! ?a = books e m ?a + edges (h_cells (m_heap m)) ?a"
      using minvD(5) [OF m] a by (simp add: hinv_def pending_simps)
    moreover have "h_rc (m_heap m) ! ?a = books e m' ?a + edges (h_cells (m_heap m)) ?a"
      using minvD(5) [OF n] a m'(1) by (simp add: hinv_def pending_simps)
    ultimately show False using t' [of "\<lambda>r. r = int ?a"] a(3) by (simp add: books_def)
  qed
  assume e: "1 \<le> e ?a"
  show "minv (e(?a := e ?a - 1)) m'"
  proof (rule minvI [OF m'(2) _ _ _ minvD(5) [OF m] m'(1)])
    show "tally m' (\<lambda>r. r < 0) = 0" using t' minvD(4) [OF m] ref by simp
    show "0 \<le> (e(?a := e ?a - 1)) b" for b using e minvD(2) [OF m, of b] by simp
    show "1 \<le> (e(?a := e ?a - 1)) 0" using minvD(3) [OF m] a(1) by simp
    show "tally m' (\<lambda>r. r = int b) + (e(?a := e ?a - 1)) b = books e m b" for b
      using t' [of "\<lambda>r. r = int b"] a by (auto simp: books_def)
  qed
qed

section \<open>Returns\<close>

lemma return_lemma:
  assumes m: "minv e m" and fp: "1 < m_fp m" and co: "f_coro (fr m) = 0" and lo: "f_bp (fr m) + f_returns (fr m) \<le> m_sp m"
    and own: "owned \<or> m_sp m \<noteq> f_bp (fr m) + n + f_returns (fr m)
      \<or> (\<forall>v\<in>set (slice (f_bp (fr m)) (m_sp m - f_returns (fr m)) m). boxed_kind v \<noteq> KindRef)"
  shows "\<exists>m'. do_return n owned m = Inr m' \<and> minv e m' \<and> m_fp m' = m_fp m - 1
    \<and> operands_of m' = take (f_bp (fr m)) (m_stack m) @ slice (m_sp m - f_returns (fr m)) (m_sp m) m"
proof -
  let ?f = "fr m" and ?lo = "f_bp (fr m)" and ?r = "f_returns (fr m)"
  let ?hi = "m_sp m - ?r"
  note w = minvD(1) [OF m] and l = minvD(6) [OF m]
  have lh: "?lo \<le> ?hi" "?hi + ?r = m_sp m" "?hi \<le> m_sp m" using lo by linarith+
  let ?rel = "owned \<or> m_sp m \<noteq> ?lo + n + ?r"
  let ?E = "\<lambda>a. books e m a - bx (\<lambda>r. r = int a) (slice ?lo ?hi m)"
  have "\<exists>h. (if ?rel then release_range ?lo ?hi m else Inr m) = Inr (m\<lparr>m_heap := h\<rparr>) \<and> hinv [] ?E h"
  proof (cases ?rel)
    case True
    from release_vals_ok [OF minvD(5) [OF m] covers_slice [OF m lh(3), of ?lo]] obtain h where
      "release_vals (slice ?lo ?hi m) m = Inr (m\<lparr>m_heap := h\<rparr>)" "hinv [] ?E h" by blast
    then show ?thesis unfolding if_P [OF True] using lh(1) by (simp add: release_range_def)
  next
    case False
    then have z: "bx P (slice ?lo ?hi m) = 0" for P using own by (auto simp: bx_def cnt_def box_refs_def filter_empty_conv)
    show ?thesis unfolding if_not_P [OF False] z using minvD(5) [OF m] by (intro exI [of _ "m_heap m"]) simp
  qed
  then obtain h where h: "(if ?rel then release_range ?lo ?hi m else Inr m) = Inr (m\<lparr>m_heap := h\<rparr>)" "hinv [] ?E h" by blast
  let ?m2 = "set_sp (?lo + ?r) (move_range ?lo ?hi ?r (m\<lparr>m_heap := h\<rparr>))"
  have t: "tally m P = bx P (take ?lo (m_stack m)) + bx P (slice ?lo ?hi m) + bx P (slice ?hi (m_sp m) m) + rest m P" for P
    using operands3 [OF lh(1,3)] by (simp add: tally_rest)
  have "\<exists>h'. release_fr ?f ?m2 = Inr (?m2\<lparr>m_heap := h'\<rparr>) \<and> hinv [] (\<lambda>a. ?E a - cnt (\<lambda>r. r = int a) (frame_refs ?f)) h'"
  proof (cases "f_release ?f")
    case True
    have c: "rest m (\<lambda>r. r = int a) \<le> ?E a" for a
      using bx_nonneg [of "\<lambda>r. r = int a" "take ?lo (m_stack m)"] bx_nonneg [of "\<lambda>r. r = int a" "slice ?hi (m_sp m) m"]
        minvD(2) [OF m, of a] unfolding books_def t by linarith
    have "holds_ref ?E (f_ref ?f)"
      using frame_owned [OF m True c] fr_ok [OF m] True by (simp add: holds_ref_def frame_ok_def)
    from release_ref_ok [of ?E ?m2, OF _ this] h(2) obtain h' where
      "on_heap (release (f_ref ?f)) ?m2 = Inr (?m2\<lparr>m_heap := h'\<rparr>)" "hinv [] (\<lambda>a. ?E a - (if int a = f_ref ?f then 1 else 0)) h'"
      by auto
    moreover have "cnt (\<lambda>r. r = int a) (frame_refs ?f) = (if int a = f_ref ?f then 1 else 0)" for a
      using True co by (auto simp: frame_refs_def)
    ultimately show ?thesis using True by (simp add: release_fr_def)
  next
    case False
    then show ?thesis using h(2) co by (intro exI [of _ h]) (simp add: release_fr_def frame_refs_def)
  qed
  then obtain h' where h': "release_fr ?f ?m2 = Inr (?m2\<lparr>m_heap := h'\<rparr>)"
    "hinv [] (\<lambda>a. ?E a - cnt (\<lambda>r. r = int a) (frame_refs ?f)) h'" by blast
  let ?m' = "pop_frame (\<lambda>f. f\<lparr>f_code := nil_unit\<rparr>) (?m2\<lparr>m_heap := h'\<rparr>)"
  have ret: "do_return n owned m = Inr ?m'"
    using fp co lo h(1) h'(1) unfolding do_return_def Let_def by simp
  have s2: "shape (?m2\<lparr>m_heap := h'\<rparr>)" using w lh l by (intro shape_updates(6) shape_calls) simp_all
  have op: "operands_of ?m' = take ?lo (m_stack m) @ slice ?hi (m_sp m) m"
    using moved_operands [OF lh(1,2) l] by (simp add: operands_of_def)
  have t': "tally ?m' P = bx P (take ?lo (m_stack m)) + bx P (slice ?hi (m_sp m) m) + rest m P - cnt P (frame_refs ?f)" for P
    using rest_pop_frame [OF s2, of "\<lambda>f. f\<lparr>f_code := nil_unit\<rparr>" P] op by (simp add: tally_rest)
  have "minv e ?m'"
  proof (rule minvI [where e = e and h = h', OF _ minvD(2) [OF m] minvD(3) [OF m] _ h'(2)])
    show "shape ?m'" using shape_pop_frame [OF s2] fp by simp
    show "tally ?m' (\<lambda>r. r < 0) = 0"
      using t [of "\<lambda>r. r < 0"] t' [of "\<lambda>r. r < 0"] minvD(4) [OF m] tally_nonneg [of ?m' "\<lambda>r. r < 0"]
        bx_nonneg [of "\<lambda>r. r < 0" "slice ?lo ?hi m"] cnt_nonneg [of "\<lambda>r. r < 0" "frame_refs ?f"] by linarith
    show "tally ?m' (\<lambda>r. r = int a) + e a = ?E a - cnt (\<lambda>r. r = int a) (frame_refs ?f)" for a
      unfolding books_def t t' by simp
  qed simp
  then show ?thesis using ret op by (intro exI [of _ ?m']) (simp add: pop_frame_def set_fr_def set_sp_def move_range_def)
qed


lemma coro_done_keeps:
  assumes m: "minv e m" and sp: "0 < m_sp m" and k: "boxed_kind (top m 1) = KindRef"
    and c: "cell_at (as_ref (top m 1)) (m_heap m) = Inr (HCoro co)"
  shows "\<exists>m'. do_coro_done m = Inr m' \<and> minv (\<lambda>a. e a + (if int a = as_ref (top m 1) then 1 else 0)) m'
    \<and> operands_of m' = take (m_sp m - 1) (m_stack m) @ [box_i1 (co_done co)]"
proof -
  let ?m' = "advance 1 (set_top 1 (box_i1 (co_done co)) m)"
  note w = minvD(1) [OF m] and l = minvD(6) [OF m]
  have b: "bx P [top m 1] = (if P (as_ref (top m 1)) then 1 else 0)" for P using k by (simp add: bx_1)
  have t: "tally ?m' P = tally m P - (if P (as_ref (top m 1)) then 1 else 0)" for P
    using w l sp b [of P] by (simp add: bx_1 [of P "box_i1 (co_done co)"])
  have nn: "0 \<le> as_ref (top m 1)" using c by (simp add: cell_at_def split: if_splits)
  have "minv (\<lambda>a. e a + (if int a = as_ref (top m 1) then 1 else 0)) ?m'"
  proof (rule minvI [OF _ _ _ _ minvD(5) [OF m]])
    show "tally ?m' (\<lambda>r. r = int a) + (e a + (if int a = as_ref (top m 1) then 1 else 0)) = books e m a" for a
      unfolding t books_def by auto
    show "tally ?m' (\<lambda>r. r < 0) = 0" unfolding t using minvD(4) [OF m] nn by simp
    show "0 \<le> e a + (if int a = as_ref (top m 1) then 1 else 0)" for a using minvD(2) [OF m, of a] by simp
    show "1 \<le> e 0 + (if int 0 = as_ref (top m 1) then 1 else 0)" using minvD(3) [OF m] by simp
  qed (use w in simp_all)
  moreover have "operands_of ?m' = take (m_sp m - 1) (m_stack m) @ [box_i1 (co_done co)]"
    using sp l take_update_last [of "m_sp m - 1" "m_stack m" "box_i1 (co_done co)"] by (simp add: operands_of_def)
  ultimately show ?thesis using sp k c by (intro exI [of _ ?m']) (simp add: do_coro_done_def with_coro_def with_cell_def)
qed

section \<open>Concrete machines\<close>

lemma minv_frames:
  assumes m: "minv e m" and f: "concat (map frame_refs (active m)) = []" "concat (map frame_refs (take n fs)) = []"
    and n: "0 < n" "n \<le> length fs" "\<forall>f\<in>set (take n fs). frame_ok f \<and> f_bp f < length (m_stack m)"
  shows "minv e (m\<lparr>m_frames := fs, m_fp := n\<rparr>)"
proof (rule minv_step [OF m minvD(5) [OF m], where d = "\<lambda>P. 0"])
  have "active (m\<lparr>m_frames := fs, m_fp := n\<rparr>) = take n fs" by (simp add: active_def)
  then show "tally (m\<lparr>m_frames := fs, m_fp := n\<rparr>) P = tally m P + 0" for P
    unfolding tally_def by (simp add: operands_of_def f(1) del: concat_eq_Nil_conv) (simp only: f(2) cnt_simps(1))
qed (use n in \<open>simp_all add: shape_def active_def\<close>)

lemma minv_handlers: "minv e m \<Longrightarrow> minv e (m\<lparr>m_heap := (m_heap m)\<lparr>h_handlers := hs\<rparr>\<rparr>)"
  by (simp add: minv_def hinv_def shape_def active_def tally_def operands_of_def in_heap_def)

definition demo_function :: gofunction where
  "demo_function = \<lparr>fn_params = [TI32], fn_returns = [TI32], fn_locals = [TI64], fn_captures = [], fn_code = [], fn_handlers = []\<rparr>"

definition demo_call :: machine where
  "demo_call = machine_on (HFunc demo_function) (HString ''s'') [box_ref 2, box_i32 7, box_ref 1]"

definition demo_bad_call :: machine where
  "demo_bad_call = machine_on (HFunc demo_function) (HString ''s'') [box_ref 2, box_ref 1, box_i32 1]"

definition demo_return :: machine where
  "demo_return = (sample_machine [box_ref 1, box_i32 7, box_i32 8, box_ref 2])
     \<lparr>m_frames := [sample_frame, sample_frame\<lparr>f_bp := 1, f_returns := 1\<rparr>], m_fp := 2\<rparr>"

definition demo_handler :: handler where
  "demo_handler = \<lparr>h_start = 0, h_end = 1, h_catch = 5, h_depth = 1\<rparr>"

definition demo_throw :: machine where
  "demo_throw = (let m = sample_machine [box_ref 1, box_ref 1, box_ref 2] in
     m\<lparr>m_heap := (m_heap m)\<lparr>h_handlers := [[demo_handler], [], []]\<rparr>\<rparr>
      \<lparr>m_frames := [sample_frame\<lparr>f_ip := 1\<rparr>, sample_frame\<lparr>f_addr := 1, f_bp := 2\<rparr>], m_fp := 2\<rparr>)"

definition demo_trap :: machine where
  "demo_trap = popn 1 (let m = sample_machine [box_ref 1, box_ref 2, box_ref 0] in
     m\<lparr>m_heap := (m_heap m)\<lparr>h_handlers := [[demo_handler], [], []]\<rparr>\<rparr>)"

definition demo_coro :: machine where
  "demo_coro = machine_on (HCoro (new_coro [] [])) (HString ''s'') [box_ref 2, box_ref 1]"

lemma demo_minv: "minv host_null demo_call" "minv host_null demo_return" "minv host_null demo_throw" "minv host_null demo_coro"
  "minv (\<lambda>a. if a = 0 then 2 else 0) demo_trap"
proof -
  let ?m = "sample_machine [box_ref 1, box_ref 2, box_ref 0]"
  let ?t = "?m\<lparr>m_heap := (m_heap ?m)\<lparr>h_handlers := [[demo_handler], [], []]\<rparr>\<rparr>"
  have "minv host_null ?t" by (rule minv_handlers, rule sample_minv) (simp_all add: box_refs_simps)
  moreover have "top ?t 1 = box_ref 0" "m_sp ?t = 3" by (simp_all add: sample_machine_def machine_on_def top_def)
  moreover have "(\<lambda>a. host_null a + bx (\<lambda>r. r = int a) [box_ref 0]) = (\<lambda>a. if a = 0 then 2 else 0)"
    by (auto simp: host_null_def bx_1 fun_eq_iff)
  ultimately show "minv (\<lambda>a. if a = 0 then 2 else 0) demo_trap"
    using minv_pop [of host_null ?t] by (simp add: demo_trap_def Let_def)
  show "minv host_null demo_call"
    unfolding demo_call_def by (rule machine_on_minv) (auto simp: box_refs_simps leaf_def demo_function_def)
  show "minv host_null demo_coro"
    unfolding demo_coro_def by (rule machine_on_minv) (auto simp: box_refs_simps leaf_def new_coro_def cell_ok_def)
  show "minv host_null demo_throw"
    unfolding demo_throw_def Let_def
  proof (rule minv_frames)
    let ?m = "sample_machine [box_ref 1, box_ref 1, box_ref 2]"
    show "minv host_null (?m\<lparr>m_heap := (m_heap ?m)\<lparr>h_handlers := [[demo_handler], [], []]\<rparr>\<rparr>)"
      by (rule minv_handlers, rule sample_minv) (simp_all add: box_refs_simps)
  qed (simp_all add: active_def sample_machine_def machine_on_def sample_frame_def frame_refs_def frame_ok_def numeral_2_eq_2)
  show "minv host_null demo_return"
    unfolding demo_return_def
  proof (rule minv_frames)
    show "minv host_null (sample_machine [box_ref 1, box_i32 7, box_i32 8, box_ref 2])"
      by (rule sample_minv) (simp_all add: box_refs_simps)
  qed (simp_all add: active_def sample_machine_def machine_on_def sample_frame_def frame_refs_def frame_ok_def numeral_2_eq_2)
qed

lemmas demo_defs = demo_call_def demo_return_def demo_throw_def demo_trap_def demo_coro_def demo_function_def demo_handler_def
  sample_machine_def machine_on_def sample_frame_def

section \<open>The properties\<close>

text \<open>C18: A call of a function takes the callee off the stack into a new frame, whose first locals are the
  arguments and whose others are zero, and keeps the reference books exact: the callee's count is
  now the frame's.\<close>

theorem call_effect:
  assumes m: "minv e m" and k: "boxed_kind (top m 1) = KindRef" and f: "cell_at (as_ref (top m 1)) (m_heap m) = Inr (HFunc fn)"
    and args: "length (fn_params fn) < m_sp m" and fp: "m_fp m < length (m_frames m)"
    and room: "m_sp m + length (fn_locals fn) \<le> length (m_stack m) + 1"
    and cd: "code_in m (as_ref (top m 1))" "\<not> is_coro (as_ref (top m 1)) m"
  shows "\<exists>m'. do_call m = Inr m' \<and> minv e m' \<and> m_fp m' = m_fp m + 1 \<and> f_addr (fr m') = as_ref (top m 1)
    \<and> f_ip (fr m') = 0 \<and> f_bp (fr m') = m_sp m - length (fn_params fn) - 1
    \<and> operands_of m' = take (m_sp m - 1) (m_stack m) @ replicate (length (fn_locals fn)) 0"
proof -
  let ?a = "as_ref (top m 1)"
  define ce where "ce = \<lparr>ce_code = ?a, ce_ref = ?a, ce_upvals = None, ce_params = fn_params fn, ce_returns = fn_returns fn,
            ce_locals = length (fn_locals fn)\<rparr>"
  have "?a \<noteq> 0" using f hinvD(15) [OF minvD(5) [OF m]] by (auto simp: cell_at_def split: if_splits)
  then have ok: "callee_ok m ce" using f by (simp add: callee_ok_def ce_def cell_at_def split: if_splits)
  have "do_call m = enter ce False m"
    using f fp args cd(2) by (simp add: do_call_def with_callee_def with_cell_def ce_def)
  with enter_effect [OF m _ k ok fp] args room cd(1) show ?thesis by (simp add: ce_def)
qed

theorem call_effect_witness:
  "\<exists>m'. do_call demo_call = Inr m' \<and> minv host_null m' \<and> m_fp m' = 2 \<and> f_bp (fr m') = 1
     \<and> operands_of m' = [box_ref 2, box_i32 7, 0]"
proof -
  have t: "top demo_call (Suc 0) = box_ref 1" "m_sp demo_call = 3" "m_fp demo_call = 1" by (simp_all add: demo_defs top_def)
  have c: "cell_at 1 (m_heap demo_call) = Inr (HFunc demo_function)" by (simp add: demo_defs cell_at_def)
  have "\<exists>m'. do_call demo_call = Inr m' \<and> minv host_null m' \<and> m_fp m' = m_fp demo_call + 1 \<and> f_addr (fr m') = 1
    \<and> f_ip (fr m') = 0 \<and> f_bp (fr m') = m_sp demo_call - length (fn_params demo_function) - 1
    \<and> operands_of m' = take (m_sp demo_call - 1) (m_stack demo_call) @ replicate (length (fn_locals demo_function)) 0"
    using call_effect [OF demo_minv(1), of demo_function] c
    by (simp add: t) (simp add: demo_defs code_in_def is_coro_def)
  then show ?thesis by (auto simp: t) (auto simp: demo_defs)
qed

text \<open>C36: CALL does not check that its operand is a reference.  A plain word, an \<^verbatim>\<open>i32\<close> say, whose payload is
  the heap address of a function calls that function, and the new frame claims a count nobody gave
  it: the books are off by one, in favour of the frame, which will release the function on return.
  They balance only if someone else, outside, gives up a count.\<close>

theorem call_unchecked:
  assumes m: "minv e m" and k: "boxed_kind (top m 1) \<noteq> KindRef" and f: "cell_at (as_ref (top m 1)) (m_heap m) = Inr (HFunc fn)"
    and args: "length (fn_params fn) < m_sp m" and fp: "m_fp m < length (m_frames m)"
    and room: "m_sp m + length (fn_locals fn) \<le> length (m_stack m) + 1"
    and cd: "code_in m (as_ref (top m 1))" "\<not> is_coro (as_ref (top m 1)) m"
  shows "\<exists>m'. do_call m = Inr m' \<and> m_fp m' = m_fp m + 1 \<and> f_ref (fr m') = as_ref (top m 1) \<and> f_release (fr m')
    \<and> \<not> minv e m'
    \<and> (1 \<le> e (nat (as_ref (top m 1))) \<longrightarrow> minv (e(nat (as_ref (top m 1)) := e (nat (as_ref (top m 1))) - 1)) m')"
proof -
  let ?a = "as_ref (top m 1)"
  define ce where "ce = \<lparr>ce_code = ?a, ce_ref = ?a, ce_upvals = None, ce_params = fn_params fn, ce_returns = fn_returns fn,
            ce_locals = length (fn_locals fn)\<rparr>"
  have "?a \<noteq> 0" using f hinvD(15) [OF minvD(5) [OF m]] by (auto simp: cell_at_def split: if_splits)
  then have ok: "0 < ?a" "?a < int (length (h_cells (m_heap m)))" "callee_ok m ce"
    using f by (auto simp: callee_ok_def ce_def cell_at_def split: if_splits)
  have "do_call m = enter ce False m" using f fp args cd(2) by (simp add: do_call_def with_callee_def with_cell_def ce_def)
  moreover obtain m' where m': "enter ce False m = Inr m'" "m_heap m' = m_heap m" "shape m'" "m_fp m' = m_fp m + 1" "f_ref (fr m') = ?a" "f_release (fr m')"
    and t: "\<And>P. tally m' P + bx P [top m 1] = tally m P + (if P ?a then 1 else 0)"
    using enter_frame [OF minvD(1) [OF m] _ ok(3) fp] args room cd(1) by (auto simp: ce_def)
  ultimately show ?thesis using enter_unowned [OF m k ok(1,2) m'(2,3) t] by auto
qed

theorem call_unchecked_witness:
  "\<exists>m'. do_call demo_bad_call = Inr m' \<and> m_fp m' = 2 \<and> f_ref (fr m') = 1 \<and> f_release (fr m') \<and> \<not> minv host_null m'"
proof -
  have t: "top demo_bad_call (Suc 0) = box_i32 1" "m_sp demo_bad_call = 3" "m_fp demo_bad_call = 1" "as_ref (box_i32 1) = 1"
    by (simp_all add: demo_bad_call_def machine_on_def sample_frame_def top_def) code_simp
  have c: "cell_at 1 (m_heap demo_bad_call) = Inr (HFunc demo_function)"
    by (simp add: demo_bad_call_def machine_on_def cell_at_def)
  have "minv host_null demo_bad_call"
    unfolding demo_bad_call_def by (rule machine_on_minv) (auto simp: box_refs_simps leaf_def demo_function_def)
  moreover have "boxed_kind (top demo_bad_call 1) \<noteq> KindRef" "length (fn_params demo_function) < m_sp demo_bad_call"
    "m_fp demo_bad_call < length (m_frames demo_bad_call)"
    "m_sp demo_bad_call + length (fn_locals demo_function) \<le> length (m_stack demo_bad_call) + 1"
    "code_in demo_bad_call 1" "\<not> is_coro 1 demo_bad_call"
    by (simp add: t) (simp_all add: demo_bad_call_def machine_on_def demo_function_def code_in_def is_coro_def)
  ultimately obtain m' where "do_call demo_bad_call = Inr m'" "m_fp m' = m_fp demo_bad_call + 1"
    "f_ref (fr m') = 1" "f_release (fr m')" "\<not> minv host_null m'"
    using call_unchecked [of host_null demo_bad_call demo_function] c t by auto
  then show ?thesis using t by auto
qed

text \<open>C19: A return outside a coroutine replaces the frame's arguments, locals and leftover operands by its
  results on the caller's stack, and keeps the reference books exact: everything the frame owned is
  released once.  It may skip the releases only when nothing but locals of plain kinds is below
  the results.\<close>

theorem return_effect:
  assumes "minv e m" and "1 < m_fp m" and "f_coro (fr m) = 0" and "f_bp (fr m) + f_returns (fr m) \<le> m_sp m"
    and "owned \<or> m_sp m \<noteq> f_bp (fr m) + n + f_returns (fr m)
      \<or> (\<forall>v\<in>set (slice (f_bp (fr m)) (m_sp m - f_returns (fr m)) m). boxed_kind v \<noteq> KindRef)"
  shows "\<exists>m'. do_return n owned m = Inr m' \<and> minv e m' \<and> m_fp m' = m_fp m - 1
    \<and> operands_of m' = take (f_bp (fr m)) (m_stack m) @ slice (m_sp m - f_returns (fr m)) (m_sp m) m"
  by (rule return_lemma [OF assms])

theorem return_effect_witness:
  "\<exists>m'. do_return 1 True demo_return = Inr m' \<and> minv host_null m' \<and> m_fp m' = 1
     \<and> operands_of m' = [box_ref 1, box_ref 2]"
proof -
  have f: "m_fp demo_return = 2" "f_coro (fr demo_return) = 0" "f_bp (fr demo_return) = 1" "f_returns (fr demo_return) = 1"
    "m_sp demo_return = 4" by (simp_all add: demo_defs fr_def)
  have "take 1 (m_stack demo_return) = [box_ref 1]" "slice 3 4 demo_return = [box_ref 2]"
    by (simp_all add: demo_defs slice_def)
  then show ?thesis using return_effect [OF demo_minv(2), of True 1] by (simp add: f)
qed

text \<open>C22: Transfers never use a count they do not own: whatever outcome they have, traps included, the
  reference books are exact for host counts at least as large as before.  On every machine with exact
  books whose frames have code and whose heap is below 2^31 slots this holds of returns, RESUME,
  CORO_DONE, CORO_VALUE, ERROR_NEW, ERROR_GET and ERROR_CODE; of CALL and RETURN_CALL when the callee on top
  is a reference, which these operations do not check; and of YIELD when the frame's base is below the stack
  pointer (or there is no frame or operand to yield).\<close>

theorem transfers_never_overdraw:
  assumes m: "minv e m" and cd: "coded m" and small: "length (h_cells (m_heap m)) < 2 ^ 31"
  shows "safe e (do_return n owned m) \<and> safe e (do_resume m) \<and> safe e (do_coro_done m) \<and> safe e (do_coro_value m)
    \<and> safe e (do_error_new render m) \<and> safe e (do_error_get m) \<and> safe e (do_error_code m)
    \<and> (0 < m_sp m \<longrightarrow> boxed_kind (top m 1) = KindRef \<longrightarrow> safe e (do_call m) \<and> safe e (do_return_call m))
    \<and> (m_fp m = 1 \<or> m_sp m = 0 \<or> f_bp (fr m) < m_sp m \<longrightarrow> safe e (do_yield m))"
proof -
  have le: "length (h_cells (m_heap m)) \<le> 2 ^ 31" using small by simp
  have "safe e (do_return n owned m)"
  proof (cases "f_returns (fr m) \<le> m_sp m")
    case True
    show ?thesis by (rule return_safe [OF m]) (rule coro_return_safe [OF m _ _ le True])
  next
    case False
    then show ?thesis using m by (simp add: do_return_def Let_def)
  qed
  moreover have "safe e (do_yield m)" if "m_fp m = 1 \<or> m_sp m = 0 \<or> f_bp (fr m) < m_sp m"
    by (rule yield_safe [OF m _ le]) (use that in auto)
  ultimately show ?thesis
    using call_safe [OF m] return_call_safe [OF m cd] resume_safe [OF m cd] coro_done_safe [OF m] coro_value_safe [OF m]
      error_new_safe [OF m small, of render] error_get_safe [OF m] error_code_safe [OF m] by blast
qed

theorem transfers_never_overdraw_witness:
  "safe host_null (do_call demo_call) \<and> safe host_null (do_return_call demo_call) \<and> safe host_null (do_resume demo_call)"
proof -
  have "coded demo_call" by (simp add: coded_def code_in_def active_def demo_defs less_Suc_eq)
  moreover have "length (h_cells (m_heap demo_call)) < 2 ^ 31" "0 < m_sp demo_call"
    "boxed_kind (top demo_call 1) = KindRef" by (simp_all add: demo_defs top_def)
  ultimately show ?thesis using transfers_never_overdraw [OF demo_minv(1)] by blast
qed

section \<open>Which handler takes an exception\<close>

text \<open>
  Said without the search: a frame is at its own offset if it is the top one and at the one-byte call
  it has just passed otherwise; a handler protects the offsets from its start up to, but without, its
  end; the table is the one of the frame's code.  \<open>innermost m fp h\<close>: frame \<open>fp\<close> (counted from 1) is the
  topmost one an entry of whose table protects its offset, and \<open>h\<close> is the first such entry.
\<close>

definition site :: "machine \<Rightarrow> nat \<Rightarrow> int" where
  "site m fp = f_ip (m_frames m ! (fp - 1)) - (if fp = m_fp m then 0 else 1)"

definition table_of :: "machine \<Rightarrow> nat \<Rightarrow> handler list" where
  "table_of m fp = (let a = f_addr (m_frames m ! (fp - 1)); hs = h_handlers (m_heap m) in
     if 0 \<le> a \<and> a < int (length hs) then hs ! nat a else [])"

definition protects :: "machine \<Rightarrow> nat \<Rightarrow> handler \<Rightarrow> bool" where
  "protects m fp h \<longleftrightarrow> site m fp \<in> {h_start h..<h_end h}"

definition innermost :: "machine \<Rightarrow> nat \<Rightarrow> handler \<Rightarrow> bool" where
  "innermost m fp h \<longleftrightarrow> 1 \<le> fp \<and> fp \<le> m_fp m
     \<and> (\<exists>k<length (table_of m fp). table_of m fp ! k = h \<and> protects m fp h
          \<and> (\<forall>j<k. \<not> protects m fp (table_of m fp ! j)))
     \<and> (\<forall>g. fp < g \<and> g \<le> m_fp m \<longrightarrow> (\<forall>h'\<in>set (table_of m g). \<not> protects m g h'))"

lemma protects_covers: "protects m fp = covers_ip (if fp = m_fp m then f_ip (m_frames m ! (fp - 1)) else f_ip (m_frames m ! (fp - 1)) - 1)"
  by (auto simp: fun_eq_iff protects_def site_def covers_ip_def)

lemma handler_at_Suc:
  "handler_at m (Suc n) = (case find (protects m (Suc n)) (table_of m (Suc n)) of
     Some h \<Rightarrow> Some (Suc n, h) | None \<Rightarrow> handler_at m n)"
proof -
  have p: "protects m (Suc n) = covers_ip (if Suc n = m_fp m then f_ip (m_frames m ! n) else f_ip (m_frames m ! n) - 1)"
    unfolding protects_covers diff_Suc_1 by (rule refl)
  show ?thesis unfolding p handler_at.simps(2) table_of_def Let_def diff_Suc_1
    by (cases "0 \<le> f_addr (m_frames m ! n) \<and> f_addr (m_frames m ! n) < int (length (h_handlers (m_heap m)))") auto
qed

lemma handler_at_iff:
  "handler_at m n = Some (fp, h) \<longleftrightarrow> 1 \<le> fp \<and> fp \<le> n \<and> find (protects m fp) (table_of m fp) = Some h
     \<and> (\<forall>g. fp < g \<and> g \<le> n \<longrightarrow> find (protects m g) (table_of m g) = None)"
proof (induction n)
  case (Suc n)
  show ?case
  proof (cases "find (protects m (Suc n)) (table_of m (Suc n))")
    case None
    then show ?thesis using Suc.IH by (auto simp: handler_at_Suc le_Suc_eq simp del: handler_at.simps)
  next
    case (Some h')
    have top: "\<not> (\<forall>g. fp < g \<and> g \<le> Suc n \<longrightarrow> find (protects m g) (table_of m g) = None)" if "fp \<le> n"
      using that Some by (metis le_imp_less_Suc option.distinct(1) order_refl)
    have "handler_at m (Suc n) = Some (fp, h) \<longleftrightarrow> fp = Suc n \<and> h = h'" using Some by (auto simp: handler_at_Suc simp del: handler_at.simps)
    also have "\<dots> \<longleftrightarrow> 1 \<le> fp \<and> fp \<le> Suc n \<and> find (protects m fp) (table_of m fp) = Some h
        \<and> (\<forall>g. fp < g \<and> g \<le> Suc n \<longrightarrow> find (protects m g) (table_of m g) = None)"
      using top Some by (cases "fp = Suc n") auto
    finally show ?thesis .
  qed
qed simp

lemma find_handler_iff: "find_handler m = Some (fp, h) \<longleftrightarrow> innermost m fp h"
  unfolding find_handler_def handler_at_iff innermost_def find_Some_iff find_None_iff by blast

text \<open>C20: A thrown value is delivered to the innermost covering handler: in the topmost frame with a table
  entry that protects its offset (the throwing instruction itself in the top frame, the call in the
  frames below it), at the first such entry.  Control resumes at that entry's catch offset, the
  operands are those of the region's entry depth and the value, the heap values that live on are
  unchanged, and the reference books stay exact.\<close>

theorem throw_delivers:
  assumes "minv e m" and "0 < m_sp m" and "innermost m fp h"
    and "0 \<le> landing m fp h" and "landing m fp h < int (m_sp m)"
  shows "\<exists>m'. do_throw m = Inr m' \<and> minv e m' \<and> landed m fp h (top m 1) m' \<and> kept (m_heap m) (m_heap m')"
  by (rule throw_lands [OF assms(1,2) assms(3) [folded find_handler_iff] assms(4,5)])

theorem throw_delivers_witness:
  "\<exists>m'. do_throw demo_throw = Inr m' \<and> minv host_null m' \<and> f_ip (fr m') = 5 \<and> operands_of m' = [box_ref 1, box_ref 2]"
proof -
  have h: "innermost demo_throw 1 demo_handler"
    unfolding find_handler_iff [symmetric] by (simp add: demo_defs find_handler_def covers_ip_def numeral_2_eq_2)
  have l: "landing demo_throw 1 demo_handler = 1" "m_sp demo_throw = 3" "top demo_throw 1 = box_ref 2"
    "take 1 (m_stack demo_throw) = [box_ref 1]" by (simp_all add: demo_defs landing_def top_def)
  have "h_catch demo_handler = 5" by (simp add: demo_handler_def)
  then show ?thesis using throw_delivers [OF demo_minv(3) _ h] l by (auto simp: landed_def)
qed

text \<open>C21: A trap under a handler is delivered as a fresh error value with the trap's code and message, and
  the books stay exact but for one count of the null slot, which the error's empty payload uses
  without taking it.  Delivery itself fails, inside the recovery code, only when the error finds no
  heap slot, or the operand stack is full and the region was entered at its top.\<close>

theorem trap_delivers:
  assumes "minv e m" and "2 \<le> e 0" and "t \<noteq> TUncaught" and "find_handler m = Some (fp, h)"
    and "length (h_cells (m_heap m)) < 2 ^ 31" and "0 \<le> landing m fp h" and "landing m fp h \<le> int (m_sp m)"
  shows "\<exists>r. handle t m = Some r \<and>
    (case r of
       Inr m' \<Rightarrow> minv (e(0 := e 0 - 1)) m' \<and> (\<exists>a. landed m fp h (box_ref (int a)) m'
          \<and> h_cells (m_heap m') ! a = HError (trap_code t) (trap_message t) boxed_null)
     | Inl (u, m') \<Rightarrow> u = THeapExhausted \<and> minv e m' \<or> u = TGoPanic \<and> landing m fp h = int (length (m_stack m)))"
  by (rule handle_lands [OF assms])

theorem trap_delivers_witness:
  "\<exists>r. handle TDivideByZero demo_trap = Some r \<and>
    (case r of
       Inr m' \<Rightarrow> minv host_null m' \<and> f_ip (fr m') = 5
     | Inl (u, m') \<Rightarrow> u = THeapExhausted)"
proof -
  let ?e = "\<lambda>a. if a = 0 then 2 else (0 :: int)"
  have h: "find_handler demo_trap = Some (1, demo_handler)"
    by (simp add: demo_defs find_handler_def covers_ip_def popn_def)
  have l: "landing demo_trap 1 demo_handler = 1" "m_sp demo_trap = 2" "length (m_stack demo_trap) = 11"
    "length (h_cells (m_heap demo_trap)) < 2 ^ 31" "h_catch demo_handler = 5" by (simp_all add: demo_defs landing_def popn_def)
  have e: "?e(0 := ?e 0 - 1) = host_null" by (auto simp: host_null_def fun_eq_iff)
  from trap_delivers [OF demo_minv(5) _ _ h, of TDivideByZero, unfolded e] l
  obtain r where "handle TDivideByZero demo_trap = Some r"
    "case r of
       Inr m' \<Rightarrow> minv host_null m' \<and> (\<exists>a. landed demo_trap 1 demo_handler (box_ref (int a)) m'
          \<and> h_cells (m_heap m') ! a = HError (trap_code TDivideByZero) (trap_message TDivideByZero) boxed_null)
     | Inl (u, m') \<Rightarrow> u = THeapExhausted \<and> minv ?e m' \<or> u = TGoPanic \<and> landing demo_trap 1 demo_handler = int (length (m_stack demo_trap))"
    by auto
  with l show ?thesis by (cases r) (auto simp: landed_def)
qed

text \<open>C33: CORO_DONE overwrites the handle on the stack without releasing it: the handle's count is lost.\<close>

theorem coro_done_leaks:
  assumes "minv e m" and "0 < m_sp m" and "boxed_kind (top m 1) = KindRef"
    and "cell_at (as_ref (top m 1)) (m_heap m) = Inr (HCoro co)"
  shows "\<exists>m'. do_coro_done m = Inr m' \<and> minv (\<lambda>a. e a + (if int a = as_ref (top m 1) then 1 else 0)) m'
    \<and> operands_of m' = take (m_sp m - 1) (m_stack m) @ [box_i1 (co_done co)]"
  by (rule coro_done_keeps [OF assms])

theorem coro_done_leaks_witness:
  "\<exists>m'. do_coro_done demo_coro = Inr m' \<and> minv (\<lambda>a. host_null a + (if a = 1 then 1 else 0)) m'
    \<and> operands_of m' = [box_ref 2, box_i1 False]"
proof -
  have t: "top demo_coro (Suc 0) = box_ref 1" "m_sp demo_coro = 2" "take (Suc 0) (m_stack demo_coro) = [box_ref 2]"
    by (simp_all add: demo_defs top_def)
  have c: "cell_at 1 (m_heap demo_coro) = Inr (HCoro (new_coro [] []))" by (simp add: demo_defs cell_at_def)
  have "(\<lambda>a. host_null a + (if int a = 1 then 1 else 0)) = (\<lambda>a. host_null a + (if a = 1 then 1 else 0))" by auto
  then show ?thesis using coro_done_leaks [OF demo_minv(4), of "new_coro [] []"] c by (simp add: t new_coro_def)
qed

end
