(* ===== verification/Scalar.thy ===== *)
theory Scalar
  imports MachineInv Verify
begin

text \<open>
  The scalar handlers of \<^verbatim>\<open>interp/threaded.go\<close> (\<^verbatim>\<open>I32_*\<close>, \<^verbatim>\<open>I64_*\<close> and the constants), opcode by opcode in
  the source's order.  The combinators are the shapes the handlers come in.  An \<^verbatim>\<open>i64\<close> operand may be
  boxed in the word or spilled to the heap; \<^verbatim>\<open>unboxI64\<close> consumes the operand's reference, so a trap
  behind it leaves a word on the stack whose count is already gone.
\<close>

section \<open>Shapes\<close>

definition do_push :: "boxed \<Rightarrow> int \<Rightarrow> machine \<Rightarrow> run" where
  "do_push v w m = (if full m then Inl (TStackOverflow, m) else Inr (advance w (push v m)))"

definition do_bin :: "(boxed \<Rightarrow> boxed \<Rightarrow> boxed) \<Rightarrow> machine \<Rightarrow> run" where
  "do_bin f m =
     (if m_sp m < 2 then Inl (TStackUnderflow, m)
      else Inr (advance 1 (set_top 1 (f (top m 2) (top m 1)) (popn 1 m))))"

definition do_un :: "(boxed \<Rightarrow> boxed) \<Rightarrow> machine \<Rightarrow> run" where
  "do_un f m =
     (if m_sp m = 0 then Inl (TStackUnderflow, m) else Inr (advance 1 (set_top 1 (f (top m 1)) m)))"

definition bin32 :: "(32 word \<Rightarrow> 32 word \<Rightarrow> 32 word) \<Rightarrow> machine \<Rightarrow> run" where
  "bin32 f = do_bin (\<lambda>a b. box_i32 (f (as_i32 a) (as_i32 b)))"

definition cmp32 :: "(32 word \<Rightarrow> 32 word \<Rightarrow> bool) \<Rightarrow> machine \<Rightarrow> run" where
  "cmp32 p = do_bin (\<lambda>a b. box_i1 (p (as_i32 a) (as_i32 b)))"

definition div32 :: "(32 word \<Rightarrow> 32 word \<Rightarrow> 32 word) \<Rightarrow> machine \<Rightarrow> run" where
  "div32 f m = (if 2 \<le> m_sp m \<and> as_i32 (top m 1) = 0 then Inl (TDivideByZero, m) else bin32 f m)"

definition un32 :: "(32 word \<Rightarrow> 32 word) \<Rightarrow> machine \<Rightarrow> run" where
  "un32 f = do_un (\<lambda>a. box_i32 (f (as_i32 a)))"

definition do_bin64 :: "(64 word \<Rightarrow> 64 word \<Rightarrow> 64 word) \<Rightarrow> machine \<Rightarrow> run" where
  "do_bin64 f m =
     (if m_sp m < 2 then Inl (TStackUnderflow, m)
      else with_unbox64 (top m 2) m (\<lambda>x m1. with_unbox64 (top m 1) m1 (\<lambda>y m2.
        with_box64 (f x y) m2 (\<lambda>v m3. Inr (advance 1 (set_top 1 v (popn 1 m3)))))))"

definition do_cmp64 :: "(64 word \<Rightarrow> 64 word \<Rightarrow> bool) \<Rightarrow> machine \<Rightarrow> run" where
  "do_cmp64 p m =
     (if m_sp m < 2 then Inl (TStackUnderflow, m)
      else with_unbox64 (top m 2) m (\<lambda>x m1. with_unbox64 (top m 1) m1 (\<lambda>y m2.
        Inr (advance 1 (set_top 1 (box_i1 (p x y)) (popn 1 m2))))))"

definition do_div64 :: "(64 word \<Rightarrow> 64 word \<Rightarrow> 64 word) \<Rightarrow> machine \<Rightarrow> run" where
  "do_div64 f m =
     (if m_sp m < 2 then Inl (TStackUnderflow, m)
      else with_unbox64 (top m 1) m (\<lambda>y m1. with_unbox64 (top m 2) m1 (\<lambda>x m2.
        if y = 0 then Inl (TDivideByZero, m2)
        else with_box64 (f x y) m2 (\<lambda>v m3. Inr (advance 1 (set_top 1 v (popn 1 m3)))))))"

definition do_un64 :: "(64 word \<Rightarrow> 64 word) \<Rightarrow> machine \<Rightarrow> run" where
  "do_un64 f m =
     (if m_sp m = 0 then Inl (TStackUnderflow, m)
      else with_unbox64 (top m 1) m (\<lambda>x m1.
        with_box64 (f x) m1 (\<lambda>v m2. Inr (advance 1 (set_top 1 v m2)))))"

definition do_test64 :: "(64 word \<Rightarrow> boxed) \<Rightarrow> machine \<Rightarrow> run" where
  "do_test64 g m =
     (if m_sp m = 0 then Inl (TStackUnderflow, m)
      else with_unbox64 (top m 1) m (\<lambda>x m1. Inr (advance 1 (set_top 1 (g x) m1))))"

definition do_widen :: "(boxed \<Rightarrow> 64 word) \<Rightarrow> machine \<Rightarrow> run" where
  "do_widen g m =
     (if m_sp m = 0 then Inl (TStackUnderflow, m)
      else with_box64 (g (top m 1)) m (\<lambda>v m1. Inr (advance 1 (set_top 1 v m1))))"

section \<open>Constants\<close>

definition op_i32_const :: "threader \<Rightarrow> nat \<Rightarrow> (machine \<Rightarrow> run) option" where
  "op_i32_const c ip = map_option (\<lambda>v. do_push (box_i32 (ucast v)) 5) (operand (drop ip (tr_code c)) 0)"

definition op_i64_const :: "threader \<Rightarrow> nat \<Rightarrow> (machine \<Rightarrow> run) option" where
  "op_i64_const c ip = map_option (\<lambda>v m.
     if full m then Inl (TStackOverflow, m)
     else with_box64 v m (\<lambda>b m1. Inr (advance 9 (push b m1)))) (operand (drop ip (tr_code c)) 0)"

definition op_f32_const :: "threader \<Rightarrow> nat \<Rightarrow> (machine \<Rightarrow> run) option" where
  "op_f32_const c ip = map_option
     (\<lambda>v. do_push (box_f32 (as_f32 (box (ucast (ucast v :: 32 word)) KindF32))) 5) (operand (drop ip (tr_code c)) 0)"

definition op_f64_const :: "threader \<Rightarrow> nat \<Rightarrow> (machine \<Rightarrow> run) option" where
  "op_f64_const c ip = map_option
     (\<lambda>v. do_push (box_f64 (as_f64 v)) 9) (operand (drop ip (tr_code c)) 0)"

section \<open>The tables\<close>

definition i32_arith :: "(opcode \<times> (machine \<Rightarrow> run)) list" where
  "i32_arith =
    [(I32_ADD, bin32 (+)),
     (I32_SUB, bin32 (-)),
     (I32_MUL, bin32 (*)),
     (I32_DIV_S, div32 go_div_s),
     (I32_DIV_U, div32 (div)),
     (I32_REM_S, div32 go_rem_s),
     (I32_REM_U, div32 (mod))]"

definition i32_bits :: "(opcode \<times> (machine \<Rightarrow> run)) list" where
  "i32_bits =
    [(I32_SHL, bin32 go_shl),
     (I32_SHR_S, bin32 go_shr_s),
     (I32_SHR_U, bin32 go_shr_u),
     (I32_XOR, do_bin box_xor),
     (I32_AND, do_bin box_and),
     (I32_OR, do_bin box_or),
     (I32_CLZ, un32 go_clz),
     (I32_CTZ, un32 go_ctz),
     (I32_POPCNT, un32 go_popcnt),
     (I32_ROTL, bin32 go_rotl),
     (I32_ROTR, bin32 go_rotr)]"

definition i32_compare :: "(opcode \<times> (machine \<Rightarrow> run)) list" where
  "i32_compare =
    [(I32_EXTEND8_S, un32 extend8),
     (I32_EXTEND16_S, un32 extend16),
     (I32_EQZ, do_un (\<lambda>a. box_i1 (as_i32 a = 0))),
     (I32_EQ, cmp32 (\<lambda>a b. a = b)),
     (I32_NE, cmp32 (\<lambda>a b. a \<noteq> b)),
     (I32_LT_S, cmp32 lt_s),
     (I32_LT_U, cmp32 lt_u),
     (I32_GT_S, cmp32 (\<lambda>a b. lt_s b a)),
     (I32_GT_U, cmp32 (\<lambda>a b. lt_u b a)),
     (I32_LE_S, cmp32 le_s),
     (I32_LE_U, cmp32 le_u)]"

definition i32_convert :: "(opcode \<times> (machine \<Rightarrow> run)) list" where
  "i32_convert =
    [(I32_GE_S, cmp32 (\<lambda>a b. le_s b a)),
     (I32_GE_U, cmp32 (\<lambda>a b. le_u b a))]"

definition i32_widen :: "(opcode \<times> (machine \<Rightarrow> run)) list" where
  "i32_widen =
    [(I32_TO_I64_S, do_widen (\<lambda>a. scast (as_i32 a))),
     (I32_TO_I64_U, do_widen (\<lambda>a. ucast (as_i32 a)))]"

definition i32_reinterpret :: "(opcode \<times> (machine \<Rightarrow> run)) list" where
  "i32_reinterpret = [(I32_REINTERPRET_F32, do_un (\<lambda>a. box_i32 (as_f32 a)))]"

definition i64_arith :: "(opcode \<times> (machine \<Rightarrow> run)) list" where
  "i64_arith =
    [(I64_ADD, do_bin64 (+)),
     (I64_SUB, do_bin64 (-)),
     (I64_MUL, do_bin64 (*)),
     (I64_DIV_S, do_div64 go_div_s),
     (I64_DIV_U, do_div64 (div)),
     (I64_REM_S, do_div64 go_rem_s),
     (I64_REM_U, do_div64 (mod))]"

definition i64_bits :: "(opcode \<times> (machine \<Rightarrow> run)) list" where
  "i64_bits =
    [(I64_SHL, do_bin64 go_shl),
     (I64_SHR_S, do_bin64 go_shr_s),
     (I64_SHR_U, do_bin64 go_shr_u),
     (I64_XOR, do_bin64 (XOR)),
     (I64_AND, do_bin64 (AND)),
     (I64_OR, do_bin64 (OR)),
     (I64_CLZ, do_un64 go_clz),
     (I64_CTZ, do_un64 go_ctz),
     (I64_POPCNT, do_un64 go_popcnt),
     (I64_ROTL, do_bin64 go_rotl),
     (I64_ROTR, do_bin64 go_rotr)]"

definition i64_compare :: "(opcode \<times> (machine \<Rightarrow> run)) list" where
  "i64_compare =
    [(I64_EXTEND8_S, do_un64 extend8),
     (I64_EXTEND16_S, do_un64 extend16),
     (I64_EXTEND32_S, do_un64 extend32),
     (I64_EQZ, do_test64 (\<lambda>x. box_i1 (x = 0))),
     (I64_EQ, do_cmp64 (\<lambda>a b. a = b)),
     (I64_NE, do_cmp64 (\<lambda>a b. a \<noteq> b)),
     (I64_LT_S, do_cmp64 lt_s),
     (I64_LT_U, do_cmp64 lt_u),
     (I64_GT_S, do_cmp64 (\<lambda>a b. lt_s b a)),
     (I64_GT_U, do_cmp64 (\<lambda>a b. lt_u b a)),
     (I64_LE_S, do_cmp64 le_s)]"

definition i64_convert :: "(opcode \<times> (machine \<Rightarrow> run)) list" where
  "i64_convert =
    [(I64_LE_U, do_cmp64 le_u),
     (I64_GE_S, do_cmp64 (\<lambda>a b. le_s b a)),
     (I64_GE_U, do_cmp64 (\<lambda>a b. le_u b a)),
     (I64_TO_I32, do_test64 (\<lambda>x. box_i32 (ucast x)))]"

definition i64_reinterpret :: "(opcode \<times> (machine \<Rightarrow> run)) list" where
  "i64_reinterpret = [(I64_REINTERPRET_F64, do_widen (\<lambda>a. as_f64 a))]"

definition scalar32 :: "(opcode \<times> (machine \<Rightarrow> run)) list" where
  "scalar32 = i32_arith @ i32_bits @ i32_compare @ i32_convert @ i32_reinterpret"

definition scalar64 :: "(opcode \<times> (machine \<Rightarrow> run)) list" where
  "scalar64 = i32_widen @ i64_arith @ i64_bits @ i64_compare @ i64_convert @ i64_reinterpret"

section \<open>The 32-bit handlers and the metadata\<close>

lemmas table_defs = i32_arith_def i32_bits_def i32_compare_def i32_convert_def i32_reinterpret_def i32_widen_def
  i64_arith_def i64_bits_def i64_compare_def i64_convert_def i64_reinterpret_def

text \<open>What every 32-bit handler is: a word function of one or two operands, guarded by the traps.\<close>

definition simple_op :: "(machine \<Rightarrow> run) \<Rightarrow> nat \<Rightarrow> kind set \<Rightarrow> bool" where
  "simple_op h n ks \<longleftrightarrow> (\<forall>m. if m_sp m < n then h m = Inl (TStackUnderflow, m)
     else h m = Inl (TDivideByZero, m) \<or>
       (\<exists>v. boxed_kind v \<in> ks \<and> h m = Inr (advance 1 (set_top 1 v (popn (n - 1) m)))))"

lemma popn_0 [simp]: "popn 0 m = m"
  by (simp add: popn_def)

lemma simple_bin: "(\<And>a b. boxed_kind (f a b) \<in> ks) \<Longrightarrow> simple_op (do_bin f) 2 ks"
  by (auto simp: simple_op_def do_bin_def)

lemma simple_un: "(\<And>a. boxed_kind (f a) \<in> ks) \<Longrightarrow> simple_op (do_un f) (Suc 0) ks"
  by (auto simp: simple_op_def do_un_def)

lemma simple_32:
  "simple_op (bin32 g) 2 {KindI32}" "simple_op (cmp32 p) 2 {KindI1}" "simple_op (un32 u) (Suc 0) {KindI32}"
  "simple_op (do_un (\<lambda>a. box_i1 (t a))) (Suc 0) {KindI1}" "simple_op (do_un (\<lambda>a. box_i32 (w a))) (Suc 0) {KindI32}"
  by (simp_all add: bin32_def cmp32_def un32_def simple_bin simple_un)

lemma simple_div32: "simple_op (div32 g) 2 {KindI32}"
  unfolding simple_op_def
proof
  fix m
  show "if m_sp m < 2 then div32 g m = Inl (TStackUnderflow, m)
    else div32 g m = Inl (TDivideByZero, m) \<or>
      (\<exists>v. boxed_kind v \<in> {KindI32} \<and> div32 g m = Inr (advance 1 (set_top 1 v (popn (2 - 1) m))))"
    using simple_32(1) [of g, unfolded simple_op_def, rule_format, of m]
    by (cases "as_i32 (top m 1) = 0") (auto simp: div32_def split: if_splits)
qed

definition typed_simple :: "optype option \<Rightarrow> (machine \<Rightarrow> run) \<Rightarrow> bool" where
  "typed_simple t h \<longleftrightarrow> (case t of None \<Rightarrow> False | Some t \<Rightarrow>
     simple_op h (length (pops t)) (set (pushes t)) \<and> length (pushes t) = 1 \<and> widths t = [] \<and> 0 < length (pops t))"

lemma scalar32_typed:
  "list_all (\<lambda>(op, h). op \<in> {I32_AND, I32_OR, I32_XOR} \<or> typed_simple (map_of types_i32 op) h) scalar32"
  by (simp add: scalar32_def table_defs typed_simple_def types_i32_def ty_def simple_32 [unfolded numeral_2_eq_2]
    simple_div32 [unfolded numeral_2_eq_2])

lemma i32_lookup:
  assumes "map_of types_i32 op = Some t"
  shows "type_of op = t"
proof -
  have i: "list_all (\<lambda>(op, t). 34 \<le> op \<and> op \<le> 72) types_i32" by (simp add: types_i32_def)
  have c: "list_all (\<lambda>(op, t). op < 34 \<or> 72 < op) types_core" by (simp add: types_core_def)
  from i have "34 \<le> op \<and> op \<le> 72" using map_of_SomeD [OF assms] by (auto simp: list_all_iff)
  with c have "map_of types_core op = None" by (fastforce simp: list_all_iff map_of_eq_None_iff)
  then show ?thesis using assms by (simp add: type_of_def types_def map_add_def)
qed

lemma simple_bitwise: "simple_op (do_bin f) 2 UNIV"
  by (rule simple_bin) simp

lemma scalar32_simple:
  assumes "(op, h) \<in> set scalar32"
  shows "\<exists>ks. simple_op h (length (pops (type_of op))) ks \<and> length (pushes (type_of op)) = 1
    \<and> widths (type_of op) = [] \<and> 0 < length (pops (type_of op))
    \<and> (op \<notin> {I32_AND, I32_OR, I32_XOR} \<longrightarrow> ks = set (pushes (type_of op)))"
proof (cases "op \<in> {I32_AND, I32_OR, I32_XOR}")
  case False
  have "typed_simple (map_of types_i32 op) h"
    using scalar32_typed assms False unfolding list_all_iff by fastforce
  then obtain t where "map_of types_i32 op = Some t" "typed_simple (Some t) h"
    by (auto simp: typed_simple_def split: option.splits)
  then show ?thesis using i32_lookup [of op t] by (auto simp: typed_simple_def)
next
  case True
  have t: "type_of I32_AND = ty ''i32.and'' [] [KindI32, KindI32] [KindI32] []"
    "type_of I32_OR = ty ''i32.or'' [] [KindI32, KindI32] [KindI32] []"
    "type_of I32_XOR = ty ''i32.xor'' [] [KindI32, KindI32] [KindI32] []"
    by (rule i32_lookup, simp add: types_i32_def)+
  have "list_all (\<lambda>(op, h). op \<in> {I32_AND, I32_OR, I32_XOR} \<longrightarrow> simple_op h 2 UNIV) scalar32"
    by (simp add: scalar32_def table_defs simple_bitwise)
  then have "simple_op h 2 UNIV" using assms True by (fastforce simp: list_all_iff)
  moreover have "length (pops (type_of op)) = 2 \<and> length (pushes (type_of op)) = 1 \<and> widths (type_of op) = []"
    using True t by (auto simp: ty_def)
  ultimately show ?thesis using True by auto
qed

lemma singleton_list: "length xs = 1 \<Longrightarrow> k \<in> set xs \<Longrightarrow> xs = [k]"
  by (cases xs) auto

text \<open>C23: Stack effect of the 32-bit integer handlers: the ones of arithmetic, shifts, rotations and bit
  counts, sign extension, comparison, and the reinterpretation of an f32 (the tables in \<open>scalar32\<close>;
  conversions to i64, f32 and f64 are not in them).  One that returns moves the stack by the operand
  and result counts of its opcode's metadata, leaves the operands below alone, advances past its own
  byte and does not touch the heap; and, but for I32_AND, I32_OR and I32_XOR, it pushes a word of the
  declared kind.\<close>

theorem scalar32_effect:
  assumes op: "(op, h) \<in> set scalar32" and r: "h m = Inr m'" and w: "shape m"
  shows "m_sp m' + length (pops (type_of op)) = m_sp m + length (pushes (type_of op))
    \<and> operands_of (popn 1 m') = take (m_sp m - length (pops (type_of op))) (m_stack m)
    \<and> (op \<notin> {I32_AND, I32_OR, I32_XOR} \<longrightarrow> pushes (type_of op) = [boxed_kind (top m' 1)])
    \<and> f_ip (fr m') = f_ip (fr m) + 1 \<and> m_heap m' = m_heap m"
proof -
  let ?n = "length (pops (type_of op))"
  from scalar32_simple [OF op] obtain ks where ks: "simple_op h ?n ks" "length (pushes (type_of op)) = 1" "0 < ?n"
    "op \<notin> {I32_AND, I32_OR, I32_XOR} \<longrightarrow> ks = set (pushes (type_of op))" by blast
  from ks(1) r obtain v where v: "\<not> m_sp m < ?n" "boxed_kind v \<in> ks" "m' = advance 1 (set_top 1 v (popn (?n - 1) m))"
    unfolding simple_op_def by (metis Inl_Inr_False Inr_inject)
  have l: "m_sp m \<le> length (m_stack m)" and fp: "0 < m_fp m" "m_fp m \<le> length (m_frames m)" using w by (auto simp: shape_def)
  have "m_sp m' = m_sp m - (?n - 1)" using v(3) by simp
  then have sp: "m_sp m' = m_sp m - ?n + 1" using v(1) ks(3) by linarith
  have b: "m_sp m - (?n - 1) - 1 < length (m_stack m)" using v(1) ks(3) l by linarith
  have "top m' 1 = v" using v(3) b by (simp add: top_def)
  moreover have "f_ip (fr m') = f_ip (fr m) + 1" using v(3) fp by (simp add: advance_def set_fr_def fr_def)
  moreover have "operands_of (popn 1 m') = take (m_sp m - ?n) (m_stack m)"
  proof -
    have "m_sp m - (?n - 1) - 1 = m_sp m - ?n" using ks(3) by linarith
    then show ?thesis using v(3) by (simp add: operands_of_def)
  qed
  ultimately show ?thesis using ks v sp singleton_list [OF ks(2), of "boxed_kind v"] by auto
qed

theorem scalar32_effect_witness:
  "\<exists>m'. bin32 (-) (sample_machine [box_i32 9, box_i32 4]) = Inr m' \<and> m_sp m' = 1 \<and> boxed_kind (top m' 1) = KindI32"
proof -
  let ?m = "sample_machine [box_i32 9, box_i32 4]"
  have t: "type_of I32_SUB = ty ''i32.sub'' [] [KindI32, KindI32] [KindI32] []"
    by (rule i32_lookup) (simp add: types_i32_def)
  have sp: "m_sp ?m = 2" by (simp add: sample_machine_def machine_on_def)
  have w: "shape ?m" by (simp add: shape_def active_def sample_machine_def machine_on_def sample_frame_def frame_ok_def)
  have op: "(I32_SUB, bin32 (-)) \<in> set scalar32" by (simp add: scalar32_def i32_arith_def)
  obtain m' where m': "bin32 (-) ?m = Inr m'" using sp by (auto simp: bin32_def do_bin_def)
  then show ?thesis using scalar32_effect [OF op m' w] sp t by (auto simp: ty_def)
qed

text \<open>The boxed bitwise operations against the kinds the verifier assumes.\<close>

lemma and_kind_tags:
  assumes "a \<in> {KindI32, KindI8, KindI1}" "b \<in> {KindI32, KindI8, KindI1}"
  shows "kind_tag a AND kind_tag b = kind_tag (bitwise a b)"
  using assms by (auto simp: bitwise_def)

text \<open>C35: The bitwise operations on boxed words of kinds i32, i8 and i1 compute the bitwise operation on the
  values.  The kind of the result is the one the verifier assumes (the common kind, i32 for different
  ones) for I32_AND always; for I32_OR exactly when the operands have the same kind (an i8 and an i1
  give a reserved tag, other mixes the narrow kind); for I32_XOR, which keeps the left operand's kind,
  exactly when the operands have the same kind or the left one is an i32.\<close>

theorem bitwise_kinds:
  assumes a: "boxed_kind x = a" "a \<in> {KindI32, KindI8, KindI1}" and b: "boxed_kind y = b" "b \<in> {KindI32, KindI8, KindI1}"
  shows "as_i32 (box_and x y) = as_i32 x AND as_i32 y \<and> as_i32 (box_or x y) = as_i32 x OR as_i32 y
    \<and> as_i32 (box_xor x y) = as_i32 x XOR as_i32 y
    \<and> boxed_kind (box_and x y) = bitwise a b
    \<and> boxed_kind (box_or x y) = (if a = b then a else if {a, b} = {KindI8, KindI1} then KindReserved
         else if KindI8 \<in> {a, b} then KindI8 else KindI1)
    \<and> boxed_kind (box_xor x y) = a
    \<and> (boxed_kind (box_or x y) = bitwise a b \<longleftrightarrow> a = b)
    \<and> (boxed_kind (box_xor x y) = bitwise a b \<longleftrightarrow> a = b \<or> a = KindI32)"
proof -
  note x = boxed_kind_top [OF a] and y = boxed_kind_top [OF b]
  have k: "bitwise a b \<notin> {KindF64, KindText, KindAny}" "a \<notin> {KindF64, KindText, KindAny}"
    using a(2) b(2) by (auto simp: bitwise_def)
  have "boxed_kind (box_and x y) = bitwise a b"
    by (rule boxed_kindI [OF _ _ k(1)]) (use x y and_kind_tags [OF a(2) b(2)] in \<open>simp_all add: box_bitop_bits\<close>)
  moreover have "boxed_kind (box_xor x y) = a"
    by (rule boxed_kindI [OF _ _ k(2)]) (use x in \<open>simp_all add: box_bitop_bits\<close>)
  moreover have "boxed_kind (box_or x y) = (if a = b then a else if {a, b} = {KindI8, KindI1} then KindReserved
         else if KindI8 \<in> {a, b} then KindI8 else KindI1)"
    by (rule boxed_kindI) (use x y a(2) b(2) in \<open>auto simp: box_bitop_bits doubleton_eq_iff\<close>)
  moreover have "(if a = b then a else if {a, b} = {KindI8, KindI1} then KindReserved
         else if KindI8 \<in> {a, b} then KindI8 else KindI1) = bitwise a b \<longleftrightarrow> a = b"
    "a = bitwise a b \<longleftrightarrow> a = b \<or> a = KindI32"
    using a(2) b(2) by (auto simp: bitwise_def)
  ultimately show ?thesis by (simp only: as_i32_bitop simp_thms)
qed

theorem bitwise_kinds_witness:
  "boxed_kind (box_or (box_i8 1) (box_i1 True)) = KindReserved \<and> boxed_kind (box_xor (box_i1 True) (box_i32 6)) = KindI1
   \<and> boxed_kind (box_and (box_i8 1) (box_i1 True)) = KindI32"
  using bitwise_kinds [of "box_i8 1" KindI8 "box_i1 True" KindI1] bitwise_kinds [of "box_i1 True" KindI1 "box_i32 6" KindI32]
  by (simp add: bitwise_def doubleton_eq_iff)

section \<open>64-bit operands\<close>

text \<open>The integer a word stands for, whichever way it is stored.\<close>

definition i64_of :: "heap \<Rightarrow> boxed \<Rightarrow> 64 word option" where
  "i64_of h b = (if boxed_kind b \<noteq> KindRef then Some (as_i64 b)
     else if as_ref b < 0 \<or> int (length (h_cells h)) \<le> as_ref b then None
     else case h_cells h ! nat (as_ref b) of HI64 v \<Rightarrow> Some v | _ \<Rightarrow> None)"

lemma i64_of_boxable: "is_boxable v \<Longrightarrow> i64_of h (box_i64 v) = Some v"
  by (simp add: i64_of_def as_i64_box_iff)

lemma unbox64_ok:
  assumes h: "hinv [] E (m_heap m)" and c: "covers_ref E b" and v: "i64_of (m_heap m) b = Some v"
  shows "\<exists>h'. hinv [] (\<lambda>a. E a - bx (\<lambda>r. r = int a) [b]) h' \<and> length (h_cells h') = length (h_cells (m_heap m))
    \<and> (\<forall>c. slot_live h' c \<longrightarrow> slot_live (m_heap m) c \<and> slot_value h' c = slot_value (m_heap m) c)
    \<and> (\<forall>k. with_unbox64 b m k = k v (m\<lparr>m_heap := h'\<rparr>))"
proof (cases "boxed_kind b = KindRef")
  case False
  then show ?thesis using h v by (intro exI [of _ "m_heap m"]) (auto simp: with_unbox64_def unbox_i64_def i64_of_def bx_1)
next
  case ref: True
  have r: "0 \<le> as_ref b" "as_ref b < int (length (h_cells (m_heap m)))" "h_cells (m_heap m) ! nat (as_ref b) = HI64 v"
    using v ref by (auto simp: i64_of_def split: if_splits hval.splits)
  note d = covers_refD [OF c ref]
  let ?a = "nat (as_ref b)"
  have l: "?a < length (h_cells (m_heap m))" using r by simp
  have e: "1 \<le> E ?a" "?a = 0 \<longrightarrow> 2 \<le> E ?a" using d by (auto split: if_splits)
  from release_exact_lemma [OF h l e] obtain h' where
    h': "release (int ?a) (m_heap m) = Inr h'" "hinv [] (E(?a := E ?a - 1)) h'" "keeps (m_heap m) h'" by blast
  have eq: "(\<lambda>a. E a - bx (\<lambda>r. r = int a) [b]) = E(?a := E ?a - 1)" using ref r(1) by (auto simp: bx_1 fun_eq_iff)
  have "\<forall>k. with_unbox64 b m k = k v (m\<lparr>m_heap := h'\<rparr>)"
    using ref r h'(1) by (simp add: with_unbox64_def unbox_i64_def cell_at_def)
  then show ?thesis using h' unfolding eq
    by (intro exI [of _ h']) (auto simp: keeps_def slot_live_def alive_def slot_value_def)
qed

text \<open>A word still owned keeps its integer through a release.\<close>

lemma i64_of_kept:
  assumes h: "hinv [] E' h'" and c: "covers_ref E' b" and len: "length (h_cells h') = length (h_cells h)"
    and k: "\<forall>c. slot_live h' c \<longrightarrow> slot_live h c \<and> slot_value h' c = slot_value h c"
  shows "i64_of h' b = i64_of h b"
proof (cases "boxed_kind b = KindRef")
  case True
  note d = covers_refD [OF c True]
  have "1 \<le> E' (nat (as_ref b))" using d by (auto split: if_splits)
  then have "slot_live h' (nat (as_ref b))" by (rule cs.owned_live [OF h])
  then show ?thesis using k len by (simp add: i64_of_def slot_value_def)
qed (simp add: i64_of_def)

lemma box64_ok:
  assumes h: "hinv [] E (m_heap m)" and e: "1 \<le> E 0" and small: "length (h_cells (m_heap m)) < 2 ^ 31"
  shows "(\<exists>b h'. (\<forall>k. with_box64 v m k = k b (m\<lparr>m_heap := h'\<rparr>)) \<and> i64_of h' b = Some v
      \<and> hinv [] (\<lambda>a. E a + bx (\<lambda>r. r = int a) [b]) h' \<and> bx (\<lambda>r. r < 0) [b] = 0)
    \<or> (\<not> is_boxable v \<and> (\<exists>h1. hinv [] E h1 \<and> (\<forall>k. with_box64 v m k = Inl (THeapExhausted, m\<lparr>m_heap := h1\<rparr>))))"
proof (cases "is_boxable v")
  case True
  then show ?thesis using h
    by (intro disjI1 exI [of _ "box_i64 v"] exI [of _ "m_heap m"]) (auto simp: with_box64_def i64_of_boxable bx_1)
next
  case False
  have lf: "leaf (HI64 v)" by (simp add: leaf_def)
  from alloc_leaf [OF h lf e] show ?thesis
  proof (elim disjE exE conjE)
    fix a h' assume a: "alloc (HI64 v) (m_heap m) = Inr (a, h')" "hinv [] (\<lambda>b. E b + (if b = a then 1 else 0)) h'"
      "h_cells h' ! a = HI64 v" "a \<le> length (h_cells (m_heap m))"
    have r: "as_ref (box_ref (int a)) = int a" "boxed_kind (box_ref (int a)) = KindRef" using a(4) small by simp_all
    have w: "\<forall>k. with_box64 v m k = k (box_ref (int a)) (m\<lparr>m_heap := h'\<rparr>)"
      using False a(1) by (simp add: with_box64_def with_alloc_def)
    have E: "1 \<le> (\<lambda>b. E b + (if b = a then 1 else 0)) a" using hinvD(6) [OF h, of a] by simp
    have "slot_live h' a" by (rule cs.owned_live [OF a(2) E])
    then have "i64_of h' (box_ref (int a)) = Some v"
      using a(3) r by (simp add: i64_of_def slot_live_def alive_def)
    moreover have "(\<lambda>b. E b + bx (\<lambda>r. r = int b) [box_ref (int a)]) = (\<lambda>b. E b + (if b = a then 1 else 0))"
      by (auto simp: bx_1 r)
    ultimately show ?thesis using w a(2) by (intro disjI1 exI [of _ "box_ref (int a)"] exI [of _ h']) (auto simp: bx_1 r)
  next
    fix h1 assume "alloc (HI64 v) (m_heap m) = Inl THeapExhausted" "gc (m_heap m) = Inr h1" "hinv [] E h1"
    then show ?thesis using False by (auto simp: with_box64_def with_alloc_def)
  qed
qed

lemma covers_two:
  assumes m: "minv e m" and sp: "2 \<le> m_sp m"
  shows "covers_ref (\<lambda>a. books e m a - bx (\<lambda>r. r = int a) [top m 2]) (top m 1)"
    "covers_ref (\<lambda>a. books e m a - bx (\<lambda>r. r = int a) [top m 1]) (top m 2)"
proof -
  have t: "bx P [top m 1] + bx P [top m 2] \<le> tally m P" for P
    using tally_nonneg [of "popn 2 m" P] tally_pop2 [OF sp minvD(6) [OF m], of P] by linarith
  have n: "bx (\<lambda>r. r < 0) [top m k] = 0" if "k = 1 \<or> k = 2" for k
    using covers_nonneg [OF covers_top [OF m]] that sp by auto
  have b: "bx (\<lambda>r. r = int a) [top m 1] + (if a = 0 then 1 else 0) \<le> books e m a - bx (\<lambda>r. r = int a) [top m 2]"
    "bx (\<lambda>r. r = int a) [top m 2] + (if a = 0 then 1 else 0) \<le> books e m a - bx (\<lambda>r. r = int a) [top m 1]" for a
    using t [of "\<lambda>r. r = int a"] minvD(2) [OF m, of a] minvD(3) [OF m] by (cases "a = 0"; auto simp: books_def)+
  show "covers_ref (\<lambda>a. books e m a - bx (\<lambda>r. r = int a) [top m 2]) (top m 1)"
    "covers_ref (\<lambda>a. books e m a - bx (\<lambda>r. r = int a) [top m 1]) (top m 2)"
    using b n by (auto simp: covers_ref_def)
qed

text \<open>Both operands consumed: the second still reads the same behind the first one's release.\<close>

lemma unbox_two:
  assumes m: "minv e m" and sp: "2 \<le> m_sp m" and pq: "{p, q} = {1, 2 :: nat}"
    and x: "i64_of (m_heap m) (top m p) = Some x" and y: "i64_of (m_heap m) (top m q) = Some y"
  shows "\<exists>h. hinv [] (\<lambda>a. books e m a - bx (\<lambda>r. r = int a) [top m 1] - bx (\<lambda>r. r = int a) [top m 2]) h
    \<and> length (h_cells h) = length (h_cells (m_heap m))
    \<and> (\<forall>k. with_unbox64 (top m p) m (\<lambda>x m1. with_unbox64 (top m q) m1 (k x)) = k x y (m\<lparr>m_heap := h\<rparr>))"
proof -
  have "p = 1 \<and> q = 2 \<or> p = 2 \<and> q = 1" using pq by (auto simp: doubleton_eq_iff)
  then have c: "covers_ref (books e m) (top m p)"
    "covers_ref (\<lambda>a. books e m a - bx (\<lambda>r. r = int a) [top m p]) (top m q)"
    using covers_top [OF m] covers_two [OF m sp] sp by auto
  from unbox64_ok [OF minvD(5) [OF m] c(1) x] obtain h1 where
    h1: "hinv [] (\<lambda>a. books e m a - bx (\<lambda>r. r = int a) [top m p]) h1" "length (h_cells h1) = length (h_cells (m_heap m))"
      "\<forall>c. slot_live h1 c \<longrightarrow> slot_live (m_heap m) c \<and> slot_value h1 c = slot_value (m_heap m) c"
      "\<And>k. with_unbox64 (top m p) m k = k x (m\<lparr>m_heap := h1\<rparr>)" by blast
  have y1: "i64_of (m_heap (m\<lparr>m_heap := h1\<rparr>)) (top m q) = Some y"
    using i64_of_kept [OF h1(1) c(2) h1(2,3)] y by simp
  have h1': "hinv [] (\<lambda>a. books e m a - bx (\<lambda>r. r = int a) [top m p]) (m_heap (m\<lparr>m_heap := h1\<rparr>))" using h1(1) by simp
  from unbox64_ok [OF h1' c(2) y1] obtain h where
    h: "hinv [] (\<lambda>a. books e m a - bx (\<lambda>r. r = int a) [top m p] - bx (\<lambda>r. r = int a) [top m q]) h"
      "length (h_cells h) = length (h_cells h1)"
      "\<And>k. with_unbox64 (top m q) (m\<lparr>m_heap := h1\<rparr>) k = k y (m\<lparr>m_heap := h1, m_heap := h\<rparr>)" by auto
  have "(\<lambda>a. books e m a - bx (\<lambda>r. r = int a) [top m p] - bx (\<lambda>r. r = int a) [top m q])
      = (\<lambda>a. books e m a - bx (\<lambda>r. r = int a) [top m 1] - bx (\<lambda>r. r = int a) [top m 2])"
    using \<open>p = 1 \<and> q = 2 \<or> p = 2 \<and> q = 1\<close> by auto
  with h h1 show ?thesis by (intro exI [of _ h]) auto
qed

lemma finish_two:
  assumes m: "minv e m" and sp: "2 \<le> m_sp m" and n: "bx (\<lambda>r. r < 0) [b] = 0"
    and h: "hinv [] (\<lambda>a. books e m a - bx (\<lambda>r. r = int a) [top m 1] - bx (\<lambda>r. r = int a) [top m 2] + bx (\<lambda>r. r = int a) [b]) h"
  shows "minv e (advance 1 (set_top 1 b (popn 1 (m\<lparr>m_heap := h\<rparr>))))"
  by (rule minv_step [OF m h, where d = "\<lambda>P. bx P [b] - bx P [top m 1] - bx P [top m 2]"];
      insert sp n covers_nonneg [OF covers_top [OF m, of 1]] covers_nonneg [OF covers_top [OF m, of 2]];
      simp add: top_def numeral_2_eq_2)

lemma books_zero_ge:
  assumes m: "minv e m" and sp: "2 \<le> m_sp m"
  shows "1 \<le> books e m 0 - bx (\<lambda>r. r = int 0) [top m 1] - bx (\<lambda>r. r = int 0) [top m 2]"
  using tally_nonneg [of "popn 2 m" "\<lambda>r. r = int 0"] tally_pop2 [OF sp minvD(6) [OF m], of "\<lambda>r. r = int 0"] minvD(3) [OF m]
  unfolding books_def by linarith

lemma bin64_tail:
  assumes m: "minv e m" and sp: "2 \<le> m_sp m" and small: "length (h_cells h) < 2 ^ 31"
    and h: "hinv [] (\<lambda>a. books e m a - bx (\<lambda>r. r = int a) [top m 1] - bx (\<lambda>r. r = int a) [top m 2]) h"
  shows "(\<exists>m'. with_box64 v (m\<lparr>m_heap := h\<rparr>) (\<lambda>b m3. Inr (advance 1 (set_top 1 b (popn 1 m3)))) = Inr m'
      \<and> minv e m' \<and> i64_of (m_heap m') (top m' 1) = Some v \<and> m_sp m' = m_sp m - 1)
    \<or> (\<not> is_boxable v \<and> (\<exists>m'. with_box64 v (m\<lparr>m_heap := h\<rparr>) (\<lambda>b m3. Inr (advance 1 (set_top 1 b (popn 1 m3))))
         = Inl (THeapExhausted, m')))"
proof -
  have t: "top (advance 1 (set_top 1 b (popn 1 m1))) 1 = b"
    if "m_sp m1 = m_sp m" "m_stack m1 = m_stack m" for b m1
    using that sp minvD(6) [OF m] by (simp add: top_def)
  from box64_ok [of _ "m\<lparr>m_heap := h\<rparr>" v] h books_zero_ge [OF m sp] small show ?thesis
    using finish_two [OF m sp] t by fastforce
qed

text \<open>C16: A 64-bit binary operation computes its function of the operands wherever they are stored, inline or
  spilled, keeps the books exact, and fails only when a result that needs a heap slot finds none; a
  division with a non-zero divisor and a comparison likewise.\<close>

theorem i64_exact:
  assumes m: "minv e m" and sp: "2 \<le> m_sp m" and small: "length (h_cells (m_heap m)) < 2 ^ 31"
    and x: "i64_of (m_heap m) (top m 2) = Some x" and y: "i64_of (m_heap m) (top m 1) = Some y"
  shows "((\<exists>m'. do_bin64 f m = Inr m' \<and> minv e m' \<and> i64_of (m_heap m') (top m' 1) = Some (f x y) \<and> m_sp m' = m_sp m - 1)
      \<or> (\<not> is_boxable (f x y) \<and> (\<exists>m'. do_bin64 f m = Inl (THeapExhausted, m'))))
    \<and> (y \<noteq> 0 \<longrightarrow>
      (\<exists>m'. do_div64 f m = Inr m' \<and> minv e m' \<and> i64_of (m_heap m') (top m' 1) = Some (f x y) \<and> m_sp m' = m_sp m - 1)
      \<or> (\<not> is_boxable (f x y) \<and> (\<exists>m'. do_div64 f m = Inl (THeapExhausted, m'))))
    \<and> (\<exists>m'. do_cmp64 p m = Inr m' \<and> minv e m' \<and> top m' 1 = box_i1 (p x y) \<and> m_sp m' = m_sp m - 1)"
proof (intro conjI impI)
  from unbox_two [OF m sp _ x y] obtain h where
    h: "hinv [] (\<lambda>a. books e m a - bx (\<lambda>r. r = int a) [top m 1] - bx (\<lambda>r. r = int a) [top m 2]) h"
      "length (h_cells h) = length (h_cells (m_heap m))"
      "\<And>k. with_unbox64 (top m 2) m (\<lambda>x m1. with_unbox64 (top m 1) m1 (k x)) = k x y (m\<lparr>m_heap := h\<rparr>)" by auto
  have s: "length (h_cells h) < 2 ^ 31" using h(2) small by simp
  show "(\<exists>m'. do_bin64 f m = Inr m' \<and> minv e m' \<and> i64_of (m_heap m') (top m' 1) = Some (f x y) \<and> m_sp m' = m_sp m - 1)
      \<or> (\<not> is_boxable (f x y) \<and> (\<exists>m'. do_bin64 f m = Inl (THeapExhausted, m')))"
  proof -
    have "do_bin64 f m = with_box64 (f x y) (m\<lparr>m_heap := h\<rparr>) (\<lambda>b m3. Inr (advance 1 (set_top 1 b (popn 1 m3))))"
      unfolding do_bin64_def h(3) using sp by simp
    then show ?thesis using bin64_tail [OF m sp s h(1), of "f x y"] by simp
  qed
  have b: "bx P [box_i1 (p x y)] = 0" for P by (simp add: bx_1)
  have "minv e (advance 1 (set_top 1 (box_i1 (p x y)) (popn 1 (m\<lparr>m_heap := h\<rparr>))))"
    by (rule finish_two [OF m sp]) (use h(1) b in simp_all)
  moreover have "top (advance 1 (set_top 1 v (popn 1 (m\<lparr>m_heap := h\<rparr>)))) 1 = v" for v
    using sp minvD(6) [OF m] by (simp add: top_def)
  ultimately show "\<exists>m'. do_cmp64 p m = Inr m' \<and> minv e m' \<and> top m' 1 = box_i1 (p x y) \<and> m_sp m' = m_sp m - 1"
  proof -
    assume a: "minv e (advance 1 (set_top 1 (box_i1 (p x y)) (popn 1 (m\<lparr>m_heap := h\<rparr>))))"
      and t: "\<And>v. top (advance 1 (set_top 1 v (popn 1 (m\<lparr>m_heap := h\<rparr>)))) 1 = v"
    have "do_cmp64 p m = Inr (advance 1 (set_top 1 (box_i1 (p x y)) (popn 1 (m\<lparr>m_heap := h\<rparr>))))"
      unfolding do_cmp64_def h(3) using sp by simp
    then show ?thesis using a t by auto
  qed
next
  assume nz: "y \<noteq> 0"
  from unbox_two [OF m sp _ y x] obtain h where
    h: "hinv [] (\<lambda>a. books e m a - bx (\<lambda>r. r = int a) [top m 1] - bx (\<lambda>r. r = int a) [top m 2]) h"
      "length (h_cells h) = length (h_cells (m_heap m))"
      "\<And>k. with_unbox64 (top m 1) m (\<lambda>y m1. with_unbox64 (top m 2) m1 (k y)) = k y x (m\<lparr>m_heap := h\<rparr>)" by auto
  have s: "length (h_cells h) < 2 ^ 31" using h(2) small by simp
  show "(\<exists>m'. do_div64 f m = Inr m' \<and> minv e m' \<and> i64_of (m_heap m') (top m' 1) = Some (f x y) \<and> m_sp m' = m_sp m - 1)
      \<or> (\<not> is_boxable (f x y) \<and> (\<exists>m'. do_div64 f m = Inl (THeapExhausted, m')))"
  proof -
    have "do_div64 f m = with_box64 (f x y) (m\<lparr>m_heap := h\<rparr>) (\<lambda>b m3. Inr (advance 1 (set_top 1 b (popn 1 m3))))"
      unfolding do_div64_def h(3) using sp nz by simp
    then show ?thesis using bin64_tail [OF m sp s h(1), of "f x y"] by simp
  qed
qed

lemma sample_big: "i64_of (m_heap (sample_machine vs)) (box_ref 1) = Some (2 ^ 62)"
  by (simp add: i64_of_def sample_machine_def machine_on_def)

lemma sample_div:
  "minv host_null (sample_machine [box_ref 2, box_ref 1, box_i64 v])"
  "m_sp (sample_machine [box_ref 2, box_ref 1, box_i64 v]) = 3"
  "top (sample_machine [box_ref 2, box_ref 1, box_i64 v]) 1 = box_i64 v"
  "top (sample_machine [box_ref 2, box_ref 1, box_i64 v]) 2 = box_ref 1"
  "length (h_cells (m_heap (sample_machine [box_ref 2, box_ref 1, box_i64 v]))) = 3"
  by (rule sample_minv, simp_all add: box_refs_simps sample_machine_def machine_on_def top_def)

theorem i64_exact_witness:
  "\<exists>m'. do_div64 (div) (sample_machine [box_ref 2, box_ref 1, box_i64 4]) = Inr m'
     \<and> i64_of (m_heap m') (top m' 1) = Some (2 ^ 60) \<or> do_div64 (div) (sample_machine [box_ref 2, box_ref 1, box_i64 4]) = Inl (THeapExhausted, m')"
proof -
  let ?m = "sample_machine [box_ref 2, box_ref 1, box_i64 4]"
  have "is_boxable 4" by (simp add: is_boxable_def)
  then have y: "i64_of (m_heap ?m) (top ?m 1) = Some 4" unfolding sample_div(3) by (rule i64_of_boxable)
  have x: "i64_of (m_heap ?m) (top ?m 2) = Some (2 ^ 62)" using sample_big by (simp add: sample_div)
  have d: "(2 ^ 62 :: 64 word) div 4 = 2 ^ 60" by simp
  have "2 \<le> m_sp ?m" "length (h_cells (m_heap ?m)) < 2 ^ 31" by (simp_all add: sample_div)
  from i64_exact [OF sample_div(1) this x y, of "(div)", unfolded d] show ?thesis by auto
qed

text \<open>C34: A 64-bit division by zero traps with both operands still on the stack but their counts already
  released: with a spilled dividend the books of the machine it leaves behind are no longer exact.\<close>

theorem i64_div_zero_overdrawn:
  assumes m: "minv e m" and sp: "2 \<le> m_sp m"
    and x: "i64_of (m_heap m) (top m 2) = Some x" and y: "i64_of (m_heap m) (top m 1) = Some 0"
  shows "\<exists>m'. do_div64 f m = Inl (TDivideByZero, m') \<and> operands_of m' = operands_of m
    \<and> hinv [] (\<lambda>a. books e m a - bx (\<lambda>r. r = int a) [top m 1] - bx (\<lambda>r. r = int a) [top m 2]) (m_heap m')
    \<and> (boxed_kind (top m 2) = KindRef \<and> as_ref (top m 2) \<noteq> 0 \<longrightarrow> \<not> minv e m')"
proof -
  from unbox_two [OF m sp _ y x] obtain h where
    h: "hinv [] (\<lambda>a. books e m a - bx (\<lambda>r. r = int a) [top m 1] - bx (\<lambda>r. r = int a) [top m 2]) h"
      "length (h_cells h) = length (h_cells (m_heap m))"
      "\<And>k. with_unbox64 (top m 1) m (\<lambda>y m1. with_unbox64 (top m 2) m1 (k y)) = k 0 x (m\<lparr>m_heap := h\<rparr>)" by auto
  have "do_div64 f m = Inl (TDivideByZero, m\<lparr>m_heap := h\<rparr>)"
    unfolding do_div64_def h(3) using sp by simp
  moreover have "\<not> minv e (m\<lparr>m_heap := h\<rparr>)" if r: "boxed_kind (top m 2) = KindRef" "as_ref (top m 2) \<noteq> 0"
  proof
    assume "minv e (m\<lparr>m_heap := h\<rparr>)"
    from minvD(5) [OF this] have b: "hinv [] (books e m) h" by (simp add: books_def [abs_def])
    let ?a = "nat (as_ref (top m 2))"
    have c: "covers_ref (books e m) (top m 2)" using covers_top [OF m] sp by simp
    have a: "0 < ?a" "?a < length (h_cells h)" "bx (\<lambda>r. r = int ?a) [top m 2] = 1"
      using covers_refD(1) [OF c r(1)] r x h(2) by (auto simp: i64_of_def bx_1 split: if_splits)
    have "bx (\<lambda>r. r = int ?a) [top m 1] + bx (\<lambda>r. r = int ?a) [top m 2] = 0"
      using hinvD(9) [OF b a(1,2)] hinvD(9) [OF h(1) a(1,2)] by linarith
    then show False using a(3) bx_nonneg [of "\<lambda>r. r = int ?a" "[top m 1]"] by linarith
  qed
  ultimately show ?thesis using h(1) by (auto simp: operands_of_def)
qed

theorem i64_div_zero_overdrawn_witness:
  "\<exists>m'. do_div64 (div) (sample_machine [box_ref 2, box_ref 1, box_i64 0]) = Inl (TDivideByZero, m') \<and> \<not> minv host_null m'"
proof -
  let ?m = "sample_machine [box_ref 2, box_ref 1, box_i64 0]"
  have "is_boxable 0" by (simp add: is_boxable_def)
  then have y: "i64_of (m_heap ?m) (top ?m 1) = Some 0" unfolding sample_div(3) by (rule i64_of_boxable)
  have x: "i64_of (m_heap ?m) (top ?m 2) = Some (2 ^ 62)" using sample_big by (simp add: sample_div)
  have "2 \<le> m_sp ?m" "boxed_kind (top ?m 2) = KindRef" "as_ref (top ?m 2) \<noteq> 0" by (simp_all add: sample_div)
  then show ?thesis using i64_div_zero_overdrawn [OF sample_div(1) _ x y, of "(div)"] by auto
qed

end
