(* ===== verification/Floats.thy ===== *)
theory Floats
  imports Scalar
begin

text \<open>
  Floating point (\<^verbatim>\<open>F32_*\<close>, \<^verbatim>\<open>F64_*\<close> and the conversions of \<^verbatim>\<open>interp/threaded.go\<close>).  A float is its bit
  pattern.  What IEEE 754 settles on the bits alone is defined here: order, zero tests, sign
  operations, widening, and truncation to an integer.  The rounding operations of Go's \<^verbatim>\<open>float64\<close> and
  \<^verbatim>\<open>math\<close>, and what a conversion of an unrepresentable value gives (which Go leaves to the
  implementation), are the fields of \<open>fpu\<close>: a parameter of every handler that uses them.
\<close>

section \<open>Bit patterns\<close>

definition mag64 :: "64 word \<Rightarrow> nat" where
  "mag64 w = unat (take_bit 63 w)"

definition mag32 :: "32 word \<Rightarrow> nat" where
  "mag32 w = unat (take_bit 31 w)"

definition is_nan64 :: "64 word \<Rightarrow> bool" where
  "is_nan64 w \<longleftrightarrow> 2047 * 2 ^ 52 < mag64 w"

definition is_nan32 :: "32 word \<Rightarrow> bool" where
  "is_nan32 w \<longleftrightarrow> 255 * 2 ^ 23 < mag32 w"

text \<open>Away from NaN, floats are ordered as sign and magnitude.\<close>

definition ord64 :: "64 word \<Rightarrow> int" where
  "ord64 w = (if bit w 63 then - int (mag64 w) else int (mag64 w))"

definition ord32 :: "32 word \<Rightarrow> int" where
  "ord32 w = (if bit w 31 then - int (mag32 w) else int (mag32 w))"

definition eq64 :: "64 word \<Rightarrow> 64 word \<Rightarrow> bool" where
  "eq64 a b \<longleftrightarrow> \<not> is_nan64 a \<and> \<not> is_nan64 b \<and> ord64 a = ord64 b"

definition lt64 :: "64 word \<Rightarrow> 64 word \<Rightarrow> bool" where
  "lt64 a b \<longleftrightarrow> \<not> is_nan64 a \<and> \<not> is_nan64 b \<and> ord64 a < ord64 b"

definition le64 :: "64 word \<Rightarrow> 64 word \<Rightarrow> bool" where
  "le64 a b \<longleftrightarrow> \<not> is_nan64 a \<and> \<not> is_nan64 b \<and> ord64 a \<le> ord64 b"

definition eq32 :: "32 word \<Rightarrow> 32 word \<Rightarrow> bool" where
  "eq32 a b \<longleftrightarrow> \<not> is_nan32 a \<and> \<not> is_nan32 b \<and> ord32 a = ord32 b"

definition lt32 :: "32 word \<Rightarrow> 32 word \<Rightarrow> bool" where
  "lt32 a b \<longleftrightarrow> \<not> is_nan32 a \<and> \<not> is_nan32 b \<and> ord32 a < ord32 b"

definition le32 :: "32 word \<Rightarrow> 32 word \<Rightarrow> bool" where
  "le32 a b \<longleftrightarrow> \<not> is_nan32 a \<and> \<not> is_nan32 b \<and> ord32 a \<le> ord32 b"

text \<open>The value of a finite magnitude, in units of \<open>2\<close> to the \<open>-1074\<close>, the least positive \<^verbatim>\<open>float64\<close>.\<close>

definition units64 :: "nat \<Rightarrow> nat" where
  "units64 k = (let e = k div 2 ^ 52; f = k mod 2 ^ 52 in if e = 0 then f else (2 ^ 52 + f) * 2 ^ (e - 1))"

definition go_trunc :: "64 word \<Rightarrow> int" where
  "go_trunc w = (let k = int (units64 (mag64 w) div 2 ^ 1074) in if bit w 63 then - k else k)"

text \<open>\<^verbatim>\<open>float64(v)\<close> of a \<^verbatim>\<open>float32\<close>; a NaN is made quiet, as the hardware does.\<close>

definition highest :: "nat \<Rightarrow> nat" where
  "highest k = length (takeWhile (\<lambda>j. 2 ^ j \<le> k) [1..<23])"

definition promote :: "32 word \<Rightarrow> 64 word" where
  "promote w =
     (let s = (if bit w 31 then 2 ^ 63 else 0 :: 64 word); e = mag32 w div 2 ^ 23; f = mag32 w mod 2 ^ 23 in
      s + word_of_nat
        (if e = 255 then 2047 * 2 ^ 52 + (if f = 0 then 0 else 2 ^ 51 + (f mod 2 ^ 22) * 2 ^ 29)
         else if e = 0 then (if f = 0 then 0 else (highest f + 874) * 2 ^ 52 + (f - 2 ^ highest f) * 2 ^ (52 - highest f))
         else (e + 896) * 2 ^ 52 + f * 2 ^ 29))"

definition neg64 :: "64 word \<Rightarrow> 64 word" where
  "neg64 w = flip_bit 63 w"

definition abs64 :: "64 word \<Rightarrow> 64 word" where
  "abs64 w = unset_bit 63 w"

definition copysign64 :: "64 word \<Rightarrow> 64 word \<Rightarrow> 64 word" where
  "copysign64 a b = (if bit b 63 then set_bit 63 a else unset_bit 63 a)"

definition neg32 :: "32 word \<Rightarrow> 32 word" where
  "neg32 w = flip_bit 31 w"

section \<open>The arithmetic unit\<close>

text \<open>
  \<open>fp_wild\<close> is what Go's conversion to a 32- or 64-bit integer (\<open>True\<close>: signed) gives for a value the
  type cannot represent.
\<close>

record fpu =
  fp_add32 :: "32 word \<Rightarrow> 32 word \<Rightarrow> 32 word"
  fp_sub32 :: "32 word \<Rightarrow> 32 word \<Rightarrow> 32 word"
  fp_mul32 :: "32 word \<Rightarrow> 32 word \<Rightarrow> 32 word"
  fp_div32 :: "32 word \<Rightarrow> 32 word \<Rightarrow> 32 word"
  fp_min32 :: "32 word \<Rightarrow> 32 word \<Rightarrow> 32 word"
  fp_max32 :: "32 word \<Rightarrow> 32 word \<Rightarrow> 32 word"
  fp_add64 :: "64 word \<Rightarrow> 64 word \<Rightarrow> 64 word"
  fp_sub64 :: "64 word \<Rightarrow> 64 word \<Rightarrow> 64 word"
  fp_mul64 :: "64 word \<Rightarrow> 64 word \<Rightarrow> 64 word"
  fp_div64 :: "64 word \<Rightarrow> 64 word \<Rightarrow> 64 word"
  fp_fmod64 :: "64 word \<Rightarrow> 64 word \<Rightarrow> 64 word"
  fp_min64 :: "64 word \<Rightarrow> 64 word \<Rightarrow> 64 word"
  fp_max64 :: "64 word \<Rightarrow> 64 word \<Rightarrow> 64 word"
  fp_sqrt64 :: "64 word \<Rightarrow> 64 word"
  fp_ceil64 :: "64 word \<Rightarrow> 64 word"
  fp_floor64 :: "64 word \<Rightarrow> 64 word"
  fp_trunc64 :: "64 word \<Rightarrow> 64 word"
  fp_nearest64 :: "64 word \<Rightarrow> 64 word"
  fp_demote :: "64 word \<Rightarrow> 32 word"
  fp_of_int32 :: "int \<Rightarrow> 32 word"
  fp_of_int64 :: "int \<Rightarrow> 64 word"
  fp_wild32 :: "bool \<Rightarrow> 64 word \<Rightarrow> 32 word"
  fp_wild64 :: "bool \<Rightarrow> 64 word \<Rightarrow> 64 word"

definition finite64 :: "64 word \<Rightarrow> bool" where
  "finite64 w \<longleftrightarrow> mag64 w < 2047 * 2 ^ 52"

text \<open>Go's conversions \<^verbatim>\<open>int32(v)\<close>, \<^verbatim>\<open>uint32(v)\<close>, \<^verbatim>\<open>int64(v)\<close>, \<^verbatim>\<open>uint64(v)\<close>.\<close>

definition go_to32 :: "fpu \<Rightarrow> bool \<Rightarrow> 64 word \<Rightarrow> 32 word" where
  "go_to32 fl s w =
     (if finite64 w \<and> (if s then - (2 ^ 31) \<le> go_trunc w \<and> go_trunc w < 2 ^ 31 else 0 \<le> go_trunc w \<and> go_trunc w < 2 ^ 32)
      then word_of_int (go_trunc w) else fp_wild32 fl s w)"

definition go_to64 :: "fpu \<Rightarrow> bool \<Rightarrow> 64 word \<Rightarrow> 64 word" where
  "go_to64 fl s w =
     (if finite64 w \<and> (if s then - (2 ^ 63) \<le> go_trunc w \<and> go_trunc w < 2 ^ 63 else 0 \<le> go_trunc w \<and> go_trunc w < 2 ^ 64)
      then word_of_int (go_trunc w) else fp_wild64 fl s w)"

text \<open>The float constants the saturating conversions compare with: plus and minus \<open>2\<close> to the \<open>n\<close>.\<close>

definition pow64 :: "bool \<Rightarrow> nat \<Rightarrow> 64 word" where
  "pow64 neg n = word_of_nat ((if neg then 2 ^ 63 else 0) + (n + 1023) * 2 ^ 52)"

definition sat_s32 :: "fpu \<Rightarrow> 64 word \<Rightarrow> 32 word" where
  "sat_s32 fl v = (if is_nan64 v then 0 else if le64 (pow64 False 31) v then 2 ^ 31 - 1
     else if lt64 v (pow64 True 31) then 2 ^ 31 else go_to32 fl True v)"

definition sat_u32 :: "fpu \<Rightarrow> 64 word \<Rightarrow> 32 word" where
  "sat_u32 fl v = (if is_nan64 v \<or> lt64 v 0 then 0 else if le64 (pow64 False 32) v then - 1 else go_to32 fl False v)"

definition sat_s64 :: "fpu \<Rightarrow> 64 word \<Rightarrow> 64 word" where
  "sat_s64 fl v = (if is_nan64 v then 0 else if le64 (pow64 False 63) v then 2 ^ 63 - 1
     else if lt64 v (pow64 True 63) then 2 ^ 63 else go_to64 fl True v)"

definition sat_u64 :: "fpu \<Rightarrow> 64 word \<Rightarrow> 64 word" where
  "sat_u64 fl v = (if is_nan64 v \<or> lt64 v 0 then 0 else if le64 (pow64 False 64) v then - 1 else go_to64 fl False v)"

section \<open>The handlers\<close>

definition fbin32 :: "(32 word \<Rightarrow> 32 word \<Rightarrow> 32 word) \<Rightarrow> machine \<Rightarrow> run" where
  "fbin32 f = do_bin (\<lambda>a b. box_f32 (f (as_f32 a) (as_f32 b)))"

definition fbin64 :: "(64 word \<Rightarrow> 64 word \<Rightarrow> 64 word) \<Rightarrow> machine \<Rightarrow> run" where
  "fbin64 f = do_bin (\<lambda>a b. box_f64 (f (as_f64 a) (as_f64 b)))"

definition fdiv32 :: "(32 word \<Rightarrow> 32 word \<Rightarrow> 32 word) \<Rightarrow> machine \<Rightarrow> run" where
  "fdiv32 f m = (if 2 \<le> m_sp m \<and> eq32 (as_f32 (top m 1)) 0 then Inl (TDivideByZero, m) else fbin32 f m)"

definition fdiv64 :: "(64 word \<Rightarrow> 64 word \<Rightarrow> 64 word) \<Rightarrow> machine \<Rightarrow> run" where
  "fdiv64 f m = (if 2 \<le> m_sp m \<and> eq64 (as_f64 (top m 1)) 0 then Inl (TDivideByZero, m) else fbin64 f m)"

definition fcmp32 :: "(32 word \<Rightarrow> 32 word \<Rightarrow> bool) \<Rightarrow> machine \<Rightarrow> run" where
  "fcmp32 p = do_bin (\<lambda>a b. box_i1 (p (as_f32 a) (as_f32 b)))"

definition fcmp64 :: "(64 word \<Rightarrow> 64 word \<Rightarrow> bool) \<Rightarrow> machine \<Rightarrow> run" where
  "fcmp64 p = do_bin (\<lambda>a b. box_i1 (p (as_f64 a) (as_f64 b)))"

definition fun32 :: "(32 word \<Rightarrow> 32 word) \<Rightarrow> machine \<Rightarrow> run" where
  "fun32 f = do_un (\<lambda>a. box_f32 (f (as_f32 a)))"

definition fun64 :: "(64 word \<Rightarrow> 64 word) \<Rightarrow> machine \<Rightarrow> run" where
  "fun64 f = do_un (\<lambda>a. box_f64 (f (as_f64 a)))"

text \<open>The \<^verbatim>\<open>math\<close> functions take and give \<^verbatim>\<open>float64\<close>; the 32-bit handlers widen and narrow around them.\<close>

definition via64 :: "fpu \<Rightarrow> (64 word \<Rightarrow> 64 word) \<Rightarrow> 32 word \<Rightarrow> 32 word" where
  "via64 fl f a = fp_demote fl (f (promote a))"

definition go_fmod :: "fpu \<Rightarrow> 64 word \<Rightarrow> 64 word \<Rightarrow> 64 word" where
  "go_fmod fl a b = (let m = fp_fmod64 fl a b in
     if \<not> eq64 m 0 \<and> lt64 m 0 \<noteq> lt64 b 0 then fp_add64 fl m b else m)"

text \<open>In \<^verbatim>\<open>F32_MOD\<close> the comparison of the divisor with zero is on the \<^verbatim>\<open>float32\<close>.\<close>

definition go_fmod32 :: "fpu \<Rightarrow> 32 word \<Rightarrow> 32 word \<Rightarrow> 32 word" where
  "go_fmod32 fl a b = (let m = fp_fmod64 fl (promote a) (promote b) in
     fp_demote fl (if \<not> eq64 m 0 \<and> lt64 m 0 \<noteq> lt32 b 0 then fp_add64 fl m (promote b) else m))"


section \<open>The tables\<close>

definition f32_arith :: "fpu \<Rightarrow> (opcode \<times> (machine \<Rightarrow> run)) list" where
  "f32_arith fl =
    [(F32_ADD, fbin32 (fp_add32 fl)),
     (F32_SUB, fbin32 (fp_sub32 fl)),
     (F32_MUL, fbin32 (fp_mul32 fl)),
     (F32_DIV, fdiv32 (fp_div32 fl)),
     (F32_REM, fdiv32 (\<lambda>a b. fp_demote fl (fp_fmod64 fl (promote a) (promote b)))),
     (F32_MOD, fdiv32 (go_fmod32 fl)),
     (F32_ABS, fun32 (via64 fl abs64)),
     (F32_NEG, fun32 neg32),
     (F32_SQRT, fun32 (via64 fl (fp_sqrt64 fl))),
     (F32_CEIL, fun32 (via64 fl (fp_ceil64 fl))),
     (F32_FLOOR, fun32 (via64 fl (fp_floor64 fl)))]"

definition f32_select :: "fpu \<Rightarrow> (opcode \<times> (machine \<Rightarrow> run)) list" where
  "f32_select fl =
    [(F32_TRUNC, fun32 (via64 fl (fp_trunc64 fl))),
     (F32_NEAREST, fun32 (via64 fl (fp_nearest64 fl))),
     (F32_MIN, fbin32 (fp_min32 fl)),
     (F32_MAX, fbin32 (fp_max32 fl)),
     (F32_COPYSIGN, fbin32 (\<lambda>a b. fp_demote fl (copysign64 (promote a) (promote b)))),
     (F32_EQ, fcmp32 eq32),
     (F32_NE, fcmp32 (\<lambda>a b. \<not> eq32 a b)),
     (F32_LT, fcmp32 lt32),
     (F32_GT, fcmp32 (\<lambda>a b. lt32 b a)),
     (F32_LE, fcmp32 le32),
     (F32_GE, fcmp32 (\<lambda>a b. le32 b a))]"

definition f32_convert :: "fpu \<Rightarrow> (opcode \<times> (machine \<Rightarrow> run)) list" where
  "f32_convert fl =
    [(F32_TO_I32_S, do_un (\<lambda>a. box_i32 (sat_s32 fl (promote (as_f32 a))))),
     (F32_TO_I32_U, do_un (\<lambda>a. box_i32 (sat_u32 fl (promote (as_f32 a))))),
     (F32_TO_I64_S, do_widen (\<lambda>a. sat_s64 fl (promote (as_f32 a)))),
     (F32_TO_I64_U, do_widen (\<lambda>a. sat_u64 fl (promote (as_f32 a)))),
     (F32_TO_F64, do_un (\<lambda>a. box_f64 (promote (as_f32 a)))),
     (F32_REINTERPRET_I32, do_un (\<lambda>a. box_f32 (as_i32 a)))]"

definition f64_arith :: "fpu \<Rightarrow> (opcode \<times> (machine \<Rightarrow> run)) list" where
  "f64_arith fl =
    [(F64_ADD, fbin64 (fp_add64 fl)),
     (F64_SUB, fbin64 (fp_sub64 fl)),
     (F64_MUL, fbin64 (fp_mul64 fl)),
     (F64_DIV, fdiv64 (fp_div64 fl)),
     (F64_REM, fdiv64 (fp_fmod64 fl)),
     (F64_MOD, fdiv64 (go_fmod fl)),
     (F64_ABS, fun64 abs64),
     (F64_NEG, fun64 neg64),
     (F64_SQRT, fun64 (fp_sqrt64 fl)),
     (F64_CEIL, fun64 (fp_ceil64 fl)),
     (F64_FLOOR, fun64 (fp_floor64 fl))]"

definition f64_select :: "fpu \<Rightarrow> (opcode \<times> (machine \<Rightarrow> run)) list" where
  "f64_select fl =
    [(F64_TRUNC, fun64 (fp_trunc64 fl)),
     (F64_NEAREST, fun64 (fp_nearest64 fl)),
     (F64_MIN, fbin64 (fp_min64 fl)),
     (F64_MAX, fbin64 (fp_max64 fl)),
     (F64_COPYSIGN, fbin64 copysign64),
     (F64_EQ, fcmp64 eq64),
     (F64_NE, fcmp64 (\<lambda>a b. \<not> eq64 a b)),
     (F64_LT, fcmp64 lt64),
     (F64_GT, fcmp64 (\<lambda>a b. lt64 b a)),
     (F64_LE, fcmp64 le64),
     (F64_GE, fcmp64 (\<lambda>a b. le64 b a))]"

definition f64_convert :: "fpu \<Rightarrow> (opcode \<times> (machine \<Rightarrow> run)) list" where
  "f64_convert fl =
    [(F64_TO_I32_S, do_un (\<lambda>a. box_i32 (sat_s32 fl (as_f64 a)))),
     (F64_TO_I32_U, do_un (\<lambda>a. box_i32 (sat_u32 fl (as_f64 a)))),
     (F64_TO_I64_S, do_widen (\<lambda>a. sat_s64 fl (as_f64 a))),
     (F64_TO_I64_U, do_widen (\<lambda>a. sat_u64 fl (as_f64 a))),
     (F64_TO_F32, do_un (\<lambda>a. box_f32 (fp_demote fl (as_f64 a)))),
     (F64_REINTERPRET_I64, do_test64 box_f64)]"

definition int_to_float :: "fpu \<Rightarrow> (opcode \<times> (machine \<Rightarrow> run)) list" where
  "int_to_float fl =
    [(I32_TO_F32_U, do_un (\<lambda>a. box_f32 (fp_of_int32 fl (uint (as_i32 a))))),
     (I32_TO_F32_S, do_un (\<lambda>a. box_f32 (fp_of_int32 fl (sint (as_i32 a))))),
     (I32_TO_F64_U, do_un (\<lambda>a. box_f64 (fp_of_int64 fl (uint (as_i32 a))))),
     (I32_TO_F64_S, do_un (\<lambda>a. box_f64 (fp_of_int64 fl (sint (as_i32 a)))))]"

definition long_to_float :: "fpu \<Rightarrow> (opcode \<times> (machine \<Rightarrow> run)) list" where
  "long_to_float fl =
    [(I64_TO_F32_S, do_test64 (\<lambda>v. box_f32 (fp_of_int32 fl (sint v)))),
     (I64_TO_F32_U, do_test64 (\<lambda>v. box_f32 (fp_of_int32 fl (uint v)))),
     (I64_TO_F64_S, do_test64 (\<lambda>v. box_f64 (fp_of_int64 fl (sint v)))),
     (I64_TO_F64_U, do_test64 (\<lambda>v. box_f64 (fp_of_int64 fl (uint v))))]"

definition float_ops :: "fpu \<Rightarrow> (opcode \<times> (machine \<Rightarrow> run)) list" where
  "float_ops fl = f32_arith fl @ f32_select fl @ f32_convert fl @ f64_arith fl @ f64_select fl @ f64_convert fl
     @ int_to_float fl @ long_to_float fl"

section \<open>Truncation and order\<close>

lemma units64_mono:
  assumes "a < b"
  shows "units64 a < units64 b"
proof -
  let ?B = "2 ^ 52 :: nat"
  have u: "units64 k = (if k div ?B = 0 then k mod ?B else (?B + k mod ?B) * 2 ^ (k div ?B - 1))" for k
    by (simp add: units64_def Let_def)
  have m: "k mod ?B < ?B" for k by simp
  have le: "a div ?B \<le> b div ?B" using assms by (simp add: div_le_mono)
  show ?thesis
  proof (cases "a div ?B = b div ?B")
    case True
    have "a = b div ?B * ?B + a mod ?B" "b = b div ?B * ?B + b mod ?B"
      using div_mult_mod_eq [of a ?B, symmetric] div_mult_mod_eq [of b ?B, symmetric] unfolding True .
    then have "a mod ?B < b mod ?B" using assms by linarith
    moreover have "x < y \<Longrightarrow> (if q = 0 then x else (c + x) * 2 ^ (q - 1)) < (if q = 0 then y else (c + y) * 2 ^ (q - 1))"
      for x y c q :: nat by simp
    ultimately show ?thesis unfolding u True by blast
  next
    case False
    then have lt: "a div ?B < b div ?B" using le by linarith
    have hi: "?B * 2 ^ (b div ?B - 1) \<le> units64 b" unfolding u using lt by simp
    have "units64 a < ?B * 2 ^ (a div ?B)"
    proof (cases "a div ?B = 0")
      case True
      then show ?thesis unfolding u using m [of a] by simp
    next
      case False
      then have "2 ^ (a div ?B) = 2 * (2 ^ (a div ?B - 1) :: nat)" by (metis power_minus_mult mult.commute not_gr_zero)
      moreover have "(?B + a mod ?B) * 2 ^ (a div ?B - 1) < (?B + ?B) * 2 ^ (a div ?B - 1)"
        by (rule mult_strict_right_mono) (use m [of a] in simp_all)
      ultimately show ?thesis unfolding u using False by simp
    qed
    moreover have "(2 :: nat) ^ (a div ?B) \<le> 2 ^ (b div ?B - 1)" by (rule power_increasing) (use lt in simp_all)
    ultimately show ?thesis using hi by (meson less_le_trans mult_le_mono2)
  qed
qed

lemma units64_le: "units64 a \<le> units64 b \<longleftrightarrow> a \<le> b"
  using units64_mono [of a b] units64_mono [of b a] by (cases a b rule: linorder_cases) auto

lemma units64_pow: "units64 ((n + 1023) * 2 ^ 52) = 2 ^ (n + 1074)"
proof -
  have "units64 ((n + 1023) * 2 ^ 52) = 2 ^ 52 * 2 ^ (n + 1023 - 1)" by (simp add: units64_def)
  also have "\<dots> = 2 ^ (52 + (n + 1022))" by (simp only: power_add [symmetric]) simp
  finally show ?thesis by (simp add: add.commute)
qed

text \<open>\<open>trunc_mag\<close> is the integer part of a magnitude.\<close>

definition trunc_mag :: "nat \<Rightarrow> nat" where
  "trunc_mag k = units64 k div 2 ^ 1074"

lemma trunc_mag_pow: "2 ^ n \<le> trunc_mag k \<longleftrightarrow> (n + 1023) * 2 ^ 52 \<le> k"
proof -
  have "2 ^ n \<le> trunc_mag k \<longleftrightarrow> 2 ^ n * 2 ^ 1074 \<le> units64 k"
    unfolding trunc_mag_def by (rule less_eq_div_iff_mult_less_eq) simp
  also have "\<dots> \<longleftrightarrow> units64 ((n + 1023) * 2 ^ 52) \<le> units64 k" by (simp only: units64_pow power_add)
  finally show ?thesis by (simp only: units64_le)
qed


lemma mag64_less: "mag64 w < 2 ^ 63"
  unfolding mag64_def unsigned_take_bit_eq by (rule take_bit_nat_less_exp)

lemma go_trunc_mag: "go_trunc w = (if bit w 63 then - int (trunc_mag (mag64 w)) else int (trunc_mag (mag64 w)))"
  by (simp add: go_trunc_def trunc_mag_def Let_def)

lemma pow64_bits:
  assumes "n < 1024"
  shows "mag64 (pow64 s n) = (n + 1023) * 2 ^ 52" "bit (pow64 s n) 63 = s" "\<not> is_nan64 (pow64 s n)"
proof -
  let ?k = "(n + 1023) * 2 ^ 52 :: nat"
  have k: "?k < 2 ^ 63" using assms by simp
  have k2: "?k + 2 ^ 63 < 2 ^ 64" using k by simp
  have u: "unat (pow64 s n) = (if s then 2 ^ 63 else 0) + ?k"
    unfolding pow64_def unfolding unsigned_of_nat of_nat_id by (rule take_bit_nat_eq_self) (use k k2 in \<open>auto split: if_splits\<close>)
  show m: "mag64 (pow64 s n) = ?k"
  proof -
    have "take_bit 63 ((if s then 2 ^ 63 else 0) + ?k) = ?k" 
      using k by (cases s) (simp_all only: take_bit_eq_mod if_True if_False mod_add_self1 mod_less add_0)
    then show ?thesis unfolding mag64_def unsigned_take_bit_eq u .
  qed
  have "bit (pow64 s n) 63 = odd (unat (pow64 s n) div 2 ^ 63)"
    unfolding bit_iff_odd [symmetric] by (simp add: bit_unsigned_iff)
  also have "\<dots> = s"
  proof -
    have "(2 ^ 63 + ?k) div 2 ^ 63 = 1" "?k div 2 ^ 63 = 0" using k by (simp_all only: div_add_self1 div_less)
    then show ?thesis unfolding u by (cases s) (simp_all only: if_True if_False add_0 odd_one even_zero simp_thms)
  qed
  finally show "bit (pow64 s n) 63 = s" .
  show "\<not> is_nan64 (pow64 s n)" unfolding is_nan64_def m using assms by simp
qed

lemma le_pow64:
  assumes "n < 1024" "\<not> is_nan64 v"
  shows "le64 (pow64 False n) v \<longleftrightarrow> 2 ^ n \<le> go_trunc v"
    "lt64 v (pow64 True n) \<Longrightarrow> go_trunc v \<le> - (2 ^ n)"
    "\<not> lt64 v (pow64 True n) \<Longrightarrow> - (2 ^ n) \<le> go_trunc v"
proof -
  let ?k = "(n + 1023) * 2 ^ 52 :: nat"
  note p = pow64_bits [OF assms(1)]
  have t: "2 ^ n \<le> trunc_mag m \<longleftrightarrow> ?k \<le> m" for m by (rule trunc_mag_pow)
  have i: "(2 ^ n :: int) \<le> int x \<longleftrightarrow> 2 ^ n \<le> x" for x by (metis of_nat_le_iff of_nat_numeral of_nat_power)
  have pos: "0 < (2 ^ n :: int)" "0 < ?k" by simp_all
  have np: "\<not> 2 ^ n \<le> - int x" for x using pos(1) by linarith
  have np2: "- (2 ^ n) \<le> (0 :: int)" using pos(1) by linarith
  show "le64 (pow64 False n) v \<longleftrightarrow> 2 ^ n \<le> go_trunc v"
    unfolding le64_def ord64_def p(1,2) go_trunc_mag using assms(2) p(3) t [of "mag64 v"] i [of "trunc_mag (mag64 v)"] pos np
    by (cases "bit v 63") auto
  show "lt64 v (pow64 True n) \<Longrightarrow> go_trunc v \<le> - (2 ^ n)"
    unfolding lt64_def ord64_def p(1,2) go_trunc_mag using t [of "mag64 v"] i [of "trunc_mag (mag64 v)"] pos
    by (cases "bit v 63") auto
  have "trunc_mag m \<le> 2 ^ n" if "m \<le> ?k" for m
  proof -
    have "units64 m \<le> 2 ^ n * 2 ^ 1074" using that units64_le [of m ?k] by (simp only: units64_pow power_add)
    then have "units64 m div 2 ^ 1074 \<le> 2 ^ n * 2 ^ 1074 div 2 ^ 1074" by (rule div_le_mono)
    then show ?thesis by (simp add: trunc_mag_def)
  qed
  then have "mag64 v \<le> ?k \<Longrightarrow> int (trunc_mag (mag64 v)) \<le> 2 ^ n" by (metis of_nat_le_iff of_nat_numeral of_nat_power)
  then show "\<not> lt64 v (pow64 True n) \<Longrightarrow> - (2 ^ n) \<le> go_trunc v"
    unfolding lt64_def ord64_def p(1,2) go_trunc_mag using assms(2) p(3) order_trans [OF np2]
    by (cases "bit v 63") auto
qed

lemma lt64_zero: "\<not> is_nan64 v \<Longrightarrow> lt64 v 0 \<Longrightarrow> go_trunc v \<le> 0" "\<not> is_nan64 v \<Longrightarrow> \<not> lt64 v 0 \<Longrightarrow> 0 \<le> go_trunc v"
proof -
  have z: "mag64 0 = 0" "\<not> is_nan64 0" "units64 0 = 0" by (simp_all add: mag64_def is_nan64_def units64_def)
  show "\<not> is_nan64 v \<Longrightarrow> lt64 v 0 \<Longrightarrow> go_trunc v \<le> 0" by (auto simp: lt64_def ord64_def z go_trunc_mag split: if_splits)
  show "\<not> is_nan64 v \<Longrightarrow> \<not> lt64 v 0 \<Longrightarrow> 0 \<le> go_trunc v"
    by (auto simp: lt64_def ord64_def z go_trunc_mag trunc_mag_def split: if_splits)
qed

lemma finite64I:
  assumes "\<not> is_nan64 v" "\<bar>go_trunc v\<bar> \<le> 2 ^ 64"
  shows "finite64 v"
proof -
  have "trunc_mag (mag64 v) < 2 ^ 65" using assms(2) unfolding go_trunc_mag by (simp split: if_splits)
  then have "\<not> 2 ^ 65 \<le> trunc_mag (mag64 v)" by simp
  then have "mag64 v < (65 + 1023) * 2 ^ 52" unfolding trunc_mag_pow by simp
  then show ?thesis by (simp add: finite64_def)
qed

lemma sat_s32_eq: "sint (sat_s32 fl v) = (if is_nan64 v then 0 else max (- (2 ^ 31)) (min (2 ^ 31 - 1) (go_trunc v)))"
proof -
  have n: "(31 :: nat) < 1024" by simp
  consider "is_nan64 v" | "\<not> is_nan64 v" "le64 (pow64 False 31) v"
    | "\<not> is_nan64 v" "\<not> le64 (pow64 False 31) v" "lt64 v (pow64 True 31)"
    | "\<not> is_nan64 v" "\<not> le64 (pow64 False 31) v" "\<not> lt64 v (pow64 True 31)" by blast
  then show ?thesis
  proof cases
    case 4
    note b = le_pow64(1) [OF n 4(1)] le_pow64(3) [OF n 4(1,3)]
    have "finite64 v" by (rule finite64I [OF 4(1)]) (use 4 b in simp)
    then show ?thesis using 4 b by (simp add: sat_s32_def go_to32_def sint_word_of_int_id)
  qed (use le_pow64 [OF n, of v] in \<open>simp_all add: sat_s32_def\<close>)
qed


lemma sat_u32_eq: "uint (sat_u32 fl v) = (if is_nan64 v then 0 else max 0 (min (2 ^ 32 - 1) (go_trunc v)))"
proof -
  have n: "(32 :: nat) < 1024" by simp
  consider "is_nan64 v" | "\<not> is_nan64 v" "lt64 v 0"
    | "\<not> is_nan64 v" "\<not> lt64 v 0" "le64 (pow64 False 32) v"
    | "\<not> is_nan64 v" "\<not> lt64 v 0" "\<not> le64 (pow64 False 32) v" by blast
  then show ?thesis
  proof cases
    case 4
    note b = le_pow64(1) [OF n 4(1)] lt64_zero(2) [OF 4(1,2)]
    have "finite64 v" by (rule finite64I [OF 4(1)]) (use 4 b in simp)
    then show ?thesis using 4 b by (simp add: sat_u32_def go_to32_def uint_word_of_int_eq take_bit_int_eq_self)
  next
    case 3
    have "uint (- 1 :: 32 word) = 2 ^ 32 - 1" by (simp add: unsigned_minus_1_eq_mask mask_eq_exp_minus_1)
    then show ?thesis using 3 le_pow64(1) [OF n 3(1)] unfolding sat_u32_def by simp
  qed (use lt64_zero [of v] in \<open>simp_all add: sat_u32_def\<close>)
qed

lemma sat_s64_eq: "sint (sat_s64 fl v) = (if is_nan64 v then 0 else max (- (2 ^ 63)) (min (2 ^ 63 - 1) (go_trunc v)))"
proof -
  have n: "(63 :: nat) < 1024" by simp
  consider "is_nan64 v" | "\<not> is_nan64 v" "le64 (pow64 False 63) v"
    | "\<not> is_nan64 v" "\<not> le64 (pow64 False 63) v" "lt64 v (pow64 True 63)"
    | "\<not> is_nan64 v" "\<not> le64 (pow64 False 63) v" "\<not> lt64 v (pow64 True 63)" by blast
  then show ?thesis
  proof cases
    case 4
    note b = le_pow64(1) [OF n 4(1)] le_pow64(3) [OF n 4(1,3)]
    have "finite64 v" by (rule finite64I [OF 4(1)]) (use 4 b in simp)
    then show ?thesis using 4 b by (simp add: sat_s64_def go_to64_def sint_word_of_int_id)
  qed (use le_pow64 [OF n, of v] in \<open>simp_all add: sat_s64_def\<close>)
qed

lemma sat_u64_eq: "uint (sat_u64 fl v) = (if is_nan64 v then 0 else max 0 (min (2 ^ 64 - 1) (go_trunc v)))"
proof -
  have n: "(64 :: nat) < 1024" by simp
  consider "is_nan64 v" | "\<not> is_nan64 v" "lt64 v 0"
    | "\<not> is_nan64 v" "\<not> lt64 v 0" "le64 (pow64 False 64) v"
    | "\<not> is_nan64 v" "\<not> lt64 v 0" "\<not> le64 (pow64 False 64) v" by blast
  then show ?thesis
  proof cases
    case 4
    note b = le_pow64(1) [OF n 4(1)] lt64_zero(2) [OF 4(1,2)]
    have "finite64 v" by (rule finite64I [OF 4(1)]) (use 4 b in simp)
    then show ?thesis using 4 b by (simp add: sat_u64_def go_to64_def uint_word_of_int_eq take_bit_int_eq_self)
  next
    case 3
    have "uint (- 1 :: 64 word) = 2 ^ 64 - 1" by (simp add: unsigned_minus_1_eq_mask mask_eq_exp_minus_1)
    then show ?thesis using 3 le_pow64(1) [OF n 3(1)] unfolding sat_u64_def by simp
  qed (use lt64_zero [of v] in \<open>simp_all add: sat_u64_def\<close>)
qed

text \<open>C29: Conversions of a float to an integer saturate.  For every bit pattern, whatever the processor does
  with unrepresentable values, the result is zero for a NaN and else the float's integer part cut to
  the range of the type; infinities go to its ends.\<close>

theorem float_to_int_saturates:
  "sint (sat_s32 fl v) = (if is_nan64 v then 0 else max (- (2 ^ 31)) (min (2 ^ 31 - 1) (go_trunc v)))
    \<and> uint (sat_u32 fl v) = (if is_nan64 v then 0 else max 0 (min (2 ^ 32 - 1) (go_trunc v)))
    \<and> sint (sat_s64 fl v) = (if is_nan64 v then 0 else max (- (2 ^ 63)) (min (2 ^ 63 - 1) (go_trunc v)))
    \<and> uint (sat_u64 fl v) = (if is_nan64 v then 0 else max 0 (min (2 ^ 64 - 1) (go_trunc v)))"
  by (intro conjI sat_s32_eq sat_u32_eq sat_s64_eq sat_u64_eq)

end
