(* ===== verification/Step.thy ===== *)
theory Step
  imports CallSpec Floats
begin

text \<open>
  Running code (\<^verbatim>\<open>interp/interp.go\<close>, \<^verbatim>\<open>Run\<close> and \<^verbatim>\<open>dispatch\<close>; \<^verbatim>\<open>threader.Compile\<close>).  \<open>code_at\<close> is what \<^verbatim>\<open>Compile\<close>
  puts at an offset: the handler of the instruction there, the unknown-opcode trap inside an
  instruction and at an undefined opcode.  \<open>step\<close> is one turn of the dispatch loop with the recovery
  of a panic.  An opcode whose handler is not part of the model (arrays, structs, maps, strings, host
  iterators) has no step.  The fused superinstructions are not modelled: the table is the one an
  interpreter with a per-instruction tick compiles (\<^verbatim>\<open>exact\<close>).
\<close>

section \<open>The handler table\<close>

definition stack_ops :: "(opcode \<times> (machine \<Rightarrow> run)) list" where
  "stack_ops =
    [(DROP, do_drop), (DUP, do_dup), (SWAP, do_swap), (SELECT, do_select),
     (CALL, do_call), (RETURN_CALL, do_return_call),
     (YIELD, do_yield), (RESUME, do_resume), (CORO_DONE, do_coro_done), (CORO_VALUE, do_coro_value)]"

definition ref_ops :: "(heap \<Rightarrow> boxed \<Rightarrow> string) \<Rightarrow> (opcode \<times> (machine \<Rightarrow> run)) list" where
  "ref_ops rd =
    [(REF_NULL, do_ref_null), (REF_NEW, do_ref_new), (REF_GET, do_ref_get), (REF_SET, do_ref_set),
     (REF_IS_NULL, do_ref_is_null), (REF_EQ, do_ref_eq), (REF_NE, do_ref_ne),
     (THROW, do_throw), (ERROR_NEW, do_error_new rd), (ERROR_GET, do_error_get), (ERROR_CODE, do_error_code)]"

definition plain_table :: "(heap \<Rightarrow> boxed \<Rightarrow> string) \<Rightarrow> fpu \<Rightarrow> (opcode \<times> (machine \<Rightarrow> run)) list" where
  "plain_table rd fl = stack_ops @ scalar32 @ scalar64 @ float_ops fl @ ref_ops rd"

text \<open>The instructions with operands in the code.\<close>

definition operand_table :: "(opcode \<times> (threader \<Rightarrow> nat \<Rightarrow> (machine \<Rightarrow> run) option)) list" where
  "operand_table =
    [(NOP, op_nop), (UNREACHABLE, op_unreachable), (BR, op_br), (BR_IF, op_br_if), (BR_TABLE, op_br_table),
     (RETURN, op_return), (GLOBAL_GET, op_global_get), (GLOBAL_SET, op_global_set), (GLOBAL_TEE, op_global_tee),
     (LOCAL_GET, op_local_get), (LOCAL_SET, op_local_set), (LOCAL_TEE, op_local_tee), (CONST_GET, op_const_get),
     (UPVAL_GET, op_upval_get), (UPVAL_SET, op_upval_set), (REF_TEST, op_ref_test), (REF_CAST, op_ref_cast),
     (I32_CONST, op_i32_const), (I64_CONST, op_i64_const), (F32_CONST, op_f32_const), (F64_CONST, op_f64_const)]"

definition compiled :: "code \<Rightarrow> nat \<Rightarrow> bool" where
  "compiled c ip \<longleftrightarrow> (case unmarshal c of None \<Rightarrow> False | Some is \<Rightarrow> ip \<in> set (starts_from 0 is))"

definition code_at :: "(heap \<Rightarrow> boxed \<Rightarrow> string) \<Rightarrow> fpu \<Rightarrow> threader \<Rightarrow> nat \<Rightarrow> (machine \<Rightarrow> run) option" where
  "code_at rd fl c ip =
     (if \<not> compiled (tr_code c) ip then Some (fail_with TUnknownOpcode)
      else let op = tr_code c ! ip in
        case map_of operand_table op of Some h \<Rightarrow> h c ip
        | None \<Rightarrow> if valid op then map_of (plain_table rd fl) op else Some (fail_with TUnknownOpcode))"

section \<open>The loop\<close>

datatype outcome =
    Running machine
  | Finished machine
  | Yielded machine
  | Faulted trap machine
  | Crashed trap machine

text \<open>The deferred function of \<^verbatim>\<open>dispatch\<close>: a panic of its own leaves \<^verbatim>\<open>Run\<close>.\<close>

definition recover :: "trap \<Rightarrow> machine \<Rightarrow> outcome" where
  "recover t m =
     (if t = TYield then Yielded m
      else case handle t m of
        None \<Rightarrow> Faulted t m
      | Some (Inr m') \<Rightarrow> Running m'
      | Some (Inl (u, m')) \<Rightarrow> Crashed u m')"

definition after :: "run \<Rightarrow> outcome" where
  "after r = (case r of Inr m \<Rightarrow> Running m | Inl (t, m) \<Rightarrow> recover t m)"

definition step :: "(heap \<Rightarrow> boxed \<Rightarrow> string) \<Rightarrow> fpu \<Rightarrow> machine \<Rightarrow> outcome option" where
  "step rd fl m =
     (let f = fr m; c = f_code f in
      if int (length (tr_code c)) \<le> f_ip f then Some (Finished m)
      else if f_ip f < 0 then Some (recover TGoPanic m)
      else map_option (\<lambda>h. after (h m)) (code_at rd fl c (nat (f_ip f))))"

text \<open>\<open>n\<close> turns of the loop.\<close>

fun steps :: "(heap \<Rightarrow> boxed \<Rightarrow> string) \<Rightarrow> fpu \<Rightarrow> nat \<Rightarrow> machine \<Rightarrow> outcome option" where
  "steps rd fl 0 m = Some (Running m)"
| "steps rd fl (Suc n) m = (case step rd fl m of Some (Running m') \<Rightarrow> steps rd fl n m' | r \<Rightarrow> r)"

lemma steps_add:
  "steps rd fl j m = Some (Running m') \<Longrightarrow> steps rd fl (j + k) m = steps rd fl k m'"
proof (induction j arbitrary: m)
  case (Suc j)
  then show ?case by (auto split: option.splits outcome.splits)
qed simp

lemma steps_1: "step rd fl m = Some (Running m') \<Longrightarrow> steps rd fl 1 m = Some (Running m')"
  by simp

text \<open>
  The relational view, with the runs as its closure: the runs are what the guest can observe one
  instruction at a time.
\<close>

inductive runs :: "(heap \<Rightarrow> boxed \<Rightarrow> string) \<Rightarrow> fpu \<Rightarrow> machine \<Rightarrow> machine \<Rightarrow> bool" for rd fl where
  runs_refl: "runs rd fl m m"
| runs_step: "step rd fl m = Some (Running m1) \<Longrightarrow> runs rd fl m1 m2 \<Longrightarrow> runs rd fl m m2"

lemma runs_iff: "runs rd fl m m' \<longleftrightarrow> (\<exists>n. steps rd fl n m = Some (Running m'))"
proof
  assume "runs rd fl m m'"
  then show "\<exists>n. steps rd fl n m = Some (Running m')"
  proof induction
    case (runs_refl m)
    have "steps rd fl 0 m = Some (Running m)" by simp
    then show ?case by blast
  next
    case (runs_step m m1 m2)
    then obtain n where "steps rd fl n m1 = Some (Running m2)" by blast
    then have "steps rd fl (Suc n) m = Some (Running m2)" using runs_step.hyps(1) by simp
    then show ?case by blast
  qed
next
  have "steps rd fl n m = Some (Running m') \<Longrightarrow> runs rd fl m m'" for n
  proof (induction n arbitrary: m)
    case (Suc n)
    then show ?case by (auto split: option.splits outcome.splits intro: runs.intros)
  qed (simp add: runs.intros)
  then show "\<exists>n. steps rd fl n m = Some (Running m') \<Longrightarrow> runs rd fl m m'" by blast
qed

lemma runs_trans: "runs rd fl m m1 \<Longrightarrow> runs rd fl m1 m2 \<Longrightarrow> runs rd fl m m2"
  by (induction rule: runs.induct) (auto intro: runs.intros)

section \<open>Straight-line windows\<close>

text \<open>\<open>at m c ip\<close>: the running frame is at offset \<open>ip\<close> of code \<open>c\<close>.\<close>

definition at :: "machine \<Rightarrow> code \<Rightarrow> nat \<Rightarrow> bool" where
  "at m c ip \<longleftrightarrow> tr_code (f_code (fr m)) = c \<and> f_ip (fr m) = int ip \<and> 0 < m_fp m \<and> m_fp m \<le> length (m_frames m)"

lemma compiled_nth:
  assumes "unmarshal c = Some is" "k < length is"
  shows "compiled c (length (concat (take k is)))"
proof -
  have "starts_from 0 is ! k = length (concat (take k is))"
    using assms(2) by (simp add: starts_from_nth)
  then have "length (concat (take k is)) \<in> set (starts_from 0 is)"
    using assms(2) by (metis in_set_conv_nth length_starts_from)
  then show ?thesis using assms(1) by (simp add: compiled_def)
qed

end
