(* ===== verification/Dce.thy ===== *)
theory Dce
  imports Relink Step
begin

text \<open>
  Dead code elimination (\<^verbatim>\<open>transform/dce.go\<close>): blocks without a predecessor are blanked, blanks are
  squeezed out, branches and the exception table follow.  The lemmas show that the compaction keeps
  exactly the surviving instructions and moves branches and regions with them.
\<close>

section \<open>Blanking\<close>

fun fill :: "nat \<Rightarrow> nat \<Rightarrow> code \<Rightarrow> code option" where
  "fill k 0 c = Some c"
| "fill k (Suc n) c = (if k < length c then fill (Suc k) n (c[k := UNREACHABLE]) else None)"

definition catches :: "handler list \<Rightarrow> int set" where
  "catches hs = h_catch ` set hs"

fun blank :: "int set \<Rightarrow> block list \<Rightarrow> code \<Rightarrow> code option" where
  "blank k [] c = Some c"
| "blank k (b # bs) c =
     Option.bind
       (if bk_preds b = [] \<and> int (bk_start b) \<notin> k then fill (bk_start b) (bk_end b - bk_start b) c else Some c)
       (blank k bs)"

section \<open>Squeezing\<close>

text \<open>
  Two cursors over one buffer, the write cursor never ahead.  An entry of \<open>offsets\<close> is \<open>None\<close> for
  \<^verbatim>\<open>-1\<close>.  A last instruction that is cut off is \<open>None\<close> (what the slice expression does there depends on
  the capacity of the buffer).
\<close>

definition blit :: "code \<Rightarrow> nat \<Rightarrow> nat \<Rightarrow> nat \<Rightarrow> code" where
  "blit c dst src n = take dst c @ take n (drop src c) @ drop (dst + n) c"

function squeeze :: "code \<Rightarrow> nat option list \<Rightarrow> nat \<Rightarrow> nat \<Rightarrow> (code \<times> nat option list \<times> nat) option" where
  "squeeze c offsets rd wr =
     (if rd < length c
      then case instr_width (drop rd c) of None \<Rightarrow> None
      | Some w \<Rightarrow>
          if length c < rd + w \<or> length c < wr + w then None
          else if c ! rd \<noteq> NOP \<and> c ! rd \<noteq> UNREACHABLE
          then squeeze (blit c wr rd w) (offsets[rd := Some wr]) (rd + w) (wr + w)
          else squeeze c offsets (rd + w) wr
      else Some (c, offsets, wr))"
  by pat_completeness auto
termination
  by (relation "measure (\<lambda>(c, offsets, rd, wr). length c - rd)") (auto dest: instr_width_pos simp: blit_def)

declare squeeze.simps [simp del]

section \<open>Relocation\<close>

function relocate :: "nat option list \<Rightarrow> nat \<Rightarrow> nat \<Rightarrow> nat" where
  "relocate offsets off sz =
     (if off < length offsets
      then case offsets ! off of None \<Rightarrow> relocate offsets (Suc off) sz | Some p \<Rightarrow> p
      else sz)"
  by pat_completeness auto
termination
  by (relation "measure (\<lambda>(offsets, off, sz). length offsets - off)") auto

declare relocate.simps [simp del]

definition dce_valid :: "int \<Rightarrow> nat \<Rightarrow> nat \<Rightarrow> bool" where
  "dce_valid target sz slot \<longleftrightarrow> \<not> (target < 0 \<or> int sz < target \<or> target = int sz \<and> slot \<noteq> 0)"

text \<open>One operand of the branch at \<open>wr\<close>, which stood at \<open>rd\<close>.\<close>

definition dce_retarget :: "nat option list \<Rightarrow> nat \<Rightarrow> nat \<Rightarrow> nat \<Rightarrow> nat \<Rightarrow> nat \<Rightarrow> 64 word \<Rightarrow> code \<Rightarrow> code pres" where
  "dce_retarget offsets slot rd wr w k v c =
     (let target = int rd + read_i16 v + int w in
      if \<not> dce_valid target (length offsets) slot then Some (Inl InvalidJump)
      else need (set_at c wr k (disp_word (int (relocate offsets (nat target) (length c)) - int wr - int w))) pok)"

fun dce_table :: "nat option list \<Rightarrow> nat \<Rightarrow> nat \<Rightarrow> nat \<Rightarrow> nat \<Rightarrow> nat \<Rightarrow> 64 word list \<Rightarrow> code \<Rightarrow> code pres" where
  "dce_table offsets slot rd wr w k [] c = pok c"
| "dce_table offsets slot rd wr w k (v # vs) c =
     pbind (dce_retarget offsets slot rd wr w k v c) (dce_table offsets slot rd wr w (Suc k) vs)"

text \<open>The operands a table has: its count says how many; a shorter list is an index out of range.\<close>

definition table_ops :: "64 word list \<Rightarrow> 64 word list option" where
  "table_ops vs = (case vs of [] \<Rightarrow> None | n # ops \<Rightarrow> if unat n < length ops then Some (take (Suc (unat n)) ops) else None)"

function next_read :: "nat option list \<Rightarrow> nat \<Rightarrow> nat \<Rightarrow> nat" where
  "next_read offsets wr rd =
     (if rd < length offsets \<and> offsets ! rd \<noteq> Some wr then next_read offsets wr (Suc rd) else rd)"
  by pat_completeness auto
termination
  by (relation "measure (\<lambda>(offsets, wr, rd). length offsets - rd)") auto

declare next_read.simps [simp del]

function relocate_all :: "nat option list \<Rightarrow> nat \<Rightarrow> nat \<Rightarrow> nat \<Rightarrow> nat \<Rightarrow> code \<Rightarrow> code pres" where
  "relocate_all offsets slot sz rd wr c =
     (if wr < sz
      then need (instr_width (drop wr c)) (\<lambda>w.
        let op = c ! wr in
        pbind
          (if op = BR \<or> op = BR_IF then
             need (operand (drop wr c) 0) (\<lambda>v. dce_retarget offsets slot rd wr w 0 v c)
           else if op = BR_TABLE then
             need (operands (drop wr c)) (\<lambda>vs. need (table_ops vs) (\<lambda>ops. dce_table offsets slot rd wr w 1 ops c))
           else pok c)
          (\<lambda>c'. need (instr_width (drop wr c')) (\<lambda>w'.
             relocate_all offsets slot sz (next_read offsets (wr + w') rd) (wr + w') c')))
      else pok c)"
  by pat_completeness auto
termination
  by (relation "measure (\<lambda>(offsets, slot, sz, rd, wr, c). sz - wr)") (auto dest: instr_width_pos)

declare relocate_all.simps [simp del]

definition dce_handler :: "nat option list \<Rightarrow> nat \<Rightarrow> handler \<Rightarrow> handler option" where
  "dce_handler offsets sz h =
     (if h_start h < 0 \<or> h_end h < 0 \<or> h_catch h < 0 then None
      else Some (h\<lparr>h_start := int (relocate offsets (nat (h_start h)) sz),
                   h_end := int (relocate offsets (nat (h_end h)) sz),
                   h_catch := int (relocate offsets (nat (h_catch h)) sz)\<rparr>))"

definition dce_handlers :: "nat option list \<Rightarrow> nat \<Rightarrow> handler list \<Rightarrow> handler list option" where
  "dce_handlers offsets sz hs = those (map (dce_handler offsets sz) hs)"

section \<open>One function\<close>

definition dce_compact :: "nat \<Rightarrow> handler list \<Rightarrow> code \<Rightarrow> (code \<times> handler list) pres" where
  "dce_compact slot hs c =
     need (squeeze c (replicate (length c) None) 0 0) (\<lambda>(c1, offsets, n).
     pbind (relocate_all offsets slot n 0 0 (take n c1)) (\<lambda>c2.
     need (dce_handlers offsets (length c2) hs) (\<lambda>hs'. pok (c2, hs'))))"

definition dce_code :: "nat \<Rightarrow> block list \<Rightarrow> handler list \<Rightarrow> code \<Rightarrow> (code \<times> handler list) pres" where
  "dce_code slot bs hs c = need (blank (catches hs) (tl bs) c) (dce_compact slot hs)"

definition dce_function :: "nat \<Rightarrow> handler list \<Rightarrow> code \<Rightarrow> (code \<times> handler list) pres" where
  "dce_function slot hs c = pbind (ana_blocks c hs) (\<lambda>bs. dce_code slot bs hs c)"

section \<open>What the compaction keeps\<close>

definition dce_plan :: "code list \<Rightarrow> piece list" where
  "dce_plan is = map (\<lambda>i. if i ! 0 = NOP \<or> i ! 0 = UNREACHABLE then Put [i] [] else Keep i) is"

definition shrinking :: "piece list \<Rightarrow> bool" where
  "shrinking ps \<longleftrightarrow> (\<forall>a b. Put a b \<in> set ps \<longrightarrow> b = [])"

lemma shrinking_Cons [simp]:
  "shrinking [] = True" "shrinking (Keep i # ps) = shrinking ps" "shrinking (Put a b # ps) = (b = [] \<and> shrinking ps)"
  by (auto simp: shrinking_def)

fun places :: "nat \<Rightarrow> piece list \<Rightarrow> nat option list" where
  "places pos [] = []"
| "places pos (Keep i # ps) = Some pos # replicate (length i - 1) None @ places (pos + length i) ps"
| "places pos (Put a b # ps) = replicate (length (concat a)) None @ places pos ps"

lemma length_places [simp]: "pieces_ok ps \<Longrightarrow> length (places pos ps) = length (old_code ps)"
proof (induction ps arbitrary: pos)
  case (Cons p ps)
  then show ?case using whole_pos by (cases p) (auto simp: Suc_le_eq)
qed simp

lemma old_dce_plan [simp]: "old_code (dce_plan is) = concat is"
  by (induction "is") (auto simp: dce_plan_def)

lemma dce_plan_ok: "\<forall>i\<in>set is. whole i \<Longrightarrow> pieces_ok (dce_plan is) \<and> shrinking (dce_plan is)"
  by (auto simp: dce_plan_def pieces_ok_def shrinking_def branching_def)

lemma length_blit [simp]: "dst + n \<le> length c \<Longrightarrow> src + n \<le> length c \<Longrightarrow> length (blit c dst src n) = length c"
  by (simp add: blit_def)

lemma squeeze_spec:
  assumes "drop rd c = concat is" "\<forall>i\<in>set is. whole i" "wr \<le> rd" "rd \<le> length c"
    and "offsets = pre @ replicate (length (concat is)) None" "length pre = rd"
  shows "\<exists>c'. squeeze c offsets rd wr = Some (c', pre @ places wr (dce_plan is), wr + length (new_code (dce_plan is)))
    \<and> length c' = length c \<and> take (wr + length (new_code (dce_plan is))) c' = take wr c @ new_code (dce_plan is)"
  using assms
proof (induction "is" arbitrary: c rd wr offsets pre)
  case Nil
  then show ?case by (subst squeeze.simps) (simp add: dce_plan_def)
next
  case (Cons i "is")
  then have wi: "whole i" and l: "0 < length i" using whole_pos by auto
  have len: "length c = rd + length i + length (concat is)"
    using Cons.prems(1,4) by (metis append_take_drop_id concat.simps(2) length_append length_take min.absorb2 add.assoc)
  then have bd: "rd < length c" "rd + length i \<le> length c" "wr + length i \<le> length c"
    using l Cons.prems(3) by simp_all
  have W: "instr_width (drop rd c) = Some (length i)" using Cons.prems(1) whole_at [OF wi] by simp
  have h: "c ! rd = i ! 0" using Cons.prems(1,4) whole_hd [OF wi] by (metis add.right_neutral concat.simps(2) nth_drop)
  have nxt: "drop (rd + length i) c = concat is"
    using Cons.prems(1) by (metis add.commute append_eq_conv_conj concat.simps(2) drop_drop)
  show ?case
  proof (cases "i ! 0 = NOP \<or> i ! 0 = UNREACHABLE")
    case True
    have off: "offsets = (pre @ replicate (length i) None) @ replicate (length (concat is)) None"
      using Cons.prems(5) by (simp add: replicate_add)
    have "squeeze c offsets rd wr = squeeze c offsets (rd + length i) wr"
      using bd W h True by (subst squeeze.simps) auto
    moreover have "dce_plan (i # is) = Put [i] [] # dce_plan is" using True by (simp add: dce_plan_def)
    ultimately show ?thesis
      using Cons.IH [OF nxt _ _ bd(2) off, of wr] Cons.prems(2,3,6) by simp
  next
    case False
    let ?c = "blit c wr rd (length i)"
    have tk: "take (length i) (drop rd c) = i" using Cons.prems(1) by simp
    have d: "drop (rd + length i) ?c = concat is"
      using nxt bd Cons.prems(3) by (simp add: blit_def tk drop_append)
    obtain n where n: "length i = Suc n" using l by (cases "length i") auto
    have off: "offsets[rd := Some wr] = (pre @ Some wr # replicate (length i - 1) None) @ replicate (length (concat is)) None"
      using Cons.prems(5,6) n by (simp add: list_update_append replicate_add)
    have "squeeze c offsets rd wr = squeeze ?c (offsets[rd := Some wr]) (rd + length i) (wr + length i)"
      using bd W h False by (subst squeeze.simps) auto
    moreover have pl: "dce_plan (i # is) = Keep i # dce_plan is" using False by (simp add: dce_plan_def)
    moreover obtain c' where "squeeze ?c (offsets[rd := Some wr]) (rd + length i) (wr + length i)
        = Some (c', (pre @ Some wr # replicate (length i - 1) None) @ places (wr + length i) (dce_plan is),
            wr + length i + length (new_code (dce_plan is)))"
      "length c' = length ?c"
      "take (wr + length i + length (new_code (dce_plan is))) c' = take (wr + length i) ?c @ new_code (dce_plan is)"
      using Cons.IH [OF d _ _ _ off, of "wr + length i"] Cons.prems(2,3,6) bd l by auto
    moreover have "take (wr + length i) ?c = take wr c @ i"
      using bd by (simp add: blit_def tk)
    ultimately show ?thesis using bd by (simp add: add.assoc)
  qed
qed

lemma relocate_drop:
  "relocate offsets off sz = (case dropWhile ((=) None) (drop off offsets) of [] \<Rightarrow> sz | x # xs \<Rightarrow> the x)"
proof (induction "length offsets - off" arbitrary: off)
  case 0
  then show ?case by (subst relocate.simps) simp
next
  case (Suc n)
  then have l: "off < length offsets" by simp
  then have "drop off offsets = offsets ! off # drop (Suc off) offsets" by (simp add: Cons_nth_drop_Suc)
  then show ?case using l Suc by (subst relocate.simps) (auto split: option.split)
qed

lemma dropWhile_replicate [simp]: "dropWhile ((=) None) (replicate n None @ xs) = dropWhile ((=) None) xs"
  by (induction n) auto

text \<open>Offsets that are not inside a kept instruction.\<close>

fun outside :: "piece list \<Rightarrow> nat \<Rightarrow> bool" where
  "outside [] off = True"
| "outside (Keep i # ps) off = (off = 0 \<or> length i \<le> off \<and> outside ps (off - length i))"
| "outside (Put a b # ps) off = (off < length (concat a) \<or> outside ps (off - length (concat a)))"

lemma outside_0 [simp]: "outside ps 0"
proof (induction ps)
  case (Cons p ps)
  then show ?case by (cases p) simp_all
qed simp

lemma new_off_0: "pieces_ok ps \<Longrightarrow> shrinking ps \<Longrightarrow> new_off ps 0 = 0"
proof (induction ps)
  case (Cons p ps)
  then show ?case using whole_pos by (cases p) auto
qed simp

lemma places_moved:
  "pieces_ok ps \<Longrightarrow> shrinking ps \<Longrightarrow> outside ps off \<Longrightarrow> off \<le> length (old_code ps) \<Longrightarrow>
   (case dropWhile ((=) None) (drop off (places pos ps)) of [] \<Rightarrow> pos + length (new_code ps) | x # xs \<Rightarrow> the x)
     = pos + new_off ps off"
proof (induction ps arbitrary: pos off)
  case (Cons p ps)
  show ?case
  proof (cases p)
    case (Keep i)
    then have l: "0 < length i" using Cons.prems(1) whole_pos by simp
    then obtain n where n: "length i = Suc n" by (cases "length i") auto
    show ?thesis
    proof (cases "off = 0")
      case True
      then show ?thesis using Keep l by simp
    next
      case False
      then have o: "length i \<le> off" "outside ps (off - length i)" using Cons.prems(3) Keep by simp_all
      then have "drop off (places pos p1) = drop (off - length i) (places (pos + length i) ps)" if "p1 = p # ps" for p1
        using that Keep n by (simp add: drop_Cons')
      then have dr: "drop off (places pos (Keep i # ps)) = drop (off - length i) (places (pos + length i) ps)" using Keep by (simp only:)
      have le: "off - length i \<le> length (old_code ps)" using Cons.prems(4) Keep by simp
      have ok: "pieces_ok ps" "shrinking ps" using Cons.prems(1,2) Keep by simp_all
      note IH = Cons.IH [OF ok o(2) le, of "pos + length i", unfolded add.assoc]
      have "new_off (Keep i # ps) off = length i + new_off ps (off - length i)" using o(1) by simp
      with IH show ?thesis
        unfolding Keep dr new_code_simps length_append by (simp only: add.assoc)
    qed
  next
    case (Put a b)
    then have b: "b = []" using Cons.prems(2) by simp
    show ?thesis
    proof (cases "off < length (concat a)")
      case True
      have z: "(case dropWhile ((=) None) (places pos ps) of [] \<Rightarrow> pos + length (new_code ps) | x # xs \<Rightarrow> the x) = pos + new_off ps 0"
        using Cons.IH [of 0 pos] Cons.prems Put by simp
      have "new_off ps 0 = 0" using Cons.prems(1,2) Put new_off_0 by simp
      then show ?thesis using True z unfolding Put b new_code_simps concat.simps append_Nil by simp
    next
      case False
      then show ?thesis using Cons.IH [of "off - length (concat a)" pos] Cons.prems unfolding Put b new_code_simps concat.simps append_Nil by simp
    qed
  qed
qed simp

section \<open>Following the branches\<close>

lemma next_read_eq:
  "r \<le> length offsets \<Longrightarrow> next_read offsets w r = r + length (takeWhile (\<lambda>x. x \<noteq> Some w) (drop r offsets))"
proof (induction "length offsets - r" arbitrary: r)
  case 0
  then show ?case by (subst next_read.simps) simp
next
  case (Suc n)
  then have l: "r < length offsets" by simp
  then have "drop r offsets = offsets ! r # drop (Suc r) offsets" by (simp add: Cons_nth_drop_Suc)
  then show ?case using l Suc by (subst next_read.simps) auto
qed

fun first_kept :: "piece list \<Rightarrow> nat" where
  "first_kept [] = 0"
| "first_kept (Keep i # ps) = 0"
| "first_kept (Put a b # ps) = length (concat a) + first_kept ps"

lemma takeWhile_none: "P None \<Longrightarrow> takeWhile P (replicate n None @ xs) = replicate n None @ takeWhile P xs"
  by (induction n) auto

lemma takeWhile_places: "length (takeWhile (\<lambda>x. x \<noteq> Some pos) (places pos ps)) = first_kept ps"
proof (induction ps)
  case (Cons p ps)
  then show ?case by (cases p) (auto simp: takeWhile_none)
qed simp

text \<open>Stepping over a kept instruction brings the read cursor to the next one kept.\<close>

lemma next_read_kept:
  assumes "drop off offsets = places pos (Keep i # ps)" "0 < length i"
  shows "next_read offsets (pos + length i) off = off + length i + first_kept ps"
proof -
  have le: "off \<le> length offsets" using assms(1) by (metis drop_all list.distinct(1) nat_le_linear places.simps(2))
  obtain n where n: "length i = Suc n" using assms(2) by (cases "length i") auto
  show ?thesis
    using next_read_eq [OF le] assms takeWhile_places [of "pos + length i" ps]
    by (simp add: takeWhile_none n)
qed

text \<open>The leading blanks do not matter to the cursor once the first kept instruction is done.\<close>

lemma next_read_blanks:
  assumes "drop off offsets = places pos ps" "off \<le> length offsets" "w \<noteq> pos"
  shows "next_read offsets w off = next_read offsets w (off + first_kept ps)"
  using assms(1,2)
proof (induction ps arbitrary: off)
  case Nil
  then show ?case by simp
next
  case (Cons p ps)
  show ?case
  proof (cases p)
    case (Put a b)
    let ?n = "length (concat a)"
    have d: "drop off offsets = replicate ?n None @ places pos ps" using Cons.prems Put by simp
    then have d': "drop (off + ?n) offsets = places pos ps" by (metis append_eq_conv_conj drop_drop add.commute length_replicate)
    have le: "off + ?n \<le> length offsets"
      using d Cons.prems(2) by (metis add.commute le_add_diff_inverse length_append length_drop length_replicate nat_add_left_cancel_le le_add1)
    have "next_read offsets w off = next_read offsets w (off + ?n)"
      using next_read_eq [OF Cons.prems(2)] next_read_eq [OF le] d d' by (simp add: takeWhile_none)
    then show ?thesis using Cons.IH [OF d' le] Put by (simp add: add.assoc)
  qed simp
qed

text \<open>The new displacements fit.\<close>

fun in_range :: "(int \<Rightarrow> int) \<Rightarrow> nat \<Rightarrow> nat \<Rightarrow> piece list \<Rightarrow> bool" where
  "in_range f off pos [] = True"
| "in_range f off pos (Put a b # ps) = in_range f (off + length (concat a)) (pos + length (concat b)) ps"
| "in_range f off pos (Keep i # ps) =
     ((branching i \<longrightarrow> (case disps i of None \<Rightarrow> False
        | Some ds \<Rightarrow> list_all (\<lambda>d. let e = f (int off + int (length i) + d) - int pos - int (length i) in
            -32768 \<le> e \<and> e \<le> 32767) ds))
      \<and> in_range f (off + length i) (pos + length i) ps)"

lemma dce_retarget_step:
  assumes i: "whole i" "branching i" "disps i = Some ds" "j < length ds"
    and v: "d = read_i16 v"
    and f: "f = (\<lambda>t. int (relocate offsets (nat t) (length (pre' @ i @ rr))))"
    and r: "-32768 \<le> f (int off + int (length i) + d) - int (length pre') - int (length i)"
      "f (int off + int (length i) + d) - int (length pre') - int (length i) \<le> 32767"
  shows "if dce_valid (int off + int (length i) + d) (length offsets) slot
    then \<exists>i'. dce_retarget offsets slot off (length pre') (length i) (slot_of i j) v (pre' @ i @ rr) = pok (pre' @ i' @ rr)
      \<and> whole i' \<and> length i' = length i \<and> i' ! 0 = i ! 0
      \<and> disps i' = Some (ds[j := f (int off + int (length i) + d) - int (length pre') - int (length i)])
    else dce_retarget offsets slot off (length pre') (length i) (slot_of i j) v (pre' @ i @ rr) = Some (Inl InvalidJump)"
proof (cases "dce_valid (int off + int (length i) + d) (length offsets) slot")
  case True
  let ?e = "f (int off + int (length i) + d) - int (length pre') - int (length i)"
  have t: "int off + read_i16 v + int (length i) = int off + int (length i) + d" using v by simp
  from set_at_patch [OF i, of pre' rr "disp_word ?e"] obtain i' where
    "set_at (pre' @ i @ rr) (length pre') (slot_of i j) (disp_word ?e) = Some (pre' @ i' @ rr)" "whole i'"
    "length i' = length i" "i' ! 0 = i ! 0" "disps i' = Some (ds[j := ?e])"
    using disp_word_read [OF r] by metis
  moreover have "dce_retarget offsets slot off (length pre') (length i) (slot_of i j) v (pre' @ i @ rr)
      = need (set_at (pre' @ i @ rr) (length pre') (slot_of i j) (disp_word ?e)) pok"
    using True unfolding dce_retarget_def Let_def t f by simp
  ultimately show ?thesis using True by auto
next
  case False
  have t: "int off + read_i16 v + int (length i) = int off + int (length i) + d" using v by simp
  show ?thesis using False by (simp add: dce_retarget_def Let_def t)
qed

lemma dce_table_step:
  assumes i: "whole i" "branching i" "i ! 0 = BR_TABLE"
    and f: "f = (\<lambda>t. int (relocate offsets (nat t) (length (pre' @ i @ rr))))"
    and d: "disps i = Some (map g (take j ds) @ drop j ds)" "j \<le> length ds" "drop j ds = map read_i16 vs"
    and g: "g = (\<lambda>d. f (int off + int (length i) + d) - int (length pre') - int (length i))"
    and r: "\<forall>d\<in>set ds. -32768 \<le> g d \<and> g d \<le> 32767"
  shows "if \<forall>d\<in>set (drop j ds). dce_valid (int off + int (length i) + d) (length offsets) slot
    then \<exists>i'. dce_table offsets slot off (length pre') (length i) (Suc j) vs (pre' @ i @ rr) = pok (pre' @ i' @ rr)
      \<and> whole i' \<and> length i' = length i \<and> i' ! 0 = i ! 0 \<and> disps i' = Some (map g ds)
    else dce_table offsets slot off (length pre') (length i) (Suc j) vs (pre' @ i @ rr) = Some (Inl InvalidJump)"
  using assms
proof (induction vs arbitrary: j i)
  case Nil
  then show ?case by auto
next
  case (Cons v vs)
  have j: "j < length ds" using Cons.prems(7) by (metis drop_all leI list.map(2) list.simps(3))
  have dr: "drop j ds = ds ! j # drop (Suc j) ds" using j by (simp add: Cons_nth_drop_Suc)
  then have v: "ds ! j = read_i16 v" "drop (Suc j) ds = map read_i16 vs" using Cons.prems(7) by simp_all
  have j': "j < length (map g (take j ds) @ drop j ds)" using j by simp
  have gj: "-32768 \<le> g (ds ! j)" "g (ds ! j) \<le> 32767" using Cons.prems(9) j by auto
  have sl: "slot_of i j = Suc j" using Cons.prems(3) by (simp add: slot_of_def)
  note st = dce_retarget_step [OF Cons.prems(1,2,5) j' v(1) Cons.prems(4), where off = off and slot = slot]
  show ?case
  proof (cases "dce_valid (int off + int (length i) + ds ! j) (length offsets) slot")
    case False
    then show ?thesis using st gj dr sl Cons.prems(8) by simp
  next
    case True
    with st gj Cons.prems(8) sl obtain i' where
      i': "dce_retarget offsets slot off (length pre') (length i) (Suc j) v (pre' @ i @ rr) = pok (pre' @ i' @ rr)"
        "whole i'" "length i' = length i" "i' ! 0 = i ! 0"
        "disps i' = Some ((map g (take j ds) @ drop j ds)[j := g (ds ! j)])" by auto
    have "(map g (take j ds) @ drop j ds)[j := g (ds ! j)] = map g (take (Suc j) ds) @ drop (Suc j) ds"
      using j dr by (simp add: take_Suc_conv_app_nth list_update_append)
    then have d': "disps i' = Some (map g (take (Suc j) ds) @ drop (Suc j) ds)" using i'(5) by simp
    have "branching i'" using Cons.prems(2) i'(4) by (simp add: branching_def)
    have IH: "if \<forall>d\<in>set (drop (Suc j) ds). dce_valid (int off + int (length i') + d) (length offsets) slot
      then \<exists>i''. dce_table offsets slot off (length pre') (length i') (Suc (Suc j)) vs (pre' @ i' @ rr) = pok (pre' @ i'' @ rr)
        \<and> whole i'' \<and> length i'' = length i' \<and> i'' ! 0 = i' ! 0 \<and> disps i'' = Some (map g ds)
      else dce_table offsets slot off (length pre') (length i') (Suc (Suc j)) vs (pre' @ i' @ rr) = Some (Inl InvalidJump)"
      by (rule Cons.IH [OF i'(2) \<open>branching i'\<close> _ _ d' _ v(2) _ Cons.prems(9)])
        (use Cons.prems(3,4,8) i'(3,4) j in simp_all)
    have tb: "dce_table offsets slot off (length pre') (length i) (Suc j) (v # vs) (pre' @ i @ rr)
        = dce_table offsets slot off (length pre') (length i') (Suc (Suc j)) vs (pre' @ i' @ rr)"
      using i'(1,3) by simp
    show ?thesis
    proof (cases "\<forall>d\<in>set (drop (Suc j) ds). dce_valid (int off + int (length i') + d) (length offsets) slot")
      case yes: True
      then show ?thesis using IH tb True dr i'(3,4) by (simp only: if_True) auto
    next
      case no: False
      then have "dce_table offsets slot off (length pre') (length i') (Suc (Suc j)) vs (pre' @ i' @ rr) = Some (Inl InvalidJump)"
        using IH by (simp only: if_False)
      moreover have "\<not> (\<forall>d\<in>set (drop j ds). dce_valid (int off + int (length i) + d) (length offsets) slot)"
        using no dr i'(3) by auto
      ultimately show ?thesis using tb by (simp only: if_False)
    qed
  qed
qed

definition dce_f :: "nat option list \<Rightarrow> nat \<Rightarrow> int \<Rightarrow> int" where
  "dce_f offsets n t = int (relocate offsets (nat t) n)"

text \<open>One kept instruction.\<close>

lemma relocate_other:
  assumes "whole i" "\<not> branching i" "length pre' < sz"
  shows "relocate_all offsets slot sz rd (length pre') (pre' @ i @ rr)
    = relocate_all offsets slot sz (next_read offsets (length pre' + length i) rd) (length pre' + length i) (pre' @ i @ rr)"
proof -
  have w: "instr_width (drop (length pre') (pre' @ i @ rr)) = Some (length i)" using whole_at [OF assms(1)] by simp
  have h: "(pre' @ i @ rr) ! length pre' = i ! 0" using whole_hd [OF assms(1), of rr] by (simp add: nth_append)
  show ?thesis using assms(2,3) w h by (subst relocate_all.simps) (simp add: branching_def)
qed

lemma relocate_branch:
  assumes i: "whole i" "branching i" "disps i = Some ds" and sz: "length (pre' @ i @ rr) = sz"
    and g: "g = (\<lambda>d. dce_f offsets sz (int off + int (length i) + d) - int (length pre') - int (length i))"
    and r: "\<forall>d\<in>set ds. -32768 \<le> g d \<and> g d \<le> 32767"
  shows "if \<forall>d\<in>set ds. dce_valid (int off + int (length i) + d) (length offsets) slot
    then \<exists>i'. relocate_all offsets slot sz off (length pre') (pre' @ i @ rr)
        = relocate_all offsets slot sz (next_read offsets (length pre' + length i) off) (length pre' + length i) (pre' @ i' @ rr)
      \<and> whole i' \<and> length i' = length i \<and> i' ! 0 = i ! 0 \<and> disps i' = Some (map g ds)
    else relocate_all offsets slot sz off (length pre') (pre' @ i @ rr) = Some (Inl InvalidJump)"
proof -
  let ?c = "pre' @ i @ rr"
  have lt: "length pre' < sz" using sz whole_pos [OF i(1)] by (simp del: length_greater_0_conv)
  have w: "instr_width (drop (length pre') ?c) = Some (length i)" using whole_at [OF i(1)] by simp
  have h: "?c ! length pre' = i ! 0" using whole_hd [OF i(1), of rr] by (simp add: nth_append)
  from disps_total [OF i(1,2)] obtain ds' vs where *: "disps i = Some ds'" "operands i = Some vs"
    "length vs = (if i ! 0 = BR_TABLE then Suc (length ds') else 1)"
    "length ds' = (if i ! 0 = BR_TABLE then Suc (unat (vs ! 0)) else 1)"
    and slot': "\<And>j. j < length ds' \<Longrightarrow> slot_of i j < length vs \<and> ds' ! j = read_i16 (vs ! slot_of i j)
      \<and> branch_slot i (slot_of i j)" by blast
  have [simp]: "ds' = ds" using *(1) i(3) by simp
  note vs = *(2-4) [unfolded \<open>ds' = ds\<close>] and sl = slot' [unfolded \<open>ds' = ds\<close>]
  have f: "dce_f offsets sz = (\<lambda>t. int (relocate offsets (nat t) (length ?c)))" using sz by (simp add: dce_f_def fun_eq_iff)
  have o: "operands (drop (length pre') ?c) = Some vs" using branch_operands [OF i(1,2)] vs(1) by simp
  define part where "part =
    (if i ! 0 = BR \<or> i ! 0 = BR_IF then
       need (operand (drop (length pre') ?c) 0) (\<lambda>v. dce_retarget offsets slot off (length pre') (length i) 0 v ?c)
     else if i ! 0 = BR_TABLE then
       need (operands (drop (length pre') ?c)) (\<lambda>vs. need (table_ops vs) (\<lambda>ops. dce_table offsets slot off (length pre') (length i) 1 ops ?c))
     else pok ?c)"
  have step: "relocate_all offsets slot sz off (length pre') ?c = pbind part
      (\<lambda>c'. need (instr_width (drop (length pre') c')) (\<lambda>w'.
         relocate_all offsets slot sz (next_read offsets (length pre' + w') off) (length pre' + w') c'))"
    using lt w h by (subst relocate_all.simps) (simp add: part_def)
  have P: "if \<forall>d\<in>set ds. dce_valid (int off + int (length i) + d) (length offsets) slot
    then \<exists>i'. part = pok (pre' @ i' @ rr) \<and> whole i' \<and> length i' = length i \<and> i' ! 0 = i ! 0 \<and> disps i' = Some (map g ds)
    else part = Some (Inl InvalidJump)"
  proof (cases "i ! 0 = BR_TABLE")
    case True
    then obtain m ops where v: "vs = m # ops" "length ops = Suc (unat m)" using vs(2,3) by (cases vs) auto
    have "map read_i16 ops = ds" using i(3) True vs(1) v(1) by (simp add: disps_def)
    then have t: "drop 0 ds = map read_i16 ops" by simp
    have d0: "disps i = Some (map g (take 0 ds) @ drop 0 ds)" using i(3) by simp
    have pt: "part = dce_table offsets slot off (length pre') (length i) (Suc 0) ops ?c"
      using True o v by (simp add: part_def table_ops_def)
    show ?thesis
      using dce_table_step [OF i(1,2) True f d0 le0 t g r, of slot] unfolding pt by simp
  next
    case False
    then have b: "i ! 0 = BR \<or> i ! 0 = BR_IF" using i(2) by (auto simp: branching_def)
    obtain d where ds: "ds = [d]" using vs(3) False by (auto simp: length_Suc_conv)
    have s0: "slot_of i 0 = 0" using False by (simp add: slot_of_def)
    have v: "d = read_i16 (vs ! 0)" "0 < length vs" using sl [of 0] ds s0 by auto
    have pt: "part = dce_retarget offsets slot off (length pre') (length i) (slot_of i 0) (vs ! 0) ?c"
      using b o v(2) s0 by (auto simp: part_def operand_def)
    have "0 < length ds" using ds by simp
    from dce_retarget_step [OF i this v(1) f, of off slot] r ds g
    show ?thesis unfolding pt
      by (cases "dce_valid (int off + int (length i) + d) (length offsets) slot") simp_all
  qed
  show ?thesis
  proof (cases "\<forall>d\<in>set ds. dce_valid (int off + int (length i) + d) (length offsets) slot")
    case True
    with P obtain i' where i': "part = pok (pre' @ i' @ rr)" "whole i'" "length i' = length i" "i' ! 0 = i ! 0"
      "disps i' = Some (map g ds)" by auto
    have "instr_width (drop (length pre') (pre' @ i' @ rr)) = Some (length i)" using whole_at [OF i'(2)] i'(3) by simp
    then show ?thesis using True step i' by auto
  next
    case False
    then have "part = Some (Inl InvalidJump)" using P by (simp only: if_False)
    then show ?thesis using False step by auto
  qed
qed

lemma relocate_plan:
  assumes "drop off offsets = places (length pre') ps" "off \<le> length offsets" "pieces_ok ps" "shrinking ps"
    and "sz = length (pre' @ new_code ps)" and "in_range (dce_f offsets sz) off (length pre') ps"
  shows "if at_targets (\<lambda>t. dce_valid t (length offsets) slot) off ps
    then \<exists>js. relocate_all offsets slot sz (off + first_kept ps) (length pre') (pre' @ new_code ps) = pok (pre' @ concat js)
      \<and> relinked (dce_f offsets sz) off (length pre') ps js
    else relocate_all offsets slot sz (off + first_kept ps) (length pre') (pre' @ new_code ps) = Some (Inl InvalidJump)"
  using assms
proof (induction ps arbitrary: off pre')
  case Nil
  then show ?case by (simp add: relocate_all.simps)
next
  case (Cons p ps)
  show ?case
  proof (cases p)
    case (Put a b)
    then have b: "b = []" using Cons.prems(4) by simp
    let ?n = "length (concat a)"
    have d: "drop off offsets = replicate ?n None @ places (length pre') ps" using Cons.prems(1) Put by simp
    then have d': "drop (off + ?n) offsets = places (length pre') ps" by (metis append_eq_conv_conj drop_drop add.commute length_replicate)
    have le: "off + ?n \<le> length offsets"
      using d Cons.prems(2) by (metis add.commute le_add_diff_inverse length_append length_drop length_replicate nat_add_left_cancel_le le_add1)
    show ?thesis
      using Cons.IH [OF d' le] Cons.prems(3-6) unfolding Put b
      by (auto simp: add.assoc split: if_splits)
  next
    case (Keep i)
    have wi: "whole i" using Cons.prems(3) Keep by simp
    then have l: "0 < length i" by (rule whole_pos)
    obtain n where n: "length i = Suc n" using l by (cases "length i") auto
    have "drop (off + length i) offsets = drop (length i) (places (length pre') (p # ps))"
      using Cons.prems(1) by (metis add.commute drop_drop)
    then have d': "drop (off + length i) offsets = places (length pre' + length i) ps" using Keep n by simp
    have le: "off + length i \<le> length offsets"
      using Cons.prems(1) Keep n by (metis add.commute le_add_diff_inverse length_append length_drop length_Cons length_replicate
        Cons.prems(2) nat_add_left_cancel_le le_add1 append_Cons diff_Suc_1 places.simps(2))
    have nx: "next_read offsets (length pre' + length i) off = off + length i + first_kept ps"
      using Cons.prems(1) Keep l by (intro next_read_kept) auto
    have step: ?thesis
      if r: "relocate_all offsets slot sz off (length pre') (pre' @ i @ new_code ps)
          = relocate_all offsets slot sz (next_read offsets (length pre' + length i) off) (length pre' + length i)
              (pre' @ i' @ new_code ps)"
        and i': "whole i'" "length i' = length i" "i' ! 0 = i ! 0" "\<not> branching i \<longrightarrow> i' = i"
        and b: "branching i \<Longrightarrow> \<exists>ds. disps i = Some ds
          \<and> list_all (\<lambda>d. dce_valid (int off + int (length i) + d) (length offsets) slot) ds
          \<and> disps i' = Some (map (\<lambda>d. dce_f offsets sz (int off + int (length i) + d) - int (length pre') - int (length i)) ds)"
      for i'
    proof -
      have IH: "if at_targets (\<lambda>t. dce_valid t (length offsets) slot) (off + length i) ps
        then \<exists>js. relocate_all offsets slot sz (off + length i + first_kept ps) (length (pre' @ i')) ((pre' @ i') @ new_code ps)
            = pok ((pre' @ i') @ concat js)
          \<and> relinked (dce_f offsets sz) (off + length i) (length (pre' @ i')) ps js
        else relocate_all offsets slot sz (off + length i + first_kept ps) (length (pre' @ i')) ((pre' @ i') @ new_code ps)
          = Some (Inl InvalidJump)"
        by (rule Cons.IH) (use d' le Cons.prems(3-6) Keep i'(2) in simp_all)
      have fit: "at_targets (\<lambda>t. dce_valid t (length offsets) slot) off (p # ps) = at_targets (\<lambda>t. dce_valid t (length offsets) slot) (off + length i) ps"
        using Keep b by auto
      show ?thesis
      proof (cases "at_targets (\<lambda>t. dce_valid t (length offsets) slot) (off + length i) ps")
        case True
        with IH obtain js where
          "relocate_all offsets slot sz (off + length i + first_kept ps) (length (pre' @ i')) ((pre' @ i') @ new_code ps)
            = pok ((pre' @ i') @ concat js)"
          "relinked (dce_f offsets sz) (off + length i) (length (pre' @ i')) ps js" by auto
        then have "relocate_all offsets slot sz (off + first_kept (p # ps)) (length pre') (pre' @ new_code (p # ps)) = pok (pre' @ concat (i' # js))
          \<and> relinked (dce_f offsets sz) off (length pre') (p # ps) (i' # js)"
          using Keep r i' b nx by auto
        then show ?thesis using True fit by (simp only: if_True) blast
      next
        case False
        then show ?thesis using IH fit r Keep nx i'(2) by simp
      qed
    qed
    have sz: "length (pre' @ i @ new_code ps) = sz" using Cons.prems(5) Keep by simp
    show ?thesis
    proof (cases "branching i")
      case False
      show ?thesis
        by (rule step [of i]) (use relocate_other [OF wi False, of pre' sz] wi False sz l in auto)
    next
      case True
      obtain ds where ds: "disps i = Some ds" using disps_total [OF wi True] by metis
      have rg: "\<forall>d\<in>set ds. -32768 \<le> dce_f offsets sz (int off + int (length i) + d) - int (length pre') - int (length i)
          \<and> dce_f offsets sz (int off + int (length i) + d) - int (length pre') - int (length i) \<le> 32767"
        using Cons.prems(6) Keep True ds by (simp add: list_all_iff Let_def)
      note br = relocate_branch [OF wi True ds sz refl rg, of slot]
      show ?thesis
      proof (cases "\<forall>d\<in>set ds. dce_valid (int off + int (length i) + d) (length offsets) slot")
        case no: False
        then have "relocate_all offsets slot sz off (length pre') (pre' @ i @ new_code ps) = Some (Inl InvalidJump)"
          using br by (simp only: if_False)
        then show ?thesis using Keep True ds no by (auto simp: list_all_iff)
      next
        case yes: True
        then obtain i' where i': "relocate_all offsets slot sz off (length pre') (pre' @ i @ new_code ps)
          = relocate_all offsets slot sz (next_read offsets (length pre' + length i) off) (length pre' + length i) (pre' @ i' @ new_code ps)"
          "whole i'" "length i' = length i" "i' ! 0 = i ! 0"
          "disps i' = Some (map (\<lambda>d. dce_f offsets sz (int off + int (length i) + d) - int (length pre') - int (length i)) ds)"
          using br by auto
        show ?thesis
          by (rule step [OF i'(1-4)]) (use True ds yes i'(5) in \<open>auto simp: list_all_iff\<close>)
      qed
    qed
  qed
qed

section \<open>Displacements only shrink\<close>

lemma new_off_append: "new_off (qs @ ps) (length (old_code qs) + k) = length (new_code qs) + new_off ps k"
proof (induction qs)
  case (Cons q qs)
  then show ?case by (cases q) (simp_all add: add.assoc)
qed simp

lemma new_off_Suc:
  "pieces_ok ps \<Longrightarrow> shrinking ps \<Longrightarrow> new_off ps x \<le> new_off ps (Suc x) \<and> new_off ps (Suc x) \<le> Suc (new_off ps x)"
proof (induction ps arbitrary: x)
  case (Cons p ps)
  show ?case
  proof (cases p)
    case (Keep i)
    with Cons.prems have ok: "pieces_ok ps" "shrinking ps" by simp_all
    consider "Suc x < length i" | "Suc x = length i" | "length i \<le> x" by linarith
    then show ?thesis
    proof cases
      case 3
      then show ?thesis using Cons.IH [OF ok, of "x - length i"] Keep by (simp add: Suc_diff_le)
    qed (use Keep new_off_0 [OF ok] in auto)
  next
    case (Put a b)
    with Cons.prems have ok: "pieces_ok ps" "shrinking ps" "b = []" by simp_all
    let ?n = "length (concat a)"
    consider "Suc x < ?n" | "Suc x = ?n" | "?n \<le> x" by linarith
    then show ?thesis
    proof cases
      case 3
      then show ?thesis using Cons.IH [OF ok(1,2), of "x - ?n"] Put ok(3) by (simp add: Suc_diff_le)
    qed (use Put new_off_0 [OF ok(1,2)] ok(3) in auto)
  qed
qed simp

lemma new_off_add:
  assumes "pieces_ok ps" "shrinking ps"
  shows "new_off ps x \<le> new_off ps (x + n) \<and> new_off ps (x + n) \<le> new_off ps x + n"
proof (induction n)
  case (Suc n)
  then show ?case using new_off_Suc [OF assms, of "x + n"] by simp
qed simp

lemma disps_range: "disps i = Some ds \<Longrightarrow> d \<in> set ds \<Longrightarrow> -32768 \<le> d \<and> d \<le> 32767"
proof -
  have r: "-32768 \<le> read_i16 v \<and> read_i16 v \<le> 32767" for v
    using sint_range_size [of "ucast v :: 16 word"] by (simp add: read_i16_def word_size)
  show "disps i = Some ds \<Longrightarrow> d \<in> set ds \<Longrightarrow> -32768 \<le> d \<and> d \<le> 32767"
    using r by (auto simp: disps_def split: if_splits)
qed

lemma plan_append [simp]:
  "pieces_ok (qs @ ps) \<longleftrightarrow> pieces_ok qs \<and> pieces_ok ps" "shrinking (qs @ ps) \<longleftrightarrow> shrinking qs \<and> shrinking ps"
  by (auto simp: pieces_ok_def shrinking_def)

lemma in_range_shrinking:
  assumes "pieces_ok (qs @ ps)" "shrinking (qs @ ps)"
    and "at_targets (\<lambda>t. 0 \<le> t \<and> f t = int (new_off (qs @ ps) (nat t))) (length (old_code qs)) ps"
  shows "in_range f (length (old_code qs)) (length (new_code qs)) ps"
  using assms
proof (induction ps arbitrary: qs)
  case (Cons p ps)
  have oc: "old_code (qs @ [p]) = old_code qs @ concat (olds p)" "new_code (qs @ [p]) = new_code qs @ concat (news p)"
    by (simp_all add: old_code_def new_code_def)
  have IH: "at_targets (\<lambda>t. 0 \<le> t \<and> f t = int (new_off (qs @ p # ps) (nat t))) (length (old_code (qs @ [p]))) ps \<Longrightarrow>
      in_range f (length (old_code (qs @ [p]))) (length (new_code (qs @ [p]))) ps"
    using Cons.IH [of "qs @ [p]"] Cons.prems(1,2) by simp
  show ?case
  proof (cases p)
    case (Put a b)
    then show ?thesis using IH Cons.prems(3) oc by simp
  next
    case (Keep i)
    let ?all = "qs @ p # ps" and ?n = "length (old_code qs) + length i"
    have ok: "pieces_ok ps" "shrinking ps"
      using Cons.prems(1,2) Keep by simp_all
    have P: "new_off ?all ?n = length (new_code qs) + length i"
      using new_off_append [of qs "p # ps" "length i"] Keep new_off_0 [OF ok] by simp
    have "in_range f (length (old_code (qs @ [p]))) (length (new_code (qs @ [p]))) ps"
      using IH Cons.prems(3) Keep oc by simp
    moreover have "-32768 \<le> f (int (length (old_code qs)) + int (length i) + d) - int (length (new_code qs)) - int (length i)
        \<and> f (int (length (old_code qs)) + int (length i) + d) - int (length (new_code qs)) - int (length i) \<le> 32767"
      if "branching i" "disps i = Some ds" "d \<in> set ds" for ds d
    proof -
      let ?t = "int (length (old_code qs)) + int (length i) + d"
      have t: "0 \<le> ?t" "f ?t = int (new_off ?all (nat ?t))"
        using Cons.prems(3) Keep that by (auto simp: list_all_iff)
      have d: "-32768 \<le> d" "d \<le> 32767" using disps_range [OF that(2,3)] by simp_all
      show ?thesis
      proof (cases "0 \<le> d")
        case True
        then have "nat ?t = ?n + nat d" by linarith
        then have "f ?t = int (new_off ?all (?n + nat d))" using t(2) by simp
        then show ?thesis using new_off_add [OF Cons.prems(1,2), of ?n "nat d"] P d True by linarith
      next
        case False
        then have "?n = nat ?t + nat (- d)" using t(1) by linarith
        then have "new_off ?all (nat ?t) \<le> new_off ?all ?n \<and> new_off ?all ?n \<le> new_off ?all (nat ?t) + nat (- d)"
          using new_off_add [OF Cons.prems(1,2), of "nat ?t" "nat (- d)"] by simp
        then show ?thesis using P t(2) d False by linarith
      qed
    qed
    moreover have "branching i \<Longrightarrow> disps i \<noteq> None" using Cons.prems(3) Keep by (auto split: option.splits)
    ultimately show ?thesis using Keep oc by (auto simp: list_all_iff Let_def split: option.split)
  qed
qed simp

section \<open>The compaction theorem\<close>

definition blanked :: "code \<Rightarrow> bool" where
  "blanked i \<longleftrightarrow> i ! 0 = NOP \<or> i ! 0 = UNREACHABLE"

definition at_edge :: "code list \<Rightarrow> int \<Rightarrow> bool" where
  "at_edge is t \<longleftrightarrow> (\<exists>j\<le>length is. t = int (length (concat (take j is))))"

text \<open>What the verifier asks of branch targets: an instruction boundary, the end only in top-level code.\<close>

definition jumps_ok :: "nat \<Rightarrow> code list \<Rightarrow> bool" where
  "jumps_ok slot is \<longleftrightarrow> (\<forall>k<length is. \<forall>ts. targets (concat is) (length (concat (take k is))) = Some ts \<longrightarrow>
     (\<forall>t\<in>set ts. at_edge is t \<and> (t = int (length (concat is)) \<longrightarrow> slot = 0)))"

text \<open>The code starts with a kept instruction, or the first one kept is no branch.\<close>

definition lead_ok :: "code list \<Rightarrow> bool" where
  "lead_ok is \<longleftrightarrow> (case filter (\<lambda>i. \<not> blanked i) is of [] \<Rightarrow> True | i # _ \<Rightarrow> hd is = i \<or> \<not> branching i)"

lemma news_dce_plan: "concat (map news (dce_plan is)) = filter (\<lambda>i. \<not> blanked i) is"
  by (induction "is") (auto simp: dce_plan_def blanked_def)

lemma dce_targets:
  assumes "\<forall>i\<in>set is. whole i"
    and "\<forall>k<length is. \<forall>ts. targets (concat pre @ concat is) (length (concat pre) + length (concat (take k is))) = Some ts \<longrightarrow> list_all P ts"
  shows "at_targets P (length (concat pre)) (dce_plan is)"
  using assms
proof (induction "is" arbitrary: pre)
  case Nil
  then show ?case by (simp add: dce_plan_def)
next
  case (Cons i "is")
  have "at_targets P (length (concat (pre @ [i]))) (dce_plan is)"
  proof (rule Cons.IH)
    show "\<forall>k<length is. \<forall>ts. targets (concat (pre @ [i]) @ concat is) (length (concat (pre @ [i])) + length (concat (take k is))) = Some ts \<longrightarrow> list_all P ts"
    proof (intro allI impI)
      fix k ts assume k: "k < length is" and t: "targets (concat (pre @ [i]) @ concat is) (length (concat (pre @ [i])) + length (concat (take k is))) = Some ts"
      show "list_all P ts"
        using Cons.prems(2) [rule_format, of "Suc k" ts] k t by (simp add: add.assoc)
    qed
  qed (use Cons.prems(1) in simp)
  moreover have "\<exists>ds. disps i = Some ds \<and> list_all (\<lambda>d. P (int (length (concat pre)) + int (length i) + d)) ds" if b: "branching i"
  proof -
    have wi: "whole i" using Cons.prems(1) by simp
    obtain ds where ds: "disps i = Some ds" using disps_total [OF wi b] by metis
    have "targets (concat pre @ concat (i # is)) (length (concat pre)) = map_option (map (\<lambda>d. int (length (concat pre)) + int (length i) + d)) (disps i)"
      by (rule targets_disps [OF _ wi]) simp
    with Cons.prems(2) [rule_format, of 0] ds show ?thesis by (auto simp: list_all_iff)
  qed
  ultimately show ?case by (auto simp: dce_plan_def branching_def)
qed

lemma outside_edge: "j \<le> length is \<Longrightarrow> outside (dce_plan is) (length (concat (take j is)))"
proof (induction "is" arbitrary: j)
  case Nil
  then show ?case by (simp add: dce_plan_def)
next
  case (Cons i "is")
  then show ?case by (cases j) (auto simp: dce_plan_def)
qed

lemma relocate_lead:
  assumes "drop off offsets = places (length pre') ps" "off \<le> length offsets" "sz = length (pre' @ new_code ps)"
    and "\<And>i. i \<in> set (concat (map news ps)) \<Longrightarrow> whole i"
    and "\<And>i js. concat (map news ps) = i # js \<Longrightarrow> \<not> branching i"
  shows "relocate_all offsets slot sz off (length pre') (pre' @ new_code ps)
    = relocate_all offsets slot sz (off + first_kept ps) (length pre') (pre' @ new_code ps)"
proof (cases "concat (map news ps)")
  case Nil
  then have "new_code ps = []" by (simp add: new_code_def)
  then show ?thesis using assms(3) by (simp add: relocate_all.simps)
next
  case (Cons i js)
  then have nc: "new_code ps = i @ concat js" by (simp add: new_code_def)
  have wi: "whole i" "\<not> branching i" using assms(4,5) Cons by auto
  have l: "0 < length i" using whole_pos [OF wi(1)] .
  then have lt: "length pre' < sz" using assms(3) nc by (simp del: length_greater_0_conv)
  have "next_read offsets (length pre' + length i) off = next_read offsets (length pre' + length i) (off + first_kept ps)"
    by (rule next_read_blanks [OF assms(1,2)]) (use l in simp)
  then show ?thesis unfolding nc relocate_other [OF wi lt] by simp
qed

lemma relocate_places:
  assumes "pieces_ok ps" "shrinking ps" "outside ps off" "off \<le> length (old_code ps)"
  shows "relocate (places 0 ps) off (length (new_code ps)) = new_off ps off"
  using places_moved [OF assms, of 0] unfolding relocate_drop add_0 .

lemma dce_handlers_moved:
  assumes "pieces_ok ps" "shrinking ps" "\<forall>h\<in>set hs. \<forall>x\<in>{h_start h, h_end h, h_catch h}.
      0 \<le> x \<and> outside ps (nat x) \<and> nat x \<le> length (old_code ps)"
  shows "dce_handlers (places 0 ps) (length (new_code ps)) hs = Some (map (move_handler ps) hs)"
  using assms(3)
proof (induction hs)
  case (Cons h hs)
  then show ?case
    using relocate_places [OF assms(1,2)] by (simp add: dce_handlers_def dce_handler_def move_handler_def)
qed (simp add: dce_handlers_def)

lemma at_edge_outside:
  assumes "\<forall>i\<in>set is. whole i" "at_edge is t"
  shows "0 \<le> t \<and> outside (dce_plan is) (nat t) \<and> nat t \<le> length (concat is)"
proof -
  obtain j where j: "j \<le> length is" "t = int (length (concat (take j is)))" using assms(2) by (auto simp: at_edge_def)
  have "length (concat (take j is)) \<le> length (concat is)"
    by (metis append_take_drop_id concat_append le_add1 length_append)
  then show ?thesis using j outside_edge [OF j(1)] by simp
qed

lemma dce_compact_plan:
  assumes w: "unmarshal c = Some is" and jumps: "jumps_ok slot is" and lead: "lead_ok is"
    and hs: "\<forall>h\<in>set hs. \<forall>x\<in>{h_start h, h_end h, h_catch h}. at_edge is x"
  obtains js where "dce_compact slot hs c = pok (concat js, map (move_handler (dce_plan is)) hs)"
    "relinked (\<lambda>t. int (new_off (dce_plan is) (nat t))) 0 0 (dce_plan is) js"
proof -
  define ps where "ps = dce_plan is"
  have c: "concat is = c" "\<forall>i\<in>set is. whole i"
    using dec.walk_sound w by (auto simp: unmarshal_def whole_def)
  have ok: "pieces_ok ps" "shrinking ps" using dce_plan_ok [OF c(2)] by (simp_all add: ps_def)
  have oc: "old_code ps = c" using c(1) by (simp add: ps_def)
  let ?offs = "places 0 ps" and ?n = "length (new_code ps)"
  have lo: "length ?offs = length c" using ok oc by simp
  obtain c1 where sq: "squeeze c (replicate (length c) None) 0 0 = Some (c1, ?offs, ?n)" "take ?n c1 = new_code ps"
    using squeeze_spec [of 0 c "is" 0 "replicate (length c) None" "[]"] c by (auto simp: ps_def)
  have edge: "0 \<le> t \<and> outside ps (nat t) \<and> nat t \<le> length c \<and> dce_f ?offs ?n t = int (new_off ps (nat t))" if "at_edge is t" for t
    using at_edge_outside [OF c(2) that] relocate_places [OF ok, of "nat t"] c(1) oc by (simp add: ps_def dce_f_def)
  have tg: "at_targets (\<lambda>t. at_edge is t \<and> (t = int (length c) \<longrightarrow> slot = 0)) 0 ps"
    using dce_targets [of "is" "[]" "\<lambda>t. at_edge is t \<and> (t = int (length c) \<longrightarrow> slot = 0)"] jumps c
    by (simp add: jumps_ok_def list_all_iff ps_def)
  have valid: "at_targets (\<lambda>t. dce_valid t (length ?offs) slot) 0 ps"
  proof (rule at_targets_mono [OF tg])
    fix t assume t: "at_edge is t \<and> (t = int (length c) \<longrightarrow> slot = 0)"
    then have "0 \<le> t" "t \<le> int (length c)" using edge [of t] by linarith+
    then show "dce_valid t (length ?offs) slot" using t by (auto simp: dce_valid_def lo)
  qed
  have ir: "in_range (dce_f ?offs ?n) 0 0 ps"
    using in_range_shrinking [of "[]" ps "dce_f ?offs ?n"] ok at_targets_mono [OF tg] edge by fastforce
  have nw: "concat (map news ps) = filter (\<lambda>i. \<not> blanked i) is" by (simp add: ps_def news_dce_plan)
  have rel: "\<exists>js. relocate_all ?offs slot ?n (first_kept ps) 0 (new_code ps) = pok (concat js) \<and> relinked (dce_f ?offs ?n) 0 0 ps js"
    using relocate_plan [of 0 ?offs "[]" ps ?n slot] ok valid ir by simp
  have "relocate_all ?offs slot ?n 0 0 (new_code ps) = relocate_all ?offs slot ?n (first_kept ps) 0 (new_code ps)"
  proof (cases "first_kept ps = 0")
    case False
    have nb: "\<not> branching i" if "concat (map news ps) = i # js" for i js
    proof -
      have f: "filter (\<lambda>i. \<not> blanked i) is = i # js" using that nw by simp
      have "hd is \<noteq> i"
      proof
        assume h: "hd is = i"
        have "i \<in> set (filter (\<lambda>i. \<not> blanked i) is)" using f by simp
        then have "is \<noteq> []" "\<not> blanked i" by auto
        then have "first_kept ps = 0" using h by (cases "is") (auto simp: ps_def dce_plan_def blanked_def)
        then show False using False by simp
      qed
      then show ?thesis using lead f by (simp add: lead_ok_def)
    qed
    have "whole i" if "i \<in> set (concat (map news ps))" for i using that c(2) nw by auto
    from relocate_lead [of 0 ?offs "[]" ps ?n slot] this nb show ?thesis by simp
  qed simp
  then obtain js where js: "relocate_all ?offs slot ?n 0 0 (new_code ps) = pok (concat js)" "relinked (dce_f ?offs ?n) 0 0 ps js"
    using rel by auto
  have len: "length (concat js) = ?n"
    using relinked_layout [OF js(2) ok(1)] by (simp add: length_concat new_code_def)
  have hd: "dce_handlers ?offs ?n hs = Some (map (move_handler ps) hs)"
    by (rule dce_handlers_moved [OF ok]) (use hs edge oc in auto)
  have "dce_compact slot hs c = pok (concat js, map (move_handler ps) hs)"
    using sq js(1) len hd by (simp add: dce_compact_def)
  moreover have "relinked (\<lambda>t. int (new_off ps (nat t))) 0 0 ps js"
    by (rule relinked_at_cong [OF js(2)]) (use at_targets_mono [OF tg] edge in fastforce)
  ultimately show thesis using that by (simp add: ps_def)
qed

text \<open>C28: Compaction.  On code whose branches go to instruction boundaries and that does not start with
  blanks before a branch, dead code elimination's compaction never fails: the new code decodes to the
  instructions that are neither NOP nor UNREACHABLE, in order; those that are no branch are unchanged,
  every branch goes to the new place of what it went to, and the exception table is moved the same
  way.\<close>

theorem dce_compacts:
  assumes "unmarshal c = Some is" "jumps_ok slot is" "lead_ok is"
    and "\<forall>h\<in>set hs. \<forall>x\<in>{h_start h, h_end h, h_catch h}. at_edge is x"
  shows "\<exists>c' js. dce_compact slot hs c = pok (c', map (move_handler (dce_plan is)) hs)
    \<and> unmarshal c' = Some js \<and> map length js = map length (filter (\<lambda>i. \<not> blanked i) is)
    \<and> (\<forall>k<length is. moved_as (dce_plan is ! k) c (length (concat (take k is)))
          c' (length (new_code (take k (dce_plan is)))) (\<lambda>t. int (new_off (dce_plan is) (nat t))))"
proof -
  from dce_compact_plan [OF assms] obtain js where js:
    "dce_compact slot hs c = pok (concat js, map (move_handler (dce_plan is)) hs)"
    "relinked (\<lambda>t. int (new_off (dce_plan is) (nat t))) 0 0 (dce_plan is) js" .
  have c: "concat is = c" "\<forall>i\<in>set is. whole i"
    using dec.walk_sound assms(1) by (auto simp: unmarshal_def whole_def)
  have ok: "pieces_ok (dce_plan is)" using dce_plan_ok [OF c(2)] by simp
  have "unmarshal (concat js) = Some js" "map length js = map length (filter (\<lambda>i. \<not> blanked i) is)"
    using relinked_layout [OF js(2) ok] dec.walk_concat by (simp_all add: unmarshal_def whole_def news_dce_plan)
  moreover have "old_code (take k (dce_plan is)) = concat (take k is)" for k
    using old_dce_plan [of "take k is"] by (simp add: dce_plan_def take_map)
  moreover have "length (dce_plan is) = length is" by (simp add: dce_plan_def)
  ultimately show ?thesis
    using js(1) relinked_at [of _ "[]" "[]" "dce_plan is" js] js(2) ok c(1)
    by (intro exI [of _ "concat js"] exI [of _ js]) (auto simp: list.map_comp)
qed

theorem dce_compacts_witness:
  "\<exists>c'. dce_compact 1 [] [BR, 1, 0, NOP, RETURN] = pok (c', []) \<and> targets c' 0 = Some [3]"
proof -
  let ?c = "[BR, 1, 0, NOP, RETURN]" and ?is = "[[BR, 1, 0], [NOP], [RETURN]]"
  have w: "\<forall>i\<in>set ?is. instr_width i = Some (length i)"
    by (simp add: instr_width_def instr_type_def idx_def width_simps)
  then have u: "unmarshal ?c = Some ?is" using dec.walk_concat [OF w] by (simp add: unmarshal_def)
  have t0: "targets ?c 0 = Some [4]" "targets ?c 3 = Some []" "targets ?c 4 = Some []"
    by (simp_all add: targets_def operand_def operands_def instr_width_def instr_type_def idx_def
      width_simps read_word_def read_i16_def)
  have "at_edge ?is 4" unfolding at_edge_def by (rule exI [of _ 2]) simp
  then have j: "jumps_ok 1 ?is" using t0 by (auto simp: jumps_ok_def less_Suc_eq numeral_eq_Suc)
  have l: "lead_ok ?is" by (simp add: lead_ok_def blanked_def)
  from dce_compacts [OF u j l, of "[]"] obtain c' where
    c': "dce_compact 1 [] ?c = pok (c', [])"
    "moved_as (dce_plan ?is ! 0) ?c 0 c' 0 (\<lambda>t. int (new_off (dce_plan ?is) (nat t)))" by fastforce
  then have "targets c' 0 = Some [3]" using t0 by (simp add: dce_plan_def moved_as_def)
  then show ?thesis using c'(1) by blast
qed

text \<open>
  Four functions dead code elimination changes.  A body that only traps becomes empty; the trap one
  arm of a conditional branch ends in disappears; the code a BR_TABLE goes to is removed when the table
  does not end its block, and the table then leaves the function; and a branch behind leading blanks
  goes one instruction short.
\<close>

lemma dce_gaps:
  "dce_function 0 [] [UNREACHABLE] = pok ([], [])
   \<and> dce_function 1 [] [I32_CONST, 1, 0, 0, 0, BR_IF, 1, 0, UNREACHABLE, RETURN]
       = pok ([I32_CONST, 1, 0, 0, 0, BR_IF, 0, 0, RETURN], [])
   \<and> dce_function 1 [] [BR_TABLE, 0, 1, 0, RETURN, I32_CONST, 7, 0, 0, 0, RETURN]
       = pok ([BR_TABLE, 0, 1, 0, RETURN], [])
   \<and> dce_function 1 [] [NOP, BR, 1, 0, RETURN, I32_CONST, 7, 0, 0, 0, DROP, BR, 0xF6, 0xFF]
       = pok ([BR, 0, 0, RETURN, I32_CONST, 7, 0, 0, 0, DROP, BR, 0xF6, 0xFF], [])"
  by (intro conjI; code_simp)

end
