(* ===== verification/Passes.thy ===== *)
theory Passes
  imports Blocks
begin

text \<open>
  How a pass visits a program (\<^verbatim>\<open>transform/program.go\<close>, \<^verbatim>\<open>pass/manager.go\<close>, \<^verbatim>\<open>pass/pipeline.go\<close>).  A function
  is a Go pointer, so a change to it shows in every constant that holds the pointer; the root unit is
  the top-level code.
\<close>

section \<open>Units\<close>

datatype unit_ref = Root | Fn nat

definition root_function :: "program \<Rightarrow> gofunction" where
  "root_function p = \<lparr>fn_params = [], fn_returns = [], fn_locals = p_locals p, fn_captures = [],
     fn_code = p_code p, fn_handlers = p_handlers p\<rparr>"

definition units_of :: "program \<Rightarrow> unit_ref list" where
  "units_of p = Root # concat (map (\<lambda>v. case v of VFunc a f \<Rightarrow> [Fn a] | _ \<Rightarrow> []) (p_constants p))"

fun find_function :: "goval list \<Rightarrow> nat \<Rightarrow> gofunction option" where
  "find_function [] a = None"
| "find_function (v # vs) a = (case v of VFunc b f \<Rightarrow> if b = a then Some f else find_function vs a
     | _ \<Rightarrow> find_function vs a)"

fun unit_of_ref :: "program \<Rightarrow> unit_ref \<Rightarrow> gofunction option" where
  "unit_of_ref p Root = Some (root_function p)"
| "unit_of_ref p (Fn a) = find_function (p_constants p) a"

fun put_code :: "unit_ref \<Rightarrow> code \<Rightarrow> handler list \<Rightarrow> program \<Rightarrow> program" where
  "put_code Root c hs p = p\<lparr>p_code := c, p_handlers := hs\<rparr>"
| "put_code (Fn a) c hs p = p\<lparr>p_constants := map (\<lambda>v. case v of
     VFunc b f \<Rightarrow> if b = a then VFunc b (f\<lparr>fn_code := c, fn_handlers := hs\<rparr>) else v | _ \<Rightarrow> v) (p_constants p)\<rparr>"

section \<open>The analysis cache\<close>

text \<open>\<^verbatim>\<open>GetResult\<close> of the block analysis: a unit's blocks are computed once between two invalidations.\<close>

type_synonym cache = "(unit_ref \<times> block list) list"

definition get_blocks :: "unit_ref \<Rightarrow> gofunction \<Rightarrow> cache \<Rightarrow> (block list \<times> cache) pres" where
  "get_blocks u f cc = (case map_of cc u of Some bs \<Rightarrow> pok (bs, cc)
     | None \<Rightarrow> pbind (ana_blocks (fn_code f) (fn_handlers f)) (\<lambda>bs. pok (bs, (u, bs) # cc)))"

text \<open>
  The loop \<^verbatim>\<open>for i, fn := range functions(prog)\<close> of the passes that work block by block.  \<open>prog_of\<close> is the
  program in the state of the pass; \<open>body i u blocks\<close> is the loop body.
\<close>

fun each_unit :: "('s \<Rightarrow> program) \<Rightarrow> (nat \<Rightarrow> unit_ref \<Rightarrow> gofunction \<Rightarrow> block list \<Rightarrow> 's \<Rightarrow> 's pres) \<Rightarrow>
    nat \<Rightarrow> unit_ref list \<Rightarrow> cache \<Rightarrow> 's \<Rightarrow> 's pres" where
  "each_unit prog_of body i [] cc s = pok s"
| "each_unit prog_of body i (u # us) cc s =
     need (unit_of_ref (prog_of s) u) (\<lambda>f.
     pbind (get_blocks u f cc) (\<lambda>(bs, cc').
     pbind (body i u f bs s) (each_unit prog_of body (Suc i) us cc')))"

text \<open>\<^verbatim>\<open>Pipeline.Run\<close>: the passes in order; each of them invalidates the cache.\<close>

fun run_pipeline :: "(program \<Rightarrow> program pres) list \<Rightarrow> program \<Rightarrow> program pres" where
  "run_pipeline [] p = pok p"
| "run_pipeline (f # fs) p = pbind (f p) (run_pipeline fs)"

section \<open>Every unit stays in place\<close>

lemma find_function_put:
  "find_function (p_constants (put_code u c hs p)) a =
     (case find_function (p_constants p) a of None \<Rightarrow> None
      | Some f \<Rightarrow> Some (if u = Fn a then f\<lparr>fn_code := c, fn_handlers := hs\<rparr> else f))"
proof (cases u)
  case (Fn b)
  have "find_function (map (\<lambda>v. case v of VFunc b' f \<Rightarrow> if b' = b then VFunc b' (f\<lparr>fn_code := c, fn_handlers := hs\<rparr>) else v | _ \<Rightarrow> v) vs) a
    = (case find_function vs a of None \<Rightarrow> None | Some f \<Rightarrow> Some (if b = a then f\<lparr>fn_code := c, fn_handlers := hs\<rparr> else f))" for vs
    by (induction vs) (auto split: goval.split option.split)
  then show ?thesis by (simp add: Fn split: option.split)
qed (auto split: option.split)

lemma units_put [simp]: "units_of (put_code u c hs p) = units_of p"
proof (cases u)
  case (Fn a)
  have "concat (map (\<lambda>v. case v of VFunc a f \<Rightarrow> [Fn a] | _ \<Rightarrow> []) (map (\<lambda>v. case v of
     VFunc b f \<Rightarrow> if b = a then VFunc b (f\<lparr>fn_code := c, fn_handlers := hs\<rparr>) else v | _ \<Rightarrow> v) vs))
    = concat (map (\<lambda>v. case v of VFunc a f \<Rightarrow> [Fn a] | _ \<Rightarrow> []) vs)" for vs
    by (induction vs) (auto split: goval.split)
  then show ?thesis using Fn by (simp add: units_of_def)
qed (simp add: units_of_def)

end
