(* ===== verification/Fold.thy ===== *)
theory Fold
  imports Passes Relink Step
begin

text \<open>
  Constant folding (\<^verbatim>\<open>transform/cf.go\<close>): a window of literals and an operation becomes one literal at the
  end of the window, behind NOPs, so no offset moves.  Booleans and strings have no immediate form and
  go through the constant pool.  Floating-point results and raw integer conversions are those of the
  \<open>fpu\<close> parameter.  \<^verbatim>\<open>STRING_ENCODE_UTF32\<close> and \<^verbatim>\<open>STRING_NEW_UTF32\<close> fold through Go's string conversions on
  array contents, which constants do not carry here: a window that would fold so is \<open>None\<close>.
\<close>

section \<open>What a window folds to\<close>

datatype folded = FI32 "32 word" | FI64 "64 word" | FF32 "32 word" | FF64 "64 word" | FBool bool | FStr string

definition fold_i32_bin :: "(opcode \<times> (32 word \<Rightarrow> 32 word \<Rightarrow> folded option)) list" where
  "fold_i32_bin =
    [(I32_ADD, \<lambda>a b. Some (FI32 (a + b))),
     (I32_SUB, \<lambda>a b. Some (FI32 (a - b))),
     (I32_MUL, \<lambda>a b. Some (FI32 (a * b))),
     (I32_DIV_S, \<lambda>a b. if b = 0 then None else Some (FI32 (go_div_s a b))),
     (I32_DIV_U, \<lambda>a b. if b = 0 then None else Some (FI32 (a div b))),
     (I32_REM_S, \<lambda>a b. if b = 0 then None else Some (FI32 (go_rem_s a b))),
     (I32_REM_U, \<lambda>a b. if b = 0 then None else Some (FI32 (a mod b))),
     (I32_SHL, \<lambda>a b. Some (FI32 (go_shl a b))),
     (I32_SHR_S, \<lambda>a b. Some (FI32 (go_shr_s a b))),
     (I32_SHR_U, \<lambda>a b. Some (FI32 (go_shr_u a b))),
     (I32_XOR, \<lambda>a b. Some (FI32 (a XOR b))),
     (I32_AND, \<lambda>a b. Some (FI32 (a AND b))),
     (I32_OR, \<lambda>a b. Some (FI32 (a OR b))),
     (I32_EQ, \<lambda>a b. Some (FBool (a = b))),
     (I32_NE, \<lambda>a b. Some (FBool (a \<noteq> b))),
     (I32_LT_S, \<lambda>a b. Some (FBool (lt_s a b))),
     (I32_LT_U, \<lambda>a b. Some (FBool (lt_u a b))),
     (I32_GT_S, \<lambda>a b. Some (FBool (lt_s b a))),
     (I32_GT_U, \<lambda>a b. Some (FBool (lt_u b a))),
     (I32_LE_S, \<lambda>a b. Some (FBool (le_s a b))),
     (I32_LE_U, \<lambda>a b. Some (FBool (le_u a b))),
     (I32_GE_S, \<lambda>a b. Some (FBool (le_s b a))),
     (I32_GE_U, \<lambda>a b. Some (FBool (le_u b a)))]"

definition fold_i32_un :: "fpu \<Rightarrow> (opcode \<times> (32 word \<Rightarrow> folded)) list" where
  "fold_i32_un fl =
    [(I32_EQZ, \<lambda>a. FBool (a = 0)),
     (I32_TO_F32_S, \<lambda>a. FF32 (fp_of_int32 fl (sint a))),
     (I32_TO_F32_U, \<lambda>a. FF32 (fp_of_int32 fl (uint a)))]"

definition fold_i64_bin :: "(opcode \<times> (64 word \<Rightarrow> 64 word \<Rightarrow> folded option)) list" where
  "fold_i64_bin =
    [(I64_ADD, \<lambda>a b. Some (FI64 (a + b))),
     (I64_SUB, \<lambda>a b. Some (FI64 (a - b))),
     (I64_MUL, \<lambda>a b. Some (FI64 (a * b))),
     (I64_DIV_S, \<lambda>a b. if b = 0 then None else Some (FI64 (go_div_s a b))),
     (I64_DIV_U, \<lambda>a b. if b = 0 then None else Some (FI64 (a div b))),
     (I64_REM_S, \<lambda>a b. if b = 0 then None else Some (FI64 (go_rem_s a b))),
     (I64_REM_U, \<lambda>a b. if b = 0 then None else Some (FI64 (a mod b))),
     (I64_SHL, \<lambda>a b. Some (FI64 (go_shl a b))),
     (I64_SHR_S, \<lambda>a b. Some (FI64 (go_shr_s a b))),
     (I64_SHR_U, \<lambda>a b. Some (FI64 (go_shr_u a b))),
     (I64_EQ, \<lambda>a b. Some (FBool (a = b))),
     (I64_NE, \<lambda>a b. Some (FBool (a \<noteq> b))),
     (I64_LT_S, \<lambda>a b. Some (FBool (lt_s a b))),
     (I64_LT_U, \<lambda>a b. Some (FBool (lt_u a b))),
     (I64_GT_S, \<lambda>a b. Some (FBool (lt_s b a))),
     (I64_GT_U, \<lambda>a b. Some (FBool (lt_u b a))),
     (I64_LE_S, \<lambda>a b. Some (FBool (le_s a b))),
     (I64_LE_U, \<lambda>a b. Some (FBool (le_u a b))),
     (I64_GE_S, \<lambda>a b. Some (FBool (le_s b a))),
     (I64_GE_U, \<lambda>a b. Some (FBool (le_u b a)))]"

definition fold_i64_un :: "fpu \<Rightarrow> (opcode \<times> (64 word \<Rightarrow> folded)) list" where
  "fold_i64_un fl =
    [(I64_EQZ, \<lambda>a. FBool (a = 0)),
     (I64_TO_I32, \<lambda>a. FI32 (ucast a)),
     (I64_TO_F32_S, \<lambda>a. FF32 (fp_of_int32 fl (sint a))),
     (I64_TO_F32_U, \<lambda>a. FF32 (fp_of_int32 fl (uint a))),
     (I64_TO_F64_S, \<lambda>a. FF64 (fp_of_int64 fl (sint a))),
     (I64_TO_F64_U, \<lambda>a. FF64 (fp_of_int64 fl (uint a)))]"

definition fold_f32_bin :: "fpu \<Rightarrow> (opcode \<times> (32 word \<Rightarrow> 32 word \<Rightarrow> folded option)) list" where
  "fold_f32_bin fl =
    [(F32_ADD, \<lambda>a b. Some (FF32 (fp_add32 fl a b))),
     (F32_SUB, \<lambda>a b. Some (FF32 (fp_sub32 fl a b))),
     (F32_MUL, \<lambda>a b. Some (FF32 (fp_mul32 fl a b))),
     (F32_DIV, \<lambda>a b. if eq32 b 0 then None else Some (FF32 (fp_div32 fl a b))),
     (F32_REM, \<lambda>a b. if eq32 b 0 then None else Some (FF32 (fp_demote fl (fp_fmod64 fl (promote a) (promote b))))),
     (F32_MOD, \<lambda>a b. if eq32 b 0 then None else Some (FF32 (go_fmod32 fl a b))),
     (F32_EQ, \<lambda>a b. Some (FBool (eq32 a b))),
     (F32_NE, \<lambda>a b. Some (FBool (\<not> eq32 a b))),
     (F32_LT, \<lambda>a b. Some (FBool (lt32 a b))),
     (F32_GT, \<lambda>a b. Some (FBool (lt32 b a))),
     (F32_LE, \<lambda>a b. Some (FBool (le32 a b))),
     (F32_GE, \<lambda>a b. Some (FBool (le32 b a)))]"

definition fold_f32_un :: "fpu \<Rightarrow> (opcode \<times> (32 word \<Rightarrow> folded)) list" where
  "fold_f32_un fl =
    [(F32_TO_I32_U, \<lambda>a. FI32 (go_to32 fl False (promote a))),
     (F32_TO_I32_S, \<lambda>a. FI32 (go_to32 fl True (promote a)))]"

definition fold_f64_bin :: "fpu \<Rightarrow> (opcode \<times> (64 word \<Rightarrow> 64 word \<Rightarrow> folded option)) list" where
  "fold_f64_bin fl =
    [(F64_ADD, \<lambda>a b. Some (FF64 (fp_add64 fl a b))),
     (F64_SUB, \<lambda>a b. Some (FF64 (fp_sub64 fl a b))),
     (F64_MUL, \<lambda>a b. Some (FF64 (fp_mul64 fl a b))),
     (F64_DIV, \<lambda>a b. if eq64 b 0 then None else Some (FF64 (fp_div64 fl a b))),
     (F64_REM, \<lambda>a b. if eq64 b 0 then None else Some (FF64 (fp_fmod64 fl a b))),
     (F64_MOD, \<lambda>a b. if eq64 b 0 then None else Some (FF64 (go_fmod fl a b))),
     (F64_EQ, \<lambda>a b. Some (FBool (eq64 a b))),
     (F64_NE, \<lambda>a b. Some (FBool (\<not> eq64 a b))),
     (F64_LT, \<lambda>a b. Some (FBool (lt64 a b))),
     (F64_GT, \<lambda>a b. Some (FBool (lt64 b a))),
     (F64_LE, \<lambda>a b. Some (FBool (le64 a b))),
     (F64_GE, \<lambda>a b. Some (FBool (le64 b a)))]"

text \<open>In the source the two 32-bit conversions have their signs exchanged.\<close>

definition fold_f64_un :: "fpu \<Rightarrow> (opcode \<times> (64 word \<Rightarrow> folded)) list" where
  "fold_f64_un fl =
    [(F64_TO_I32_S, \<lambda>a. FI32 (go_to32 fl False a)),
     (F64_TO_I32_U, \<lambda>a. FI32 (go_to32 fl True a)),
     (F64_TO_I64_S, \<lambda>a. FI64 (go_to64 fl True a)),
     (F64_TO_I64_U, \<lambda>a. FI64 (go_to64 fl False a)),
     (F64_TO_F32, \<lambda>a. FF32 (fp_demote fl a))]"

text \<open>Go compares strings byte by byte.\<close>

fun str_less :: "string \<Rightarrow> string \<Rightarrow> bool" where
  "str_less [] ys \<longleftrightarrow> ys \<noteq> []"
| "str_less (x # xs) [] \<longleftrightarrow> False"
| "str_less (x # xs) (y # ys) \<longleftrightarrow>
     (of_char x :: nat) < of_char y \<or> x = y \<and> str_less xs ys"

definition fold_str_bin :: "(opcode \<times> (string \<Rightarrow> string \<Rightarrow> folded)) list" where
  "fold_str_bin =
    [(STRING_CONCAT, \<lambda>a b. FStr (a @ b)),
     (STRING_EQ, \<lambda>a b. FBool (a = b)),
     (STRING_NE, \<lambda>a b. FBool (a \<noteq> b)),
     (STRING_LT, \<lambda>a b. FBool (str_less a b)),
     (STRING_GT, \<lambda>a b. FBool (str_less b a)),
     (STRING_LE, \<lambda>a b. FBool (\<not> str_less b a)),
     (STRING_GE, \<lambda>a b. FBool (\<not> str_less a b))]"

section \<open>Windows\<close>

text \<open>
  The window at \<open>ip\<close> in a block ending at \<open>e\<close>: what it folds to and its width.  \<open>lit\<close> is the opcode of the
  literal, \<open>rd\<close> reads its operand.
\<close>

definition fold_pair :: "opcode \<Rightarrow> (64 word \<Rightarrow> 'v) \<Rightarrow> (opcode \<times> ('v \<Rightarrow> 'v \<Rightarrow> folded option)) list \<Rightarrow>
    (opcode \<times> ('v \<Rightarrow> folded)) list \<Rightarrow> code \<Rightarrow> nat \<Rightarrow> nat \<Rightarrow> (folded \<times> nat) option option" where
  "fold_pair lit rd bins uns c ip e =
     Option.bind (instr_width (drop ip c)) (\<lambda>w0. Option.bind (operand (drop ip c) 0) (\<lambda>x0.
       if e \<le> ip + w0 then Some None
       else Option.bind (idx c (ip + w0)) (\<lambda>op1.
         if op1 = lit then
           Option.bind (instr_width (drop (ip + w0) c)) (\<lambda>w1.
             if e \<le> ip + w0 + w1 then Some None
             else Option.bind (operand (drop (ip + w0) c) 0) (\<lambda>x1. Option.bind (idx c (ip + w0 + w1)) (\<lambda>op2.
               Option.bind (instr_width (drop (ip + w0 + w1) c)) (\<lambda>w2.
                 Some (case map_of bins op2 of None \<Rightarrow> None
                   | Some g \<Rightarrow> map_option (\<lambda>r. (r, w0 + w1 + w2)) (g (rd x0) (rd x1)))))))
         else (case map_of uns op1 of None \<Rightarrow> Some None
           | Some g \<Rightarrow> map_option (\<lambda>w1. Some (g (rd x0), w0 + w1)) (instr_width (drop (ip + w0) c))))))"

definition as_str :: "goval \<Rightarrow> string option" where
  "as_str v = (case v of VString s \<Rightarrow> Some s | _ \<Rightarrow> None)"

definition is_codepoints :: "goval \<Rightarrow> bool" where
  "is_codepoints v \<longleftrightarrow> (case v of VSlice t _ \<Rightarrow> t = TArray TI32 | _ \<Rightarrow> False)"

definition fold_strings :: "goval list \<Rightarrow> code \<Rightarrow> nat \<Rightarrow> nat \<Rightarrow> (folded \<times> nat) option option" where
  "fold_strings consts c ip e =
     Option.bind (instr_width (drop ip c)) (\<lambda>w0. Option.bind (operand (drop ip c) 0) (\<lambda>x0.
       if length consts \<le> unat x0 \<or> e \<le> ip + w0 then Some None
       else Option.bind (idx c (ip + w0)) (\<lambda>op1. case as_str (consts ! unat x0) of
         Some a \<Rightarrow>
           if op1 = CONST_GET then
             Option.bind (instr_width (drop (ip + w0) c)) (\<lambda>w1. Option.bind (operand (drop (ip + w0) c) 0) (\<lambda>x1.
               if length consts \<le> unat x1 \<or> e \<le> ip + w0 + w1 then Some None
               else Option.bind (idx c (ip + w0 + w1)) (\<lambda>op2. Option.bind (instr_width (drop (ip + w0 + w1) c)) (\<lambda>w2.
                 Some (case as_str (consts ! unat x1) of
                   Some b \<Rightarrow> map_option (\<lambda>g. (g a b, w0 + w1 + w2)) (map_of fold_str_bin op2)
                 | None \<Rightarrow> None)))))
           else if op1 = STRING_ENCODE_UTF32 then None
           else Some None
       | None \<Rightarrow> if is_codepoints (consts ! unat x0) \<and> op1 = STRING_NEW_UTF32 then None else Some None)))"

definition fold_at :: "fpu \<Rightarrow> goval list \<Rightarrow> code \<Rightarrow> nat \<Rightarrow> nat \<Rightarrow> (folded \<times> nat) option option" where
  "fold_at fl consts c ip e =
     Option.bind (idx c ip) (\<lambda>op.
       if op = I32_CONST then fold_pair I32_CONST ucast fold_i32_bin (fold_i32_un fl) c ip e
       else if op = I64_CONST then fold_pair I64_CONST id fold_i64_bin (fold_i64_un fl) c ip e
       else if op = F32_CONST then fold_pair F32_CONST ucast (fold_f32_bin fl) (fold_f32_un fl) c ip e
       else if op = F64_CONST then fold_pair F64_CONST id (fold_f64_bin fl) (fold_f64_un fl) c ip e
       else if op = CONST_GET then fold_strings consts c ip e
       else Some None)"

section \<open>The pool\<close>

record fold_state =
  fs_prog :: program
  fs_true :: "nat option"
  fs_false :: "nat option"

definition add_const :: "goval \<Rightarrow> fold_state \<Rightarrow> fold_state" where
  "add_const v s = s\<lparr>fs_prog := (fs_prog s)\<lparr>p_constants := p_constants (fs_prog s) @ [v]\<rparr>\<rparr>"

definition bool_const :: "bool \<Rightarrow> fold_state \<Rightarrow> nat \<times> fold_state" where
  "bool_const b s =
     (case if b then fs_true s else fs_false s of Some k \<Rightarrow> (k, s)
      | None \<Rightarrow> let k = length (p_constants (fs_prog s)); s' = add_const (VI1 b) s in
          (k, if b then s'\<lparr>fs_true := Some k\<rparr> else s'\<lparr>fs_false := Some k\<rparr>))"

text \<open>The literal for a result, its pool entry made.\<close>

fun fold_lit :: "folded \<Rightarrow> fold_state \<Rightarrow> (code \<times> fold_state) option" where
  "fold_lit (FI32 w) s = map_option (\<lambda>i. (i, s)) (new_instr I32_CONST [ucast w])"
| "fold_lit (FI64 w) s = map_option (\<lambda>i. (i, s)) (new_instr I64_CONST [w])"
| "fold_lit (FF32 w) s = map_option (\<lambda>i. (i, s)) (new_instr F32_CONST [ucast w])"
| "fold_lit (FF64 w) s = map_option (\<lambda>i. (i, s)) (new_instr F64_CONST [w])"
| "fold_lit (FBool b) s = (let (k, s') = bool_const b s in map_option (\<lambda>i. (i, s')) (new_instr CONST_GET [of_nat k]))"
| "fold_lit (FStr x) s = (let s' = add_const (VString x) s in
     map_option (\<lambda>i. (i, s')) (new_instr CONST_GET [of_nat (length (p_constants (fs_prog s')) - 1)]))"

text \<open>\<^verbatim>\<open>replace\<close>: the literal right-aligned in the window.\<close>

definition fold_bytes :: "code \<Rightarrow> nat \<Rightarrow> nat \<Rightarrow> code \<Rightarrow> code option" where
  "fold_bytes c ip w i =
     (if length c < ip + w \<or> w < length i then None
      else Some (take ip c @ replicate (w - length i) NOP @ i @ drop (ip + w) c))"

section \<open>The pass\<close>

text \<open>The code of the unit is in the program of the state, as every pool entry of that function shows it.\<close>

definition fold_step :: "fpu \<Rightarrow> unit_ref \<Rightarrow> nat \<Rightarrow> nat \<Rightarrow> fold_state \<Rightarrow> (nat \<times> fold_state) option" where
  "fold_step fl u ip e s =
     Option.bind (unit_of_ref (fs_prog s) u) (\<lambda>f.
     Option.bind (fold_at fl (p_constants (fs_prog s)) (fn_code f) ip e) (\<lambda>r. case r of
       None \<Rightarrow> map_option (\<lambda>w. (ip + w, s)) (instr_width (drop ip (fn_code f)))
     | Some (x, w) \<Rightarrow> Option.bind (fold_lit x s) (\<lambda>(i, s').
         map_option (\<lambda>c. (ip + w - length i, s'\<lparr>fs_prog := put_code u c (fn_handlers f) (fs_prog s')\<rparr>))
           (fold_bytes (fn_code f) ip w i))))"

text \<open>A fold leaves the cursor at its literal, past the start of the window.\<close>

fun lit_len :: "folded \<Rightarrow> nat" where
  "lit_len (FI32 _) = 5" | "lit_len (FI64 _) = 9" | "lit_len (FF32 _) = 5" | "lit_len (FF64 _) = 9"
| "lit_len (FBool _) = 3" | "lit_len (FStr _) = 3"

lemma lit_widths [width_simps]:
  "widths (type_of I64_CONST) = [8]" "widths (type_of F32_CONST) = [4]" "widths (type_of F64_CONST) = [8]"
  "widths (type_of CONST_GET) = [2]"
  by code_simp+

lemma lit_valid [simp]: "valid I32_CONST" "valid I64_CONST" "valid F32_CONST" "valid F64_CONST" "valid CONST_GET"
  by code_simp+

lemma lit_width:
  "instr_width i = Some w \<Longrightarrow> i ! 0 = I32_CONST \<or> i ! 0 = F32_CONST \<Longrightarrow> w = 5"
  "instr_width i = Some w \<Longrightarrow> i ! 0 = I64_CONST \<or> i ! 0 = F64_CONST \<Longrightarrow> w = 9"
  "instr_width i = Some w \<Longrightarrow> i ! 0 = CONST_GET \<Longrightarrow> w = 3"
  by (auto simp: instr_width_def instr_type_def idx_def width_simps split: if_splits)

lemma fold_lit_length: "fold_lit r s = Some (i, s') \<Longrightarrow> length i = lit_len r"
  by (cases r) (auto simp: new_instr_def width_simps Let_def split: prod.splits)

lemma bins_len: "lit_len r \<le> 9"
  by (cases r) simp_all

lemma uns_len:
  "(op, g) \<in> set (fold_i32_un fl) \<union> set (fold_f32_un fl) \<Longrightarrow> lit_len (g a) \<le> 5"
  "(op, g') \<in> set (fold_i64_un fl) \<union> set (fold_f64_un fl) \<Longrightarrow> lit_len (g' b) \<le> 9"
  "(op, g'') \<in> set fold_str_bin \<Longrightarrow> lit_len (g'' x y) \<le> 3"
  by (auto simp: fold_i32_un_def fold_f32_un_def fold_i64_un_def fold_f64_un_def fold_str_bin_def)

lemma fold_pair_width:
  assumes "fold_pair lit rd bins uns c ip e = Some (Some (r, w))" "ip < length c" "c ! ip = lit"
    and len: "\<And>i w. instr_width i = Some w \<Longrightarrow> i ! 0 = lit \<Longrightarrow> w = n"
    and "9 \<le> 2 * n" "\<And>op g a. (op, g) \<in> set uns \<Longrightarrow> lit_len (g a) \<le> n"
  shows "lit_len r < w"
proof -
  have n: "instr_width (drop ip c) = Some w0 \<Longrightarrow> w0 = n" for w0
    using len [of "drop ip c" w0] assms(2,3) by simp
  have n1: "instr_width (drop (ip + n) c) = Some w1 \<Longrightarrow> idx c (ip + n) = Some lit \<Longrightarrow> w1 = n" for w1
    using len [of "drop (ip + n) c" w1] by (simp add: idx_Some_iff)
  have b: "lit_len r < n + n + w2" if "instr_width j = Some w2" for j w2
    using instr_width_pos [OF that] bins_len [of r] assms(5) by linarith
  have u: "lit_len (g a) < n + w2" if "map_of uns op = Some g" "instr_width j = Some w2" for g a op j w2
    using instr_width_pos [OF that(2)] assms(6) [OF map_of_SomeD [OF that(1)], of a] by linarith
  show ?thesis
    using assms(1) n n1 b u
    by (auto simp: fold_pair_def bind_eq_Some_conv split: if_splits option.splits)
qed

lemma fold_strings_width:
  assumes "fold_strings consts c ip e = Some (Some (r, w))" "ip < length c" "c ! ip = CONST_GET"
  shows "lit_len r < w"
proof -
  have n: "instr_width (drop ip c) = Some w0 \<Longrightarrow> w0 = 3" for w0
    using lit_width(3) [of "drop ip c" w0] assms(2,3) by simp
  have u: "lit_len (g x y) < 3 + w1 + w2" if "map_of fold_str_bin op = Some g" "instr_width j = Some w2" for g x y op j w1 w2
    using instr_width_pos [OF that(2)] uns_len(3) [OF map_of_SomeD [OF that(1)], of x y] by linarith
  show ?thesis
    using assms(1) n u
    by (auto simp: fold_strings_def bind_eq_Some_conv split: if_splits option.splits)
qed

lemma fold_at_width: "fold_at fl consts c ip e = Some (Some (r, w)) \<Longrightarrow> lit_len r < w"
proof -
  assume f: "fold_at fl consts c ip e = Some (Some (r, w))"
  then have l: "ip < length c" by (auto simp: fold_at_def bind_eq_Some_conv idx_Some_iff)
  from f consider
      "c ! ip = I32_CONST" "fold_pair I32_CONST ucast fold_i32_bin (fold_i32_un fl) c ip e = Some (Some (r, w))"
    | "c ! ip = I64_CONST" "fold_pair I64_CONST id fold_i64_bin (fold_i64_un fl) c ip e = Some (Some (r, w))"
    | "c ! ip = F32_CONST" "fold_pair F32_CONST ucast (fold_f32_bin fl) (fold_f32_un fl) c ip e = Some (Some (r, w))"
    | "c ! ip = F64_CONST" "fold_pair F64_CONST id (fold_f64_bin fl) (fold_f64_un fl) c ip e = Some (Some (r, w))"
    | "c ! ip = CONST_GET" "fold_strings consts c ip e = Some (Some (r, w))"
    by (auto simp: fold_at_def bind_eq_Some_conv idx_Some_iff split: if_splits)
  then show ?thesis
  proof cases
    case 1
    show ?thesis
    proof (rule fold_pair_width [OF 1(2) l 1(1)])
      show "w' = 5" if "instr_width i' = Some w'" "i' ! 0 = I32_CONST" for i' w'
        using lit_width(1) [OF that(1)] that(2) by blast
      show "lit_len (g a) \<le> 5" if "(op, g) \<in> set (fold_i32_un fl)" for op g a
        using that by (auto intro: uns_len(1))
    qed simp
  next
    case 2
    show ?thesis
    proof (rule fold_pair_width [OF 2(2) l 2(1)])
      show "w' = 9" if "instr_width i' = Some w'" "i' ! 0 = I64_CONST" for i' w'
        using lit_width(2) [OF that(1)] that(2) by blast
      show "lit_len (g a) \<le> 9" if "(op, g) \<in> set (fold_i64_un fl)" for op g a
        using that by (auto intro: uns_len(2))
    qed simp
  next
    case 3
    show ?thesis
    proof (rule fold_pair_width [OF 3(2) l 3(1)])
      show "w' = 5" if "instr_width i' = Some w'" "i' ! 0 = F32_CONST" for i' w'
        using lit_width(1) [OF that(1)] that(2) by blast
      show "lit_len (g a) \<le> 5" if "(op, g) \<in> set (fold_f32_un fl)" for op g a
        using that by (auto intro: uns_len(1))
    qed simp
  next
    case 4
    show ?thesis
    proof (rule fold_pair_width [OF 4(2) l 4(1)])
      show "w' = 9" if "instr_width i' = Some w'" "i' ! 0 = F64_CONST" for i' w'
        using lit_width(2) [OF that(1)] that(2) by blast
      show "lit_len (g a) \<le> 9" if "(op, g) \<in> set (fold_f64_un fl)" for op g a
        using that by (auto intro: uns_len(2))
    qed simp
  next
    case 5
    then show ?thesis using fold_strings_width l by blast
  qed
qed

lemma fold_step_progress: "fold_step fl u ip e s = Some (ip', s') \<Longrightarrow> ip < ip'"
  by (auto simp: fold_step_def bind_eq_Some_conv split: option.splits dest!: fold_at_width fold_lit_length instr_width_pos)

function fold_block :: "fpu \<Rightarrow> unit_ref \<Rightarrow> nat \<Rightarrow> nat \<Rightarrow> fold_state \<Rightarrow> fold_state option" where
  "fold_block fl u ip e s =
     (if ip < e then case fold_step fl u ip e s of None \<Rightarrow> None | Some (ip', s') \<Rightarrow> fold_block fl u ip' e s'
      else Some s)"
  by pat_completeness auto
termination
  by (relation "measure (\<lambda>(fl, u, ip, e, s). e - ip)") (auto dest: fold_step_progress)

declare fold_block.simps [simp del]

fun fold_blocks :: "fpu \<Rightarrow> unit_ref \<Rightarrow> block list \<Rightarrow> fold_state \<Rightarrow> fold_state option" where
  "fold_blocks fl u [] s = Some s"
| "fold_blocks fl u (b # bs) s = Option.bind (fold_block fl u (bk_start b) (bk_end b) s) (fold_blocks fl u bs)"

definition fold_pass :: "fpu \<Rightarrow> program \<Rightarrow> program pres" where
  "fold_pass fl p =
     pbind (each_unit fs_prog (\<lambda>i u f bs s. need (fold_blocks fl u bs s) pok) 0 (units_of p) []
              \<lparr>fs_prog = p, fs_true = None, fs_false = None\<rparr>)
       (\<lambda>s. pok (fs_prog s))"

end
