(* ===== verification/FoldRun.thy ===== *)
theory FoldRun
  imports Fold
begin

text \<open>
  Running instructions of decoded code: literals that load a value, handlers that replace values by a
  result, windows of them, and windows that were folded.
\<close>

section \<open>Moving the instruction pointer\<close>

definition here :: "machine \<Rightarrow> bool" where
  "here m \<longleftrightarrow> 0 < m_fp m \<and> m_fp m \<le> length (m_frames m)"

lemma fr_advance: "here m \<Longrightarrow> fr (advance n m) = (fr m)\<lparr>f_ip := f_ip (fr m) + n\<rparr>"
  by (auto simp: here_def fr_def advance_def set_fr_def)

lemma here_simps [simp]: "here (advance n m) = here m" "here (push v m) = here m" "here (popn k m) = here m"
  "here (set_top k v m) = here m"
  by (simp_all add: here_def advance_def set_fr_def push_def popn_def set_top_def poke_def)

lemma advance_advance: "here m \<Longrightarrow> advance b (advance a m) = advance (a + b) m"
  by (auto simp: here_def fr_def advance_def set_fr_def add.assoc)

lemma advance_0: "here m \<Longrightarrow> advance 0 m = m"
  by (auto simp: here_def fr_def advance_def set_fr_def)

lemma advance_push: "push v (advance n m) = advance n (push v m)" "popn k (advance n m) = advance n (popn k m)"
  "set_top k v (advance n m) = advance n (set_top k v m)"
  by (simp_all add: fr_def advance_def set_fr_def push_def popn_def set_top_def poke_def)

lemma at_here: "at m c ip \<Longrightarrow> here m"
  by (simp add: at_def here_def)

lemma at_advance: "at m c ip \<Longrightarrow> at (advance (int n) m) c (ip + n)"
  using fr_advance [of m "int n"] by (auto simp: at_def here_def advance_def set_fr_def)

lemma at_push [simp]: "at (push v m) c ip = at m c ip" "at (popn k m) c ip = at m c ip" "at (set_top k v m) c ip = at m c ip"
  by (simp_all add: at_def push_def popn_def set_top_def poke_def fr_def)

lemma tr_advance [simp]: "here m \<Longrightarrow> f_code (fr (advance n m)) = f_code (fr m)"
  by (simp add: fr_advance)

section \<open>One step\<close>

lemma step_operand:
  assumes "at m c ip" "compiled c ip" "ip < length c" "map_of operand_table (c ! ip) = Some h"
  shows "step rd fl m = map_option (\<lambda>g. after (g m)) (h (f_code (fr m)) ip)"
  using assms by (simp add: step_def at_def code_at_def Let_def)

lemma step_plain:
  assumes "at m c ip" "compiled c ip" "ip < length c" "map_of operand_table (c ! ip) = None"
    "valid (c ! ip)" "map_of (plain_table rd fl) (c ! ip) = Some g"
  shows "step rd fl m = Some (after (g m))"
  using assms by (simp add: step_def at_def code_at_def Let_def)

lemma after_ok [simp]: "after (Inr m) = Running m"
  by (simp add: after_def)

lemma runs_one: "step rd fl m = Some (Running m') \<Longrightarrow> runs rd fl m m'"
  by (auto intro: runs.intros)

text \<open>An instruction of the code that loads a value.\<close>

definition loads :: "(heap \<Rightarrow> boxed \<Rightarrow> string) \<Rightarrow> fpu \<Rightarrow> boxed list \<Rightarrow> code \<Rightarrow> boxed \<Rightarrow> bool" where
  "loads rd fl ks i v \<longleftrightarrow> whole i \<and> (\<forall>m c ip r. at m c ip \<and> compiled c ip \<and> drop ip c = i @ r \<and> \<not> full m
     \<and> tr_constants (f_code (fr m)) = ks \<longrightarrow> step rd fl m = Some (Running (advance (int (length i)) (push v m))))"

text \<open>A handler that replaces two values, or one, by a result.\<close>

definition computes2 :: "(machine \<Rightarrow> run) \<Rightarrow> boxed \<Rightarrow> boxed \<Rightarrow> boxed \<Rightarrow> bool" where
  "computes2 h u v r \<longleftrightarrow> (\<forall>m. 2 \<le> m_sp m \<and> top m 2 = u \<and> top m 1 = v \<longrightarrow> h m = Inr (advance 1 (set_top 1 r (popn 1 m))))"

definition computes1 :: "(machine \<Rightarrow> run) \<Rightarrow> boxed \<Rightarrow> boxed \<Rightarrow> bool" where
  "computes1 h u r \<longleftrightarrow> (\<forall>m. 1 \<le> m_sp m \<and> top m 1 = u \<longrightarrow> h m = Inr (advance 1 (set_top 1 r m)))"

definition plain_op :: "(heap \<Rightarrow> boxed \<Rightarrow> string) \<Rightarrow> fpu \<Rightarrow> opcode \<Rightarrow> (machine \<Rightarrow> run) \<Rightarrow> bool" where
  "plain_op rd fl op h \<longleftrightarrow> map_of operand_table op = None \<and> valid op \<and> map_of (plain_table rd fl) op = Some h"

lemma code_place:
  assumes "unmarshal c = Some (pre @ i # post)" "ip = length (concat pre)"
  shows "compiled c ip" "drop ip c = i @ concat post" "whole i" "ip < length c" "c ! ip = i ! 0"
proof -
  have c: "concat (pre @ i # post) = c" "\<forall>j\<in>set (pre @ i # post). instr_width j = Some (length j)"
    using dec.walk_sound assms(1) unfolding unmarshal_def by blast+
  show "compiled c ip" using compiled_nth [OF assms(1), of "length pre"] assms(2) by simp
  show w: "whole i" using c(2) by (simp add: whole_def)
  show "drop ip c = i @ concat post" using c(1) assms(2) by auto
  then show "ip < length c" "c ! ip = i ! 0" using c(1) assms(2) whole_pos [OF w] by (auto simp: nth_append)
qed

lemma loads_step:
  assumes "loads rd fl ks i v" "at m c ip" "unmarshal c = Some (pre @ i # post)" "ip = length (concat pre)"
    "\<not> full m" "tr_constants (f_code (fr m)) = ks"
  shows "step rd fl m = Some (Running (advance (int (length i)) (push v m)))"
  using assms code_place [OF assms(3,4)] unfolding loads_def by blast

lemma op_step:
  assumes "plain_op rd fl op h" "at m c ip" "unmarshal c = Some (pre @ [op] # post)" "ip = length (concat pre)"
  shows "step rd fl m = Some (after (h m))"
  using step_plain [OF assms(2) code_place(1,4) [OF assms(3,4)]] code_place(5) [OF assms(3,4)] assms(1)
  by (simp add: plain_op_def)

lemma window2:
  assumes m: "at m c ip" "tr_constants (f_code (fr m)) = ks" "m_sp m + 2 \<le> length (m_stack m)"
    and c: "unmarshal c = Some (pre @ [i0, i1, [op]] @ post)" "ip = length (concat pre)"
    and p: "loads rd fl ks i0 u" "loads rd fl ks i1 v" and o: "plain_op rd fl op h" "computes2 h u v r"
  shows "runs rd fl m (advance (int (length i0 + length i1 + 1)) (set_top 1 r (popn 1 (push v (push u m)))))"
proof -
  let ?m1 = "advance (int (length i0)) (push u m)"
  let ?m2 = "advance (int (length i1)) (push v ?m1)"
  have h: "here m" using at_here [OF m(1)] .
  have s0: "step rd fl m = Some (Running ?m1)"
    by (rule loads_step [OF p(1) m(1)]) (use c m in \<open>auto simp: full_def\<close>)
  have a1: "at ?m1 c (ip + length i0)" using at_advance [of "push u m" c ip] m(1) by simp
  have s1: "step rd fl ?m1 = Some (Running ?m2)"
    by (rule loads_step [OF p(2) a1, of "pre @ [i0]"]) (use c m h in \<open>auto simp: full_def\<close>)
  have a2: "at ?m2 c (ip + length i0 + length i1)" using at_advance [of "push v ?m1" c "ip + length i0"] a1 by simp
  have s2: "step rd fl ?m2 = Some (after (h ?m2))"
    by (rule op_step [OF o(1) a2, of "pre @ [i0, i1]"]) (use c in auto)
  have "top ?m2 1 = v" "top ?m2 2 = u" "2 \<le> m_sp ?m2"
    using m(3) by (simp_all add: top_def nth_list_update)
  then have "h ?m2 = Inr (advance 1 (set_top 1 r (popn 1 ?m2)))" using o(2) by (simp add: computes2_def)
  moreover have "advance 1 (set_top 1 r (popn 1 ?m2)) = advance (int (length i0 + length i1 + 1)) (set_top 1 r (popn 1 (push v (push u m))))"
    using h by (simp add: advance_push advance_advance algebra_simps)
  ultimately show ?thesis using s0 s1 s2 by (metis after_ok runs_refl runs_step)
qed

lemma window1:
  assumes m: "at m c ip" "tr_constants (f_code (fr m)) = ks" "m_sp m + 2 \<le> length (m_stack m)"
    and c: "unmarshal c = Some (pre @ [i0, [op]] @ post)" "ip = length (concat pre)"
    and p: "loads rd fl ks i0 u" and o: "plain_op rd fl op h" "computes1 h u r"
  shows "runs rd fl m (advance (int (length i0 + 1)) (set_top 1 r (push u m)))"
proof -
  let ?m1 = "advance (int (length i0)) (push u m)"
  have h: "here m" using at_here [OF m(1)] .
  have s0: "step rd fl m = Some (Running ?m1)"
    by (rule loads_step [OF p(1) m(1)]) (use c m in \<open>auto simp: full_def\<close>)
  have a1: "at ?m1 c (ip + length i0)" using at_advance [of "push u m" c ip] m(1) by simp
  have s1: "step rd fl ?m1 = Some (after (h ?m1))"
    by (rule op_step [OF o(1) a1, of "pre @ [i0]"]) (use c in auto)
  have "top ?m1 1 = u" "1 \<le> m_sp ?m1" using m(3) by (simp_all add: top_def)
  then have "h ?m1 = Inr (advance 1 (set_top 1 r ?m1))" using o(2) by (simp add: computes1_def)
  moreover have "advance 1 (set_top 1 r ?m1) = advance (int (length i0 + 1)) (set_top 1 r (push u m))"
    using h by (simp add: advance_push advance_advance algebra_simps)
  ultimately show ?thesis using s0 s1 by (metis after_ok runs_refl runs_step)
qed

lemma nop_table: "map_of operand_table NOP = Some op_nop"
  by (simp add: operand_table_def)

lemma run_nops:
  assumes "at m c ip" "unmarshal c = Some (pre @ replicate k [NOP] @ post)" "ip = length (concat pre)"
    "tr_exact (f_code (fr m))"
  shows "runs rd fl m (advance (int k) m)"
  using assms
proof (induction k arbitrary: m ip pre)
  case 0
  then show ?case using advance_0 [OF at_here [OF 0(1)]] by (simp add: runs_refl)
next
  case (Suc k)
  have h: "here m" using at_here [OF Suc.prems(1)] .
  have u: "unmarshal c = Some (pre @ [NOP] # (replicate k [NOP] @ post))" using Suc.prems(2) by simp
  note pl = code_place [OF u Suc.prems(3)]
  have "step rd fl m = Some (Running (advance 1 m))"
    using step_operand [OF Suc.prems(1) pl(1,4)] pl(5) Suc.prems(4) by (simp add: nop_table op_nop_def Let_def)
  moreover have "runs rd fl (advance 1 m) (advance (int k) (advance 1 m))"
    by (rule Suc.IH [of _ "Suc ip" "pre @ [[NOP]]"])
      (use Suc.prems u h at_advance [OF Suc.prems(1), of 1] in auto)
  ultimately show ?case using h by (auto simp: advance_advance intro: runs_step)
qed

lemma window_folded:
  assumes m: "at m c ip" "tr_constants (f_code (fr m)) = ks" "m_sp m < length (m_stack m)" "tr_exact (f_code (fr m))"
    and c: "unmarshal c = Some (pre @ replicate k [NOP] @ [i] @ post)" "ip = length (concat pre)"
    and p: "loads rd fl ks i r"
  shows "runs rd fl m (advance (int (k + length i)) (push r m))"
proof -
  have h: "here m" using at_here [OF m(1)] .
  have n: "runs rd fl m (advance (int k) m)" using run_nops [OF m(1) c m(4)] .
  have a: "at (advance (int k) m) c (ip + k)" using at_advance [OF m(1)] .
  have "step rd fl (advance (int k) m) = Some (Running (advance (int (length i)) (push r (advance (int k) m))))"
    by (rule loads_step [OF p a, of "pre @ replicate k [NOP]"]) (use c m h in \<open>auto simp: full_def\<close>)
  then have "runs rd fl (advance (int k) m) (advance (int (k + length i)) (push r m))"
    using h by (intro runs_one) (simp add: advance_push advance_advance)
  then show ?thesis using n runs_trans by blast
qed

section \<open>The literals\<close>

lemma lit_operand: "whole i \<Longrightarrow> valid (i ! 0) \<Longrightarrow> operand (i @ r) k = operand i k"
  by (simp add: operand_def operands_append whole_def)

lemma lit_tables:
  "map_of operand_table I32_CONST = Some op_i32_const" "map_of operand_table I64_CONST = Some op_i64_const"
  "map_of operand_table F32_CONST = Some op_f32_const" "map_of operand_table F64_CONST = Some op_f64_const"
  "map_of operand_table CONST_GET = Some op_const_get"
  by (simp_all add: operand_table_def)

lemma loadsI:
  assumes "whole i" "map_of operand_table (i ! 0) = Some h"
    and "\<And>m ip r. tr_constants (f_code (fr m)) = ks \<Longrightarrow> drop ip (tr_code (f_code (fr m))) = i @ r \<Longrightarrow> \<not> full m \<Longrightarrow>
      \<exists>g. h (f_code (fr m)) ip = Some g \<and> g m = Inr (advance (int (length i)) (push v m))"
  shows "loads rd fl ks i v"
  unfolding loads_def
proof (intro conjI allI impI)
  fix m c ip r
  assume a: "at m c ip \<and> compiled c ip \<and> drop ip c = i @ r \<and> \<not> full m \<and> tr_constants (f_code (fr m)) = ks"
  have c: "tr_code (f_code (fr m)) = c" using a by (simp add: at_def)
  have l: "ip < length c" using a whole_pos [OF assms(1)] by (metis append_is_Nil_conv drop_eq_Nil leI length_greater_0_conv)
  have "c ! ip = i ! 0" using a whole_hd [OF assms(1), of r] l by (metis add.right_neutral nth_drop less_imp_le)
  then have st: "step rd fl m = map_option (\<lambda>g. after (g m)) (h (f_code (fr m)) ip)"
    using step_operand [of m c ip h] a l assms(2) by simp
  from assms(3) [of m ip r] a c show "step rd fl m = Some (Running (advance (int (length i)) (push v m)))"
    using st by auto
qed (rule assms(1))

lemma as_f32_boxed: "as_f32 (box (ucast (w :: 32 word)) KindF32) = w"
  using as_f32_box [of w] by (simp add: box_f32_def)

lemma lit_loads:
  assumes w: "whole i" and o: "operand i 0 = Some x"
  shows "i ! 0 = I32_CONST \<Longrightarrow> loads rd fl ks i (box_i32 (ucast x))"
    and "i ! 0 = I64_CONST \<Longrightarrow> is_boxable x \<Longrightarrow> loads rd fl ks i (box_i64 x)"
    and "i ! 0 = F32_CONST \<Longrightarrow> loads rd fl ks i (box_f32 (ucast x))"
    and "i ! 0 = F64_CONST \<Longrightarrow> loads rd fl ks i (box_f64 x)"
proof -
  have op: "operand (i @ r) 0 = Some x" if "valid (i ! 0)" for r using lit_operand [OF w that, of r 0] o by simp
  show "loads rd fl ks i (box_i32 (ucast x))" if h: "i ! 0 = I32_CONST"
    by (rule loadsI [OF w]) (use lit_tables h op lit_width(1) [of i "length i"] w in
      \<open>auto simp: op_i32_const_def do_push_def whole_def\<close>)
  show "loads rd fl ks i (box_i64 x)" if h: "i ! 0 = I64_CONST" "is_boxable x"
    by (rule loadsI [OF w]) (use lit_tables h op lit_width(2) [of i "length i"] w in
      \<open>auto simp: op_i64_const_def with_box64_def whole_def\<close>)
  show "loads rd fl ks i (box_f32 (ucast x))" if h: "i ! 0 = F32_CONST"
    by (rule loadsI [OF w]) (use lit_tables h op lit_width(1) [of i "length i"] w in
      \<open>auto simp: op_f32_const_def do_push_def whole_def as_f32_boxed\<close>)
  show "loads rd fl ks i (box_f64 x)" if h: "i ! 0 = F64_CONST"
    by (rule loadsI [OF w]) (use lit_tables h op lit_width(2) [of i "length i"] w in
      \<open>auto simp: op_f64_const_def do_push_def whole_def as_f64_def\<close>)
qed

lemma new_lit:
  assumes "new_instr op [x] = Some i" "valid op" "widths (type_of op) = [w]" "0 < w"
  shows "whole i" "i ! 0 = op" "operand i 0 = Some (take_bit (8 * nat w) x)"
proof -
  have f: "counts_fit (widths (type_of op)) [x]" using assms(3,4) by simp
  note d = new_instr_decode(1,2) [OF assms(1,2) f, of "[]"] and h = new_instr_decode(4) [OF assms(1,2) f]
  show "whole i" "i ! 0 = op" using d(1) h by (simp_all add: whole_def)
  show "operand i 0 = Some (take_bit (8 * nat w) x)" using d(2) assms(3,4) by (simp add: operand_def)
qed

lemma single_set:
  assumes "whole i" "valid (i ! 0)" "widths (type_of (i ! 0)) = [int w]" "0 < w" "w \<le> 8"
  obtains i' where "set_operand (i @ c) 0 n = Some (i' @ c)" "whole i'" "i' ! 0 = i ! 0" "length i' = length i"
    "operand i' 0 = Some (take_bit (8 * w) n)"
proof -
  have l: "length i = Suc w"
    using assms(1,3,4) whole_pos [OF assms(1)] by (auto simp: whole_def instr_width_def instr_type_def idx_def)
  have s: "set_operand i 0 n = Some (i ! 0 # le_bytes w n)"
    using l assms(3,4) by (cases i) (simp_all add: set_operand_def instr_type_def idx_def write_word_def)
  have e: "new_instr (i ! 0) [n] = Some (i ! 0 # le_bytes w n)"
    using assms(2-4) by (simp add: new_instr_def)
  note nl = new_lit [OF e assms(2,3)]
  show thesis
  proof (rule that)
    show "set_operand (i @ c) 0 n = Some ((i ! 0 # le_bytes w n) @ c)" by (rule set_operand_append [OF assms(1) s])
    show "whole (i ! 0 # le_bytes w n)" using nl(1) assms(4) by simp
    show "operand (i ! 0 # le_bytes w n) 0 = Some (take_bit (8 * w) n)"
      using nl(3) assms(4) by simp
    show "length (i ! 0 # le_bytes w n) = length i" using l by simp
  qed simp
qed

lemma const_get_loads:
  assumes "new_instr CONST_GET [of_nat k] = Some i" "k < 65536" "k < length ks" "ks ! k = v" "boxed_kind v \<noteq> KindRef"
  shows "loads rd fl ks i v"
proof -
  note n = new_lit [OF assms(1) lit_valid(5) lit_widths(4)]
  have i: "i = [CONST_GET, ucast (of_nat k :: 64 word), ucast (drop_bit 8 (of_nat k :: 64 word))]"
    using assms(1) by (simp add: new_instr_def width_simps numeral_2_eq_2)
  have u: "uint ((ucast (ucast (of_nat k :: 64 word) :: byte) :: 16 word) OR push_bit 8 (ucast (ucast (drop_bit 8 (of_nat k :: 64 word)) :: byte))) = int k"
  proof -
    have "(ucast (ucast (of_nat k :: 64 word) :: byte) :: 16 word) OR push_bit 8 (ucast (ucast (drop_bit 8 (of_nat k :: 64 word)) :: byte)) = of_nat k"
      by (rule bit_word_eqI) (auto simp: bit_simps)
    then show ?thesis using assms(2) by (simp add: unsigned_of_nat take_bit_nat_eq_self)
  qed
  show ?thesis
  proof (rule loadsI)
    show "whole i" using n(1) by simp
    show "map_of operand_table (i ! 0) = Some op_const_get" using n(2) lit_tables(5) by simp
    fix m ip r
    assume a: "tr_constants (f_code (fr m)) = ks" "drop ip (tr_code (f_code (fr m))) = i @ r" "\<not> full m"
    let ?c = "tr_code (f_code (fr m))"
    have "idx ?c (ip + 1) = Some (i ! 1)" "idx ?c (ip + 2) = Some (i ! 2)"
    proof -
      have "length ?c - ip = 3 + length r" using arg_cong [OF a(2), of length] i by simp
      then have l: "ip + 1 < length ?c" "ip + 2 < length ?c" by simp_all
      have le: "ip \<le> length ?c" using l by simp
      have "?c ! (ip + 1) = (i @ r) ! 1" "?c ! (ip + 2) = (i @ r) ! 2"
        using nth_drop [OF le, of 1] nth_drop [OF le, of 2] a(2) by simp_all
      then show "idx ?c (ip + 1) = Some (i ! 1)" "idx ?c (ip + 2) = Some (i ! 2)" using l i by (simp_all add: idx_def)
    qed
    then have "parse_u16 ?c (ip + 1) = Some (int k)" using u i by (simp add: parse_u16_def)
    then show "\<exists>g. op_const_get (f_code (fr m)) ip = Some g \<and> g m = Inr (advance (int (length i)) (push v m))"
      using a assms(3-5) i by (simp add: op_const_get_def do_const_def)
  qed
qed
section \<open>Decoded code\<close>

lemma code_next:
  assumes "unmarshal c = Some (pre @ post)" "idx c (length (concat pre)) = Some op"
  obtains i post' where "post = i # post'" "i ! 0 = op"
proof (cases post)
  case Nil
  then have "concat pre = c" using dec.walk_sound assms(1) unfolding unmarshal_def by fastforce
  then show thesis using assms(2) by (simp add: idx_def)
next
  case (Cons i post')
  have "c ! length (concat pre) = i ! 0"
    using code_place(5) [of c pre i post'] assms(1) Cons by simp
  then show thesis using that [OF Cons] assms(2) by (simp add: idx_Some_iff)
qed

lemma place_facts:
  assumes "unmarshal c = Some (pre @ i # post)" "ip = length (concat pre)"
  shows "instr_width (drop ip c) = Some (length i)" "valid (i ! 0) \<Longrightarrow> operand (drop ip c) k = operand i k"
  using code_place [OF assms] lit_operand whole_at by simp_all
lemma decoded:
  assumes "unmarshal c = Some is"
  shows "concat is = c" "\<forall>i\<in>set is. whole i"
  using dec.walk_sound assms unfolding unmarshal_def whole_def by blast+

lemma decodes: "\<forall>i\<in>set is. whole i \<Longrightarrow> unmarshal (concat is) = Some is"
  unfolding unmarshal_def whole_def by (rule dec.walk_concat)

lemma whole_single: "widths (type_of op) = [] \<Longrightarrow> whole [op]"
  by (simp add: whole_def instr_width_def instr_type_def idx_def)

end
