(* ===== verification/FoldOps.thy ===== *)
theory FoldOps
  imports FoldRun
begin

text \<open>
  Every entry of the folding tables computes what the handler of its opcode computes, by comparing the
  tables entry by entry.
\<close>

section \<open>The tables\<close>

lemmas plain_defs = plain_table_def stack_ops_def scalar32_def scalar64_def float_ops_def ref_ops_def table_defs
  i64_arith_def i64_bits_def i64_compare_def i64_convert_def i64_reinterpret_def
  f32_arith_def f32_select_def f32_convert_def f64_arith_def f64_select_def f64_convert_def int_to_float_def long_to_float_def

lemma plain_distinct: "distinct (map fst (plain_table rd fl))"
proof -
  have "distinct (map unat (map fst (plain_table rd fl)))" by (simp add: plain_defs)
  then show ?thesis unfolding distinct_map by blast
qed

lemma plain_keys: "op \<in> set (map fst (plain_table rd fl)) \<Longrightarrow> op \<notin> set (map fst operand_table)"
proof -
  have "distinct (map unat (map fst (plain_table rd fl) @ map fst operand_table))"
    by (simp add: plain_defs operand_table_def)
  then have "distinct (map fst (plain_table rd fl) @ map fst operand_table)" unfolding distinct_map by blast
  then show "op \<in> set (map fst (plain_table rd fl)) \<Longrightarrow> op \<notin> set (map fst operand_table)" by auto
qed

lemma valid_mem: "valid op \<longleftrightarrow> op \<in> set (map fst types)"
  by (force simp: valid_def map_of_eq_None_iff)

lemma plain_opI: "(op, h) \<in> set (plain_table rd fl) \<Longrightarrow> op \<in> set (map fst types) \<Longrightarrow> plain_op rd fl op h"
  using plain_keys [of op rd fl] plain_distinct [of rd fl]
  by (force simp: plain_op_def valid_mem map_of_eq_None_iff)

fun fold_box :: "folded \<Rightarrow> boxed" where
  "fold_box (FI32 w) = box_i32 w" | "fold_box (FI64 w) = box_i64 w" | "fold_box (FF32 w) = box_f32 w"
| "fold_box (FF64 w) = box_f64 w" | "fold_box (FBool b) = box_i1 b" | "fold_box (FStr s) = boxed_null"

lemma bitop_i32:
  "box_xor (box_i32 a) (box_i32 b) = box_i32 (a XOR b)" "box_and (box_i32 a) (box_i32 b) = box_i32 (a AND b)"
  "box_or (box_i32 a) (box_i32 b) = box_i32 (a OR b)"
proof -
  define t where "t = (push_bit 52 0x7FF OR push_bit 49 (kind_tag KindI32) :: 64 word)"
  have b: "box_i32 x = t OR ucast x" for x unfolding box_i32_def box_def t_def by (simp only: or.assoc)
  have "t AND vmask = 0" by (simp add: t_def vmask_def)
  then have t: "\<not> (bit t n \<and> bit vmask n)" for n by (metis bit_0_eq bit_and_iff bot_apply bot_bool_def)
  have u: "bit vmask n" if "bit (ucast x :: 64 word) n" for x :: "32 word" and n
    using arg_cong [OF ucast32_payload [of x], of "\<lambda>w. bit w n"] that by (simp add: bit_and_iff)
  have w: "ucast (x XOR y) = (ucast x XOR ucast y :: 64 word)" "ucast (x AND y) = (ucast x AND ucast y :: 64 word)"
    "ucast (x OR y) = (ucast x OR ucast y :: 64 word)" for x y :: "32 word"
    by (rule bit_word_eqI; auto simp: bit_simps)+
  show "box_xor (box_i32 a) (box_i32 b) = box_i32 (a XOR b)" "box_and (box_i32 a) (box_i32 b) = box_i32 (a AND b)"
    "box_or (box_i32 a) (box_i32 b) = box_i32 (a OR b)"
    unfolding b w box_xor_def box_and_def box_or_def
    by (rule bit_word_eqI; use t u in \<open>auto simp: bit_and_iff bit_or_iff bit_xor_iff bit_not_iff\<close>)+
qed

lemma computes_shapes:
  "computes2 (do_bin f) u v (f u v)" "computes1 (do_un g) u (g u)"
  "computes2 (bin32 f32) (box_i32 a) (box_i32 b) (box_i32 (f32 a b))"
  "computes2 (cmp32 p32) (box_i32 a) (box_i32 b) (box_i1 (p32 a b))"
  "b \<noteq> 0 \<Longrightarrow> computes2 (div32 f32) (box_i32 a) (box_i32 b) (box_i32 (f32 a b))"
  "computes2 (fbin32 f32) (box_f32 a) (box_f32 b) (box_f32 (f32 a b))"
  "computes2 (fcmp32 p32) (box_f32 a) (box_f32 b) (box_i1 (p32 a b))"
  "\<not> eq32 b 0 \<Longrightarrow> computes2 (fdiv32 f32) (box_f32 a) (box_f32 b) (box_f32 (f32 a b))"
  "computes2 (fbin64 f64) (box_f64 c) (box_f64 d) (box_f64 (f64 c d))"
  "computes2 (fcmp64 p64) (box_f64 c) (box_f64 d) (box_i1 (p64 c d))"
  "\<not> eq64 d 0 \<Longrightarrow> computes2 (fdiv64 f64) (box_f64 c) (box_f64 d) (box_f64 (f64 c d))"
  by (auto simp: computes2_def computes1_def do_bin_def do_un_def bin32_def cmp32_def div32_def fbin32_def fcmp32_def
    fdiv32_def fbin64_def fcmp64_def fdiv64_def as_f64_def box_f64_def)

lemma unbox_inline: "is_boxable x \<Longrightarrow> unbox_i64 (box_i64 x) h = Inr (x, h)"
  by (simp add: unbox_i64_def as_i64_box_iff)

lemma computes_64:
  assumes "is_boxable x" "is_boxable y"
  shows "is_boxable (f x y) \<Longrightarrow> computes2 (do_bin64 f) (box_i64 x) (box_i64 y) (box_i64 (f x y))"
    and "computes2 (do_cmp64 p) (box_i64 x) (box_i64 y) (box_i1 (p x y))"
    and "y \<noteq> 0 \<Longrightarrow> is_boxable (f x y) \<Longrightarrow> computes2 (do_div64 f) (box_i64 x) (box_i64 y) (box_i64 (f x y))"
    and "computes1 (do_test64 g) (box_i64 x) (g x)"
  using assms unbox_inline
  by (auto simp: computes2_def computes1_def do_bin64_def do_cmp64_def do_div64_def do_test64_def
    with_unbox64_def with_box64_def)

lemma computes_bits:
  "computes2 (do_bin box_xor) (box_i32 a) (box_i32 b) (box_i32 (a XOR b))"
  "computes2 (do_bin box_and) (box_i32 a) (box_i32 b) (box_i32 (a AND b))"
  "computes2 (do_bin box_or) (box_i32 a) (box_i32 b) (box_i32 (a OR b))"
  using computes_shapes(1) [of box_xor "box_i32 a" "box_i32 b"] computes_shapes(1) [of box_and "box_i32 a" "box_i32 b"]
    computes_shapes(1) [of box_or "box_i32 a" "box_i32 b"] by (simp_all add: bitop_i32)

lemmas shape_defs = do_bin_def do_un_def bin32_def cmp32_def div32_def fbin32_def fcmp32_def
    fdiv32_def fbin64_def fcmp64_def fdiv64_def as_f64_def box_f64_def bitop_i32

lemma i64_bins:
  "list_all (\<lambda>(op, g). \<exists>h. map_of (i64_arith @ i64_bits @ i64_compare @ i64_convert) op = Some h
     \<and> (\<forall>a b r. g a b = Some r \<and> is_boxable a \<and> is_boxable b \<and> (\<forall>w. r = FI64 w \<longrightarrow> is_boxable w)
          \<longrightarrow> computes2 h (box_i64 a) (box_i64 b) (fold_box r))) fold_i64_bin"
  unfolding fold_i64_bin_def list.pred_inject prod.case
  by (intro conjI list.pred_inject(1);
    (rule exI, rule conjI, (simp add: i64_arith_def i64_bits_def i64_compare_def i64_convert_def; fail),
      (auto intro!: computes_64 split: if_splits; fail)))

lemma i32_bins:
  "list_all (\<lambda>(op, g). \<exists>h. map_of scalar32 op = Some h
     \<and> (\<forall>a b r. g a b = Some r \<longrightarrow> computes2 h (box_i32 a) (box_i32 b) (fold_box r))) fold_i32_bin"
  unfolding fold_i32_bin_def list.pred_inject prod.case
  by (intro conjI list.pred_inject(1);
    (rule exI, rule conjI, (simp add: scalar32_def table_defs; fail),
      (auto intro!: computes_shapes computes_bits split: if_splits; fail)))

lemma f32_bins:
  "list_all (\<lambda>(op, g). \<exists>h. map_of (f32_arith fl @ f32_select fl) op = Some h
     \<and> (\<forall>a b r. g a b = Some r \<longrightarrow> computes2 h (box_f32 a) (box_f32 b) (fold_box r))) (fold_f32_bin fl)"
  unfolding fold_f32_bin_def list.pred_inject prod.case
  by (intro conjI list.pred_inject(1);
    (rule exI, rule conjI, (simp add: f32_arith_def f32_select_def; fail),
      (auto intro!: computes_shapes split: if_splits; fail)))

lemma f64_bins:
  "list_all (\<lambda>(op, g). \<exists>h. map_of (f64_arith fl @ f64_select fl) op = Some h
     \<and> (\<forall>a b r. g a b = Some r \<longrightarrow> computes2 h (box_f64 a) (box_f64 b) (fold_box r))) (fold_f64_bin fl)"
  unfolding fold_f64_bin_def list.pred_inject prod.case
  by (intro conjI list.pred_inject(1);
    (rule exI, rule conjI, (simp add: f64_arith_def f64_select_def; fail),
      (auto intro!: computes_shapes split: if_splits; fail)))

lemma i32_uns:
  "list_all (\<lambda>(op, g). \<exists>h. map_of (scalar32 @ int_to_float fl) op = Some h
     \<and> (\<forall>a. computes1 h (box_i32 a) (fold_box (g a)))) (fold_i32_un fl)"
  unfolding fold_i32_un_def list.pred_inject prod.case
  by (intro conjI list.pred_inject(1);
    (rule exI, rule conjI, (simp add: scalar32_def table_defs int_to_float_def; fail),
      (simp add: computes1_def shape_defs; fail)))

lemma i64_uns:
  "list_all (\<lambda>(op, g). \<exists>h. map_of (i64_arith @ i64_bits @ i64_compare @ i64_convert @ long_to_float fl) op = Some h
     \<and> (\<forall>a. is_boxable a \<longrightarrow> computes1 h (box_i64 a) (fold_box (g a)))) (fold_i64_un fl)"
  unfolding fold_i64_un_def list.pred_inject prod.case
  by (intro conjI list.pred_inject(1);
    (rule exI, rule conjI, (simp add: i64_arith_def i64_bits_def i64_compare_def i64_convert_def long_to_float_def; fail),
      (simp add: computes1_def do_test64_def with_unbox64_def unbox_inline; fail)))

lemma f64_uns:
  "computes1 (do_un (\<lambda>a. box_f32 (fp_demote fl (as_f64 a)))) (box_f64 a) (box_f32 (fp_demote fl a))"
  "map_of (f64_convert fl) F64_TO_F32 = Some (do_un (\<lambda>a. box_f32 (fp_demote fl (as_f64 a))))"
  by (simp add: computes1_def shape_defs) (simp add: f64_convert_def)

section \<open>Opcodes without operands\<close>

text \<open>The opcodes with operands.\<close>

definition wide :: "opcode list" where
  "wide = [BR, BR_IF, BR_TABLE, GLOBAL_GET, GLOBAL_SET, GLOBAL_TEE, LOCAL_GET, LOCAL_SET, LOCAL_TEE, CONST_GET,
     REF_TEST, REF_CAST, I32_CONST, I64_CONST, F32_CONST, F64_CONST, ARRAY_NEW, ARRAY_NEW_DEFAULT, STRUCT_NEW,
     STRUCT_NEW_DEFAULT, MAP_NEW, MAP_NEW_DEFAULT, UPVAL_GET, UPVAL_SET]"

lemma types_wide: "list_all (\<lambda>(op, t). widths t = [] \<or> op \<in> set wide) types"
  by code_simp

lemma types_keys: "distinct (map unat (map fst types))" "length types = 210" "list_all (\<lambda>k. k < 210) (map unat (map fst types))"
  by (simp_all add: types_defs)

lemma valid_less: "unat op < 210 \<Longrightarrow> op \<in> set (map fst types)"
proof -
  assume "unat op < 210"
  moreover have "set (map unat (map fst types)) = {..<210}"
  proof (rule card_subset_eq)
    show "set (map unat (map fst types)) \<subseteq> {..<210}" using types_keys(3) by (auto simp: list_all_iff)
    show "card (set (map unat (map fst types))) = card {..<210::nat}"
      using distinct_card [OF types_keys(1)] types_keys(2) by (simp del: set_map)
  qed simp
  ultimately have "unat op \<in> unat ` set (map fst types)" by (simp del: set_map flip: list.set_map)
  then show ?thesis by (metis imageE word_unat_eq_iff)
qed

lemma type_entry:
  assumes "(op, t) \<in> set types"
  shows "valid op" "type_of op = t"
proof -
  have "distinct (map fst types)" using types_keys(1) unfolding distinct_map by blast
  then have "map_of types op = Some t" using assms by (rule map_of_is_SomeI)
  then show "valid op" "type_of op = t" by (simp_all add: valid_def type_of_def)
qed

lemma plain_simple: "list_all (\<lambda>op. unat op < 210 \<and> op \<notin> set wide) (map fst (plain_table rd fl))"
  by (simp add: plain_defs wide_def)

lemma narrow: "valid op \<Longrightarrow> op \<notin> set wide \<Longrightarrow> widths (type_of op) = []"
  using types_wide by (fastforce simp: valid_def type_of_def list_all_iff dest: map_of_SomeD)

lemma plain_entry:
  assumes "(op, h) \<in> set (plain_table rd fl)"
  shows "plain_op rd fl op h" "widths (type_of op) = []"
proof -
  have "op \<in> set (map fst types)" "op \<notin> set wide"
    using plain_simple [of rd fl] assms valid_less [of op] by (force simp: list_all_iff)+
  then show "plain_op rd fl op h" "widths (type_of op) = []"
    using plain_opI [OF assms] narrow by (simp_all add: valid_mem)
qed

lemma simple_whole: "whole i \<Longrightarrow> widths (type_of (i ! 0)) = [] \<Longrightarrow> i = [i ! 0]"
  using whole_pos [of i]
  by (cases i) (auto simp: whole_def instr_width_def instr_type_def idx_def)
lemma table_simple:
  "op \<in> fst ` set fold_i32_bin \<union> fst ` set (fold_i32_un fl) \<Longrightarrow> widths (type_of op) = []"
  "op \<in> fst ` set fold_i64_bin \<union> fst ` set (fold_i64_un fl) \<Longrightarrow> widths (type_of op) = []"
  "op \<in> fst ` set (fold_f32_bin fl) \<union> fst ` set (fold_f32_un fl) \<Longrightarrow> widths (type_of op) = []"
  "op \<in> fst ` set (fold_f64_bin fl) \<union> fst ` set (fold_f64_un fl) \<Longrightarrow> widths (type_of op) = []"
proof -
  have p: "widths (type_of op) = []" if "op \<in> fst ` set (plain_table rd fl)" for op rd
    using that plain_entry(2) by fastforce
  have "fst ` set fold_i32_bin \<union> fst ` set (fold_i32_un fl) \<subseteq> fst ` set (scalar32 @ int_to_float fl)"
    by (simp add: fold_i32_bin_def fold_i32_un_def scalar32_def table_defs int_to_float_def)
  moreover have "fst ` set fold_i64_bin \<union> fst ` set (fold_i64_un fl) \<subseteq> fst ` set (scalar64 @ long_to_float fl)"
    by (simp add: fold_i64_bin_def fold_i64_un_def scalar64_def table_defs i64_arith_def i64_bits_def i64_compare_def
      i64_convert_def i64_reinterpret_def long_to_float_def)
  moreover have "fst ` set (fold_f32_bin fl) \<union> fst ` set (fold_f32_un fl) \<subseteq> fst ` set (f32_arith fl @ f32_select fl @ f32_convert fl)"
    by (simp add: fold_f32_bin_def fold_f32_un_def f32_arith_def f32_select_def f32_convert_def)
  moreover have "fst ` set (fold_f64_bin fl) \<union> fst ` set (fold_f64_un fl) \<subseteq> fst ` set (f64_arith fl @ f64_select fl @ f64_convert fl)"
    by (simp add: fold_f64_bin_def fold_f64_un_def f64_arith_def f64_select_def f64_convert_def)
  moreover have "set (scalar32 @ int_to_float fl) \<subseteq> set (plain_table rd fl)" "set (scalar64 @ long_to_float fl) \<subseteq> set (plain_table rd fl)"
    "set (f32_arith fl @ f32_select fl @ f32_convert fl) \<subseteq> set (plain_table rd fl)"
    "set (f64_arith fl @ f64_select fl @ f64_convert fl) \<subseteq> set (plain_table rd fl)" for rd
    by (auto simp: plain_table_def float_ops_def)
  ultimately show "op \<in> fst ` set fold_i32_bin \<union> fst ` set (fold_i32_un fl) \<Longrightarrow> widths (type_of op) = []"
    "op \<in> fst ` set fold_i64_bin \<union> fst ` set (fold_i64_un fl) \<Longrightarrow> widths (type_of op) = []"
    "op \<in> fst ` set (fold_f32_bin fl) \<union> fst ` set (fold_f32_un fl) \<Longrightarrow> widths (type_of op) = []"
    "op \<in> fst ` set (fold_f64_bin fl) \<union> fst ` set (fold_f64_un fl) \<Longrightarrow> widths (type_of op) = []"
    using p by (meson image_mono subset_iff)+
qed

lemma table_op:
  "map_of scalar32 op = Some h \<Longrightarrow> plain_op rd fl op h"
  "map_of (scalar32 @ int_to_float fl) op = Some h \<Longrightarrow> plain_op rd fl op h"
  "map_of (i64_arith @ i64_bits @ i64_compare @ i64_convert) op = Some h \<Longrightarrow> plain_op rd fl op h"
  "map_of (i64_arith @ i64_bits @ i64_compare @ i64_convert @ long_to_float fl) op = Some h \<Longrightarrow> plain_op rd fl op h"
  "map_of (f32_arith fl @ f32_select fl) op = Some h \<Longrightarrow> plain_op rd fl op h"
  "map_of (f64_arith fl @ f64_select fl) op = Some h \<Longrightarrow> plain_op rd fl op h"
  "map_of (f64_convert fl) op = Some h \<Longrightarrow> plain_op rd fl op h"
  by (rule plain_entry(1), drule map_of_SomeD, auto simp: plain_table_def float_ops_def scalar64_def)+

end
