(* ===== verification/FoldSound.thy ===== *)
theory FoldSound
  imports FoldOps
begin

text \<open>
  Folding keeps the meaning of a window: running the original window and running the NOPs and the
  literal it was replaced by reach the same machine, up to the code itself and the dead part of the
  operand stack.  The windows whose results depend on the heap (strings, 64-bit integers that are
  boxed) or that convert a float to an integer are left out; of the latter two do change, as shown below.
\<close>
section \<open>The window in the code\<close>

lemma fold_pair_window:
  assumes u: "unmarshal c = Some (pre @ post)" and ip: "ip = length (concat pre)" and lit: "valid lit"
    and f: "fold_pair lit rdr bins uns c ip e = Some (Some (r, w))" and h: "idx c ip = Some lit"
    and simple: "\<And>op. op \<in> fst ` set bins \<union> fst ` set uns \<Longrightarrow> widths (type_of op) = []"
  obtains (two) i0 i1 op post' x0 x1 g where "post = [i0, i1, [op]] @ post'" "i0 ! 0 = lit" "i1 ! 0 = lit"
      "operand i0 0 = Some x0" "operand i1 0 = Some x1" "(op, g) \<in> set bins" "g (rdr x0) (rdr x1) = Some r"
      "w = length i0 + length i1 + 1"
  | (one) i0 op post' x0 g where "post = [i0, [op]] @ post'" "i0 ! 0 = lit" "operand i0 0 = Some x0"
      "(op, g) \<in> set uns" "r = g (rdr x0)" "w = length i0 + 1"
proof -
  obtain i0 post1 where p1: "post = i0 # post1" "i0 ! 0 = lit"
    by (rule code_next [OF u]) (use h ip in auto)
  have u0: "unmarshal c = Some (pre @ i0 # post1)" using u p1(1) by simp
  note f0 = place_facts [OF u0 ip] code_place [OF u0 ip]
  obtain x0 where x0: "operand i0 0 = Some x0" "operand (drop ip c) 0 = Some x0"
    using f f0(1,2) p1(2) lit by (auto simp: fold_pair_def bind_eq_Some_conv)
  obtain op1 where op1: "idx c (ip + length i0) = Some op1" and le: "\<not> e \<le> ip + length i0"
    using f f0(1) x0 by (auto simp: fold_pair_def bind_eq_Some_conv split: if_splits)
  obtain i1 post2 where p2: "post1 = i1 # post2" "i1 ! 0 = op1"
    by (rule code_next [of c "pre @ [i0]" post1 op1]) (use u0 op1 ip in auto)
  have u1: "unmarshal c = Some ((pre @ [i0]) @ i1 # post2)" using u0 p2(1) by simp
  have ip1: "ip + length i0 = length (concat (pre @ [i0]))" using ip by simp
  note f1 = place_facts [OF u1 ip1] code_place [OF u1 ip1]
  show thesis
  proof (cases "op1 = lit")
    case True
    obtain x1 where x1: "operand i1 0 = Some x1" "operand (drop (ip + length i0) c) 0 = Some x1"
      using f f0(1) x0 op1 le True f1(1,2) p2(2) lit by (auto simp: fold_pair_def bind_eq_Some_conv split: if_splits)
    obtain op2 w2 where op2: "idx c (ip + length i0 + length i1) = Some op2"
      "instr_width (drop (ip + length i0 + length i1) c) = Some w2"
      "(case map_of bins op2 of None \<Rightarrow> None | Some g \<Rightarrow> map_option (\<lambda>r. (r, length i0 + length i1 + w2)) (g (rdr x0) (rdr x1))) = Some (r, w)"
      using f f0(1) x0 op1 le True f1(1) x1 by (auto simp: fold_pair_def bind_eq_Some_conv split: if_splits)
    obtain i2 post3 where p3: "post2 = i2 # post3" "i2 ! 0 = op2"
      by (rule code_next [of c "pre @ [i0, i1]" post2 op2]) (use u1 op2(1) ip in \<open>auto simp: add.assoc\<close>)
    have u2: "unmarshal c = Some ((pre @ [i0, i1]) @ i2 # post3)" using u1 p3(1) by simp
    have ip2: "ip + length i0 + length i1 = length (concat (pre @ [i0, i1]))" using ip by simp
    note f2 = place_facts [OF u2 ip2] code_place [OF u2 ip2]
    obtain g where g: "map_of bins op2 = Some g" "g (rdr x0) (rdr x1) = Some r" "w = length i0 + length i1 + w2"
      using op2(3) by (auto split: option.splits)
    have mem: "(op2, g) \<in> set bins" using g(1) by (rule map_of_SomeD)
    then have "op2 \<in> fst ` set bins \<union> fst ` set uns" by force
    then have i2: "i2 = [op2]" using simple_whole [OF f2(5)] simple p3(2) by metis
    then have "w2 = 1" using f2(1) op2(2) by simp
    then show thesis using two [of i0 i1 op2 post3 x0 x1 g] p1 p2 p3(1) i2 x0(1) x1(1) mem g(2,3) True by simp
  next
    case False
    obtain g w1 where g: "map_of uns op1 = Some g" "instr_width (drop (ip + length i0) c) = Some w1"
      "r = g (rdr x0)" "w = length i0 + w1"
      using f f0(1) x0 op1 le False by (auto simp: fold_pair_def bind_eq_Some_conv split: if_splits option.splits)
    have mem: "(op1, g) \<in> set uns" using g(1) by (rule map_of_SomeD)
    then have "op1 \<in> fst ` set bins \<union> fst ` set uns" by force
    then have i1: "i1 = [op1]" using simple_whole [OF f1(5)] simple p2(2) by metis
    then have "w1 = 1" using f1(1) g(2) by simp
    then show thesis using one [of i0 op1 post2 x0 g] p1 p2 i1 x0(1) mem g(3,4) by simp
  qed
qed

lemma fold_bytes_decodes:
  assumes "unmarshal c = Some (pre @ ws @ post)" "ip = length (concat pre)" "w = length (concat ws)" "whole i"
    and "fold_bytes c ip w i = Some c2"
  shows "unmarshal c2 = Some (pre @ replicate (w - length i) [NOP] @ [i] @ post)"
proof -
  have c: "concat (pre @ ws @ post) = c" "\<forall>j\<in>set (pre @ ws @ post). instr_width j = Some (length j)"
    using dec.walk_sound assms(1) unfolding unmarshal_def by blast+
  have "c2 = concat (pre @ replicate (w - length i) [NOP] @ [i] @ post)"
    using assms(2,3,5) c(1) by (auto simp: fold_bytes_def concat_replicate_single split: if_splits)
  moreover have "\<forall>j\<in>set (pre @ replicate (w - length i) [NOP] @ [i] @ post). instr_width j = Some (length j)"
    using c(2) assms(4) by (auto simp: whole_def instr_width_def [of "[NOP]"] instr_type_def idx_def width_simps)
  ultimately show ?thesis unfolding unmarshal_def using dec.walk_concat by metis
qed

section \<open>Folding keeps the meaning\<close>

definition recode :: "code \<Rightarrow> machine \<Rightarrow> machine" where
  "recode c = set_fr (\<lambda>f. f\<lparr>f_code := (f_code f)\<lparr>tr_code := c\<rparr>\<rparr>)"

text \<open>The same machine but for the operand stack above its top.\<close>

definition alike :: "machine \<Rightarrow> machine \<Rightarrow> bool" where
  "alike m m' \<longleftrightarrow> m\<lparr>m_stack := m_stack m'\<rparr> = m' \<and> length (m_stack m) = length (m_stack m')
     \<and> take (m_sp m) (m_stack m) = take (m_sp m) (m_stack m')"

lemma stack_ends: "s[a := u, Suc a := v, a := r] = s[a := r, Suc a := v]"
  by (metis list_update_overwrite list_update_swap n_not_Suc_n)

lemma recode_moves:
  "here m \<Longrightarrow> recode c (advance n m) = advance n (recode c m)" "recode c (push v m) = push v (recode c m)"
  "recode c (popn k m) = popn k (recode c m)" "recode c (set_top k v m) = set_top k v (recode c m)"
proof -
  have f: "f\<lparr>f_ip := x, f_code := y\<rparr> = f\<lparr>f_code := y, f_ip := x\<rparr>" for f :: frame and x y
    by (rule frame.equality) simp_all
  show "here m \<Longrightarrow> recode c (advance n m) = advance n (recode c m)"
    by (auto simp: recode_def advance_def set_fr_def fr_def here_def f)
  show "recode c (push v m) = push v (recode c m)" "recode c (popn k m) = popn k (recode c m)"
    "recode c (set_top k v m) = set_top k v (recode c m)"
    by (rule machine.equality; simp add: recode_def push_def popn_def set_top_def poke_def set_fr_def fr_def)+
qed

lemma here_recode [simp]: "here (recode c m) = here m"
  by (simp add: here_def recode_def set_fr_def)

lemma alike_ends:
  assumes "m_sp m + 2 \<le> length (m_stack m)" "here m"
  shows "alike (recode c (advance n (set_top 1 r (popn 1 (push v (push u m)))))) (advance n (push r (recode c m)))"
    and "alike (recode c (advance n (set_top 1 r (push u m)))) (advance n (push r (recode c m)))"
proof -
  let ?m = "recode c m"
  have l: "m_sp ?m + 2 \<le> length (m_stack ?m)" and h: "here ?m"
    using assms by (simp_all add: recode_def set_fr_def here_def)
  have "alike (advance n (set_top 1 r (popn 1 (push v (push u ?m))))) (advance n (push r ?m))"
    "alike (advance n (set_top 1 r (push u ?m))) (advance n (push r ?m))"
    using l by (auto simp: alike_def stack_ends intro!: machine.equality)
      (simp_all add: advance_def set_fr_def set_top_def popn_def push_def poke_def fr_def)
  then show "alike (recode c (advance n (set_top 1 r (popn 1 (push v (push u m)))))) (advance n (push r (recode c m)))"
    "alike (recode c (advance n (set_top 1 r (push u m)))) (advance n (push r (recode c m)))"
    using assms(2) by (simp_all add: recode_moves)
qed

lemma at_recode: "at m c ip \<Longrightarrow> at (recode c2 m) c2 ip"
  by (auto simp: at_def recode_def set_fr_def fr_def)

lemma recode_simps [simp]:
  "m_sp (recode c m) = m_sp m" "m_stack (recode c m) = m_stack m"
  "here m \<Longrightarrow> tr_constants (f_code (fr (recode c m))) = tr_constants (f_code (fr m))"
  "here m \<Longrightarrow> tr_exact (f_code (fr (recode c m))) = tr_exact (f_code (fr m))"
  by (auto simp: recode_def set_fr_def fr_def here_def)

text \<open>The 64-bit values of a window, and its result, are small enough to stay out of the heap.\<close>

definition inline_window :: "code \<Rightarrow> nat \<Rightarrow> folded \<Rightarrow> bool" where
  "inline_window c ip r \<longleftrightarrow>
     (c ! ip = I64_CONST \<longrightarrow> (\<forall>x. operand (drop ip c) 0 = Some x \<longrightarrow> is_boxable x)
        \<and> (c ! (ip + 9) = I64_CONST \<longrightarrow> (\<forall>x. operand (drop (ip + 9) c) 0 = Some x \<longrightarrow> is_boxable x)))
     \<and> (\<forall>x. r = FI64 x \<longrightarrow> is_boxable x)"

text \<open>Windows this theory covers: no string, no conversion of a float to an integer.\<close>

definition covered :: "opcode \<Rightarrow> folded \<Rightarrow> bool" where
  "covered op r \<longleftrightarrow> op \<noteq> CONST_GET \<and> (\<forall>x. r \<noteq> FStr x) \<and> (op \<in> {F32_CONST, F64_CONST} \<longrightarrow> (\<forall>x. r \<noteq> FI32 x) \<and> (\<forall>x. r \<noteq> FI64 x))"

text \<open>The constants the code runs with have the boolean where the pass interned it.\<close>

definition pooled :: "folded \<Rightarrow> fold_state \<Rightarrow> boxed list \<Rightarrow> bool" where
  "pooled r s ks \<longleftrightarrow> (\<forall>b. r = FBool b \<longrightarrow> (let k = fst (bool_const b s) in k < 65536 \<and> k < length ks \<and> ks ! k = box_i1 b))"

lemma fold_lit_loads:
  assumes "fold_lit r s = Some (i, s')" "\<forall>x. r = FI64 x \<longrightarrow> is_boxable x" "\<forall>x. r \<noteq> FStr x" "pooled r s ks"
  shows "loads rd fl ks i (fold_box r)"
proof (cases r)
  case (FI32 w)
  then have n: "new_instr I32_CONST [ucast w] = Some i" using assms(1) by auto
  note l = new_lit [OF n lit_valid(1) simple_widths(5)]
  have "ucast (take_bit 32 (ucast w :: 64 word)) = w" by (rule bit_word_eqI) (auto simp: bit_simps)
  then show ?thesis using lit_loads(1) [OF l(1,3,2)] FI32 by simp
next
  case (FI64 w)
  then have n: "new_instr I64_CONST [w] = Some i" using assms(1) by auto
  note l = new_lit [OF n lit_valid(2) lit_widths(1)]
  have "take_bit 64 w = w" by (rule bit_word_eqI) (auto simp: bit_simps)
  then show ?thesis using lit_loads(2) [OF l(1,3,2)] FI64 assms(2) by simp
next
  case (FF32 w)
  then have n: "new_instr F32_CONST [ucast w] = Some i" using assms(1) by auto
  note l = new_lit [OF n lit_valid(3) lit_widths(2)]
  have "ucast (take_bit 32 (ucast w :: 64 word)) = w" by (rule bit_word_eqI) (auto simp: bit_simps)
  then show ?thesis using lit_loads(3) [OF l(1,3,2)] FF32 by simp
next
  case (FF64 w)
  then have n: "new_instr F64_CONST [w] = Some i" using assms(1) by auto
  note l = new_lit [OF n lit_valid(4) lit_widths(3)]
  have "take_bit 64 w = w" by (rule bit_word_eqI) (auto simp: bit_simps)
  then show ?thesis using lit_loads(4) [OF l(1,3,2)] FF64 by simp
next
  case (FBool b)
  obtain k s1 where k: "bool_const b s = (k, s1)" by (cases "bool_const b s")
  then have n: "new_instr CONST_GET [of_nat k] = Some i" using assms(1) FBool by auto
  have "k < 65536" "k < length ks" "ks ! k = box_i1 b" using assms(4) FBool k by (simp_all add: pooled_def)
  then show ?thesis using const_get_loads [OF n] FBool by simp
next
  case (FStr x)
  then show ?thesis using assms(3) by simp
qed

lemma alike_run:
  assumes m: "at m c ip" "tr_exact (f_code (fr m))" "m_sp m + 2 \<le> length (m_stack m)"
    and r: "runs rd fl m m1" "m1 = advance (int w) (set_top 1 b (popn 1 (push v (push u m)))) \<or> m1 = advance (int w) (set_top 1 b (push u m))"
    and c: "unmarshal c = Some (pre @ ws @ post)" "ip = length (concat pre)" "w = length (concat ws)"
    and i: "loads rd fl (tr_constants (f_code (fr m))) i b" "fold_bytes c ip w i = Some c2"
  shows "\<exists>m1 m2. runs rd fl m m1 \<and> runs rd fl (recode c2 m) m2 \<and> alike (recode c2 m1) m2
    \<and> at m1 c (ip + w) \<and> m_sp m1 = m_sp m + 1"
proof -
  have h: "here m" using at_here [OF m(1)] .
  have wi: "whole i" using i(1) by (simp add: loads_def)
  have u2: "unmarshal c2 = Some (pre @ replicate (w - length i) [NOP] @ [i] @ post)"
    by (rule fold_bytes_decodes [OF c wi i(2)])
  have le: "length i \<le> w" using i(2) by (auto simp: fold_bytes_def split: if_splits)
  have "runs rd fl (recode c2 m) (advance (int (w - length i + length i)) (push b (recode c2 m)))"
    by (rule window_folded [OF at_recode [OF m(1)] _ _ _ u2 c(2)]) (use h m i(1) in simp_all)
  then have "runs rd fl (recode c2 m) (advance (int w) (push b (recode c2 m)))" using le by simp
  moreover have "alike (recode c2 m1) (advance (int w) (push b (recode c2 m)))"
    using r(2) alike_ends [OF m(3) h] by auto
  moreover have "at m1 c (ip + w)" "m_sp m1 = m_sp m + 1"
    using r(2) at_advance m(1) by auto
  ultimately show ?thesis using r(1) by blast
qed
text \<open>What a literal is: its width, and the value it loads when its operand is fit.\<close>

definition literal :: "opcode \<Rightarrow> (64 word \<Rightarrow> 'v) \<Rightarrow> ('v \<Rightarrow> boxed) \<Rightarrow> nat \<Rightarrow> ('v \<Rightarrow> bool) \<Rightarrow> bool" where
  "literal lit rdr mk n ok \<longleftrightarrow> valid lit \<and> (\<forall>i w. instr_width i = Some w \<and> i ! 0 = lit \<longrightarrow> w = n)
     \<and> (\<forall>rd fl ks i x. whole i \<and> operand i 0 = Some x \<and> i ! 0 = lit \<and> ok (rdr x) \<longrightarrow> loads rd fl ks i (mk (rdr x)))"

lemma literals:
  "literal I32_CONST ucast box_i32 5 (\<lambda>_. True)" "literal I64_CONST id box_i64 9 is_boxable"
  "literal F32_CONST ucast box_f32 5 (\<lambda>_. True)" "literal F64_CONST id box_f64 9 (\<lambda>_. True)"
  unfolding literal_def by (auto dest: lit_width intro: lit_loads)

text \<open>Tables whose entries for the result \<open>r\<close> compute what the handlers of their opcodes compute.\<close>

definition tables_ok :: "(heap \<Rightarrow> boxed \<Rightarrow> string) \<Rightarrow> fpu \<Rightarrow> (opcode \<times> ('v \<Rightarrow> 'v \<Rightarrow> folded option)) list \<Rightarrow>
    (opcode \<times> ('v \<Rightarrow> folded)) list \<Rightarrow> ('v \<Rightarrow> boxed) \<Rightarrow> ('v \<Rightarrow> bool) \<Rightarrow> folded \<Rightarrow> bool" where
  "tables_ok rd fl bins uns mk ok r \<longleftrightarrow>
     (\<forall>op. op \<in> fst ` set bins \<union> fst ` set uns \<longrightarrow> widths (type_of op) = [])
     \<and> (\<forall>op g a b. (op, g) \<in> set bins \<and> g a b = Some r \<and> ok a \<and> ok b \<longrightarrow>
          (\<exists>h. plain_op rd fl op h \<and> computes2 h (mk a) (mk b) (fold_box r)))
     \<and> (\<forall>op g a. (op, g) \<in> set uns \<and> g a = r \<and> ok a \<longrightarrow>
          (\<exists>h. plain_op rd fl op h \<and> computes1 h (mk a) (fold_box r)))"

lemma tables_okI:
  assumes "\<And>op. op \<in> fst ` set bins \<union> fst ` set uns \<Longrightarrow> widths (type_of op) = []"
    and "\<And>op g a b. (op, g) \<in> set bins \<Longrightarrow> g a b = Some r \<Longrightarrow> ok a \<Longrightarrow> ok b \<Longrightarrow>
      \<exists>h. plain_op rd fl op h \<and> computes2 h (mk a) (mk b) (fold_box r)"
    and "\<And>op g a. (op, g) \<in> set uns \<Longrightarrow> g a = r \<Longrightarrow> ok a \<Longrightarrow> \<exists>h. plain_op rd fl op h \<and> computes1 h (mk a) (fold_box r)"
  shows "tables_ok rd fl bins uns mk ok r"
  unfolding tables_ok_def by (intro conjI allI impI; (elim conjE)?; rule assms; assumption)

lemma fold_pair_sound:
  assumes m: "at m c ip" "tr_exact (f_code (fr m))" "m_sp m + 2 \<le> length (m_stack m)"
    and u: "unmarshal c = Some (pre @ post)" "ip = length (concat pre)"
    and f: "fold_pair lit rdr bins uns c ip e = Some (Some (r, w))" "idx c ip = Some lit"
    and t: "literal lit rdr mk n ok" "tables_ok rd fl bins uns mk ok r"
    and ok: "\<And>x. operand (drop ip c) 0 = Some x \<Longrightarrow> ok (rdr x)"
      "\<And>x. c ! (ip + n) = lit \<Longrightarrow> operand (drop (ip + n) c) 0 = Some x \<Longrightarrow> ok (rdr x)"
    and i: "loads rd fl (tr_constants (f_code (fr m))) i (fold_box r)" "fold_bytes c ip w i = Some c2"
  shows "\<exists>m1 m2. runs rd fl m m1 \<and> runs rd fl (recode c2 m) m2 \<and> alike (recode c2 m1) m2
    \<and> at m1 c (ip + w) \<and> m_sp m1 = m_sp m + 1"
proof -
  have lit: "valid lit" and n: "\<And>i w. instr_width i = Some w \<Longrightarrow> i ! 0 = lit \<Longrightarrow> w = n"
    and L: "\<And>i x. whole i \<Longrightarrow> operand i 0 = Some x \<Longrightarrow> i ! 0 = lit \<Longrightarrow> ok (rdr x) \<Longrightarrow>
      loads rd fl (tr_constants (f_code (fr m))) i (mk (rdr x))"
    using t(1) unfolding literal_def by (simp, metis, metis)
  have B: "\<And>op g a b. (op, g) \<in> set bins \<Longrightarrow> g a b = Some r \<Longrightarrow> ok a \<Longrightarrow> ok b \<Longrightarrow>
      \<exists>h. plain_op rd fl op h \<and> computes2 h (mk a) (mk b) (fold_box r)"
    and U: "\<And>op g a. (op, g) \<in> set uns \<Longrightarrow> g a = r \<Longrightarrow> ok a \<Longrightarrow>
      \<exists>h. plain_op rd fl op h \<and> computes1 h (mk a) (fold_box r)"
    and simple: "\<And>op. op \<in> fst ` set bins \<union> fst ` set uns \<Longrightarrow> widths (type_of op) = []"
    using t(2) unfolding tables_ok_def by (metis, metis, metis)
  show ?thesis
  proof (cases rule: fold_pair_window [OF u lit f(1,2), case_names entry two one])
    case entry
    then show ?case by (rule simple)
  next
    case (two i0 i1 op post' x0 x1 g)
    have u0: "unmarshal c = Some (pre @ i0 # ([i1, [op]] @ post'))" using u(1) two(1) by simp
    have u1: "unmarshal c = Some ((pre @ [i0]) @ i1 # ([op] # post'))" using u0 by simp
    have ip1: "ip + length i0 = length (concat (pre @ [i0]))" using u(2) by simp
    note p0 = place_facts [OF u0 u(2)] code_place [OF u0 u(2)] and p1 = place_facts [OF u1 ip1] code_place [OF u1 ip1]
    have n0: "length i0 = n" using n [of i0] p0(5) two(2) by (simp add: whole_def)
    have o0: "ok (rdr x0)" by (rule ok(1)) (use p0(2) two(2,4) lit in simp)
    have o1: "ok (rdr x1)" by (rule ok(2)) (use p1 two(3,5) lit n0 in simp_all)
    obtain h where h: "plain_op rd fl op h" "computes2 h (mk (rdr x0)) (mk (rdr x1)) (fold_box r)"
      using B [OF two(6,7) o0 o1] by blast
    let ?m1 = "advance (int (length i0 + length i1 + 1)) (set_top 1 (fold_box r) (popn 1 (push (mk (rdr x1)) (push (mk (rdr x0)) m))))"
    have "runs rd fl m ?m1"
      by (rule window2 [OF m(1) refl m(3) _ u(2) L [OF p0(5) two(4,2) o0] L [OF p1(5) two(5,3) o1] h]) (use u(1) two(1) in simp)
    moreover have "?m1 = advance (int w) (set_top 1 (fold_box r) (popn 1 (push (mk (rdr x1)) (push (mk (rdr x0)) m))))"
      by (simp only: two(8))
    moreover have "unmarshal c = Some (pre @ [i0, i1, [op]] @ post')" "w = length (concat [i0, i1, [op]])"
      using u(1) two(1,8) by simp_all
    ultimately show ?thesis using alike_run [OF m] u(2) i by blast
  next
    case (one i0 op post' x0 g)
    have u0: "unmarshal c = Some (pre @ i0 # ([[op]] @ post'))" using u(1) one(1) by simp
    note p0 = place_facts [OF u0 u(2)] code_place [OF u0 u(2)]
    have o0: "ok (rdr x0)" by (rule ok(1)) (use p0(2) one(2,3) lit in simp)
    obtain h where h: "plain_op rd fl op h" "computes1 h (mk (rdr x0)) (fold_box r)"
      using U [OF one(4) one(5) [symmetric] o0] by blast
    let ?m1 = "advance (int (length i0 + 1)) (set_top 1 (fold_box r) (push (mk (rdr x0)) m))"
    have "runs rd fl m ?m1"
      by (rule window1 [OF m(1) refl m(3) _ u(2) L [OF p0(5) one(3,2) o0] h]) (use u(1) one(1) in simp)
    moreover have "?m1 = advance (int w) (set_top 1 (fold_box r) (push (mk (rdr x0)) m))"
      by (simp only: one(6))
    moreover have "unmarshal c = Some (pre @ [i0, [op]] @ post')" "w = length (concat [i0, [op]])"
      using u(1) one(1,6) by simp_all
    ultimately show ?thesis using alike_run [OF m] u(2) i by blast
  qed
qed

lemma list_all_entry: "list_all (\<lambda>(op, g). P op g) xs \<Longrightarrow> (op, g) \<in> set xs \<Longrightarrow> P op g"
  by (auto simp: list_all_iff)

lemma bins_sound:
  "(op, g) \<in> set fold_i32_bin \<Longrightarrow> g a b = Some r \<Longrightarrow> \<exists>h. plain_op rd fl op h \<and> computes2 h (box_i32 a) (box_i32 b) (fold_box r)"
  "(op, g') \<in> set fold_i64_bin \<Longrightarrow> g' a' b' = Some r \<Longrightarrow> is_boxable a' \<Longrightarrow> is_boxable b' \<Longrightarrow> (\<And>w. r = FI64 w \<Longrightarrow> is_boxable w)
     \<Longrightarrow> \<exists>h. plain_op rd fl op h \<and> computes2 h (box_i64 a') (box_i64 b') (fold_box r)"
  "(op, g) \<in> set (fold_f32_bin fl) \<Longrightarrow> g a b = Some r \<Longrightarrow> \<exists>h. plain_op rd fl op h \<and> computes2 h (box_f32 a) (box_f32 b) (fold_box r)"
  "(op, g') \<in> set (fold_f64_bin fl) \<Longrightarrow> g' a' b' = Some r \<Longrightarrow> \<exists>h. plain_op rd fl op h \<and> computes2 h (box_f64 a') (box_f64 b') (fold_box r)"
  using list_all_entry [OF i32_bins, of op g] table_op(1) [of op _ rd fl] apply blast
  using list_all_entry [OF i64_bins, of op g'] table_op(3) [of op _ rd fl] apply blast
  using list_all_entry [OF f32_bins, of op g fl] table_op(5) [of fl op _ rd] apply blast
  using list_all_entry [OF f64_bins, of op g' fl] table_op(6) [of fl op _ rd] by blast

lemma uns_sound:
  "(op, g) \<in> set (fold_i32_un fl) \<Longrightarrow> \<exists>h. plain_op rd fl op h \<and> computes1 h (box_i32 a) (fold_box (g a))"
  "(op, g') \<in> set (fold_i64_un fl) \<Longrightarrow> is_boxable a' \<Longrightarrow> \<exists>h. plain_op rd fl op h \<and> computes1 h (box_i64 a') (fold_box (g' a'))"
  "(op, g') \<in> set (fold_f64_un fl) \<Longrightarrow> covered F64_CONST (g' a') \<Longrightarrow> \<exists>h. plain_op rd fl op h \<and> computes1 h (box_f64 a') (fold_box (g' a'))"
  "(op, g) \<in> set (fold_f32_un fl) \<Longrightarrow> \<not> covered F32_CONST (g a)"
proof -
  show "(op, g) \<in> set (fold_i32_un fl) \<Longrightarrow> \<exists>h. plain_op rd fl op h \<and> computes1 h (box_i32 a) (fold_box (g a))"
    using list_all_entry [OF i32_uns, of op g fl] table_op(2) [of fl op _ rd] by blast
  show "(op, g') \<in> set (fold_i64_un fl) \<Longrightarrow> is_boxable a' \<Longrightarrow> \<exists>h. plain_op rd fl op h \<and> computes1 h (box_i64 a') (fold_box (g' a'))"
    using list_all_entry [OF i64_uns, of op g' fl] table_op(4) [of fl op _ rd] by blast
  show "(op, g') \<in> set (fold_f64_un fl) \<Longrightarrow> covered F64_CONST (g' a') \<Longrightarrow> \<exists>h. plain_op rd fl op h \<and> computes1 h (box_f64 a') (fold_box (g' a'))"
    using f64_uns(1) [of fl a'] table_op(7) [OF f64_uns(2), of rd fl] by (auto simp: fold_f64_un_def covered_def)
  show "(op, g) \<in> set (fold_f32_un fl) \<Longrightarrow> \<not> covered F32_CONST (g a)"
    by (auto simp: fold_f32_un_def covered_def)
qed

lemma tables:
  "tables_ok rd fl fold_i32_bin (fold_i32_un fl) box_i32 (\<lambda>_. True) r"
  "(\<And>x. r = FI64 x \<Longrightarrow> is_boxable x) \<Longrightarrow> tables_ok rd fl fold_i64_bin (fold_i64_un fl) box_i64 is_boxable r"
  "covered F32_CONST r \<Longrightarrow> tables_ok rd fl (fold_f32_bin fl) (fold_f32_un fl) box_f32 (\<lambda>_. True) r"
  "covered F64_CONST r \<Longrightarrow> tables_ok rd fl (fold_f64_bin fl) (fold_f64_un fl) box_f64 (\<lambda>_. True) r"
  subgoal by (rule tables_okI, erule table_simple(1), erule (1) bins_sound(1)) (use uns_sound(1) in fast)
  subgoal by (rule tables_okI, erule table_simple(2), erule (3) bins_sound(2), blast) (use uns_sound(2) in fast)
  subgoal by (rule tables_okI, erule table_simple(3), erule (1) bins_sound(3)) (use uns_sound(4) in fast)
  subgoal by (rule tables_okI, erule table_simple(4), erule (1) bins_sound(4)) (use uns_sound(3) in fast)
  done

text \<open>C24: Folding a window.  Take a machine at a window of one or two literals and an operation that the pass
  folds, and the same machine over the code with the window replaced.  Both run to the end of the
  window, and end alike: same result on the stack, same heap, frames and globals.  Conditions: the
  code runs instruction by instruction (no fused ones); two slots of the operand stack are free, also
  where the folded code needs only one; the window works on numbers, not strings, and does not
  convert a float to an integer (such folds can differ, see below); 64-bit integers in it and as its result
  stay inline; and a boolean result is in the constants of the running code where the pass interned
  it.\<close>

theorem fold_window_sound:
  assumes m: "at m c ip" "tr_exact (f_code (fr m))" "m_sp m + 2 \<le> length (m_stack m)"
    and u: "unmarshal c = Some (pre @ post)" "ip = length (concat pre)"
    and f: "fold_at fl consts c ip e = Some (Some (r, w))"
    and r: "covered (c ! ip) r" "inline_window c ip r"
    and l: "fold_lit r s = Some (i, s')" "pooled r s (tr_constants (f_code (fr m)))" "fold_bytes c ip w i = Some c2"
  shows "\<exists>m1 m2. runs rd fl m m1 \<and> runs rd fl (recode c2 m) m2 \<and> alike (recode c2 m1) m2
    \<and> at m1 c (ip + w) \<and> m_sp m1 = m_sp m + 1"
proof -
  have i: "loads rd fl (tr_constants (f_code (fr m))) i (fold_box r)"
    by (rule fold_lit_loads [OF l(1) _ _ l(2)]) (use r in \<open>auto simp: inline_window_def covered_def\<close>)
  from f r(1) consider
      (I32) "idx c ip = Some I32_CONST" "fold_pair I32_CONST ucast fold_i32_bin (fold_i32_un fl) c ip e = Some (Some (r, w))"
    | (I64) "idx c ip = Some I64_CONST" "fold_pair I64_CONST id fold_i64_bin (fold_i64_un fl) c ip e = Some (Some (r, w))"
    | (F32) "idx c ip = Some F32_CONST" "fold_pair F32_CONST ucast (fold_f32_bin fl) (fold_f32_un fl) c ip e = Some (Some (r, w))"
    | (F64) "idx c ip = Some F64_CONST" "fold_pair F64_CONST id (fold_f64_bin fl) (fold_f64_un fl) c ip e = Some (Some (r, w))"
    by (auto simp: fold_at_def bind_eq_Some_conv idx_Some_iff covered_def split: if_splits)
  then show ?thesis
  proof cases
    case I32
    show ?thesis by (rule fold_pair_sound [OF m u I32(2,1) literals(1) tables(1) _ _ i l(3)]) simp_all
  next
    case I64
    then have h: "c ! ip = I64_CONST" by (simp add: idx_Some_iff)
    show ?thesis
      by (rule fold_pair_sound [OF m u I64(2,1) literals(2) tables(2) _ _ i l(3)]) (use r(2) h in \<open>simp_all add: inline_window_def\<close>)
  next
    case F32
    then have "covered F32_CONST r" using r(1) by (simp add: idx_Some_iff)
    then show ?thesis by (intro fold_pair_sound [OF m u F32(2,1) literals(3) tables(3) _ _ i l(3)]) simp_all
  next
    case F64
    then have "covered F64_CONST r" using r(1) by (simp add: idx_Some_iff)
    then show ?thesis by (intro fold_pair_sound [OF m u F64(2,1) literals(4) tables(4) _ _ i l(3)]) simp_all
  qed
qed

definition fold_demo :: machine where
  "fold_demo = (let m = sample_machine [] in m\<lparr>m_frames := [sample_frame\<lparr>f_ip := 0, f_code :=
     nil_unit\<lparr>tr_code := [I32_CONST, 2, 0, 0, 0, I32_CONST, 3, 0, 0, 0, I32_ADD], tr_exact := True\<rparr>\<rparr>]\<rparr>)"

lemma demo_unmarshal:
  "unmarshal [I32_CONST, 2, 0, 0, 0, I32_CONST, 3, 0, 0, 0, I32_ADD]
     = Some [[I32_CONST, 2, 0, 0, 0], [I32_CONST, 3, 0, 0, 0], [I32_ADD]]"
  by code_simp

theorem fold_window_sound_witness:
  "\<forall>rd fl. \<exists>m1 m2. runs rd fl fold_demo m1 \<and> runs rd fl (recode [NOP, NOP, NOP, NOP, NOP, NOP, I32_CONST, 5, 0, 0, 0] fold_demo) m2
     \<and> alike (recode [NOP, NOP, NOP, NOP, NOP, NOP, I32_CONST, 5, 0, 0, 0] m1) m2 \<and> m_sp m1 = 1"
proof (intro allI)
  fix rd fl
  let ?c = "[I32_CONST, 2, 0, 0, 0, I32_CONST, 3, 0, 0, 0, I32_ADD] :: code"
  let ?s = "\<lparr>fs_prog = \<lparr>p_code = ?c, p_locals = [], p_globals = [], p_constants = [], p_types = [], p_handlers = []\<rparr>, fs_true = None, fs_false = None\<rparr>"
  have m: "at fold_demo ?c 0" "tr_exact (f_code (fr fold_demo))" "m_sp fold_demo + 2 \<le> length (m_stack fold_demo)" "m_sp fold_demo = 0"
    by (simp_all add: fold_demo_def at_def fr_def sample_machine_def machine_on_def Let_def)
  have "widths (type_of I32_ADD) = []" by code_simp
  then have f: "fold_at fl [] ?c 0 11 = Some (Some (FI32 5, 11))"
    by (simp add: fold_at_def fold_pair_def idx_def instr_width_def instr_type_def width_simps operand_def operands_def
      read_word_def fold_i32_bin_def)
  have l: "fold_lit (FI32 5) ?s = Some ([I32_CONST, 5, 0, 0, 0], ?s)"
    by (simp add: new_instr_def width_simps)
  have b: "fold_bytes ?c 0 11 [I32_CONST, 5, 0, 0, 0] = Some [NOP, NOP, NOP, NOP, NOP, NOP, I32_CONST, 5, 0, 0, 0]"
    by (simp add: fold_bytes_def numeral_eq_Suc)
  show "\<exists>m1 m2. runs rd fl fold_demo m1 \<and> runs rd fl (recode [NOP, NOP, NOP, NOP, NOP, NOP, I32_CONST, 5, 0, 0, 0] fold_demo) m2
     \<and> alike (recode [NOP, NOP, NOP, NOP, NOP, NOP, I32_CONST, 5, 0, 0, 0] m1) m2 \<and> m_sp m1 = 1"
    using fold_window_sound [OF m(1-3) _ _ f _ _ l _ b, of "[]" "[[I32_CONST, 2, 0, 0, 0], [I32_CONST, 3, 0, 0, 0], [I32_ADD]]" rd]
      demo_unmarshal m(4)
    by (auto simp: covered_def inline_window_def pooled_def)
qed

section \<open>Conversions that fold to something else\<close>

lemma literal64:
  assumes "drop ip c = F64_CONST # le_bytes 8 v @ r"
  shows "idx c ip = Some F64_CONST" "instr_width (drop ip c) = Some 9" "operand (drop ip c) 0 = Some v"
    "idx c (ip + 9) = idx r 0" "drop (ip + 9) c = r"
proof -
  let ?i = "F64_CONST # le_bytes 8 v"
  have l: "length (le_bytes 8 v) = 8" by simp
  have "new_instr F64_CONST [v] = Some ?i" by (simp add: new_instr_def lit_widths(3))
  note n = new_lit [OF this lit_valid(4) lit_widths(3)]
  have c: "drop ip c = ?i @ r" using assms by simp
  show "instr_width (drop ip c) = Some 9" using instr_width_append [OF n(1) [unfolded whole_def], of r] by (simp add: c)
  have "take_bit 64 v = v" by (rule bit_word_eqI) (auto simp: bit_simps)
  then show "operand (drop ip c) 0 = Some v" using lit_operand [OF n(1), of r 0] n(3) lit_valid(4) by (simp add: c)
  have il: "ip < length c" using assms by (metis drop_eq_Nil leI list.distinct(1))
  then show "idx c ip = Some F64_CONST" using assms by (metis Cons_nth_drop_Suc idx_Some_iff list.inject)
  show d: "drop (ip + 9) c = r" using arg_cong [OF c, of "drop 9"] l by (simp add: add.commute del: le_bytes.simps)
  show "idx c (ip + 9) = idx r 0" using d by (auto simp: idx_def)
qed

lemma f64_un_window:
  assumes c: "drop ip c = F64_CONST # le_bytes 8 v @ op # r" and e: "ip + 9 < e"
    and op: "op \<noteq> F64_CONST" "map_of (fold_f64_un fl) op = Some g" "widths (type_of op) = []"
  shows "fold_at fl consts c ip e = Some (Some (g v, 10))"
proof -
  note l = literal64 [OF c]
  have "instr_width (drop (ip + 9) c) = Some 1" using op(3) by (simp add: l(5) instr_width_def instr_type_def idx_def)
  then show ?thesis using l e op(1,2) by (simp add: fold_at_def fold_pair_def idx_def)
qed

text \<open>C38: The two folds that exchange signs.  \<^verbatim>\<open>F64_TO_I32_S\<close> is folded with Go's conversion to \<^verbatim>\<open>uint32\<close> and
  \<^verbatim>\<open>F64_TO_I32_U\<close> with the one to \<^verbatim>\<open>int32\<close>, where the handlers saturate with the sign they name.  In any
  code, for every finite literal whose integer part is from 2^31 up to, not including, 2^32, the first
  folds to that integer's word, a negative i32, while the handler pushes the largest i32; for every
  finite literal whose integer part is negative but at least -2^31 the second folds to its word while
  the handler pushes zero.\<close>

theorem fold_conversions_differ:
  assumes c: "drop ip c = F64_CONST # le_bytes 8 v @ op # r" and e: "ip + 9 < e" and v: "finite64 v"
  shows "(op = F64_TO_I32_S \<and> 2 ^ 31 \<le> go_trunc v \<and> go_trunc v < 2 ^ 32 \<longrightarrow>
        fold_at fl consts c ip e = Some (Some (FI32 (word_of_int (go_trunc v)), 10))
        \<and> computes1 (the (map_of (f64_convert fl) op)) (box_f64 v) (box_i32 (2 ^ 31 - 1))
        \<and> sint (word_of_int (go_trunc v) :: 32 word) < 0)
    \<and> (op = F64_TO_I32_U \<and> - (2 ^ 31) \<le> go_trunc v \<and> go_trunc v < 0 \<longrightarrow>
        fold_at fl consts c ip e = Some (Some (FI32 (word_of_int (go_trunc v)), 10))
        \<and> computes1 (the (map_of (f64_convert fl) op)) (box_f64 v) (box_i32 0)
        \<and> (word_of_int (go_trunc v) :: 32 word) \<noteq> 0)"
proof (intro conjI impI; elim conjE)
  have n: "\<not> is_nan64 v" using v by (simp add: finite64_def is_nan64_def)
  have w: "widths (type_of F64_TO_I32_S) = []" "widths (type_of F64_TO_I32_U) = []" by code_simp+
  have as: "as_f64 (box_f64 v) = v" using n by (simp add: as_f64_def box_f64_def)
  {
    assume op: "op = F64_TO_I32_S" and t: "2 ^ 31 \<le> go_trunc v" "go_trunc v < 2 ^ 32"
    have "go_to32 fl False v = word_of_int (go_trunc v)" using v t by (simp add: go_to32_def)
    then show "fold_at fl consts c ip e = Some (Some (FI32 (word_of_int (go_trunc v)), 10))"
      using f64_un_window [OF c e] op w(1) by (simp add: fold_f64_un_def)
    have "sint (sat_s32 fl v) = sint (0x7FFFFFFF :: 32 word)" using sat_s32_eq [of fl v] t n by simp
    then have "sat_s32 fl v = 0x7FFFFFFF" by (simp only: signed_word_eqI)
    then show "computes1 (the (map_of (f64_convert fl) op)) (box_f64 v) (box_i32 (2 ^ 31 - 1))"
      using op as by (simp add: f64_convert_def computes1_def do_un_def)
    have e: "(word_of_int (go_trunc v - 2 ^ 32) :: 32 word) = word_of_int (go_trunc v)" by simp
    have "sint (word_of_int (go_trunc v - 2 ^ 32) :: 32 word) = go_trunc v - 2 ^ 32"
      by (rule sint_word_of_int_id) (use t in simp_all)
    then show "sint (word_of_int (go_trunc v) :: 32 word) < 0" unfolding e using t(2) by linarith
  next
    assume op: "op = F64_TO_I32_U" and t: "- (2 ^ 31) \<le> go_trunc v" "go_trunc v < 0"
    have "go_to32 fl True v = word_of_int (go_trunc v)" using v t by (simp add: go_to32_def)
    then show "fold_at fl consts c ip e = Some (Some (FI32 (word_of_int (go_trunc v)), 10))"
      using f64_un_window [OF c e] op w(2) by (simp add: fold_f64_un_def)
    have "uint (sat_u32 fl v) = 0" using sat_u32_eq [of fl v] t n by simp
    then have "sat_u32 fl v = 0" by (metis unsigned_eq_0_iff)
    then show "computes1 (the (map_of (f64_convert fl) op)) (box_f64 v) (box_i32 0)"
      using op as by (simp add: f64_convert_def computes1_def do_un_def)
    have "sint (word_of_int (go_trunc v) :: 32 word) = go_trunc v"
      by (rule sint_word_of_int_id) (use t in simp_all)
    then show "(word_of_int (go_trunc v) :: 32 word) \<noteq> 0" using t(2) by auto
  }
qed

lemma trunc_samples:
  "go_trunc 0x41E65A0BC0000000 = 3000000000" "go_trunc 0xBFF0000000000000 = - 1"
  "finite64 0x41E65A0BC0000000" "finite64 0xBFF0000000000000"
  by (simp_all add: go_trunc_def mag64_def units64_def finite64_def Let_def)

theorem fold_conversions_differ_witness:
  "\<forall>fl. fold_at fl [] (F64_CONST # le_bytes 8 0x41E65A0BC0000000 @ [F64_TO_I32_S]) 0 10 = Some (Some (FI32 3000000000, 10))
   \<and> computes1 (the (map_of (f64_convert fl) F64_TO_I32_S)) (box_f64 0x41E65A0BC0000000) (box_i32 0x7FFFFFFF)
   \<and> fold_at fl [] (F64_CONST # le_bytes 8 0xBFF0000000000000 @ [F64_TO_I32_U]) 0 10 = Some (Some (FI32 0xFFFFFFFF, 10))
   \<and> computes1 (the (map_of (f64_convert fl) F64_TO_I32_U)) (box_f64 0xBFF0000000000000) (box_i32 0)"
proof
  fix fl
  show "fold_at fl [] (F64_CONST # le_bytes 8 0x41E65A0BC0000000 @ [F64_TO_I32_S]) 0 10 = Some (Some (FI32 3000000000, 10))
   \<and> computes1 (the (map_of (f64_convert fl) F64_TO_I32_S)) (box_f64 0x41E65A0BC0000000) (box_i32 0x7FFFFFFF)
   \<and> fold_at fl [] (F64_CONST # le_bytes 8 0xBFF0000000000000 @ [F64_TO_I32_U]) 0 10 = Some (Some (FI32 0xFFFFFFFF, 10))
   \<and> computes1 (the (map_of (f64_convert fl) F64_TO_I32_U)) (box_f64 0xBFF0000000000000) (box_i32 0)"
    using fold_conversions_differ [of 0 "F64_CONST # le_bytes 8 0x41E65A0BC0000000 @ [F64_TO_I32_S]" "0x41E65A0BC0000000" F64_TO_I32_S "[]" 10 fl "[]"]
      fold_conversions_differ [of 0 "F64_CONST # le_bytes 8 0xBFF0000000000000 @ [F64_TO_I32_U]" "0xBFF0000000000000" F64_TO_I32_U "[]" 10 fl "[]"]
    by (simp add: trunc_samples del: le_bytes.simps)
qed

end
