(* ===== verification/Algebra.thy ===== *)
theory Algebra
  imports FoldSound
begin

text \<open>
  Algebraic simplification (\<^verbatim>\<open>transform/as.go\<close>): a literal that is the right operand of an integer operation
  it is neutral for goes away with the operation, and a multiplication or unsigned division by a power
  of two becomes a shift.  No offset moves.
\<close>

section \<open>What a window becomes\<close>

datatype as_edit = ADrop | AShift "64 word" opcode

definition as_log2 :: "64 word \<Rightarrow> 64 word option" where
  "as_log2 v = (if v < 2 \<or> v AND (v - 1) \<noteq> 0 then None else Some (go_ctz v))"

definition as_ops32 :: "opcode list" where
  "as_ops32 = [I32_ADD, I32_SUB, I32_OR, I32_XOR, I32_SHL, I32_SHR_S, I32_SHR_U, I32_AND, I32_MUL, I32_DIV_S, I32_DIV_U]"

definition as_ops64 :: "opcode list" where
  "as_ops64 = [I64_ADD, I64_SUB, I64_OR, I64_XOR, I64_SHL, I64_SHR_S, I64_SHR_U, I64_AND, I64_MUL, I64_DIV_S, I64_DIV_U]"

definition as_rule32 :: "opcode \<Rightarrow> 32 word \<Rightarrow> as_edit option" where
  "as_rule32 op v =
     (if op \<in> set [I32_ADD, I32_SUB, I32_OR, I32_XOR, I32_SHL, I32_SHR_S, I32_SHR_U] then
        if v = 0 then Some ADrop else None
      else if op = I32_AND then if v = - 1 then Some ADrop else None
      else if op = I32_MUL then if v = 1 then Some ADrop else map_option (\<lambda>n. AShift n I32_SHL) (as_log2 (ucast v))
      else if op = I32_DIV_S \<or> op = I32_DIV_U then
        if v = 1 then Some ADrop
        else if op = I32_DIV_U then map_option (\<lambda>n. AShift n I32_SHR_U) (as_log2 (ucast v)) else None
      else None)"

definition as_rule64 :: "opcode \<Rightarrow> 64 word \<Rightarrow> as_edit option" where
  "as_rule64 op v =
     (if op \<in> set [I64_ADD, I64_SUB, I64_OR, I64_XOR, I64_SHL, I64_SHR_S, I64_SHR_U] then
        if v = 0 then Some ADrop else None
      else if op = I64_AND then if v = - 1 then Some ADrop else None
      else if op = I64_MUL then if v = 1 then Some ADrop else map_option (\<lambda>n. AShift n I64_SHL) (as_log2 v)
      else if op = I64_DIV_S \<or> op = I64_DIV_U then
        if v = 1 then Some ADrop
        else if op = I64_DIV_U then map_option (\<lambda>n. AShift n I64_SHR_U) (as_log2 v) else None
      else None)"

definition as_drop :: "code \<Rightarrow> nat \<Rightarrow> nat \<Rightarrow> code option" where
  "as_drop c ip w = (if ip + w \<le> length c then Some (take ip c @ replicate w NOP @ drop (ip + w) c) else None)"

definition as_shift :: "code \<Rightarrow> nat \<Rightarrow> nat \<Rightarrow> 64 word \<Rightarrow> opcode \<Rightarrow> code option" where
  "as_shift c ip w0 n op = map_option (\<lambda>c'. c'[ip + w0 := op]) (set_at c ip 0 n)"

fun as_apply :: "code \<Rightarrow> nat \<Rightarrow> nat \<Rightarrow> as_edit option \<Rightarrow> code option option" where
  "as_apply c ip w0 None = Some None"
| "as_apply c ip w0 (Some ADrop) =
     Option.bind (instr_width (drop (ip + w0) c)) (\<lambda>w1. map_option Some (as_drop c ip (w0 + w1)))"
| "as_apply c ip w0 (Some (AShift n op)) = map_option Some (as_shift c ip w0 n op)"

text \<open>\<^verbatim>\<open>simplify\<close>: \<open>None\<close> is a panic, \<open>Some None\<close> no rewrite.\<close>

definition as_simplify :: "code \<Rightarrow> nat \<Rightarrow> nat \<Rightarrow> code option option" where
  "as_simplify c ip w0 =
     Option.bind (idx c ip) (\<lambda>k. Option.bind (idx c (ip + w0)) (\<lambda>op.
       if op \<in> set as_ops32 \<and> k = I32_CONST then
         Option.bind (operand (drop ip c) 0) (\<lambda>x. as_apply c ip w0 (as_rule32 op (ucast x)))
       else if op \<in> set as_ops64 \<and> k = I64_CONST then
         Option.bind (operand (drop ip c) 0) (\<lambda>x. as_apply c ip w0 (as_rule64 op x))
       else Some None))"

section \<open>The pass\<close>

definition as_step :: "nat \<Rightarrow> nat \<Rightarrow> code \<Rightarrow> (nat \<times> code) option" where
  "as_step e ip c =
     Option.bind (instr_width (drop ip c)) (\<lambda>w0.
       if e \<le> ip + w0 then Some (ip + w0, c)
       else Option.bind (instr_width (drop (ip + w0) c)) (\<lambda>w1.
         map_option (\<lambda>r. case r of None \<Rightarrow> (ip + w0, c) | Some c' \<Rightarrow> (ip + w0 + w1, c')) (as_simplify c ip w0)))"

lemma as_step_cases:
  assumes "as_step e ip c = Some (ip', c')"
  obtains w0 where "instr_width (drop ip c) = Some w0" "ip' = ip + w0" "c' = c"
  | w0 w1 where "instr_width (drop ip c) = Some w0" "instr_width (drop (ip + w0) c) = Some w1"
      "as_simplify c ip w0 = Some (Some c')" "ip + w0 < e" "ip' = ip + w0 + w1"
  using assms unfolding as_step_def bind_eq_Some_conv
  by (elim exE conjE) (simp split: if_split_asm option.split_asm add: bind_eq_Some_conv; force split: option.split_asm)

lemma as_step_progress: "as_step e ip c = Some (ip', c') \<Longrightarrow> ip < ip'"
  by (erule as_step_cases) (simp_all add: instr_width_pos trans_less_add1)

function as_block :: "nat \<Rightarrow> nat \<Rightarrow> code \<Rightarrow> code option" where
  "as_block e ip c =
     (if ip < e then case as_step e ip c of None \<Rightarrow> None | Some (ip', c') \<Rightarrow> as_block e ip' c' else Some c)"
  by pat_completeness auto
termination
  by (relation "measure (\<lambda>(e, ip, c). e - ip)") (auto dest: as_step_progress)

declare as_block.simps [simp del]

fun as_blocks :: "block list \<Rightarrow> code \<Rightarrow> code option" where
  "as_blocks [] c = Some c"
| "as_blocks (b # bs) c = Option.bind (as_block (bk_end b) (bk_start b) c) (as_blocks bs)"

definition as_pass :: "program \<Rightarrow> program pres" where
  "as_pass p =
     each_unit id (\<lambda>i u f bs p. need (as_blocks bs (fn_code f)) (\<lambda>c. pok (put_code u c (fn_handlers f) p)))
       0 (units_of p) [] p"

section \<open>Powers of two\<close>

lemma trailing_bits:
  fixes x :: "'a::len word"
  assumes "x \<noteq> 0"
  shows "trailing_zeros x < LENGTH('a)" "bit x (trailing_zeros x)" "n < trailing_zeros x \<Longrightarrow> \<not> bit x n"
proof -
  have le: "trailing_zeros x \<le> LENGTH('a)" using takeWhile_Not(1) [of "bits_of x"] by (simp add: trailing_zeros_def)
  have nb: "\<not> bit x n" if "n < trailing_zeros x" for n
    using takeWhile_Not(2) [of n "bits_of x"] that le bits_of_nth [of n x] by (simp add: trailing_zeros_def)
  then show "n < trailing_zeros x \<Longrightarrow> \<not> bit x n" .
  show l: "trailing_zeros x < LENGTH('a)"
  proof (rule ccontr)
    assume "\<not> trailing_zeros x < LENGTH('a)"
    then have "x = 0" using nb by (intro bit_word_eqI) auto
    then show False using assms by simp
  qed
  then show "bit x (trailing_zeros x)"
    using takeWhile_Not(3) [of "bits_of x"] bits_of_nth [of "trailing_zeros x" x] by (simp add: trailing_zeros_def)
qed

lemma power_of_two:
  fixes v :: "'a::len word"
  assumes "v \<noteq> 0" "v AND (v - 1) = 0"
  shows "v = push_bit (trailing_zeros v) 1"
proof -
  let ?k = "trailing_zeros v" and ?u = "unset_bit (trailing_zeros v) v"
  note t = trailing_bits [OF assms(1)]
  have "v = push_bit ?k 1 + ?u"
    by (subst disjunctive_add) (auto simp: bit_simps t intro!: bit_word_eqI)
  moreover have "push_bit ?k 1 = mask ?k + (1 :: 'a word)" by (simp add: mask_eq_exp_minus_1 push_bit_eq_mult)
  ultimately have "v = 1 + (mask ?k + ?u)" by (metis add.assoc add.commute)
  then have "v - 1 = mask ?k + ?u" by (metis add_diff_cancel_left')
  also have "\<dots> = mask ?k OR ?u"
    by (rule disjunctive_add) (auto simp: bit_simps t)
  finally have v1: "v - 1 = mask ?k OR ?u" .
  have "?u = 0"
  proof (rule bit_word_eqI)
    fix n assume n: "n < LENGTH('a)"
    have "\<not> bit (v AND (v - 1)) n" using assms(2) by simp
    then show "bit ?u n = bit 0 n" by (auto simp: v1 bit_simps)
  qed
  then show ?thesis using \<open>v = push_bit ?k 1 + ?u\<close> by simp
qed

lemma as_log2:
  assumes "as_log2 v = Some n"
  obtains k where "0 < k" "k < 64" "n = of_nat k" "v = push_bit k 1"
proof -
  have v: "v \<noteq> 0" "v \<noteq> 1" "v AND (v - 1) = 0" "n = go_ctz v"
    using assms by (auto simp: as_log2_def split: if_splits)
  have p: "v = push_bit (trailing_zeros v) 1" by (rule power_of_two [OF v(1,3)])
  moreover have "trailing_zeros v < 64" using trailing_bits(1) [OF v(1)] by simp
  moreover have "trailing_zeros v \<noteq> 0"
  proof
    assume "trailing_zeros v = 0"
    then have "v = 1" using p by (metis push_bit_0_id id_apply)
    then show False using v(2) by simp
  qed
  ultimately show thesis using that [of "trailing_zeros v"] v(4) by (simp add: go_ctz_def)
qed

lemma shift_count_nat: "k < LENGTH('a) \<Longrightarrow> shift_count (of_nat k :: 'a::len word) = k"
  by (simp add: shift_count_def unsigned_of_nat take_bit_nat_eq_self less_trans [OF _ less_exp])

lemma shift_powers:
  fixes a :: "'a::len word"
  assumes "k < LENGTH('a)"
  shows "a * push_bit k 1 = go_shl a (of_nat k)" "a div push_bit k 1 = go_shr_u a (of_nat k)"
  using shift_count_nat [OF assms] by (simp_all add: go_shl_def go_shr_u_def push_bit_eq_mult drop_bit_eq_div)

lemma as_log2_shift64:
  assumes "as_log2 v = Some n"
  shows "a * v = go_shl a n" "a div v = go_shr_u a n"
proof -
  obtain k where "k < 64" "n = of_nat k" "v = push_bit k 1" using as_log2 [OF assms] .
  then show "a * v = go_shl a n" "a div v = go_shr_u a n" using shift_powers [where 'a = 64, of k a] by simp_all
qed

lemma as_log2_shift32:
  fixes v :: "32 word"
  assumes "as_log2 (ucast v) = Some n"
  shows "a * v = go_shl a (ucast n)" "a div v = go_shr_u a (ucast n)"
proof -
  obtain k where k: "k < 64" "n = of_nat k" "ucast v = (push_bit k 1 :: 64 word)" using as_log2 [OF assms] .
  have "k < 32"
  proof (rule ccontr)
    assume "\<not> k < 32"
    moreover have "bit (ucast v :: 64 word) k" using k(1,3) by (simp add: bit_simps)
    ultimately show False by (auto simp: bit_simps dest: bit_imp_le_length)
  qed
  then have "ucast (push_bit k 1 :: 64 word) = (push_bit k 1 :: 32 word)"
    by (intro bit_word_eqI) (auto simp: bit_simps)
  moreover have "ucast (ucast v :: 64 word) = v" by (rule bit_word_eqI) (auto simp: bit_simps)
  ultimately have "v = push_bit k 1" using k(3) by simp
  moreover have "(ucast n :: 32 word) = of_nat k"
    using k(1) by (simp add: k(2) unsigned_of_nat take_bit_nat_eq_self less_trans [OF _ less_exp])
  ultimately show "a * v = go_shl a (ucast n)" "a div v = go_shr_u a (ucast n)"
    using shift_powers [where 'a = 32, of k a] \<open>k < 32\<close> by simp_all
qed

section \<open>Running a window\<close>

lemma window_right:
  assumes m: "at m c ip" "tr_constants (f_code (fr m)) = ks" "m_sp m < length (m_stack m)" "1 \<le> m_sp m" "top m 1 = u"
    and c: "unmarshal c = Some (pre @ [i0, [op]] @ post)" "ip = length (concat pre)"
    and p: "loads rd fl ks i0 v" and o: "plain_op rd fl op h" "computes2 h u v r"
  shows "runs rd fl m (advance (int (length i0 + 1)) (set_top 1 r (popn 1 (push v m))))"
proof -
  let ?m1 = "advance (int (length i0)) (push v m)"
  have h: "here m" using at_here [OF m(1)] .
  have s0: "step rd fl m = Some (Running ?m1)"
    by (rule loads_step [OF p(1) m(1)]) (use c m in \<open>auto simp: full_def\<close>)
  have a1: "at ?m1 c (ip + length i0)" using at_advance [of "push v m" c ip] m(1) by simp
  have s1: "step rd fl ?m1 = Some (after (h ?m1))"
    by (rule op_step [OF o(1) a1, of "pre @ [i0]"]) (use c in auto)
  have "top ?m1 1 = v" "top ?m1 2 = u" "2 \<le> m_sp ?m1"
    using m(3-5) by (simp_all add: top_def nth_list_update)
  then have "h ?m1 = Inr (advance 1 (set_top 1 r (popn 1 ?m1)))" using o(2) by (simp add: computes2_def)
  moreover have "advance 1 (set_top 1 r (popn 1 ?m1)) = advance (int (length i0 + 1)) (set_top 1 r (popn 1 (push v m)))"
    using h by (simp add: advance_push advance_advance algebra_simps)
  ultimately show ?thesis using s0 s1 by (metis after_ok runs_refl runs_step)
qed

lemma alike_right:
  assumes "m_sp m < length (m_stack m)" "1 \<le> m_sp m" "here m"
  shows "alike (recode c (advance n (set_top 1 r (popn 1 (push v m))))) (advance n (set_top 1 r (popn 1 (push v' (recode c m)))))"
    and "top m 1 = r \<Longrightarrow> alike (recode c (advance n (set_top 1 r (popn 1 (push v m))))) (advance n (recode c m))"
proof -
  let ?m = "recode c m"
  have l: "m_sp ?m < length (m_stack ?m)" "1 \<le> m_sp ?m" and h: "here ?m"
    using assms by (simp_all add: recode_def set_fr_def here_def)
  have "alike (advance n (set_top 1 r (popn 1 (push v ?m)))) (advance n (set_top 1 r (popn 1 (push v' ?m))))"
    using l by (auto simp: alike_def advance_def set_fr_def set_top_def popn_def push_def poke_def fr_def nth_list_update intro!: machine.equality nth_equalityI)
  then show "alike (recode c (advance n (set_top 1 r (popn 1 (push v m))))) (advance n (set_top 1 r (popn 1 (push v' (recode c m)))))"
    using assms(3) by (simp add: recode_moves)
  assume "top m 1 = r"
  then have "top ?m 1 = r" by (simp add: top_def)
  then have "alike (advance n (set_top 1 r (popn 1 (push v ?m)))) (advance n ?m)"
    using l by (auto simp: alike_def advance_def set_fr_def set_top_def popn_def push_def poke_def fr_def top_def nth_list_update intro!: machine.equality nth_equalityI)
  then show "alike (recode c (advance n (set_top 1 r (popn 1 (push v m))))) (advance n (recode c m))"
    using assms(3) by (simp add: recode_moves)
qed

section \<open>What the rules keep\<close>

lemma neutral_shift: "go_shl a 0 = a" "go_shr_s a 0 = a" "go_shr_u a 0 = a"
  by (simp_all add: go_shl_def go_shr_s_def go_shr_u_def shift_count_def)

lemma neutral_div: "go_div_s (a :: 32 word) 1 = a" "go_div_s (b :: 64 word) 1 = b"
  by (simp_all add: go_div_s_def)

lemma neutral32:
  "list_all (\<lambda>op. \<exists>g. (op, g) \<in> set fold_i32_bin \<and> g a 0 = Some (FI32 a))
     [I32_ADD, I32_SUB, I32_OR, I32_XOR, I32_SHL, I32_SHR_S, I32_SHR_U]"
  "list_all (\<lambda>op. \<exists>g. (op, g) \<in> set fold_i32_bin \<and> g a 1 = Some (FI32 a)) [I32_MUL, I32_DIV_S, I32_DIV_U]"
  "\<exists>g. (I32_AND, g) \<in> set fold_i32_bin \<and> g a (- 1) = Some (FI32 a)"
  unfolding list.pred_inject
  by ((intro conjI list.pred_inject(1))?; (simp add: fold_i32_bin_def neutral_shift neutral_div; fail))+

lemma shifts32:
  "\<exists>g. (I32_MUL, g) \<in> set fold_i32_bin \<and> g a b = Some (FI32 (a * b))"
  "b \<noteq> 0 \<Longrightarrow> \<exists>g. (I32_DIV_U, g) \<in> set fold_i32_bin \<and> g a b = Some (FI32 (a div b))"
  "\<exists>g. (I32_SHL, g) \<in> set fold_i32_bin \<and> g a b = Some (FI32 (go_shl a b))"
  "\<exists>g. (I32_SHR_U, g) \<in> set fold_i32_bin \<and> g a b = Some (FI32 (go_shr_u a b))"
  by (simp_all add: fold_i32_bin_def)

text \<open>What a rule's edit must do: the original operation, and what replaces it, compute the same.\<close>

fun edit_sound :: "(heap \<Rightarrow> boxed \<Rightarrow> string) \<Rightarrow> fpu \<Rightarrow> opcode \<Rightarrow> boxed \<Rightarrow> boxed \<Rightarrow> (64 word \<Rightarrow> boxed) \<Rightarrow> as_edit \<Rightarrow> bool" where
  "edit_sound rd fl op u v lit ADrop \<longleftrightarrow> (\<exists>h. plain_op rd fl op h \<and> computes2 h u v u)"
| "edit_sound rd fl op u v lit (AShift n op') \<longleftrightarrow>
     (\<exists>h h' r. plain_op rd fl op h \<and> computes2 h u v r \<and> plain_op rd fl op' h' \<and> computes2 h' u (lit n) r)"

lemma folded32:
  assumes "\<exists>g. (op, g) \<in> set fold_i32_bin \<and> g a b = Some (FI32 r)"
  obtains h where "plain_op rd fl op h" "computes2 h (box_i32 a) (box_i32 b) (box_i32 r)"
proof -
  obtain g where g: "(op, g) \<in> set fold_i32_bin" "g a b = Some (FI32 r)" using assms by blast
  show thesis using bins_sound(1) [OF g, of rd fl] that by (metis fold_box.simps(1))
qed

lemma drop32: "\<exists>g. (op, g) \<in> set fold_i32_bin \<and> g a v = Some (FI32 a) \<Longrightarrow> edit_sound rd fl op (box_i32 a) (box_i32 v) lit ADrop"
  by (erule folded32 [of _ _ _ _ rd fl]) auto

lemma shift32:
  assumes "\<exists>g. (op, g) \<in> set fold_i32_bin \<and> g a v = Some (FI32 r)" "\<exists>g. (op', g) \<in> set fold_i32_bin \<and> g a (ucast n) = Some (FI32 r)"
  shows "edit_sound rd fl op (box_i32 a) (box_i32 v) (\<lambda>n. box_i32 (ucast n)) (AShift n op')"
  using folded32 [OF assms(1), of rd fl] folded32 [OF assms(2), of rd fl] by (metis edit_sound.simps(2))

lemma as_rule32_sound:
  assumes "as_rule32 op v = Some e"
  shows "edit_sound rd fl op (box_i32 a) (box_i32 v) (\<lambda>n. box_i32 (ucast n)) e"
proof -
  have nz: "as_log2 (ucast v) = Some n \<Longrightarrow> v \<noteq> 0" for n by (auto simp: as_log2_def)
  from assms consider
      "op \<in> set [I32_ADD, I32_SUB, I32_OR, I32_XOR, I32_SHL, I32_SHR_S, I32_SHR_U]" "v = 0" "e = ADrop"
    | "op \<in> set [I32_MUL, I32_DIV_S, I32_DIV_U]" "v = 1" "e = ADrop"
    | "op = I32_AND" "v = - 1" "e = ADrop"
    | n where "op = I32_MUL" "as_log2 (ucast v) = Some n" "e = AShift n I32_SHL"
    | n where "op = I32_DIV_U" "as_log2 (ucast v) = Some n" "e = AShift n I32_SHR_U"
    unfolding as_rule32_def by (auto split: if_split_asm)
  then show ?thesis
  proof cases
    case 1
    then show ?thesis using neutral32(1) [of a] by (auto simp only: list_all_iff intro!: drop32)
  next
    case 2
    then show ?thesis using neutral32(2) [of a] by (auto simp only: list_all_iff intro!: drop32)
  next
    case 3
    then show ?thesis using neutral32(3) [of a] by (simp only: drop32)
  next
    case 4
    have "a * v = go_shl a (ucast n)" using as_log2_shift32(1) 4(2) .
    have q: "\<exists>g. (I32_SHL, g) \<in> set fold_i32_bin \<and> g a (ucast n) = Some (FI32 (a * v))"
      unfolding \<open>a * v = _\<close> by (rule shifts32(3))
    show ?thesis unfolding 4(1,3) by (rule shift32 [OF shifts32(1) q])
  next
    case 5
    have "a div v = go_shr_u a (ucast n)" using as_log2_shift32(2) 5(2) .
    have q: "\<exists>g. (I32_SHR_U, g) \<in> set fold_i32_bin \<and> g a (ucast n) = Some (FI32 (a div v))"
      unfolding \<open>a div v = _\<close> by (rule shifts32(4))
    show ?thesis unfolding 5(1,3) by (rule shift32 [OF shifts32(2) [OF nz [OF 5(2)]] q])
  qed
qed

lemma neutral64:
  "list_all (\<lambda>op. \<exists>g. (op, g) \<in> set fold_i64_bin \<and> g a 0 = Some (FI64 a)) [I64_ADD, I64_SUB, I64_SHL, I64_SHR_S, I64_SHR_U]"
  "list_all (\<lambda>op. \<exists>g. (op, g) \<in> set fold_i64_bin \<and> g a 1 = Some (FI64 a)) [I64_MUL, I64_DIV_S, I64_DIV_U]"
  unfolding list.pred_inject
  by (intro conjI list.pred_inject(1); (simp add: fold_i64_bin_def neutral_shift neutral_div; fail))+

lemma shifts64:
  "\<exists>g. (I64_MUL, g) \<in> set fold_i64_bin \<and> g a b = Some (FI64 (a * b))"
  "b \<noteq> 0 \<Longrightarrow> \<exists>g. (I64_DIV_U, g) \<in> set fold_i64_bin \<and> g a b = Some (FI64 (a div b))"
  "\<exists>g. (I64_SHL, g) \<in> set fold_i64_bin \<and> g a b = Some (FI64 (go_shl a b))"
  "\<exists>g. (I64_SHR_U, g) \<in> set fold_i64_bin \<and> g a b = Some (FI64 (go_shr_u a b))"
  by (simp_all add: fold_i64_bin_def)

lemma folded64:
  assumes "\<exists>g. (op, g) \<in> set fold_i64_bin \<and> g a b = Some (FI64 r)" "is_boxable a" "is_boxable b" "is_boxable r"
  obtains h where "plain_op rd fl op h" "computes2 h (box_i64 a) (box_i64 b) (box_i64 r)"
proof -
  obtain g where g: "(op, g) \<in> set fold_i64_bin" "g a b = Some (FI64 r)" using assms(1) by blast
  have "\<exists>h. plain_op rd fl op h \<and> computes2 h (box_i64 a) (box_i64 b) (fold_box (FI64 r))"
    by (rule bins_sound(2) [OF g assms(2,3)]) (use assms(4) in simp)
  then show thesis using that by auto
qed

lemma drop64:
  "\<exists>g. (op, g) \<in> set fold_i64_bin \<and> g a v = Some (FI64 a) \<Longrightarrow> is_boxable a \<Longrightarrow> is_boxable v
     \<Longrightarrow> edit_sound rd fl op (box_i64 a) (box_i64 v) lit ADrop"
  by (erule folded64 [of _ _ _ _ rd fl]) auto

lemma drop64_bits:
  assumes "is_boxable a" "is_boxable v"
  shows "v = 0 \<Longrightarrow> op = I64_OR \<or> op = I64_XOR \<Longrightarrow> edit_sound rd fl op (box_i64 a) (box_i64 v) lit ADrop"
    and "v = - 1 \<Longrightarrow> op = I64_AND \<Longrightarrow> edit_sound rd fl op (box_i64 a) (box_i64 v) lit ADrop"
proof -
  let ?T = "i64_arith @ i64_bits @ i64_compare @ i64_convert"
  have "map_of ?T I64_OR = Some (do_bin64 (OR))" "map_of ?T I64_XOR = Some (do_bin64 (XOR))" "map_of ?T I64_AND = Some (do_bin64 (AND))"
    by (simp_all add: i64_arith_def i64_bits_def i64_compare_def i64_convert_def)
  note p = this [THEN table_op(3), of rd fl]
  note c = computes_64(1) [OF assms]
  show "v = 0 \<Longrightarrow> op = I64_OR \<or> op = I64_XOR \<Longrightarrow> edit_sound rd fl op (box_i64 a) (box_i64 v) lit ADrop"
    using p(1,2) c [of "(OR)"] c [of "(XOR)"] assms(1) by auto
  show "v = - 1 \<Longrightarrow> op = I64_AND \<Longrightarrow> edit_sound rd fl op (box_i64 a) (box_i64 v) lit ADrop"
    using p(3) c [of "(AND)"] assms(1) by auto
qed

lemma shift64:
  assumes "\<exists>g. (op, g) \<in> set fold_i64_bin \<and> g a v = Some (FI64 r)" "\<exists>g. (op', g) \<in> set fold_i64_bin \<and> g a n = Some (FI64 r)"
    and "is_boxable a" "is_boxable v" "is_boxable n" "is_boxable r"
  shows "edit_sound rd fl op (box_i64 a) (box_i64 v) box_i64 (AShift n op')"
  using folded64 [OF assms(1,3,4,6), of rd fl] folded64 [OF assms(2,3,5,6), of rd fl] by (metis edit_sound.simps(2))

lemma log2_boxable: "as_log2 v = Some n \<Longrightarrow> is_boxable n"
proof -
  assume "as_log2 v = Some n"
  then obtain k where k: "k < 64" "n = of_nat k" by (rule as_log2)
  have "sint n = int k" using k(1) by (simp add: k(2) signed_of_nat signed_take_bit_int_eq_self_iff)
  then show ?thesis using k(1) by (simp add: is_boxable_def)
qed

lemma as_rule64_sound:
  assumes "as_rule64 op v = Some e" and b: "is_boxable a" "is_boxable v"
    "op = I64_MUL \<Longrightarrow> is_boxable (a * v)" "op = I64_DIV_U \<Longrightarrow> is_boxable (a div v)"
  shows "edit_sound rd fl op (box_i64 a) (box_i64 v) box_i64 e"
proof -
  have nz: "as_log2 v = Some n \<Longrightarrow> v \<noteq> 0" for n by (auto simp: as_log2_def)
  from assms(1) consider
      "op \<in> set [I64_ADD, I64_SUB, I64_SHL, I64_SHR_S, I64_SHR_U]" "v = 0" "e = ADrop"
    | "op = I64_OR \<or> op = I64_XOR" "v = 0" "e = ADrop"
    | "op \<in> set [I64_MUL, I64_DIV_S, I64_DIV_U]" "v = 1" "e = ADrop"
    | "op = I64_AND" "v = - 1" "e = ADrop"
    | n where "op = I64_MUL" "as_log2 v = Some n" "e = AShift n I64_SHL"
    | n where "op = I64_DIV_U" "as_log2 v = Some n" "e = AShift n I64_SHR_U"
    unfolding as_rule64_def by (auto split: if_split_asm)
  then show ?thesis
  proof cases
    case 1
    then show ?thesis using neutral64(1) [of a] b(1,2) by (auto simp only: list_all_iff intro!: drop64)
  next
    case 2
    then show ?thesis using drop64_bits(1) [OF b(1,2) 2(2,1)] by simp
  next
    case 3
    then show ?thesis using neutral64(2) [of a] b(1,2) by (auto simp only: list_all_iff intro!: drop64)
  next
    case 4
    then show ?thesis using drop64_bits(2) [OF b(1,2) 4(2,1)] by simp
  next
    case 5
    have "a * v = go_shl a n" using as_log2_shift64(1) 5(2) .
    have q: "\<exists>g. (I64_SHL, g) \<in> set fold_i64_bin \<and> g a n = Some (FI64 (a * v))"
      unfolding \<open>a * v = _\<close> by (rule shifts64(3))
    show ?thesis unfolding 5(1,3) by (rule shift64 [OF shifts64(1) q b(1,2) log2_boxable [OF 5(2)] b(3) [OF 5(1)]])
  next
    case 6
    have "a div v = go_shr_u a n" using as_log2_shift64(2) 6(2) .
    have q: "\<exists>g. (I64_SHR_U, g) \<in> set fold_i64_bin \<and> g a n = Some (FI64 (a div v))"
      unfolding \<open>a div v = _\<close> by (rule shifts64(4))
    show ?thesis unfolding 6(1,3)
      by (rule shift64 [OF shifts64(2) [OF nz [OF 6(2)]] q b(1,2) log2_boxable [OF 6(2)] b(4) [OF 6(1)]])
  qed
qed

section \<open>The window in the code\<close>

lemma lit_set:
  assumes "whole i" "i ! 0 = I32_CONST \<or> i ! 0 = I64_CONST"
  obtains i' where "set_operand (i @ c) 0 n = Some (i' @ c)" "whole i'" "i' ! 0 = i ! 0" "length i' = length i"
    "operand i' 0 = Some (if i ! 0 = I32_CONST then take_bit 32 n else n)"
proof -
  let ?w = "if i ! 0 = I32_CONST then 4 else 8 :: nat"
  have v: "valid (i ! 0)" and w: "widths (type_of (i ! 0)) = [int ?w]" using assms(2) by (auto simp: width_simps)
  obtain i' where "set_operand (i @ c) 0 n = Some (i' @ c)" "whole i'" "i' ! 0 = i ! 0" "length i' = length i"
    "operand i' 0 = Some (take_bit (8 * ?w) n)" by (rule single_set [OF assms(1) v w]) auto
  then show thesis using that by (auto simp: take_bit_word_eq_self)
qed

lemma lit_reset:
  assumes w: "whole i"
  shows "i ! 0 = I32_CONST \<Longrightarrow> \<exists>i'. set_operand (i @ c) 0 n = Some (i' @ c) \<and> length i' = length i \<and> loads rd fl ks i' (box_i32 (ucast n))"
    and "i ! 0 = I64_CONST \<Longrightarrow> is_boxable n \<Longrightarrow>
      \<exists>i'. set_operand (i @ c) 0 n = Some (i' @ c) \<and> length i' = length i \<and> loads rd fl ks i' (box_i64 n)"
proof -
  have t: "ucast (take_bit 32 n) = (ucast n :: 32 word)" by (rule bit_word_eqI) (auto simp: bit_simps)
  {
    assume k: "i ! 0 = I32_CONST"
    obtain i' where "set_operand (i @ c) 0 n = Some (i' @ c)" "whole i'" "i' ! 0 = i ! 0" "length i' = length i"
      "operand i' 0 = Some (if i ! 0 = I32_CONST then take_bit 32 n else n)" by (rule lit_set [OF w]) (use k in auto)
    then show "\<exists>i'. set_operand (i @ c) 0 n = Some (i' @ c) \<and> length i' = length i \<and> loads rd fl ks i' (box_i32 (ucast n))"
      using lit_loads(1) [of i' "take_bit 32 n" rd fl ks] k t by auto
  next
    assume k: "i ! 0 = I64_CONST" and b: "is_boxable n"
    obtain i' where "set_operand (i @ c) 0 n = Some (i' @ c)" "whole i'" "i' ! 0 = i ! 0" "length i' = length i"
      "operand i' 0 = Some (if i ! 0 = I32_CONST then take_bit 32 n else n)" by (rule lit_set [OF w]) (use k in auto)
    then show "\<exists>i'. set_operand (i @ c) 0 n = Some (i' @ c) \<and> length i' = length i \<and> loads rd fl ks i' (box_i64 n)"
      using lit_loads(2) [of i' n rd fl ks] k b by auto
  }
qed

lemma drop_runs:
  assumes m: "at m c ip" "tr_exact (f_code (fr m))" and u: "unmarshal c = Some (pre @ [i0, [op]] @ post)" "ip = length (concat pre)"
    and a: "as_apply c ip (length i0) (Some ADrop) = Some (Some c2)"
  shows "runs rd fl (recode c2 m) (advance (int (length i0 + 1)) (recode c2 m))"
proof -
  have c: "concat pre @ i0 @ [op] @ concat post = c" "\<forall>i\<in>set pre \<union> set post. whole i"
    using decoded [OF u(1)] by auto
  have "unmarshal c = Some ((pre @ [i0]) @ [op] # post)" "ip + length i0 = length (concat (pre @ [i0]))" using u by simp_all
  from place_facts(1) [OF this] have "as_drop c ip (length i0 + 1) = Some c2" using a by simp
  then have "c2 = concat (pre @ replicate (length i0 + 1) [NOP] @ post)"
    using c(1) u(2) by (auto simp: as_drop_def concat_replicate_single split: if_splits)
  moreover have "\<forall>i\<in>set (pre @ replicate (length i0 + 1) [NOP] @ post). whole i"
    using c(2) whole_single [of NOP] by (auto simp: width_simps)
  ultimately have u2: "unmarshal c2 = Some (pre @ replicate (length i0 + 1) [NOP] @ post)" by (simp only: decodes)
  show ?thesis by (rule run_nops [OF at_recode [OF m(1)] u2 u(2)]) (use m at_here [OF m(1)] in simp)
qed

lemma as_apply_sound:
  assumes m: "at m c ip" "tr_exact (f_code (fr m))" "m_sp m < length (m_stack m)" "1 \<le> m_sp m"
    and u: "unmarshal c = Some (pre @ [i0, [op]] @ post)" "ip = length (concat pre)"
    and l: "loads rd fl (tr_constants (f_code (fr m))) i0 v" and e: "edit_sound rd fl op (top m 1) v lit e"
    and s: "\<And>n op'. e = AShift n op' \<Longrightarrow> widths (type_of op') = [] \<and> (\<exists>i'. set_operand (drop ip c) 0 n = Some (i' @ [op] @ concat post)
      \<and> length i' = length i0 \<and> loads rd fl (tr_constants (f_code (fr m))) i' (lit n))"
    and a: "as_apply c ip (length i0) (Some e) = Some (Some c2)"
  shows "\<exists>m1 m2. runs rd fl m m1 \<and> runs rd fl (recode c2 m) m2 \<and> alike (recode c2 m1) m2
    \<and> at m1 c (ip + length i0 + 1) \<and> m_sp m1 = m_sp m"
proof -
  have h: "here m" using at_here [OF m(1)] .
  have m': "at (recode c2 m) c2 ip" "tr_exact (f_code (fr (recode c2 m)))"
    "tr_constants (f_code (fr (recode c2 m))) = tr_constants (f_code (fr m))" "top (recode c2 m) 1 = top m 1"
    using at_recode [OF m(1)] m(2) h by (simp_all add: top_def)
  have c: "concat pre @ i0 @ [op] @ concat post = c" "\<forall>i\<in>set pre \<union> set post. whole i"
    using decoded [OF u(1)] by auto
  have res: "at (advance (int (length i0 + 1)) (set_top 1 r (popn 1 (push v m)))) c (ip + length i0 + 1)"
    "m_sp (advance (int (length i0 + 1)) (set_top 1 r (popn 1 (push v m)))) = m_sp m" for r
    using at_advance [of "set_top 1 r (popn 1 (push v m))" c ip "length i0 + 1"] m(1) by simp_all
  show ?thesis
  proof (cases e)
    case ADrop
    then obtain f where f: "plain_op rd fl op f" "computes2 f (top m 1) v (top m 1)" using e by auto
    let ?m1 = "advance (int (length i0 + 1)) (set_top 1 (top m 1) (popn 1 (push v m)))"
    have r1: "runs rd fl m ?m1" by (rule window_right [OF m(1) refl m(3,4) refl u l f])
    have "runs rd fl (recode c2 m) (advance (int (length i0 + 1)) (recode c2 m))"
      by (rule drop_runs [OF m(1,2) u]) (use a ADrop in simp)
    then show ?thesis using r1 alike_right(2) [OF m(3,4) h refl] res by blast
  next
    case (AShift n op')
    then obtain f f' r where f: "plain_op rd fl op f" "computes2 f (top m 1) v r" and
      f': "plain_op rd fl op' f'" "computes2 f' (top m 1) (lit n) r" using e by auto
    let ?m1 = "advance (int (length i0 + 1)) (set_top 1 r (popn 1 (push v m)))"
    have r1: "runs rd fl m ?m1" by (rule window_right [OF m(1) refl m(3,4) refl u l f])
    obtain i' where i': "set_operand (drop ip c) 0 n = Some (i' @ [op] @ concat post)" "length i' = length i0"
      "loads rd fl (tr_constants (f_code (fr m))) i' (lit n)" and w: "widths (type_of op') = []" using s [OF AShift] by blast
    have "ip \<le> length c" "take ip c = concat pre" using c(1) u(2) by auto
    then have "c2 = concat (pre @ [i', [op']] @ post)"
      using a AShift i'(1,2) u(2) by (auto simp: as_shift_def set_at_def list_update_append)
    moreover have "\<forall>i\<in>set (pre @ [i', [op']] @ post). whole i"
      using c(2) whole_single [OF w] i'(3) by (auto simp: loads_def)
    ultimately have u2: "unmarshal c2 = Some (pre @ [i', [op']] @ post)" by (simp only: decodes)
    have "runs rd fl (recode c2 m) (advance (int (length i' + 1)) (set_top 1 r (popn 1 (push (lit n) (recode c2 m)))))"
      by (rule window_right [OF m'(1,3) _ _ m'(4) u2 u(2) i'(3) f']) (use m in simp_all)
    then show ?thesis using r1 alike_right(1) [OF m(3,4) h] res i'(2) by metis
  qed
qed

lemma as_ops_simple: "list_all (\<lambda>op. unat op < 210 \<and> op \<notin> set wide) (as_ops32 @ as_ops64)"
  by (simp add: as_ops32_def as_ops64_def wide_def)

lemma as_ops_plain: "op \<in> set as_ops32 \<or> op \<in> set as_ops64 \<Longrightarrow> widths (type_of op) = []"
  using as_ops_simple narrow [of op] valid_less [of op] unfolding list_all_iff valid_mem by auto

lemma rule_shift:
  "as_rule32 op v = Some (AShift n op') \<Longrightarrow> widths (type_of op') = []"
  "as_rule64 op x = Some (AShift n op') \<Longrightarrow> widths (type_of op') = []"
proof -
  have w: "widths (type_of I32_SHL) = []" "widths (type_of I32_SHR_U) = []" "widths (type_of I64_SHL) = []" "widths (type_of I64_SHR_U) = []"
    by (rule as_ops_plain, simp add: as_ops32_def as_ops64_def)+
  show "as_rule32 op v = Some (AShift n op') \<Longrightarrow> widths (type_of op') = []"
    unfolding as_rule32_def using w by (auto split: if_split_asm)
  show "as_rule64 op x = Some (AShift n op') \<Longrightarrow> widths (type_of op') = []"
    unfolding as_rule64_def using w by (auto split: if_split_asm)
qed

lemma as_simplify_cases:
  assumes s: "as_simplify c ip w0 = Some (Some c2)"
  obtains k op x e where "idx c ip = Some k" "idx c (ip + w0) = Some op" "operand (drop ip c) 0 = Some x"
    "as_apply c ip w0 (Some e) = Some (Some c2)" "op \<in> set as_ops32 \<or> op \<in> set as_ops64"
    "k = I32_CONST \<and> as_rule32 op (ucast x) = Some e \<or> k = I64_CONST \<and> as_rule64 op x = Some e"
proof -
  from s obtain k op where k: "idx c ip = Some k" "idx c (ip + w0) = Some op" "(if op \<in> set as_ops32 \<and> k = I32_CONST then
       Option.bind (operand (drop ip c) 0) (\<lambda>x. as_apply c ip w0 (as_rule32 op (ucast x)))
     else if op \<in> set as_ops64 \<and> k = I64_CONST then
       Option.bind (operand (drop ip c) 0) (\<lambda>x. as_apply c ip w0 (as_rule64 op x))
     else Some None) = Some (Some c2)"
    unfolding as_simplify_def bind_eq_Some_conv by blast
  have ap: "as_apply c ip w0 r = Some (Some c2) \<Longrightarrow> \<exists>e. r = Some e" for r by (cases r) simp_all
  show thesis
  proof (cases "op \<in> set as_ops32 \<and> k = I32_CONST")
    case True
    from k(3) [unfolded if_P [OF True] bind_eq_Some_conv]
    obtain x where x: "operand (drop ip c) 0 = Some x" "as_apply c ip w0 (as_rule32 op (ucast x)) = Some (Some c2)" by blast
    obtain e where "as_rule32 op (ucast x) = Some e" using ap [OF x(2)] by blast
    then show thesis using that [OF k(1,2) x(1), of e] x(2) True by simp
  next
    case False
    note k3 = k(3) [unfolded if_not_P [OF False]]
    show thesis
    proof (cases "op \<in> set as_ops64 \<and> k = I64_CONST")
      case t: True
      from k3 [unfolded if_P [OF t] bind_eq_Some_conv]
      obtain x where x: "operand (drop ip c) 0 = Some x" "as_apply c ip w0 (as_rule64 op x) = Some (Some c2)" by blast
      obtain e where "as_rule64 op x = Some e" using ap [OF x(2)] by blast
      then show thesis using that [OF k(1,2) x(1), of e] x(2) t by simp
    next
      case t: False
      show thesis using k3 [unfolded if_not_P [OF t]] by simp
    qed
  qed
qed

lemma as_simplify_window:
  assumes u: "unmarshal c = Some (pre @ post)" "ip = length (concat pre)" and w: "instr_width (drop ip c) = Some w0"
    and s: "as_simplify c ip w0 = Some (Some c2)"
  obtains i0 op post' x e where "post = [i0, [op]] @ post'" "whole i0" "w0 = length i0" "operand i0 0 = Some x"
    "operand (drop ip c) 0 = Some x" "c ! ip = i0 ! 0" "c ! (ip + length i0) = op"
    "as_apply c ip w0 (Some e) = Some (Some c2)"
    "i0 ! 0 = I32_CONST \<and> as_rule32 op (ucast x) = Some e \<or> i0 ! 0 = I64_CONST \<and> as_rule64 op x = Some e"
proof -
  obtain k op x e where k: "idx c ip = Some k" "idx c (ip + w0) = Some op" "operand (drop ip c) 0 = Some x"
    "as_apply c ip w0 (Some e) = Some (Some c2)" "op \<in> set as_ops32 \<or> op \<in> set as_ops64"
    "k = I32_CONST \<and> as_rule32 op (ucast x) = Some e \<or> k = I64_CONST \<and> as_rule64 op x = Some e"
    using as_simplify_cases [OF s] .
  obtain i0 post1 where p1: "post = i0 # post1" "i0 ! 0 = k"
    by (rule code_next [OF u(1), of k]) (use k(1) u(2) in auto)
  have u0: "unmarshal c = Some (pre @ i0 # post1)" using u p1(1) by simp
  note f0 = place_facts [OF u0 u(2)] code_place [OF u0 u(2)]
  have w0: "w0 = length i0" using f0(1) w by simp
  obtain i1 post2 where p2: "post1 = i1 # post2" "i1 ! 0 = op"
    by (rule code_next [of c "pre @ [i0]" post1 op]) (use u0 k(2) u(2) w0 in auto)
  have u1: "unmarshal c = Some ((pre @ [i0]) @ i1 # post2)" "ip + length i0 = length (concat (pre @ [i0]))" using u0 p2(1) u(2) by simp_all
  have i1: "i1 = [op]" using simple_whole [OF code_place(3) [OF u1]] as_ops_plain [OF k(5)] p2(2) by metis
  have v: "valid (i0 ! 0)" using k(6) p1(2) by auto
  show thesis
    by (rule that [of i0 op post2 x e]) (use p1 p2 i1 f0 w0 k v code_place(5) [OF u1] in auto)
qed

text \<open>
  Operands of the type the verifier promises, 64-bit ones small enough to stay out of the heap together
  with the product or quotient.
\<close>

definition as_fit :: "machine \<Rightarrow> code \<Rightarrow> nat \<Rightarrow> bool" where
  "as_fit m c ip \<longleftrightarrow>
     (c ! ip = I32_CONST \<longrightarrow> (\<exists>a. top m 1 = box_i32 a))
     \<and> (c ! ip = I64_CONST \<longrightarrow> (\<exists>a x. top m 1 = box_i64 a \<and> operand (drop ip c) 0 = Some x \<and> is_boxable a \<and> is_boxable x
         \<and> (c ! (ip + 9) = I64_MUL \<longrightarrow> is_boxable (a * x)) \<and> (c ! (ip + 9) = I64_DIV_U \<longrightarrow> is_boxable (a div x))))"

text \<open>C25: Simplifying a window.  On a machine whose left operand is of the operation's type (and 64-bit
  values stay inline), the original literal and operation, and the code that replaces them, both run to
  the end of the window and end alike.\<close>

theorem as_window_sound:
  assumes m: "at m c ip" "tr_exact (f_code (fr m))" "m_sp m < length (m_stack m)" "1 \<le> m_sp m"
    and u: "unmarshal c = Some (pre @ post)" "ip = length (concat pre)"
    and s: "instr_width (drop ip c) = Some w0" "as_simplify c ip w0 = Some (Some c2)"
    and f: "as_fit m c ip"
  shows "\<exists>m1 m2. runs rd fl m m1 \<and> runs rd fl (recode c2 m) m2 \<and> alike (recode c2 m1) m2
    \<and> at m1 c (ip + w0 + 1) \<and> m_sp m1 = m_sp m"
proof -
  from as_simplify_window [OF u s] obtain i0 op post' x e where i:
    "post = [i0, [op]] @ post'" "whole i0" "w0 = length i0" "operand i0 0 = Some x"
    "operand (drop ip c) 0 = Some x" "c ! ip = i0 ! 0" "c ! (ip + length i0) = op"
    "as_apply c ip w0 (Some e) = Some (Some c2)"
    "i0 ! 0 = I32_CONST \<and> as_rule32 op (ucast x) = Some e \<or> i0 ! 0 = I64_CONST \<and> as_rule64 op x = Some e" .
  have u0: "unmarshal c = Some (pre @ [i0, [op]] @ post')" using u(1) i(1) by simp
  have d: "drop ip c = i0 @ [op] @ concat post'" using code_place(2) [of c pre i0 "[op] # post'" ip] u0 u(2) by simp
  have sh: "widths (type_of op') = []" if "e = AShift n op'" for n op'
    using i(9) that rule_shift by metis
  from i(9) show ?thesis
  proof
    assume k: "i0 ! 0 = I32_CONST \<and> as_rule32 op (ucast x) = Some e"
    then obtain a where a: "top m 1 = box_i32 a" using f i(6) by (auto simp: as_fit_def)
    show ?thesis unfolding i(3)
    proof (rule as_apply_sound [OF m u0 u(2), where v = "box_i32 (ucast x)" and lit = "\<lambda>n. box_i32 (ucast n)"])
      show "loads rd fl (tr_constants (f_code (fr m))) i0 (box_i32 (ucast x))" using lit_loads(1) [OF i(2,4)] k by simp
      show "edit_sound rd fl op (top m 1) (box_i32 (ucast x)) (\<lambda>n. box_i32 (ucast n)) e"
        unfolding a using as_rule32_sound k by blast
      fix n op' assume e: "e = AShift n op'"
      show "widths (type_of op') = [] \<and> (\<exists>i'. set_operand (drop ip c) 0 n = Some (i' @ [op] @ concat post')
        \<and> length i' = length i0 \<and> loads rd fl (tr_constants (f_code (fr m))) i' (box_i32 (ucast n)))"
        unfolding d using sh [OF e] lit_reset(1) [OF i(2)] k by blast
    qed (use i(3,8) in simp)
  next
    assume k: "i0 ! 0 = I64_CONST \<and> as_rule64 op x = Some e"
    have l: "length i0 = 9" using lit_width(2) [of i0 "length i0"] k i(2) by (simp add: whole_def)
    from k obtain a where a: "top m 1 = box_i64 a" "is_boxable a" "is_boxable x" "op = I64_MUL \<Longrightarrow> is_boxable (a * x)"
      "op = I64_DIV_U \<Longrightarrow> is_boxable (a div x)" using f i(5-7) l by (auto simp: as_fit_def)
    show ?thesis unfolding i(3)
    proof (rule as_apply_sound [OF m u0 u(2), where v = "box_i64 x" and lit = box_i64])
      show "loads rd fl (tr_constants (f_code (fr m))) i0 (box_i64 x)" using lit_loads(2) [OF i(2,4)] k a(3) by simp
      show "edit_sound rd fl op (top m 1) (box_i64 x) box_i64 e"
        unfolding a(1) using as_rule64_sound [OF _ a(2-5)] k by blast
      fix n op' assume e: "e = AShift n op'"
      have "is_boxable n" using k e log2_boxable by (auto simp: as_rule64_def split: if_split_asm)
      then show "widths (type_of op') = [] \<and> (\<exists>i'. set_operand (drop ip c) 0 n = Some (i' @ [op] @ concat post')
        \<and> length i' = length i0 \<and> loads rd fl (tr_constants (f_code (fr m))) i' (box_i64 n))"
        unfolding d using sh [OF e] lit_reset(2) [OF i(2)] k by blast
    qed (use i(3,8) in simp)
  qed
qed

definition as_demo :: machine where
  "as_demo = (let m = sample_machine [box_i32 7] in m\<lparr>m_frames := [sample_frame\<lparr>f_ip := 0, f_code :=
     nil_unit\<lparr>tr_code := [I32_CONST, 8, 0, 0, 0, I32_MUL], tr_exact := True\<rparr>\<rparr>]\<rparr>)"

theorem as_window_sound_witness:
  "\<forall>rd fl. \<exists>m1 m2. runs rd fl as_demo m1 \<and> runs rd fl (recode [I32_CONST, 3, 0, 0, 0, I32_SHL] as_demo) m2
     \<and> alike (recode [I32_CONST, 3, 0, 0, 0, I32_SHL] m1) m2 \<and> m_sp m1 = 1"
proof (intro allI)
  fix rd fl
  let ?c = "[I32_CONST, 8, 0, 0, 0, I32_MUL] :: code"
  have m: "at as_demo ?c 0" "tr_exact (f_code (fr as_demo))" "m_sp as_demo < length (m_stack as_demo)" "1 \<le> m_sp as_demo"
    "m_sp as_demo = 1" "top as_demo 1 = box_i32 7"
    by (simp_all add: as_demo_def at_def fr_def sample_machine_def machine_on_def Let_def top_def)
  have u: "unmarshal ?c = Some ([] @ [[I32_CONST, 8, 0, 0, 0], [I32_MUL]])" by code_simp
  have w: "instr_width (drop 0 ?c) = Some 5" by code_simp
  have s: "as_simplify ?c 0 5 = Some (Some [I32_CONST, 3, 0, 0, 0, I32_SHL])" by code_simp
  have f: "as_fit as_demo ?c 0" using m(6) by (auto simp: as_fit_def)
  show "\<exists>m1 m2. runs rd fl as_demo m1 \<and> runs rd fl (recode [I32_CONST, 3, 0, 0, 0, I32_SHL] as_demo) m2
     \<and> alike (recode [I32_CONST, 3, 0, 0, 0, I32_SHL] m1) m2 \<and> m_sp m1 = 1"
    using as_window_sound [OF m(1-4) u _ w s f, of rd fl] m(5) by auto
qed

section \<open>A dropped operation that was not neutral\<close>

text \<open>
  The verifier lets an i1 or an i8 stand where an i32 is wanted.  For these the dropped operation is
  not neutral: its handler gives an i32.
\<close>

definition narrow_ops :: "opcode list" where
  "narrow_ops = [I32_ADD, I32_SUB, I32_SHL, I32_SHR_S, I32_SHR_U, I32_DIV_S]"

lemma handlers_widen:
  "computes2 (bin32 g) u (box_i32 v) (box_i32 (g (as_i32 u) v))"
  "v \<noteq> 0 \<Longrightarrow> computes2 (div32 g) u (box_i32 v) (box_i32 (g (as_i32 u) v))"
  by (auto simp: computes2_def bin32_def div32_def do_bin_def)

lemma narrow_rule:
  assumes "op \<in> set narrow_ops" "as_rule32 op v = Some e"
  shows "e = ADrop" "\<exists>h. plain_op rd fl op h \<and> computes2 h u (box_i32 v) (box_i32 (as_i32 u))"
proof -
  have t: "map_of scalar32 I32_ADD = Some (bin32 (+))" "map_of scalar32 I32_SUB = Some (bin32 (-))"
    "map_of scalar32 I32_SHL = Some (bin32 go_shl)" "map_of scalar32 I32_SHR_S = Some (bin32 go_shr_s)"
    "map_of scalar32 I32_SHR_U = Some (bin32 go_shr_u)" "map_of scalar32 I32_DIV_S = Some (div32 go_div_s)"
    by (simp_all add: scalar32_def i32_arith_def i32_bits_def)
  note p = t [THEN table_op(1), of rd fl]
  from assms consider "op = I32_ADD" "v = 0" | "op = I32_SUB" "v = 0" | "op = I32_SHL" "v = 0" | "op = I32_SHR_S" "v = 0"
    | "op = I32_SHR_U" "v = 0" | "op = I32_DIV_S" "v = 1"
    by (auto simp: narrow_ops_def as_rule32_def split: if_split_asm)
  then show "\<exists>h. plain_op rd fl op h \<and> computes2 h u (box_i32 v) (box_i32 (as_i32 u))"
  proof cases
    case 1
    then show ?thesis using p(1) handlers_widen(1) [of "(+)" u v] by auto
  next
    case 2
    then show ?thesis using p(2) handlers_widen(1) [of "(-)" u v] by auto
  next
    case 3
    then show ?thesis using p(3) handlers_widen(1) [of go_shl u v] by (auto simp: neutral_shift)
  next
    case 4
    then show ?thesis using p(4) handlers_widen(1) [of go_shr_s u v] by (auto simp: neutral_shift)
  next
    case 5
    then show ?thesis using p(5) handlers_widen(1) [of go_shr_u u v] by (auto simp: neutral_shift)
  next
    case 6
    then show ?thesis using p(6) handlers_widen(2) [of v go_div_s u] by (auto simp: neutral_div)
  qed
  show "e = ADrop" using assms by (auto simp: narrow_ops_def as_rule32_def split: if_split_asm)
qed

text \<open>C39: A dropped operation loses a conversion.  Whenever the pass rewrites a window of I32_ADD, I32_SUB, a
  shift or I32_DIV_S, whatever word the left operand is, the original window leaves an i32 with the
  operand's value, and the rewritten code leaves the operand itself, of the operand's own kind.  The
  verifier accepts i1 and i8 operands there, so on those the two differ in the kind they leave.\<close>

theorem drop_keeps_kind:
  assumes m: "at m c ip" "tr_exact (f_code (fr m))" "m_sp m < length (m_stack m)" "1 \<le> m_sp m"
    and u: "unmarshal c = Some (pre @ post)" "ip = length (concat pre)"
    and s: "instr_width (drop ip c) = Some w0" "as_simplify c ip w0 = Some (Some c2)"
    and op: "c ! (ip + w0) \<in> set narrow_ops"
  shows "\<exists>m1 m2. runs rd fl m m1 \<and> runs rd fl (recode c2 m) m2 \<and> at m1 c (ip + w0 + 1) \<and> at m2 c2 (ip + w0 + 1)
    \<and> m_sp m1 = m_sp m \<and> m_sp m2 = m_sp m \<and> top m1 1 = box_i32 (as_i32 (top m 1)) \<and> top m2 1 = top m 1
    \<and> boxed_kind (top m1 1) = KindI32"
proof -
  from as_simplify_window [OF u s] obtain i0 op post' x e where i:
    "post = [i0, [op]] @ post'" "whole i0" "w0 = length i0" "operand i0 0 = Some x"
    "operand (drop ip c) 0 = Some x" "c ! ip = i0 ! 0" "c ! (ip + length i0) = op"
    "as_apply c ip w0 (Some e) = Some (Some c2)"
    "i0 ! 0 = I32_CONST \<and> as_rule32 op (ucast x) = Some e \<or> i0 ! 0 = I64_CONST \<and> as_rule64 op x = Some e" .
  have o: "op \<in> set narrow_ops" using op i(3,7) by simp
  then have "as_rule64 op x = None" by (auto simp: narrow_ops_def as_rule64_def)
  then have k: "i0 ! 0 = I32_CONST" "as_rule32 op (ucast x) = Some e" using i(9) by auto
  obtain h where h: "plain_op rd fl op h" "computes2 h (top m 1) (box_i32 (ucast x)) (box_i32 (as_i32 (top m 1)))"
    using narrow_rule(2) [OF o k(2)] by blast
  have u0: "unmarshal c = Some (pre @ [i0, [op]] @ post')" using u(1) i(1) by simp
  have a: "as_apply c ip (length i0) (Some ADrop) = Some (Some c2)" using i(3,8) narrow_rule(1) [OF o k(2)] by simp
  let ?r = "box_i32 (as_i32 (top m 1))"
  let ?m1 = "advance (int (length i0 + 1)) (set_top 1 ?r (popn 1 (push (box_i32 (ucast x)) m)))"
  let ?m2 = "advance (int (length i0 + 1)) (recode c2 m)"
  have "runs rd fl m ?m1"
    by (rule window_right [OF m(1) refl m(3,4) refl u0 u(2) lit_loads(1) [OF i(2,4) k(1)] h])
  moreover have "runs rd fl (recode c2 m) ?m2" by (rule drop_runs [OF m(1,2) u0 u(2) a])
  moreover have "at ?m1 c (ip + w0 + 1)"
    using at_advance [of "set_top 1 ?r (popn 1 (push (box_i32 (ucast x)) m))" c ip "length i0 + 1"] m(1) i(3) by simp
  moreover have "at ?m2 c2 (ip + w0 + 1)" using at_advance [OF at_recode [OF m(1)], of "length i0 + 1" c2] i(3) by simp
  moreover have "top ?m1 1 = ?r" "top ?m2 1 = top m 1" "m_sp ?m1 = m_sp m" "m_sp ?m2 = m_sp m"
    using m(3,4) by (simp_all add: top_def nth_list_update)
  moreover have "boxed_kind ?r = KindI32" by simp
  ultimately show ?thesis by metis
qed

definition narrow_demo :: machine where
  "narrow_demo = (let m = sample_machine [box_i1 True] in m\<lparr>m_frames := [sample_frame\<lparr>f_ip := 0, f_code :=
     nil_unit\<lparr>tr_code := [I32_CONST, 0, 0, 0, 0, I32_ADD], tr_exact := True\<rparr>\<rparr>]\<rparr>)"

theorem drop_keeps_kind_witness:
  "\<forall>rd fl. \<exists>m1 m2. runs rd fl narrow_demo m1 \<and> runs rd fl (recode [NOP, NOP, NOP, NOP, NOP, NOP] narrow_demo) m2
     \<and> boxed_kind (top m1 1) = KindI32 \<and> boxed_kind (top m2 1) = KindI1"
proof (intro allI)
  fix rd fl
  let ?c = "[I32_CONST, 0, 0, 0, 0, I32_ADD] :: code"
  have m: "at narrow_demo ?c 0" "tr_exact (f_code (fr narrow_demo))" "m_sp narrow_demo < length (m_stack narrow_demo)" "1 \<le> m_sp narrow_demo"
    "top narrow_demo 1 = box_i1 True"
    by (simp_all add: narrow_demo_def at_def fr_def sample_machine_def machine_on_def Let_def top_def)
  have u: "unmarshal ?c = Some ([] @ [[I32_CONST, 0, 0, 0, 0], [I32_ADD]])" by code_simp
  have w: "instr_width (drop 0 ?c) = Some 5" by code_simp
  have s: "as_simplify ?c 0 5 = Some (Some [NOP, NOP, NOP, NOP, NOP, NOP])" by code_simp
  have o: "?c ! (0 + 5) \<in> set narrow_ops" by (simp add: narrow_ops_def)
  have k: "boxed_kind (box_i1 True) = KindI1" by simp
  show "\<exists>m1 m2. runs rd fl narrow_demo m1 \<and> runs rd fl (recode [NOP, NOP, NOP, NOP, NOP, NOP] narrow_demo) m2
     \<and> boxed_kind (top m1 1) = KindI32 \<and> boxed_kind (top m2 1) = KindI1"
    using drop_keeps_kind [OF m(1-4) u _ w s o, of rd fl] m(5) k by (metis list.size(3) concat.simps(1))
qed

end
