(* ===== verification/Pools.thy ===== *)
theory Pools
  imports Floats Blocks
begin

text \<open>
  The constant and type pools of a program: interning (\<^verbatim>\<open>program/builder.go\<close>) and the renumbering
  constant deduplication makes (\<^verbatim>\<open>dedupValues\<close>, \<^verbatim>\<open>dedupTypes\<close> of \<^verbatim>\<open>transform/cd.go\<close>).
\<close>

section \<open>Go's equality of values\<close>

text \<open>Slices are the values that \<^verbatim>\<open>==\<close> cannot compare; functions and other objects are pointers.\<close>

definition go_comparable :: "goval \<Rightarrow> bool" where
  "go_comparable v \<longleftrightarrow> (case v of VSlice _ _ \<Rightarrow> False | _ \<Rightarrow> True)"

fun go_same :: "goval \<Rightarrow> goval \<Rightarrow> bool" where
  "go_same (VI1 a) w \<longleftrightarrow> (case w of VI1 b \<Rightarrow> a = b | _ \<Rightarrow> False)"
| "go_same (VI8 a) w \<longleftrightarrow> (case w of VI8 b \<Rightarrow> a = b | _ \<Rightarrow> False)"
| "go_same (VI32 a) w \<longleftrightarrow> (case w of VI32 b \<Rightarrow> a = b | _ \<Rightarrow> False)"
| "go_same (VI64 a) w \<longleftrightarrow> (case w of VI64 b \<Rightarrow> a = b | _ \<Rightarrow> False)"
| "go_same (VF32 a) w \<longleftrightarrow> (case w of VF32 b \<Rightarrow> eq32 a b | _ \<Rightarrow> False)"
| "go_same (VF64 a) w \<longleftrightarrow> (case w of VF64 b \<Rightarrow> eq64 a b | _ \<Rightarrow> False)"
| "go_same (VString a) w \<longleftrightarrow> (case w of VString b \<Rightarrow> a = b | _ \<Rightarrow> False)"
| "go_same (VRef a) w \<longleftrightarrow> (case w of VRef b \<Rightarrow> a = b | _ \<Rightarrow> False)"
| "go_same (VBoxed a) w \<longleftrightarrow> (case w of VBoxed b \<Rightarrow> a = b | _ \<Rightarrow> False)"
| "go_same (VFunc a f) w \<longleftrightarrow> (case w of VFunc b g \<Rightarrow> a = b | _ \<Rightarrow> False)"
| "go_same (VObject a t) w \<longleftrightarrow> (case w of VObject b u \<Rightarrow> a = b | _ \<Rightarrow> False)"
| "go_same (VSlice t n) w \<longleftrightarrow> False"

section \<open>Interning\<close>

fun find_same :: "nat \<Rightarrow> goval list \<Rightarrow> goval \<Rightarrow> nat option" where
  "find_same k [] v = None"
| "find_same k (w # ws) v = (if go_comparable w \<and> go_same w v then Some k else find_same (Suc k) ws v)"

definition pool_const :: "goval \<Rightarrow> goval list \<Rightarrow> nat \<times> goval list" where
  "pool_const v cs = (case if go_comparable v then find_same 0 cs v else None of
     Some k \<Rightarrow> (k, cs) | None \<Rightarrow> (length cs, cs @ [v]))"

fun find_type :: "nat \<Rightarrow> gotype list \<Rightarrow> gotype \<Rightarrow> nat option" where
  "find_type k [] t = None"
| "find_type k (u # us) t = (if ty_equals u t then Some k else find_type (Suc k) us t)"

definition pool_type :: "gotype \<Rightarrow> gotype list \<Rightarrow> nat \<times> gotype list" where
  "pool_type t ts = (case find_type 0 ts t of Some k \<Rightarrow> (k, ts) | None \<Rightarrow> (length ts, ts @ [t]))"

section \<open>Renumbering constants\<close>

text \<open>An entry of the index is \<open>None\<close> for \<^verbatim>\<open>-1\<close>.  \<open>seen\<close> is the Go map, latest entry first.\<close>

fun seen_at :: "(goval \<times> nat) list \<Rightarrow> goval \<Rightarrow> nat option" where
  "seen_at [] v = None"
| "seen_at ((w, k) # ws) v = (if go_same w v then Some k else seen_at ws v)"

fun dedup_values :: "(goval \<times> nat) list \<Rightarrow> nat \<Rightarrow> goval list \<Rightarrow> bool list \<Rightarrow> nat option list \<times> nat" where
  "dedup_values seen sz (v # vs) (u # us) =
     (if \<not> u then (let (ix, n) = dedup_values seen sz vs us in (None # ix, n))
      else if \<not> go_comparable v then (let (ix, n) = dedup_values seen (Suc sz) vs us in (Some sz # ix, n))
      else case seen_at seen v of
        Some j \<Rightarrow> (let (ix, n) = dedup_values seen sz vs us in (Some j # ix, n))
      | None \<Rightarrow> (let (ix, n) = dedup_values ((v, sz) # seen) (Suc sz) vs us in (Some sz # ix, n)))"
| "dedup_values seen sz _ _ = ([], sz)"

section \<open>Renumbering types\<close>

fun merge_row :: "gotype list \<Rightarrow> bool list \<Rightarrow> nat \<Rightarrow> nat list \<Rightarrow> nat option list \<Rightarrow> nat option list" where
  "merge_row ts used i [] ix = ix"
| "merge_row ts used i (j # js) ix =
     merge_row ts used i js (if used ! j \<and> ty_equals (ts ! j) (ts ! i) then ix[j := ix ! i] else ix)"

fun merge_rows :: "gotype list \<Rightarrow> bool list \<Rightarrow> nat list \<Rightarrow> nat option list \<Rightarrow> nat option list" where
  "merge_rows ts used [] ix = ix"
| "merge_rows ts used (i # is) ix =
     merge_rows ts used is (if ix ! i = None then ix else merge_row ts used i [Suc i..<length ts] ix)"

fun renumber :: "nat list \<Rightarrow> nat option list \<Rightarrow> nat \<Rightarrow> nat option list \<times> nat" where
  "renumber [] ix sz = (ix, sz)"
| "renumber (i # is) ix sz =
     (case ix ! i of None \<Rightarrow> renumber is ix sz
      | Some k \<Rightarrow> if k \<noteq> i then renumber is (ix[i := ix ! k]) sz else renumber is (ix[i := Some sz]) (Suc sz))"

definition dedup_types :: "gotype list \<Rightarrow> bool list \<Rightarrow> nat option list \<times> nat" where
  "dedup_types ts used =
     (let ix = map (\<lambda>i. if used ! i then Some i else None) [0..<length ts] in
      renumber [0..<length ts] (merge_rows ts used [0..<length ts] ix) 0)"

section \<open>Compaction\<close>

text \<open>\<^verbatim>\<open>items[v] = items[i]\<close> for every used \<open>i\<close> in order, then the first \<open>n\<close>.\<close>

fun move_items :: "nat list \<Rightarrow> nat option list \<Rightarrow> 'a list \<Rightarrow> 'a list" where
  "move_items [] ix xs = xs"
| "move_items (i # is) ix xs = move_items is ix (case ix ! i of None \<Rightarrow> xs | Some v \<Rightarrow> xs[v := xs ! i])"

definition compact_pool :: "nat option list \<times> nat \<Rightarrow> 'a list \<Rightarrow> 'a list" where
  "compact_pool ixn xs = take (snd ixn) (move_items [0..<length (fst ixn)] (fst ixn) xs)"

section \<open>What an index promises\<close>

text \<open>
  Every used entry gets a slot below the new size, no further right than its old place; entries share a
  slot only if \<open>same\<close> holds between them; every slot is taken by the first of its entries.
\<close>

definition good_index :: "('a \<Rightarrow> 'a \<Rightarrow> bool) \<Rightarrow> 'a list \<Rightarrow> bool list \<Rightarrow> nat option list \<Rightarrow> nat \<Rightarrow> bool" where
  "good_index same xs used ix n \<longleftrightarrow> length ix = length xs
     \<and> (\<forall>i<length xs. (ix ! i \<noteq> None) = used ! i)
     \<and> (\<forall>i<length xs. \<forall>k. ix ! i = Some k \<longrightarrow> k < n \<and> k \<le> i)
     \<and> (\<forall>i<length xs. \<forall>j<length xs. \<forall>k. ix ! i = Some k \<and> ix ! j = Some k \<longrightarrow> same (xs ! i) (xs ! j))
     \<and> (\<forall>k<n. \<exists>i<length xs. ix ! i = Some k)"

lemma move_items_length [simp]: "length (move_items is ix xs) = length xs"
  by (induction "is" arbitrary: xs) (auto split: option.split)

text \<open>While the entries below \<open>m\<close> are moved, those from \<open>m\<close> on are untouched and each taken slot holds an entry of its own.\<close>

lemma move_items_inv:
  fixes xs :: "'b list"
  assumes g: "good_index same zs used ix n" and l: "length xs = length zs" and "m \<le> length xs"
  shows "\<forall>i. m \<le> i \<and> i < length xs \<longrightarrow> move_items [0..<m] ix xs ! i = xs ! i"
    and "\<forall>k i. i < m \<and> ix ! i = Some k \<longrightarrow> (\<exists>j<m. ix ! j = Some k \<and> move_items [0..<m] ix xs ! k = xs ! j)"
proof -
  have app: "move_items (as @ bs) ix ys = move_items bs ix (move_items as ix ys)" for as bs and ys :: "'b list"
    by (induction as arbitrary: ys) auto
  have "(\<forall>i. m \<le> i \<and> i < length xs \<longrightarrow> move_items [0..<m] ix xs ! i = xs ! i)
    \<and> (\<forall>k i. i < m \<and> ix ! i = Some k \<longrightarrow> (\<exists>j<m. ix ! j = Some k \<and> move_items [0..<m] ix xs ! k = xs ! j))"
    using assms(3)
  proof (induction m)
    case (Suc m)
    let ?ys = "move_items [0..<m] ix xs"
    have m: "m < length xs" using Suc.prems by simp
    have IH: "\<And>i. m \<le> i \<Longrightarrow> i < length xs \<Longrightarrow> ?ys ! i = xs ! i"
      "\<And>k i. i < m \<Longrightarrow> ix ! i = Some k \<Longrightarrow> \<exists>j<m. ix ! j = Some k \<and> ?ys ! k = xs ! j"
      using Suc by auto
    have st: "move_items [0..<Suc m] ix xs = (case ix ! m of None \<Rightarrow> ?ys | Some v \<Rightarrow> ?ys[v := ?ys ! m])"
      by (simp add: app)
    show ?case
    proof (cases "ix ! m")
      case None
      then have e: "move_items [0..<Suc m] ix xs = ?ys" using st by simp
      have "\<exists>j<Suc m. ix ! j = Some k \<and> ?ys ! k = xs ! j" if i: "i < Suc m" "ix ! i = Some k" for k i
        using IH(2) [of i k] None i by (metis less_Suc_eq option.distinct(1))
      then show ?thesis unfolding e using IH(1) Suc_leD by blast
    next
      case (Some v)
      have v: "v \<le> m" using g l m Some by (auto simp: good_index_def)
      have e: "move_items [0..<Suc m] ix xs = ?ys[v := xs ! m]" using st Some IH(1) [of m] m by simp
      have "\<exists>j<Suc m. ix ! j = Some k \<and> ?ys[v := xs ! m] ! k = xs ! j" if i: "i < Suc m" "ix ! i = Some k" for k i
      proof (cases "k = v")
        case True
        then show ?thesis using Some v m by (intro exI [of _ m]) simp
      next
        case False
        then have "i < m" using i Some by (auto simp: less_Suc_eq)
        from IH(2) [OF this i(2)] obtain j where "j < m" "ix ! j = Some k" "?ys ! k = xs ! j" by blast
        then show ?thesis using False by (intro exI [of _ j]) simp
      qed
      moreover have "?ys[v := xs ! m] ! i = xs ! i" if "Suc m \<le> i" "i < length xs" for i using IH(1) [of i] v that by simp
      ultimately show ?thesis unfolding e by blast
    qed
  qed simp
  then show "\<forall>i. m \<le> i \<and> i < length xs \<longrightarrow> move_items [0..<m] ix xs ! i = xs ! i"
    "\<forall>k i. i < m \<and> ix ! i = Some k \<longrightarrow> (\<exists>j<m. ix ! j = Some k \<and> move_items [0..<m] ix xs ! k = xs ! j)" by blast+
qed

lemma compact_pool_good:
  assumes g: "good_index same zs used ix n" and l: "length xs = length zs" and i: "i < length zs" "ix ! i = Some k"
  obtains j where "j < length zs" "k < length (compact_pool (ix, n) xs)" "compact_pool (ix, n) xs ! k = xs ! j" "same (zs ! j) (zs ! i)"
proof -
  have lx: "length ix = length zs" and k: "k < n" "k \<le> i" using g i by (auto simp: good_index_def)
  have "\<exists>j<length xs. ix ! j = Some k \<and> move_items [0..<length xs] ix xs ! k = xs ! j"
    using move_items_inv(2) [OF g l le_refl] i l [symmetric] by (metis (no_types, lifting))
  then obtain j where j: "j < length zs" "ix ! j = Some k" "move_items [0..<length xs] ix xs ! k = xs ! j" using l by auto
  have "k < length (compact_pool (ix, n) xs)" using k i(1) l by (simp add: compact_pool_def)
  moreover have "same (zs ! j) (zs ! i)" using g i j(1,2) unfolding good_index_def by blast
  ultimately show thesis using that j k l lx by (simp add: compact_pool_def)
qed

lemma compact_pool_set:
  assumes "length (fst ixn) \<le> length xs"
  shows "set (compact_pool ixn xs) \<subseteq> set xs"
proof -
  have "\<forall>i\<in>set is. i < length xs \<Longrightarrow> set (move_items is ix xs) \<subseteq> set xs" for "is" ix
  proof (induction "is" arbitrary: xs)
    case (Cons i "is")
    let ?ys = "case ix ! i of None \<Rightarrow> xs | Some v \<Rightarrow> xs[v := xs ! i]"
    have "set ?ys \<subseteq> set xs" using Cons.prems by (auto split: option.split dest!: set_update_subset_insert [THEN subsetD])
    moreover have "set (move_items is ix ?ys) \<subseteq> set ?ys" by (rule Cons.IH) (use Cons.prems in \<open>simp split: option.split\<close>)
    ultimately show ?case by simp
  qed simp
  from this [of "[0..<length (fst ixn)]"] assms show ?thesis
    unfolding compact_pool_def using set_take_subset by fastforce
qed

section \<open>The index of the constants\<close>

text \<open>Entries share a slot when they are the same entry or equal in Go's sense to a third one.\<close>

definition same_value :: "goval \<Rightarrow> goval \<Rightarrow> bool" where
  "same_value v w \<longleftrightarrow> v = w \<or> go_same v w"

lemma eq64_props: "eq64 a b \<Longrightarrow> eq64 b a" "eq64 a b \<Longrightarrow> eq64 b c \<Longrightarrow> eq64 a c"
  by (auto simp: eq64_def)

lemma eq32_props: "eq32 a b \<Longrightarrow> eq32 b a" "eq32 a b \<Longrightarrow> eq32 b c \<Longrightarrow> eq32 a c"
  by (auto simp: eq32_def)

lemma go_same_sym: "go_same v w \<Longrightarrow> go_same w v"
  by (cases v) (auto split: goval.splits dest: eq64_props eq32_props)

lemma go_same_trans: "go_same u v \<Longrightarrow> go_same v w \<Longrightarrow> go_same u w"
  by (cases u) (auto split: goval.splits intro: eq64_props eq32_props)

lemma seen_at_Some: "seen_at seen v = Some k \<Longrightarrow> \<exists>w. (w, k) \<in> set seen \<and> go_same w v"
  by (induction seen v rule: seen_at.induct) (auto split: if_splits)

definition index_inv :: "(goval \<times> nat) list \<Rightarrow> nat \<Rightarrow> goval list \<Rightarrow> bool list \<Rightarrow> nat option list \<Rightarrow> nat \<Rightarrow> bool" where
  "index_inv seen sz vs us ix n \<longleftrightarrow> length ix = length vs \<and> sz \<le> n
     \<and> (\<forall>i<length vs. (ix ! i \<noteq> None) = us ! i)
     \<and> (\<forall>i<length vs. \<forall>k. ix ! i = Some k \<longrightarrow> k < n \<and> k \<le> sz + i \<and> (k < sz \<longrightarrow> (\<exists>w. (w, k) \<in> set seen \<and> go_same w (vs ! i))))
     \<and> (\<forall>i<length vs. \<forall>j<length vs. \<forall>k. ix ! i = Some k \<and> ix ! j = Some k \<and> sz \<le> k \<longrightarrow> same_value (vs ! i) (vs ! j))
     \<and> (\<forall>k. sz \<le> k \<and> k < n \<longrightarrow> (\<exists>i<length vs. ix ! i = Some k))"

lemma index_skip:
  assumes "index_inv seen sz vs us ix n"
  shows "index_inv seen sz (v # vs) (False # us) (None # ix) n"
  using assms unfolding index_inv_def by (simp add: All_less_Suc2 Ex_less_Suc2) (meson le_SucI)

lemma index_seen:
  assumes "index_inv seen sz vs us ix n" "\<forall>(w, k)\<in>set seen. k < sz" "seen_at seen v = Some j"
  shows "index_inv seen sz (v # vs) (True # us) (Some j # ix) n"
  using assms seen_at_Some [OF assms(3)] unfolding index_inv_def
  by (simp add: All_less_Suc2 Ex_less_Suc2) (force intro: le_SucI)

lemma index_invD:
  assumes "index_inv seen sz vs us ix n"
  shows "length ix = length vs" "sz \<le> n" "i < length vs \<Longrightarrow> (ix ! i \<noteq> None) = us ! i"
    and "i < length vs \<Longrightarrow> ix ! i = Some k \<Longrightarrow> k < n" "i < length vs \<Longrightarrow> ix ! i = Some k \<Longrightarrow> k \<le> sz + i"
    and "i < length vs \<Longrightarrow> ix ! i = Some k \<Longrightarrow> k < sz \<Longrightarrow> \<exists>w. (w, k) \<in> set seen \<and> go_same w (vs ! i)"
    and "i < length vs \<Longrightarrow> j < length vs \<Longrightarrow> ix ! i = Some k \<Longrightarrow> ix ! j = Some k \<Longrightarrow> sz \<le> k \<Longrightarrow> same_value (vs ! i) (vs ! j)"
    and "sz \<le> k \<Longrightarrow> k < n \<Longrightarrow> \<exists>i<length vs. ix ! i = Some k"
  using assms unfolding index_inv_def by simp_all

lemma index_invI:
  assumes "length ix = length vs" "sz \<le> n" "\<And>i. i < length vs \<Longrightarrow> (ix ! i \<noteq> None) = us ! i"
    and "\<And>i k. i < length vs \<Longrightarrow> ix ! i = Some k \<Longrightarrow> k < n \<and> k \<le> sz + i"
    and "\<And>i k. i < length vs \<Longrightarrow> ix ! i = Some k \<Longrightarrow> k < sz \<Longrightarrow> \<exists>w. (w, k) \<in> set seen \<and> go_same w (vs ! i)"
    and "\<And>i j k. i < length vs \<Longrightarrow> j < length vs \<Longrightarrow> ix ! i = Some k \<Longrightarrow> ix ! j = Some k \<Longrightarrow> sz \<le> k \<Longrightarrow> same_value (vs ! i) (vs ! j)"
    and "\<And>k. sz \<le> k \<Longrightarrow> k < n \<Longrightarrow> \<exists>i<length vs. ix ! i = Some k"
  shows "index_inv seen sz vs us ix n"
  unfolding index_inv_def by (intro conjI allI impI; (elim conjE)?) (use assms in auto)

lemma index_new:
  assumes i: "index_inv seen' (Suc sz) vs us ix n" and s: "\<forall>(w, k)\<in>set seen. k < sz" and s': "set seen' \<subseteq> insert (v, sz) (set seen)"
  shows "index_inv seen sz (v # vs) (True # us) (Some sz # ix) n"
proof -
  note d = index_invD [OF i]
  have q: "k = sz \<and> go_same v (vs ! i) \<or> k < sz \<and> (\<exists>w. (w, k) \<in> set seen \<and> go_same w (vs ! i))"
    if "i < length vs" "ix ! i = Some k" "k < Suc sz" for i k
    using d(6) [OF that] s s' by fastforce
  have p: "same_value (vs ! i) (vs ! j)" if "i < length vs" "j < length vs" "ix ! i = Some k" "ix ! j = Some k" "sz \<le> k" for i j k
  proof (cases "k = sz")
    case True
    then have "go_same v (vs ! i)" "go_same v (vs ! j)" using q that by fastforce+
    then show ?thesis unfolding same_value_def using go_same_sym go_same_trans by blast
  next
    case False
    then show ?thesis using d(7) [OF that(1-4)] that(5) by simp
  qed
  have r: "same_value v (vs ! i)" "same_value (vs ! i) v" if "i < length vs" "ix ! i = Some sz" for i
    using q [OF that] go_same_sym unfolding same_value_def by blast+
  show ?thesis
  proof (rule index_invI)
    show "(Some sz # ix) ! i \<noteq> None \<longleftrightarrow> (True # us) ! i" if "i < length (v # vs)" for i
      using that d(3) by (cases i) simp_all
    show "k < n \<and> k \<le> sz + i" if "i < length (v # vs)" "(Some sz # ix) ! i = Some k" for i k
      using that d(2,4,5) by (cases i) fastforce+
    show "\<exists>w. (w, k) \<in> set seen \<and> go_same w ((v # vs) ! i)" if "i < length (v # vs)" "(Some sz # ix) ! i = Some k" "k < sz" for i k
      using that q by (cases i) fastforce+
    show "same_value ((v # vs) ! i) ((v # vs) ! j)"
      if "i < length (v # vs)" "j < length (v # vs)" "(Some sz # ix) ! i = Some k" "(Some sz # ix) ! j = Some k" "sz \<le> k" for i j k
      using that p r by (cases i; cases j) (auto simp: same_value_def)
    show "\<exists>i<length (v # vs). (Some sz # ix) ! i = Some k" if "sz \<le> k" "k < n" for k
    proof (cases "k = sz")
      case False
      then obtain i where "i < length vs" "ix ! i = Some k" using d(8) [of k] \<open>sz \<le> k\<close> \<open>k < n\<close> by auto
      then show ?thesis by (intro exI [of _ "Suc i"]) simp
    qed (auto intro: exI [of _ 0])
  qed (use d(1,2) in simp_all)
qed

lemma dedup_values_inv:
  "dedup_values seen sz vs us = (ix, n) \<Longrightarrow> length us = length vs \<Longrightarrow> \<forall>(w, k)\<in>set seen. k < sz
     \<Longrightarrow> index_inv seen sz vs us ix n"
proof (induction vs arbitrary: seen sz us ix n)
  case (Cons v vs)
  from Cons.prems(2) obtain u us' where us: "us = u # us'" "length us' = length vs" by (cases us) auto
  consider "\<not> u" | "u" "\<not> go_comparable v" | j where "u" "go_comparable v" "seen_at seen v = Some j"
    | "u" "go_comparable v" "seen_at seen v = None" by (cases "seen_at seen v") auto
  then show ?case
  proof cases
    case 1
    then obtain ix' where x: "dedup_values seen sz vs us' = (ix', n)" "ix = None # ix'" using Cons.prems(1) us(1) by (auto split: prod.splits)
    show ?thesis unfolding us(1) x(2) using index_skip [OF Cons.IH [OF x(1) us(2) Cons.prems(3)]] 1 by simp
  next
    case 2
    then obtain ix' where x: "dedup_values seen (Suc sz) vs us' = (ix', n)" "ix = Some sz # ix'" using Cons.prems(1) us(1) by (auto split: prod.splits)
    have "\<forall>(w, k)\<in>set seen. k < Suc sz" using Cons.prems(3) by auto
    from index_new [OF Cons.IH [OF x(1) us(2) this] Cons.prems(3), of v] show ?thesis unfolding us(1) x(2) using 2 by auto
  next
    case (3 j)
    then obtain ix' where x: "dedup_values seen sz vs us' = (ix', n)" "ix = Some j # ix'" using Cons.prems(1) us(1) by (auto split: prod.splits)
    show ?thesis unfolding us(1) x(2) using index_seen [OF Cons.IH [OF x(1) us(2) Cons.prems(3)] Cons.prems(3) 3(3)] 3 by simp
  next
    case 4
    then obtain ix' where x: "dedup_values ((v, sz) # seen) (Suc sz) vs us' = (ix', n)" "ix = Some sz # ix'"
      using Cons.prems(1) us(1) by (auto split: prod.splits)
    have "\<forall>(w, k)\<in>set ((v, sz) # seen). k < Suc sz" using Cons.prems(3) by auto
    from index_new [OF Cons.IH [OF x(1) us(2) this] Cons.prems(3), of v] show ?thesis unfolding us(1) x(2) using 4 by auto
  qed
qed (auto simp: index_inv_def)

lemma dedup_values_good:
  assumes "dedup_values [] 0 vs us = (ix, n)" "length us = length vs"
  shows "good_index same_value vs us ix n"
proof -
  note d = index_invD [OF dedup_values_inv [OF assms]]
  show ?thesis unfolding good_index_def by (intro conjI allI impI; (elim conjE)?) (use d in auto)
qed

section \<open>The index of the types\<close>

text \<open>
  After the first \<open>m\<close> rows an entry points to itself or to an equal entry before it, at most \<open>m\<close>, that
  points to itself.
\<close>

definition rows_inv :: "gotype list \<Rightarrow> bool list \<Rightarrow> nat \<Rightarrow> nat option list \<Rightarrow> bool" where
  "rows_inv ts used m ix \<longleftrightarrow> length ix = length ts \<and> (\<forall>k<length ts. (ix ! k \<noteq> None) = used ! k
     \<and> (\<forall>r. ix ! k = Some r \<longrightarrow> r \<le> k \<and> (r = k \<or> r \<le> m) \<and> ix ! r = Some r \<and> ty_equals (ts ! r) (ts ! k)))"

lemma rows_invD:
  assumes "rows_inv ts used m ix"
  shows "length ix = length ts" "k < length ts \<Longrightarrow> (ix ! k \<noteq> None) = used ! k"
    and "k < length ts \<Longrightarrow> ix ! k = Some r \<Longrightarrow> r \<le> k \<and> (r = k \<or> r \<le> m) \<and> ix ! r = Some r \<and> ty_equals (ts ! r) (ts ! k)"
  using assms by (simp_all add: rows_inv_def)

lemma merge_row_inv:
  "rows_inv ts used i ix \<Longrightarrow> i < length ts \<Longrightarrow> ix ! i \<noteq> None \<Longrightarrow> \<forall>j\<in>set js. i < j \<and> j < length ts
     \<Longrightarrow> rows_inv ts used i (merge_row ts used i js ix)"
proof (induction js arbitrary: ix)
  case (Cons j js)
  show ?case
  proof (cases "used ! j \<and> ty_equals (ts ! j) (ts ! i)")
    case True
    note d = rows_invD [OF Cons.prems(1)]
    obtain r where r: "ix ! i = Some r" using Cons.prems(3) by blast
    have j: "i < j" "j < length ts" using Cons.prems(4) by simp_all
    have ri: "r \<le> i" "ix ! r = Some r" "ty_equals (ts ! r) (ts ! i)" using d(3) [OF Cons.prems(2) r] by simp_all
    have "rows_inv ts used i (ix[j := Some r])"
      unfolding rows_inv_def
    proof (intro conjI allI impI)
      fix k q assume k: "k < length ts" "ix[j := Some r] ! k = Some q"
      have e: "ty_equals (ts ! r) (ts ! j)" using ri(3) True equals_sym(1) equals_trans(1) by blast
      show "q \<le> k" "q = k \<or> q \<le> i" "ix[j := Some r] ! q = Some q" "ty_equals (ts ! q) (ts ! k)"
        using k d(1) d(3) [of k q] ri j e by (auto simp: nth_list_update split: if_splits)
    next
      show "length (ix[j := Some r]) = length ts" using d(1) by simp
      show "(ix[j := Some r] ! k \<noteq> None) = used ! k" if "k < length ts" for k
        using d(1) d(2) [OF that] True that by (cases "k = j") simp_all
    qed
    moreover have "ix[j := Some r] ! i \<noteq> None" using r j by simp
    ultimately show ?thesis using Cons.IH Cons.prems(2,4) True r by simp
  next
    case False
    then have "merge_row ts used i (j # js) ix = merge_row ts used i js ix" by auto
    then show ?thesis using Cons by simp
  qed
qed simp

lemma merge_rows_inv:
  "rows_inv ts used m ix \<Longrightarrow> m \<le> length ts \<Longrightarrow> rows_inv ts used (length ts) (merge_rows ts used [m..<length ts] ix)"
proof (induction "length ts - m" arbitrary: m ix)
  case 0
  then show ?case by simp
next
  case (Suc d)
  then have m: "m < length ts" and u: "[m..<length ts] = m # [Suc m..<length ts]" by (auto simp: upt_conv_Cons)
  let ?ix = "if ix ! m = None then ix else merge_row ts used m [Suc m..<length ts] ix"
  have "rows_inv ts used m ?ix" using merge_row_inv [OF Suc.prems(1) m] Suc.prems(1) by auto
  then have "rows_inv ts used (Suc m) ?ix" unfolding rows_inv_def by (meson le_SucI)
  from Suc.hyps(1) [OF _ this] Suc.hyps(2) m show ?case unfolding u by simp
qed

definition root_rank :: "nat option list \<Rightarrow> nat \<Rightarrow> nat" where
  "root_rank ix m = length (filter (\<lambda>q. ix ! q = Some q) [0..<m])"

lemma root_rank_Suc: "root_rank ix (Suc m) = root_rank ix m + (if ix ! m = Some m then 1 else 0)"
  by (simp add: root_rank_def)

lemma root_rank_mono: "a \<le> b \<Longrightarrow> root_rank ix a \<le> root_rank ix b"
  by (induction b rule: dec_induct) (simp_all add: root_rank_Suc)

lemma root_rank_le: "root_rank ix m \<le> m"
  unfolding root_rank_def by (metis length_filter_le length_upt minus_nat.diff_0)

lemma root_rank_less: "ix ! a = Some a \<Longrightarrow> a < b \<Longrightarrow> root_rank ix a < root_rank ix b"
  using root_rank_mono [of "Suc a" b ix] by (simp add: root_rank_Suc)

lemma root_rank_onto: "k < root_rank ix m \<Longrightarrow> \<exists>q<m. ix ! q = Some q \<and> root_rank ix q = k"
proof (induction m)
  case (Suc m)
  then show ?case by (cases "k < root_rank ix m") (auto simp: root_rank_Suc less_Suc_eq split: if_splits)
qed (simp add: root_rank_def)

lemma renumber_rank:
  assumes r: "\<And>k q. k < length ix0 \<Longrightarrow> ix0 ! k = Some q \<Longrightarrow> q \<le> k \<and> ix0 ! q = Some q"
  shows "m \<le> length ix0 \<Longrightarrow> length ix = length ix0 \<Longrightarrow> \<forall>k<m. ix ! k = map_option (root_rank ix0) (ix0 ! k) \<Longrightarrow>
    \<forall>k. m \<le> k \<and> k < length ix0 \<longrightarrow> ix ! k = ix0 ! k \<Longrightarrow> sz = root_rank ix0 m \<Longrightarrow>
    renumber [m..<length ix0] ix sz = (map (map_option (root_rank ix0)) ix0, root_rank ix0 (length ix0))"
proof (induction "length ix0 - m" arbitrary: m ix sz)
  case 0
  then have "ix = map (map_option (root_rank ix0)) ix0" by (intro nth_equalityI) auto
  with 0 show ?case by simp
next
  case (Suc d)
  then have m: "m < length ix0" and u: "[m..<length ix0] = m # [Suc m..<length ix0]" by (auto simp: upt_conv_Cons)
  have e: "ix ! m = ix0 ! m" using Suc.prems(4) m by simp
  have next_step: "renumber [Suc m..<length ix0] ix' sz' = (map (map_option (root_rank ix0)) ix0, root_rank ix0 (length ix0))"
    if "ix' = ix \<and> ix0 ! m = None \<or> ix' = ix[m := map_option (root_rank ix0) (ix0 ! m)]" "sz' = root_rank ix0 (Suc m)" for ix' sz'
    by (rule Suc.hyps(1)) (use that Suc.hyps(2) Suc.prems m e in \<open>auto simp: less_Suc_eq nth_list_update\<close>)
  show ?case
  proof (cases "ix0 ! m")
    case None
    then show ?thesis unfolding u using e next_step [of ix sz] Suc.prems(5) by (simp add: root_rank_Suc)
  next
    case (Some q)
    have q: "q \<le> m" "ix0 ! q = Some q" using r [OF m Some] by simp_all
    show ?thesis
    proof (cases "q = m")
      case True
      then show ?thesis unfolding u using e Some next_step [of "ix[m := Some sz]" "Suc sz"] Suc.prems(5) by (simp add: root_rank_Suc)
    next
      case False
      then have "ix ! q = Some (root_rank ix0 q)" using q Suc.prems(3) by simp
      then show ?thesis unfolding u using e Some False next_step [of "ix[m := ix ! q]" sz] Suc.prems(5) by (simp add: root_rank_Suc)
    qed
  qed
qed

lemma dedup_types_good:
  assumes "dedup_types ts used = (ix, n)"
  shows "good_index ty_equals ts used ix n"
proof -
  let ?i0 = "map (\<lambda>i. if used ! i then Some i else None) [0..<length ts]"
  define ix0 where "ix0 = merge_rows ts used [0..<length ts] ?i0"
  have "rows_inv ts used 0 ?i0" by (auto simp: rows_inv_def ty_equals_refl)
  then have inv: "rows_inv ts used (length ts) ix0" unfolding ix0_def by (rule merge_rows_inv) simp
  note d = rows_invD [OF inv]
  have l: "length ix0 = length ts" by (rule d(1))
  have "renumber [0..<length ix0] ix0 0 = (map (map_option (root_rank ix0)) ix0, root_rank ix0 (length ix0))"
    by (rule renumber_rank) (use d in \<open>auto simp: root_rank_def\<close>)
  then have x: "ix = map (map_option (root_rank ix0)) ix0" "n = root_rank ix0 (length ts)"
    using assms l by (simp_all add: dedup_types_def ix0_def [symmetric])
  have root: "\<exists>q. ix0 ! i = Some q \<and> q \<le> i \<and> ix0 ! q = Some q \<and> ty_equals (ts ! q) (ts ! i) \<and> k = root_rank ix0 q"
    if "i < length ts" "ix ! i = Some k" for i k
    using that d(3) [OF that(1)] l x(1) by auto
  have inj: "q = q'" if "ix0 ! q = Some q" "ix0 ! q' = Some q'" "root_rank ix0 q = root_rank ix0 q'" for q q'
    using root_rank_less [OF that(1), of q'] root_rank_less [OF that(2), of q] that(3) by (metis linorder_neqE_nat nat_neq_iff)
  show ?thesis
    unfolding good_index_def
  proof (intro conjI allI impI; (elim conjE)?)
    show "length ix = length ts" using x l by simp
    show "(ix ! i \<noteq> None) = used ! i" if "i < length ts" for i using d(2) [OF that] that l x by simp
    show "k < n" "k \<le> i" if i: "i < length ts" "ix ! i = Some k" for i k
      using root [OF i] root_rank_less [of ix0 _ "length ts"] root_rank_le [of ix0] i(1) x(2) by (metis le_less_trans, metis le_trans)
    show "ty_equals (ts ! i) (ts ! j)" if i: "i < length ts" "j < length ts" "ix ! i = Some k" "ix ! j = Some k" for i j k
      using root [OF i(1,3)] root [OF i(2,4)] inj equals_sym(1) equals_trans(1) by metis
    show "\<exists>i<length ts. ix ! i = Some k" if "k < n" for k
      using root_rank_onto [of k ix0 "length ts"] that x l by auto
  qed
qed

end
