(* ===== verification/Dedup.thy ===== *)
theory Dedup
  imports Pools Passes FoldOps
begin

text \<open>
  Constant deduplication (\<^verbatim>\<open>transform/cd.go\<close>): the pool entries some instruction uses are renumbered, equal
  ones into one slot, and the instructions follow.  In the source the pools are compacted before the
  code is rewritten; functions are pointers, so the order does not show.
\<close>

section \<open>Uses\<close>

definition dd_type_ops :: "opcode list" where
  "dd_type_ops = [REF_TEST, REF_CAST, ARRAY_NEW, ARRAY_NEW_DEFAULT, STRUCT_NEW, STRUCT_NEW_DEFAULT, MAP_NEW, MAP_NEW_DEFAULT]"

definition dd_use :: "64 word \<Rightarrow> bool list \<Rightarrow> bool list option" where
  "dd_use x us = (if unat x < length us then Some (us[unat x := True]) else None)"

definition dd_mark1 :: "code \<Rightarrow> nat \<Rightarrow> bool list \<times> bool list \<Rightarrow> (bool list \<times> bool list) option" where
  "dd_mark1 c ip m =
     (if c ! ip = CONST_GET then
        Option.bind (operand (drop ip c) 0) (\<lambda>x. map_option (\<lambda>cu. (cu, snd m)) (dd_use x (fst m)))
      else if c ! ip \<in> set dd_type_ops then
        Option.bind (operand (drop ip c) 0) (\<lambda>x. map_option (\<lambda>tu. (fst m, tu)) (dd_use x (snd m)))
      else Some m)"

function dd_mark :: "code \<Rightarrow> nat \<Rightarrow> bool list \<times> bool list \<Rightarrow> (bool list \<times> bool list) option" where
  "dd_mark c ip m =
     (if ip < length c
      then case dd_mark1 c ip m of None \<Rightarrow> None
      | Some m' \<Rightarrow> (case instr_width (drop ip c) of None \<Rightarrow> None | Some w \<Rightarrow> dd_mark c (ip + w) m')
      else Some m)"
  by pat_completeness auto
termination
  by (relation "measure (\<lambda>(c, ip, m). length c - ip)") (auto dest: instr_width_pos)

declare dd_mark.simps [simp del]

fun dd_mark_all :: "program \<Rightarrow> unit_ref list \<Rightarrow> bool list \<times> bool list \<Rightarrow> (bool list \<times> bool list) option" where
  "dd_mark_all p [] m = Some m"
| "dd_mark_all p (u # us) m =
     Option.bind (unit_of_ref p u) (\<lambda>f. Option.bind (dd_mark (fn_code f) 0 m) (dd_mark_all p us))"

section \<open>Rewriting\<close>

text \<open>\<^verbatim>\<open>uint64(index[x])\<close>.\<close>

definition dd_slot :: "nat option list \<Rightarrow> 64 word \<Rightarrow> 64 word option" where
  "dd_slot ix x = (if unat x < length ix then Some (case ix ! unat x of None \<Rightarrow> - 1 | Some k \<Rightarrow> of_nat k) else None)"

definition dd_edit :: "nat option list \<Rightarrow> nat option list \<Rightarrow> code \<Rightarrow> nat \<Rightarrow> code option" where
  "dd_edit ci ti c ip =
     (if c ! ip = CONST_GET then
        Option.bind (operand (drop ip c) 0) (\<lambda>x. Option.bind (dd_slot ci x) (set_at c ip 0))
      else if c ! ip \<in> set dd_type_ops then
        Option.bind (operand (drop ip c) 0) (\<lambda>x. Option.bind (dd_slot ti x) (set_at c ip 0))
      else Some c)"

lemma write_word_length: "write_word n i off v = Some i' \<Longrightarrow> length i' = length i"
  by (auto simp: write_word_def split: if_splits)

lemma set_from_length: "set_from ws i off k j v = Some i' \<Longrightarrow> length i' = length i"
  by (induction ws i off k j v rule: set_from.induct) (auto split: if_splits option.splits dest: write_word_length)

lemma set_at_length: "set_at c ip k v = Some c' \<Longrightarrow> length c' = length c"
  by (auto simp: set_at_def set_operand_def bind_eq_Some_conv dest!: set_from_length split: if_splits)

lemma dd_edit_length: "dd_edit ci ti c ip = Some c' \<Longrightarrow> length c' = length c"
  by (auto simp: dd_edit_def bind_eq_Some_conv dest: set_at_length split: if_splits)

function dd_code :: "nat option list \<Rightarrow> nat option list \<Rightarrow> nat \<Rightarrow> code \<Rightarrow> code option" where
  "dd_code ci ti ip c =
     (if ip < length c
      then case dd_edit ci ti c ip of None \<Rightarrow> None
      | Some c' \<Rightarrow> (case instr_width (drop ip c') of None \<Rightarrow> None | Some w \<Rightarrow> dd_code ci ti (ip + w) c')
      else Some c)"
  by pat_completeness auto
termination
  by (relation "measure (\<lambda>(ci, ti, ip, c). length c - ip)") (auto dest!: instr_width_pos dd_edit_length)

declare dd_code.simps [simp del]

fun dd_code_all :: "nat option list \<Rightarrow> nat option list \<Rightarrow> unit_ref list \<Rightarrow> program \<Rightarrow> program option" where
  "dd_code_all ci ti [] p = Some p"
| "dd_code_all ci ti (u # us) p =
     Option.bind (unit_of_ref p u) (\<lambda>f. Option.bind (dd_code ci ti 0 (fn_code f))
       (\<lambda>c. dd_code_all ci ti us (put_code u c (fn_handlers f) p)))"

definition dd_program :: "program \<Rightarrow> program option" where
  "dd_program p =
     Option.bind (dd_mark_all p (units_of p) (replicate (length (p_constants p)) False, replicate (length (p_types p)) False)) (\<lambda>(cu, tu).
       let ci = dedup_values [] 0 (p_constants p) cu; ti = dedup_types (p_types p) tu in
       map_option (\<lambda>q. q\<lparr>p_constants := compact_pool ci (p_constants q), p_types := compact_pool ti (p_types p)\<rparr>)
         (dd_code_all (fst ci) (fst ti) (units_of p) p))"

definition dd_pass :: "program \<Rightarrow> program pres" where
  "dd_pass p = need (dd_program p) pok"

section \<open>One instruction\<close>

lemma dd_ops:
  "list_all (\<lambda>op. \<exists>t. (op, t) \<in> set types_core \<and> widths t = [2]) [CONST_GET, REF_TEST, REF_CAST]"
  "list_all (\<lambda>op. \<exists>t. (op, t) \<in> set types_heap \<and> widths t = [2])
     [ARRAY_NEW, ARRAY_NEW_DEFAULT, STRUCT_NEW, STRUCT_NEW_DEFAULT, MAP_NEW, MAP_NEW_DEFAULT]"
  unfolding list.pred_inject
  by ((intro conjI list.pred_inject(1))?; (simp add: types_core_def types_heap_def ty_def; fail))+

lemma dd_op:
  assumes "op = CONST_GET \<or> op \<in> set dd_type_ops"
  shows "valid op \<and> widths (type_of op) = [int 2]"
proof -
  have "\<exists>t. (op, t) \<in> set types \<and> widths t = [2]"
    using assms dd_ops unfolding list_all_iff types_def dd_type_ops_def set_append by auto
  then show ?thesis using type_entry by force
qed

lemma dd_set:
  assumes "whole i" "i ! 0 = CONST_GET \<or> i ! 0 \<in> set dd_type_ops" "k < 65536"
  obtains i' where "set_operand (i @ c) 0 (of_nat k) = Some (i' @ c)" "whole i'" "i' ! 0 = i ! 0" "length i' = length i"
    "operand i' 0 = Some (of_nat k)"
proof -
  have "take_bit 16 (of_nat k :: 64 word) = of_nat k"
    using assms(3) by (simp add: take_bit_of_nat take_bit_nat_eq_self)
  moreover obtain i' where "set_operand (i @ c) 0 (of_nat k) = Some (i' @ c)" "whole i'" "i' ! 0 = i ! 0" "length i' = length i"
    "operand i' 0 = Some (take_bit (8 * 2) (of_nat k))"
    by (rule single_set [OF assms(1), of 2 c "of_nat k"]) (use dd_op [OF assms(2)] in auto)
  ultimately show thesis using that by simp
qed

text \<open>The slot an operand gets in an index, small enough for the operand's 16 bits.\<close>

definition slot_fits :: "nat option list \<Rightarrow> code \<Rightarrow> bool" where
  "slot_fits ix i \<longleftrightarrow> (\<exists>x k. operand i 0 = Some x \<and> unat x < length ix \<and> ix ! unat x = Some k \<and> k < 65536)"

definition dd_fits :: "nat option list \<Rightarrow> nat option list \<Rightarrow> code \<Rightarrow> bool" where
  "dd_fits ci ti i \<longleftrightarrow> (i ! 0 = CONST_GET \<longrightarrow> slot_fits ci i) \<and> (i ! 0 \<in> set dd_type_ops \<longrightarrow> slot_fits ti i)"

definition slot_moved :: "nat option list \<Rightarrow> code \<Rightarrow> code \<Rightarrow> bool" where
  "slot_moved ix i j \<longleftrightarrow> j ! 0 = i ! 0 \<and> (\<exists>x k. operand i 0 = Some x \<and> unat x < length ix \<and> ix ! unat x = Some k \<and> k < 65536
     \<and> operand j 0 = Some (of_nat k))"

definition dd_moved :: "nat option list \<Rightarrow> nat option list \<Rightarrow> code \<Rightarrow> code \<Rightarrow> bool" where
  "dd_moved ci ti i j \<longleftrightarrow> whole j \<and> length j = length i \<and>
     (if i ! 0 = CONST_GET then slot_moved ci i j else if i ! 0 \<in> set dd_type_ops then slot_moved ti i j else j = i)"

lemma dd_edit_moves:
  assumes "whole i" "dd_fits ci ti i"
  obtains j where "dd_edit ci ti (pre @ i @ c) (length pre) = Some (pre @ j @ c)" "dd_moved ci ti i j"
proof -
  have h: "(pre @ i @ c) ! length pre = i ! 0" "drop (length pre) (pre @ i @ c) = i @ c"
    using whole_hd [OF assms(1), of c] by (simp_all add: nth_append)
  note res = that
  have slot: thesis if o: "i ! 0 = CONST_GET \<or> i ! 0 \<in> set dd_type_ops" and f: "slot_fits ix i"
    and e: "dd_edit ci ti (pre @ i @ c) (length pre) = Option.bind (operand (i @ c) 0) (\<lambda>x. Option.bind (dd_slot ix x) (set_at (pre @ i @ c) (length pre) 0))"
    and mv: "\<And>j. slot_moved ix i j \<Longrightarrow> whole j \<Longrightarrow> length j = length i \<Longrightarrow> dd_moved ci ti i j" for ix
  proof -
    obtain x k where x: "operand i 0 = Some x" "unat x < length ix" "ix ! unat x = Some k" "k < 65536"
      using f by (auto simp: slot_fits_def)
    obtain j where j: "set_operand (i @ c) 0 (of_nat k) = Some (j @ c)" "whole j" "j ! 0 = i ! 0" "length j = length i"
      "operand j 0 = Some (of_nat k)" by (rule dd_set [OF assms(1) o x(4)])
    have "operand (i @ c) 0 = Some x" using lit_operand [OF assms(1)] dd_op [OF o] x(1) by simp
    then have "dd_edit ci ti (pre @ i @ c) (length pre) = Some (pre @ j @ c)"
      using e x(2,3) j(1) by (simp add: dd_slot_def set_at_def)
    moreover have "dd_moved ci ti i j" using mv j x by (auto simp: slot_moved_def)
    ultimately show thesis by (rule res)
  qed
  consider "i ! 0 = CONST_GET" | "i ! 0 \<noteq> CONST_GET" "i ! 0 \<in> set dd_type_ops" | "i ! 0 \<noteq> CONST_GET" "i ! 0 \<notin> set dd_type_ops" by blast
  then show thesis
  proof cases
    case 1
    then show thesis using slot [of ci] assms(2) h by (simp add: dd_edit_def dd_fits_def dd_moved_def)
  next
    case 2
    then show thesis using slot [of ti] assms(2) h by (simp add: dd_edit_def dd_fits_def dd_moved_def)
  next
    case 3
    then show thesis using that [of i] h assms(1) by (simp add: dd_edit_def dd_moved_def)
  qed
qed

lemma dd_code_moves:
  "\<forall>i\<in>set is. whole i \<and> dd_fits ci ti i \<Longrightarrow>
   \<exists>js. dd_code ci ti (length pre) (pre @ concat is) = Some (pre @ concat js) \<and> list_all2 (dd_moved ci ti) is js"
proof (induction "is" arbitrary: pre)
  case Nil
  then show ?case by (simp add: dd_code.simps)
next
  case (Cons i "is")
  have i: "whole i" "dd_fits ci ti i" using Cons.prems by simp_all
  obtain j where j: "dd_edit ci ti (pre @ i @ concat is) (length pre) = Some (pre @ j @ concat is)" "dd_moved ci ti i j"
    by (rule dd_edit_moves [OF i])
  have w: "whole j" using j(2) by (simp add: dd_moved_def)
  have "dd_code ci ti (length pre) (pre @ concat (i # is)) = dd_code ci ti (length (pre @ j)) ((pre @ j) @ concat is)"
    using j(1) whole_at [OF w, of "concat is"] whole_pos [OF i(1)] by (subst dd_code.simps) simp
  moreover obtain js where "dd_code ci ti (length (pre @ j)) ((pre @ j) @ concat is) = Some ((pre @ j) @ concat js)"
    "list_all2 (dd_moved ci ti) is js" using Cons.IH [of "pre @ j"] Cons.prems by auto
  ultimately show ?case using j(2) by (intro exI [of _ "j # js"]) simp
qed

lemma dd_moved_decodes:
  "list_all2 (dd_moved ci ti) is js \<Longrightarrow> unmarshal (concat js) = Some js"
  by (rule decodes) (auto simp: list_all2_conv_all_nth dd_moved_def in_set_conv_nth)

section \<open>Marking\<close>

definition le_marks :: "bool list \<Rightarrow> bool list \<Rightarrow> bool" where
  "le_marks us vs \<longleftrightarrow> length us = length vs \<and> (\<forall>k<length us. us ! k \<longrightarrow> vs ! k)"

definition marked :: "bool list \<times> bool list \<Rightarrow> code \<Rightarrow> bool" where
  "marked m i \<longleftrightarrow>
     (i ! 0 = CONST_GET \<longrightarrow> (\<exists>x. operand i 0 = Some x \<and> unat x < length (fst m) \<and> fst m ! unat x))
     \<and> (i ! 0 \<in> set dd_type_ops \<longrightarrow> (\<exists>x. operand i 0 = Some x \<and> unat x < length (snd m) \<and> snd m ! unat x))"

lemma le_marks_trans: "le_marks a b \<Longrightarrow> le_marks b c \<Longrightarrow> le_marks a c"
  by (auto simp: le_marks_def)

lemma le_marks_refl [simp]: "le_marks a a"
  by (simp add: le_marks_def)

lemma marked_mono: "marked m i \<Longrightarrow> le_marks (fst m) (fst m') \<Longrightarrow> le_marks (snd m) (snd m') \<Longrightarrow> marked m' i"
  by (auto simp: marked_def le_marks_def)

lemma dd_use_marks: "dd_use x us = Some vs \<Longrightarrow> le_marks us vs \<and> unat x < length vs \<and> vs ! unat x"
  by (auto simp: dd_use_def le_marks_def nth_list_update split: if_splits)

lemma not_type_const [simp]: "CONST_GET \<notin> set dd_type_ops"
  by (simp add: dd_type_ops_def)

lemma dd_mark1_marks:
  assumes "whole i" "dd_mark1 (pre @ i @ c) (length pre) m = Some m'"
  shows "marked m' i" "le_marks (fst m) (fst m')" "le_marks (snd m) (snd m')"
proof -
  have h: "(pre @ i @ c) ! length pre = i ! 0" "drop (length pre) (pre @ i @ c) = i @ c"
    using whole_hd [OF assms(1), of c] by (simp_all add: nth_append)
  have o: "operand (i @ c) 0 = operand i 0" if "i ! 0 = CONST_GET \<or> i ! 0 \<in> set dd_type_ops"
    using lit_operand [OF assms(1)] dd_op [OF that] by simp
  show "marked m' i" "le_marks (fst m) (fst m')" "le_marks (snd m) (snd m')"
    using assms(2) o unfolding dd_mark1_def h
    by (auto simp: marked_def bind_eq_Some_conv dest!: dd_use_marks split: if_splits)
qed

lemma dd_mark_marks:
  "\<forall>i\<in>set is. whole i \<Longrightarrow> dd_mark (pre @ concat is) (length pre) m = Some m' \<Longrightarrow>
   (\<forall>i\<in>set is. marked m' i) \<and> le_marks (fst m) (fst m') \<and> le_marks (snd m) (snd m')"
proof (induction "is" arbitrary: pre m)
  case Nil
  then show ?case by (simp add: dd_mark.simps)
next
  case (Cons i "is")
  have i: "whole i" using Cons.prems by simp
  have e: "dd_mark (pre @ concat (i # is)) (length pre) m = (case dd_mark1 (pre @ i @ concat is) (length pre) m of None \<Rightarrow> None
      | Some m1 \<Rightarrow> dd_mark ((pre @ i) @ concat is) (length (pre @ i)) m1)"
    using whole_at [OF i, of "concat is"] whole_pos [OF i] by (subst dd_mark.simps) (simp split: option.split)
  obtain m1 where m1: "dd_mark1 (pre @ i @ concat is) (length pre) m = Some m1"
    "dd_mark ((pre @ i) @ concat is) (length (pre @ i)) m1 = Some m'"
    using Cons.prems(2) unfolding e by (auto split: option.splits)
  note a = dd_mark1_marks [OF i m1(1)] and b = Cons.IH [OF _ m1(2)]
  show ?case using a b Cons.prems(1) marked_mono le_marks_trans by (metis set_ConsD list.set_intros(2))
qed

lemma dd_mark1_mono: "dd_mark1 c ip m = Some m' \<Longrightarrow> le_marks (fst m) (fst m') \<and> le_marks (snd m) (snd m')"
  unfolding dd_mark1_def by (auto simp: bind_eq_Some_conv dest!: dd_use_marks split: if_splits)

lemma dd_mark_mono: "dd_mark c ip m = Some m' \<Longrightarrow> le_marks (fst m) (fst m') \<and> le_marks (snd m) (snd m')"
proof (induction c ip m rule: dd_mark.induct)
  case (1 c ip m)
  show ?case
  proof (cases "ip < length c")
    case True
    with 1(2) obtain m1 w where m1: "dd_mark1 c ip m = Some m1" "instr_width (drop ip c) = Some w" "dd_mark c (ip + w) m1 = Some m'"
      by (subst (asm) dd_mark.simps) (auto split: option.splits)
    show ?thesis using 1(1) [OF True m1] dd_mark1_mono [OF m1(1)] le_marks_trans by blast
  next
    case False
    then show ?thesis using 1(2) by (simp add: dd_mark.simps)
  qed
qed

lemma dd_mark_all_mono: "dd_mark_all p us m = Some m' \<Longrightarrow> le_marks (fst m) (fst m') \<and> le_marks (snd m) (snd m')"
proof (induction us arbitrary: m)
  case (Cons u us)
  then obtain f m1 where "unit_of_ref p u = Some f" "dd_mark (fn_code f) 0 m = Some m1" "dd_mark_all p us m1 = Some m'"
    unfolding dd_mark_all.simps bind_eq_Some_conv by blast
  then show ?case using Cons.IH dd_mark_mono le_marks_trans by blast
qed simp

lemma dd_mark_all_marks:
  "dd_mark_all p us m = Some m' \<Longrightarrow> u \<in> set us \<Longrightarrow> unit_of_ref p u = Some f \<Longrightarrow> unmarshal (fn_code f) = Some is
     \<Longrightarrow> \<forall>i\<in>set is. marked m' i"
proof (induction us arbitrary: m)
  case (Cons v us)
  then obtain g m1 where g: "unit_of_ref p v = Some g" "dd_mark (fn_code g) 0 m = Some m1" "dd_mark_all p us m1 = Some m'"
    by (auto simp: bind_eq_Some_conv)
  show ?case
  proof (cases "u = v")
    case True
    then have "g = f" using g(1) Cons.prems(3) by simp
    then have "\<forall>i\<in>set is. marked m1 i"
      using dd_mark_marks [of "is" "[]" m m1] decoded [OF Cons.prems(4)] g(2) by simp
    then show ?thesis using dd_mark_all_mono [OF g(3)] marked_mono by blast
  next
    case False
    then show ?thesis using Cons.IH [OF g(3)] Cons.prems by simp
  qed
qed simp

section \<open>The program\<close>

definition same_fn :: "goval \<Rightarrow> goval \<Rightarrow> bool" where
  "same_fn v w \<longleftrightarrow> v = w \<or> (\<exists>a f g. v = VFunc a f \<and> w = VFunc a g)"

lemma same_fn_value: "same_fn v w \<Longrightarrow> same_value w x \<Longrightarrow> same_value v x"
  by (auto simp: same_fn_def same_value_def split: goval.splits)

lemma same_fn_trans: "same_fn u v \<Longrightarrow> same_fn v w \<Longrightarrow> same_fn u w"
  by (auto simp: same_fn_def)

lemma put_code_consts: "list_all2 same_fn (p_constants (put_code u c hs p)) (p_constants p)"
  by (cases u) (auto simp: list_all2_conv_all_nth same_fn_def split: goval.splits)

lemma put_code_types [simp]: "p_types (put_code u c hs p) = p_types p"
  by (cases u) simp_all

lemma put_code_root: "p_locals (put_code (Fn a) c hs p) = p_locals p" "p_code (put_code (Fn a) c hs p) = p_code p"
  "p_handlers (put_code (Fn a) c hs p) = p_handlers p"
  by simp_all

lemma unit_put_other: "u \<noteq> v \<Longrightarrow> unit_of_ref (put_code u c hs p) v = unit_of_ref p v"
  by (cases u; cases v) (auto simp: find_function_put put_code_root root_function_def split: option.split simp del: put_code.simps(2))

lemma unit_put_same:
  "unit_of_ref p u = Some f \<Longrightarrow> \<exists>g. unit_of_ref (put_code u c (fn_handlers f) p) u = Some g \<and> fn_code g = c \<and> fn_handlers g = fn_handlers f"
  by (cases u) (auto simp: find_function_put root_function_def split: option.split simp del: put_code.simps(2))

lemma dd_code_all_keeps:
  "dd_code_all ci ti us p = Some q \<Longrightarrow>
     list_all2 same_fn (p_constants q) (p_constants p) \<and> p_types q = p_types p \<and> units_of q = units_of p
     \<and> (\<forall>u. u \<notin> set us \<longrightarrow> unit_of_ref q u = unit_of_ref p u)"
proof (induction us arbitrary: p)
  case Nil
  then show ?case by (simp add: list_all2_conv_all_nth same_fn_def)
next
  case (Cons v us)
  then obtain f c where f: "unit_of_ref p v = Some f" "dd_code_all ci ti us (put_code v c (fn_handlers f) p) = Some q"
    by (auto simp: bind_eq_Some_conv)
  note k = Cons.IH [OF f(2)]
  have "list_all2 same_fn (p_constants q) (p_constants p)"
    using k put_code_consts same_fn_trans by (metis (mono_tags, lifting) list_all2_trans)
  then show ?case using k unit_put_other by auto
qed

lemma dd_code_all_unit:
  "dd_code_all ci ti us p = Some q \<Longrightarrow> distinct us \<Longrightarrow> u \<in> set us \<Longrightarrow> unit_of_ref p u = Some f \<Longrightarrow>
     \<exists>g. unit_of_ref q u = Some g \<and> dd_code ci ti 0 (fn_code f) = Some (fn_code g) \<and> fn_handlers g = fn_handlers f"
proof (induction us arbitrary: p)
  case (Cons v us)
  then obtain g c where g: "unit_of_ref p v = Some g" "dd_code ci ti 0 (fn_code g) = Some c"
    "dd_code_all ci ti us (put_code v c (fn_handlers g) p) = Some q"
    by (auto simp: bind_eq_Some_conv)
  show ?case
  proof (cases "u = v")
    case True
    then have "unit_of_ref q u = unit_of_ref (put_code v c (fn_handlers g) p) u"
      using dd_code_all_keeps [OF g(3)] Cons.prems(2) by simp
    then show ?thesis using unit_put_same [OF g(1), of c] g(1,2) True Cons.prems(4) by auto
  next
    case False
    then show ?thesis using Cons.IH [OF g(3)] Cons.prems unit_put_other [of v u c "fn_handlers g" p] by auto
  qed
qed simp

lemma dd_operand_bound:
  assumes "whole i" "i ! 0 = CONST_GET \<or> i ! 0 \<in> set dd_type_ops" "operand i 0 = Some x"
  shows "unat x < 65536"
proof -
  note w = dd_op [OF assms(2)]
  have l: "length i = 3"
    using assms(1) w whole_pos [OF assms(1)] by (auto simp: whole_def instr_width_def instr_type_def idx_def)
  have x: "x = le_value (take 2 (drop 1 i))"
    using assms(3) w whole_pos [OF assms(1)]
    by (auto simp: operand_def operands_def instr_type_def idx_def read_word_def bind_eq_Some_conv split: if_splits)
  have "le_bytes 2 x = take 2 (drop 1 i)" using le_bytes_le_value [of "take 2 (drop 1 i)"] l x by simp
  then have "x = take_bit 16 x" using le_value_le_bytes [of 2 x] x by simp
  then have "unat x = take_bit 16 (unat x)" by (metis unsigned_take_bit_eq)
  moreover have "take_bit 16 (unat x) < 2 ^ 16" by (rule take_bit_nat_less_exp)
  ultimately show ?thesis by simp
qed

lemma find_function_mem: "find_function vs a = Some f \<Longrightarrow> VFunc a f \<in> set vs"
  by (induction vs a rule: find_function.induct) (auto split: goval.splits if_splits)

lemma find_function_unique:
  "distinct (concat (map (\<lambda>v. case v of VFunc a f \<Rightarrow> [Fn a] | _ \<Rightarrow> []) vs)) \<Longrightarrow> VFunc a f \<in> set vs \<Longrightarrow> find_function vs a = Some f"
proof (induction vs)
  case (Cons v vs)
  have "Fn b \<in> set (concat (map (\<lambda>v. case v of VFunc a f \<Rightarrow> [Fn a] | _ \<Rightarrow> []) vs))" if "VFunc b g \<in> set vs" for b g
    using that by force
  then show ?case using Cons by (cases v) auto
qed simp

lemma unit_listed: "unit_of_ref p u = Some f \<Longrightarrow> u \<in> set (units_of p)"
  by (cases u) (force simp: units_of_def dest: find_function_mem)+

text \<open>The same instruction over the new pools: it reads an equal constant, or a type equal to the old one.\<close>

definition dd_same :: "program \<Rightarrow> program \<Rightarrow> code \<Rightarrow> code \<Rightarrow> bool" where
  "dd_same p q i j \<longleftrightarrow> length j = length i \<and>
     (if i ! 0 = CONST_GET then
        j ! 0 = i ! 0 \<and> (\<exists>x y. operand i 0 = Some x \<and> operand j 0 = Some y \<and> unat x < length (p_constants p)
          \<and> unat y < length (p_constants q) \<and> same_value (p_constants q ! unat y) (p_constants p ! unat x))
      else if i ! 0 \<in> set dd_type_ops then
        j ! 0 = i ! 0 \<and> (\<exists>x y. operand i 0 = Some x \<and> operand j 0 = Some y \<and> unat x < length (p_types p)
          \<and> unat y < length (p_types q) \<and> ty_equals (p_types q ! unat y) (p_types p ! unat x))
      else j = i)"

lemma slot_resolves:
  assumes g: "good_index same zs us ix n" and l: "length xs = length zs" and m: "unat x < length zs" "us ! unat x" "unat x < 65536"
  obtains k j where "ix ! unat x = Some k" "k < 65536" "j < length zs" "k < length (compact_pool (ix, n) xs)"
    "compact_pool (ix, n) xs ! k = xs ! j" "same (zs ! j) (zs ! unat x)"
proof -
  obtain k where k: "ix ! unat x = Some k" "k \<le> unat x" using g m(1,2) unfolding good_index_def by (metis option.exhaust)
  obtain j where "j < length zs" "k < length (compact_pool (ix, n) xs)" "compact_pool (ix, n) xs ! k = xs ! j" "same (zs ! j) (zs ! unat x)"
    by (rule compact_pool_good [OF g l m(1) k(1)])
  then show thesis using that k m(3) by simp
qed

lemma unit_compacted:
  assumes "distinct (units_of r)" "length (fst ixn) \<le> length (p_constants r)"
    and "q = r\<lparr>p_constants := compact_pool ixn (p_constants r), p_types := ts\<rparr>" "unit_of_ref q u = Some g"
  shows "unit_of_ref r u = Some g"
proof (cases u)
  case Root
  then show ?thesis using assms(3,4) by (simp add: root_function_def)
next
  case (Fn a)
  then have "VFunc a g \<in> set (compact_pool ixn (p_constants r))" using assms(3,4) find_function_mem by simp
  then have "VFunc a g \<in> set (p_constants r)" using compact_pool_set [OF assms(2)] by blast
  then show ?thesis using find_function_unique assms(1) Fn by (simp add: units_of_def)
qed

lemma marked_fits:
  assumes "good_index same zs us ix n" "length us = length zs" "whole i" "i ! 0 = CONST_GET \<or> i ! 0 \<in> set dd_type_ops"
    and "\<exists>x. operand i 0 = Some x \<and> unat x < length us \<and> us ! unat x"
  shows "slot_fits ix i"
proof -
  obtain x where x: "operand i 0 = Some x" "unat x < length zs" "us ! unat x" using assms(2,5) by auto
  obtain k where "ix ! unat x = Some k" "k \<le> unat x" using assms(1) x(2,3) unfolding good_index_def by (metis option.exhaust)
  moreover have "length ix = length zs" using assms(1) by (simp add: good_index_def)
  ultimately show ?thesis using x dd_operand_bound [OF assms(3,4) x(1)] by (auto simp: slot_fits_def)
qed

lemma moved_reads:
  assumes g: "good_index same zs us ix n" and l: "length xs = length zs" and s: "slot_moved ix i j"
  shows "j ! 0 = i ! 0 \<and> (\<exists>x y k. operand i 0 = Some x \<and> operand j 0 = Some y \<and> unat x < length zs
    \<and> unat y < length (compact_pool (ix, n) xs) \<and> k < length zs \<and> compact_pool (ix, n) xs ! unat y = xs ! k \<and> same (zs ! k) (zs ! unat x))"
proof -
  obtain x k where x: "operand i 0 = Some x" "unat x < length ix" "ix ! unat x = Some k" "k < 65536" "operand j 0 = Some (of_nat k)"
    using s by (auto simp: slot_moved_def)
  have lx: "unat x < length zs" using g x(2) by (simp add: good_index_def)
  have u: "unat (of_nat k :: 64 word) = k" using x(4) by (simp add: unsigned_of_nat take_bit_nat_eq_self)
  obtain m where "m < length zs" "k < length (compact_pool (ix, n) xs)" "compact_pool (ix, n) xs ! k = xs ! m" "same (zs ! m) (zs ! unat x)"
    by (rule compact_pool_good [OF g l lx x(3)])
  then show ?thesis using x lx u s by (auto simp: slot_moved_def)
qed

lemma moved_same:
  assumes gc: "good_index same_value (p_constants p) cu ci n" and gt: "good_index ty_equals (p_types p) tu ti l"
    and k: "list_all2 same_fn (p_constants r) (p_constants p)"
    and q: "q = r\<lparr>p_constants := compact_pool (ci, n) (p_constants r), p_types := compact_pool (ti, l) (p_types p)\<rparr>"
    and d: "dd_moved ci ti i j"
  shows "dd_same p q i j"
proof -
  have lc: "length (p_constants r) = length (p_constants p)" using k by (rule list_all2_lengthD)
  have l: "length j = length i" using d by (simp add: dd_moved_def)
  consider "i ! 0 = CONST_GET" "slot_moved ci i j" | "i ! 0 \<noteq> CONST_GET" "i ! 0 \<in> set dd_type_ops" "slot_moved ti i j"
    | "i ! 0 \<noteq> CONST_GET" "i ! 0 \<notin> set dd_type_ops" "j = i" using d unfolding dd_moved_def by argo
  then show ?thesis
  proof cases
    case 1
    from moved_reads [OF gc lc 1(2)] obtain x y c where y: "j ! 0 = i ! 0" "operand i 0 = Some x" "operand j 0 = Some y"
      "unat x < length (p_constants p)" "unat y < length (p_constants q)" "c < length (p_constants p)"
      "p_constants q ! unat y = p_constants r ! c" "same_value (p_constants p ! c) (p_constants p ! unat x)"
      using q by auto
    have "same_fn (p_constants r ! c) (p_constants p ! c)" using k y(6) lc by (simp add: list_all2_conv_all_nth)
    then have "same_value (p_constants q ! unat y) (p_constants p ! unat x)" using same_fn_value y(7,8) by simp
    then show ?thesis using 1(1) l y by (simp add: dd_same_def)
  next
    case 2
    from moved_reads [OF gt refl 2(3)] show ?thesis using 2(1,2) l q by (auto simp: dd_same_def)
  next
    case 3
    then show ?thesis by (simp add: dd_same_def)
  qed
qed

text \<open>C26: Deduplication keeps what the code reads.  When no function is listed twice, every instruction of
  every unit of the new program is the old one, but that a constant is read from a slot with an equal
  value and a type from a slot with an equal type; exception tables are unchanged.\<close>

theorem dedup_keeps_meaning:
  assumes p: "dd_program p = Some q" "distinct (units_of p)"
    and u: "unit_of_ref p u = Some f" "unit_of_ref q u = Some g" "unmarshal (fn_code f) = Some is"
  shows "fn_handlers g = fn_handlers f \<and> (\<exists>js. unmarshal (fn_code g) = Some js \<and> list_all2 (dd_same p q) is js)"
proof -
  obtain cu tu ci n ti l r where m: "dd_mark_all p (units_of p) (replicate (length (p_constants p)) False, replicate (length (p_types p)) False) = Some (cu, tu)"
    and x: "dedup_values [] 0 (p_constants p) cu = (ci, n)" "dedup_types (p_types p) tu = (ti, l)"
    and r: "dd_code_all ci ti (units_of p) p = Some r"
    and q: "q = r\<lparr>p_constants := compact_pool (ci, n) (p_constants r), p_types := compact_pool (ti, l) (p_types p)\<rparr>"
    using p(1) unfolding dd_program_def bind_eq_Some_conv by (auto simp: Let_def split: prod.splits) (metis fst_conv prod.collapse)
  have lm: "length cu = length (p_constants p)" "length tu = length (p_types p)"
    using dd_mark_all_mono [OF m] by (simp_all add: le_marks_def)
  note gc = dedup_values_good [OF x(1) lm(1)] and gt = dedup_types_good [OF x(2)]
  note k = dd_code_all_keeps [OF r]
  have lc: "length (p_constants r) = length (p_constants p)" using k list_all2_lengthD by blast
  obtain h where h: "unit_of_ref r u = Some h" "dd_code ci ti 0 (fn_code f) = Some (fn_code h)" "fn_handlers h = fn_handlers f"
    using dd_code_all_unit [OF r p(2) unit_listed [OF u(1)] u(1)] by blast
  have "unit_of_ref r u = Some g"
    by (rule unit_compacted [OF _ _ q u(2)]) (use k p(2) gc lc in \<open>simp_all add: good_index_def\<close>)
  then have gh: "g = h" using h(1) by simp
  note ins = decoded [OF u(3)] dd_mark_all_marks [OF m unit_listed [OF u(1)] u(1,3)]
  have "dd_fits ci ti i" if "i \<in> set is" for i
    using ins(2,3) that marked_fits [OF gc lm(1)] marked_fits [OF gt lm(2)] unfolding dd_fits_def marked_def fst_conv snd_conv by blast
  then obtain js where js: "dd_code ci ti 0 (fn_code f) = Some (concat js)" "list_all2 (dd_moved ci ti) is js"
    using dd_code_moves [of "is" ci ti "[]"] ins(1,2) by auto
  have "dd_same p q i j" if "dd_moved ci ti i j" for i j
    using moved_same [OF gc gt _ q that] k by blast
  then have "list_all2 (dd_same p q) is js" using js(2) list_all2_mono by blast
  moreover have "unmarshal (fn_code g) = Some js" using dd_moved_decodes [OF js(2)] js(1) h(2) gh by simp
  ultimately show ?thesis using gh h(3) by blast
qed

definition dd_demo :: program where
  "dd_demo = \<lparr>p_code = [CONST_GET, 2, 0, CONST_GET, 0, 0], p_locals = [], p_globals = [],
     p_constants = [VString ''a'', VI32 5, VString ''a''], p_types = [], p_handlers = []\<rparr>"

theorem dedup_keeps_meaning_witness:
  "\<exists>js. unmarshal [CONST_GET, 0, 0, CONST_GET, 0, 0] = Some js
     \<and> list_all2 (dd_same dd_demo (dd_demo\<lparr>p_code := [CONST_GET, 0, 0, CONST_GET, 0, 0], p_constants := [VString ''a'']\<rparr>))
         [[CONST_GET, 2, 0], [CONST_GET, 0, 0]] js"
proof -
  let ?q = "dd_demo\<lparr>p_code := [CONST_GET, 0, 0, CONST_GET, 0, 0], p_constants := [VString ''a'']\<rparr>"
  have p: "dd_program dd_demo = Some ?q" by code_simp
  have d: "distinct (units_of dd_demo)" by (simp add: units_of_def dd_demo_def)
  have u: "unit_of_ref dd_demo Root = Some (root_function dd_demo)" "unit_of_ref ?q Root = Some (root_function ?q)" by simp_all
  have m: "unmarshal (fn_code (root_function dd_demo)) = Some [[CONST_GET, 2, 0], [CONST_GET, 0, 0]]" by code_simp
  show ?thesis using dedup_keeps_meaning [OF p d u m] by (simp add: root_function_def)
qed

section \<open>Where it goes wrong\<close>

text \<open>
  A function listed twice is rewritten twice: its \<^verbatim>\<open>CONST_GET 2\<close> becomes 1 and then, slot 1 being unused, the
  operand of all ones.
\<close>

lemma listed_twice:
  "map_option p_constants (dd_program \<lparr>p_code = [CONST_GET, 0, 0], p_locals = [], p_globals = [],
      p_constants = (let f = \<lparr>fn_params = [], fn_returns = [], fn_locals = [], fn_captures = [], fn_code = [CONST_GET, 2, 0, RETURN], fn_handlers = []\<rparr>
        in [VFunc 1 f, VFunc 1 f, VString ''a'']), p_types = [], p_handlers = []\<rparr>)
   = Some [VFunc 1 \<lparr>fn_params = [], fn_returns = [], fn_locals = [], fn_captures = [], fn_code = [CONST_GET, 0xFF, 0xFF, RETURN], fn_handlers = []\<rparr>,
       VString ''a'']"
  by code_simp

text \<open>Go's \<^verbatim>\<open>==\<close> on floats: zero and minus zero share a slot, and the later one stays.\<close>

lemma zeros_merged:
  "dedup_values [] 0 [VF64 0, VF64 0x8000000000000000] [True, True] = ([Some 0, Some 0], 1)"
  "compact_pool ([Some 0, Some 0], 1) [VF64 0, VF64 0x8000000000000000] = [VF64 0x8000000000000000]"
  by (simp_all add: go_comparable_def eq64_def is_nan64_def ord64_def mag64_def compact_pool_def)

end
