(* ===== verification/Optimizer.thy ===== *)
theory Optimizer
  imports Dce Algebra Dedup
begin

text \<open>
  The optimizer's levels (\<^verbatim>\<open>optimize/optimizer.go\<close>): which passes run, in which order.  The third level
  also runs value numbering, which is not modelled.
\<close>

definition dce_pass :: "program \<Rightarrow> program pres" where
  "dce_pass p =
     each_unit id (\<lambda>i u f bs p. pbind (dce_code i bs (fn_handlers f) (fn_code f)) (\<lambda>(c, hs). pok (put_code u c hs p)))
       0 (units_of p) [] p"

definition o1_passes :: "fpu \<Rightarrow> (program \<Rightarrow> program pres) list" where
  "o1_passes fl = [fold_pass fl, dd_pass]"

definition o2_passes :: "fpu \<Rightarrow> (program \<Rightarrow> program pres) list" where
  "o2_passes fl = [fold_pass fl, as_pass, dd_pass, dce_pass]"

section \<open>What no pass touches\<close>

text \<open>Every pass keeps the declarations of the program: its locals and globals.\<close>

definition keeps_decls :: "(program \<Rightarrow> program pres) \<Rightarrow> bool" where
  "keeps_decls f \<longleftrightarrow> (\<forall>p q. f p = pok q \<longrightarrow> p_locals q = p_locals p \<and> p_globals q = p_globals p)"

lemma put_code_decls [simp]: "p_locals (put_code u c hs p) = p_locals p" "p_globals (put_code u c hs p) = p_globals p"
  by (cases u; simp)+

lemma each_unit_decls:
  assumes "\<And>i u f bs s s'. body i u f bs s = pok s' \<Longrightarrow> p_locals (pr s') = p_locals (pr s) \<and> p_globals (pr s') = p_globals (pr s)"
  shows "each_unit pr body i us cc s = pok s' \<Longrightarrow> p_locals (pr s') = p_locals (pr s) \<and> p_globals (pr s') = p_globals (pr s)"
proof (induction us arbitrary: i cc s)
  case (Cons u us)
  then obtain f bs cc' s1 where "body i u f bs s = pok s1" "each_unit pr body (Suc i) us cc' s1 = pok s'"
    by (auto simp: need_ok pbind_ok split: prod.splits)
  then show ?case using Cons.IH assms by metis
qed (simp add: pok_def)

lemma bool_const_decls: "bool_const b s = (k, s') \<Longrightarrow> p_locals (fs_prog s') = p_locals (fs_prog s) \<and> p_globals (fs_prog s') = p_globals (fs_prog s)"
  by (auto simp: bool_const_def add_const_def Let_def split: option.splits if_splits)

lemma fold_lit_decls: "fold_lit r s = Some (i, s') \<Longrightarrow> p_locals (fs_prog s') = p_locals (fs_prog s) \<and> p_globals (fs_prog s') = p_globals (fs_prog s)"
  by (cases r) (auto simp: Let_def add_const_def split: prod.splits dest: bool_const_decls)

lemma fold_step_decls:
  "fold_step fl u ip e s = Some (ip', s') \<Longrightarrow> p_locals (fs_prog s') = p_locals (fs_prog s) \<and> p_globals (fs_prog s') = p_globals (fs_prog s)"
  by (auto simp: fold_step_def bind_eq_Some_conv split: option.splits dest!: fold_lit_decls)

lemma fold_block_decls:
  "fold_block fl u ip e s = Some s' \<Longrightarrow> p_locals (fs_prog s') = p_locals (fs_prog s) \<and> p_globals (fs_prog s') = p_globals (fs_prog s)"
proof (induction fl u ip e s rule: fold_block.induct)
  case (1 fl u ip e s)
  show ?case
  proof (cases "ip < e")
    case True
    with 1(2) obtain ip' s1 where s: "fold_step fl u ip e s = Some (ip', s1)" "fold_block fl u ip' e s1 = Some s'"
      by (subst (asm) fold_block.simps) (auto split: option.splits)
    show ?thesis using 1(1) [OF True s(1) refl s(2)] fold_step_decls [OF s(1)] by simp
  qed (use 1(2) in \<open>simp add: fold_block.simps\<close>)
qed

lemma fold_blocks_decls:
  "fold_blocks fl u bs s = Some s' \<Longrightarrow> p_locals (fs_prog s') = p_locals (fs_prog s) \<and> p_globals (fs_prog s') = p_globals (fs_prog s)"
proof (induction bs arbitrary: s)
  case (Cons b bs)
  then obtain s1 where "fold_block fl u (bk_start b) (bk_end b) s = Some s1" "fold_blocks fl u bs s1 = Some s'"
    by (auto simp: bind_eq_Some_conv)
  then show ?case using Cons.IH fold_block_decls by metis
qed simp

lemma pok_iff [simp]: "pok x = pok y \<longleftrightarrow> x = y"
  by (simp add: pok_def)

lemma passes_decls: "keeps_decls (fold_pass fl)" "keeps_decls as_pass" "keeps_decls dce_pass" "keeps_decls dd_pass"
proof -
  show "keeps_decls (fold_pass fl)"
    unfolding keeps_decls_def
  proof (intro allI impI)
    fix p q assume "fold_pass fl p = pok q"
    then obtain s where s: "each_unit fs_prog (\<lambda>i u f bs s. need (fold_blocks fl u bs s) pok) 0 (units_of p) []
        \<lparr>fs_prog = p, fs_true = None, fs_false = None\<rparr> = pok s" "q = fs_prog s"
      by (auto simp: fold_pass_def pbind_ok)
    show "p_locals q = p_locals p \<and> p_globals q = p_globals p"
      using each_unit_decls [OF _ s(1)] s(2) fold_blocks_decls by (force simp: need_ok)
  qed
  show "keeps_decls as_pass"
    unfolding keeps_decls_def as_pass_def
    by (intro allI impI, drule each_unit_decls [where pr = id, rotated]) (auto simp: need_ok)
  show "keeps_decls dce_pass"
    unfolding keeps_decls_def dce_pass_def
    by (intro allI impI, drule each_unit_decls [where pr = id, rotated]) (auto simp: pbind_ok split: prod.splits)
  have c: "dd_code_all ci ti us p = Some q \<Longrightarrow> p_locals q = p_locals p \<and> p_globals q = p_globals p" for ci ti us p q
  proof (induction us arbitrary: p)
    case (Cons u us)
    then obtain f c where "unit_of_ref p u = Some f" "dd_code_all ci ti us (put_code u c (fn_handlers f) p) = Some q"
      by (auto simp: bind_eq_Some_conv)
    then show ?case using Cons.IH put_code_decls by metis
  qed simp
  have "p_locals q = p_locals p \<and> p_globals q = p_globals p" if d: "dd_program p = Some q" for p q
  proof -
    from d obtain m where "(case m of (cu, tu) \<Rightarrow>
       let ci = dedup_values [] 0 (p_constants p) cu; ti = dedup_types (p_types p) tu in
       map_option (\<lambda>q. q\<lparr>p_constants := compact_pool ci (p_constants q), p_types := compact_pool ti (p_types p)\<rparr>)
         (dd_code_all (fst ci) (fst ti) (units_of p) p)) = Some q"
      unfolding dd_program_def bind_eq_Some_conv by blast
    then show ?thesis by (cases m) (auto simp: Let_def map_option_eq_Some dest: c)
  qed
  then show "keeps_decls dd_pass" by (simp add: keeps_decls_def dd_pass_def need_ok)
qed

lemma pipeline_decls: "\<forall>f\<in>set fs. keeps_decls f \<Longrightarrow> keeps_decls (run_pipeline fs)"
proof (induction fs)
  case (Cons f fs)
  then have "keeps_decls f" "keeps_decls (run_pipeline fs)" by simp_all
  then show ?case unfolding keeps_decls_def run_pipeline.simps pbind_ok by metis
qed (simp add: keeps_decls_def)

lemma levels_decls: "keeps_decls (run_pipeline (o1_passes fl))" "keeps_decls (run_pipeline (o2_passes fl))"
  by (rule pipeline_decls, simp add: o1_passes_def o2_passes_def passes_decls)+

section \<open>The trap dead code elimination removes\<close>

lemma relinked_heads: "relinked f off pos ps js \<Longrightarrow> list_all2 (\<lambda>i j. length j = length i \<and> j ! 0 = i ! 0) (concat (map news ps)) js"
proof (induction ps arbitrary: off pos js)
  case (Cons p ps)
  then show ?case by (cases p) (auto intro!: list_all2_appendI list_all2_refl)
qed simp

lemma same_lengths:
  "list_all2 (\<lambda>i j. length j = length i \<and> j ! 0 = i ! 0) is js \<Longrightarrow> length (concat (take n is)) = length (concat (take n js))"
  by (induction "is" js arbitrary: n rule: list_all2_induct) (simp, case_tac n, simp_all)

lemma new_off_at:
  assumes w: "\<forall>i\<in>set is. whole i" and k: "k \<le> length is"
  shows "new_off (dce_plan is) (length (concat (take k is))) = length (concat (filter (\<lambda>i. \<not> blanked i) (take k is)))"
proof -
  have split: "dce_plan is = dce_plan (take k is) @ dce_plan (drop k is)"
    unfolding dce_plan_def map_append [symmetric] append_take_drop_id ..
  have "\<forall>i\<in>set (drop k is). whole i" using w by (meson in_set_dropD)
  then have z: "new_off (dce_plan (drop k is)) 0 = 0" using dce_plan_ok new_off_0 by blast
  have "new_off (dce_plan is) (length (concat (take k is))) = length (new_code (dce_plan (take k is)))"
    using new_off_append [of "dce_plan (take k is)" "dce_plan (drop k is)" 0] z by (simp add: split)
  then show ?thesis using news_dce_plan [of "take k is"] by (simp add: new_code_def)
qed

lemma filter_take: "filter P (take k xs) = take (length (filter P (take k xs))) (filter P xs)"
  using filter_append [of P "take k xs" "drop k xs"] by simp

lemma step_trap:
  assumes "at m c (length (concat (take k is)))" "unmarshal c = Some is" "k < length is" "is ! k = [UNREACHABLE]"
  shows "step rd fl m = Some (recover TUnreachable (advance 1 m))"
proof -
  have c: "concat is = c" using dec.walk_sound assms(2) by (simp add: unmarshal_def)
  have "is = take k is @ is ! k # drop (Suc k) is" using assms(3) by (rule id_take_nth_drop)
  then have "c = concat (take k is) @ UNREACHABLE # concat (drop (Suc k) is)" using c assms(4) by (metis concat.simps(2) concat_append append_Cons append_Nil)
  then have "length (concat (take k is)) < length c" "c ! length (concat (take k is)) = UNREACHABLE" by simp_all
  moreover have "map_of operand_table UNREACHABLE = Some op_unreachable" by (simp add: operand_table_def)
  ultimately show ?thesis using step_operand [OF assms(1) compiled_nth [OF assms(2,3)]] by (simp add: op_unreachable_def after_def)
qed

text \<open>C37: The trap that goes missing.  Dead code elimination takes every \<^verbatim>\<open>UNREACHABLE\<close> for dead, reachable ones
  included.  In the old code a machine that arrives at one traps; compaction succeeds, the new code
  has no \<^verbatim>\<open>UNREACHABLE\<close> at all, and the place where branches and the preceding code now arrive is the
  start of the first later instruction that survived, or, when none did, the end of the code, where
  the run finishes as if nothing had happened.\<close>

theorem dce_drops_traps:
  assumes w: "unmarshal c = Some is" "jumps_ok slot is" "lead_ok is"
    "\<forall>h\<in>set hs. \<forall>x\<in>{h_start h, h_end h, h_catch h}. at_edge is x"
    and k: "k < length is" "is ! k = [UNREACHABLE]" and m: "at m c (length (concat (take k is)))"
  shows "step rd fl m = Some (recover TUnreachable (advance 1 m))
    \<and> (\<exists>c' js n p. dce_compact slot hs c = pok (c', map (move_handler (dce_plan is)) hs) \<and> unmarshal c' = Some js
      \<and> list_all (\<lambda>j. j ! 0 \<noteq> UNREACHABLE) js
      \<and> p = new_off (dce_plan is) (length (concat (take k is))) \<and> n = length (filter (\<lambda>i. \<not> blanked i) (take k is))
      \<and> p = length (concat (take n js))
      \<and> map (\<lambda>j. j ! 0) (drop n js) = map (\<lambda>i. i ! 0) (filter (\<lambda>i. \<not> blanked i) (drop (Suc k) is))
      \<and> (list_all blanked (drop (Suc k) is) \<longrightarrow> (\<forall>m'. at m' c' p \<longrightarrow> step rd fl m' = Some (Finished m'))))"
proof -
  let ?ks = "filter (\<lambda>i. \<not> blanked i) is" and ?p = "new_off (dce_plan is) (length (concat (take k is)))"
  let ?n = "length (filter (\<lambda>i. \<not> blanked i) (take k is))"
  from dce_compact_plan [OF w] obtain js where js:
    "dce_compact slot hs c = pok (concat js, map (move_handler (dce_plan is)) hs)"
    "relinked (\<lambda>t. int (new_off (dce_plan is) (nat t))) 0 0 (dce_plan is) js" .
  have wh: "\<forall>i\<in>set is. whole i" using dec.walk_sound w(1) by (auto simp: unmarshal_def whole_def)
  have ok: "pieces_ok (dce_plan is)" using dce_plan_ok [OF wh] by simp
  have u: "unmarshal (concat js) = Some js"
    using relinked_layout [OF js(2) ok] dec.walk_concat by (simp add: unmarshal_def whole_def)
  have h: "list_all2 (\<lambda>i j. length j = length i \<and> j ! 0 = i ! 0) ?ks js"
    using relinked_heads [OF js(2)] by (simp add: news_dce_plan)
  have hd: "map (\<lambda>j. j ! 0) js = map (\<lambda>i. i ! 0) ?ks"
    using h by (auto simp: list_all2_conv_all_nth intro!: nth_equalityI)
  have "j ! 0 \<noteq> UNREACHABLE" if "j \<in> set js" for j
  proof -
    have "j ! 0 \<in> set (map (\<lambda>i. i ! 0) ?ks)" using that unfolding hd [symmetric] by simp
    then show ?thesis by (auto simp: blanked_def)
  qed
  then have nu: "list_all (\<lambda>j. j ! 0 \<noteq> UNREACHABLE) js" by (simp add: list_all_iff)
  have p: "?p = length (concat (take ?n js))"
    using new_off_at [OF wh, of k] k(1) same_lengths [OF h, of ?n] filter_take [of _ k "is"] by (metis less_imp_le)
  have "is = take k is @ is ! k # drop (Suc k) is" using k(1) by (rule id_take_nth_drop)
  then have ks: "?ks = filter (\<lambda>i. \<not> blanked i) (take k is) @ filter (\<lambda>i. \<not> blanked i) (drop (Suc k) is)"
    using k(2) by (metis (no_types, lifting) blanked_def filter.simps(2) filter_append nth_Cons_0)
  have rest: "map (\<lambda>j. j ! 0) (drop ?n js) = map (\<lambda>i. i ! 0) (filter (\<lambda>i. \<not> blanked i) (drop (Suc k) is))"
    unfolding drop_map [symmetric] hd by (simp add: ks)
  have "step rd fl m' = Some (Finished m')" if b: "list_all blanked (drop (Suc k) is)" and m': "at m' (concat js) ?p" for m'
  proof -
    have "filter (\<lambda>i. \<not> blanked i) (drop (Suc k) is) = []" using b by (simp add: list_all_iff filter_empty_conv)
    then have "drop ?n js = []" using rest by simp
    then have "?p = length (concat js)" using p by simp
    then show ?thesis using m' by (simp add: at_def step_def Let_def)
  qed
  then show ?thesis using step_trap [OF m w(1) k] js(1) u nu p rest by blast
qed

definition trap_demo :: machine where
  "trap_demo = (let m = sample_machine [] in m\<lparr>m_frames := [sample_frame\<lparr>f_ip := 5, f_code :=
     nil_unit\<lparr>tr_code := [I32_CONST, 7, 0, 0, 0, UNREACHABLE], tr_exact := True\<rparr>\<rparr>]\<rparr>)"

theorem dce_drops_traps_witness:
  "\<forall>rd fl. step rd fl trap_demo = Some (recover TUnreachable (advance 1 trap_demo))
    \<and> (\<exists>c'. dce_compact 0 [] [I32_CONST, 7, 0, 0, 0, UNREACHABLE] = pok (c', [])
        \<and> (\<forall>m'. at m' c' 5 \<longrightarrow> step rd fl m' = Some (Finished m')))"
proof (intro allI)
  fix rd fl
  let ?c = "[I32_CONST, 7, 0, 0, 0, UNREACHABLE] :: code" and ?is = "[[I32_CONST, 7, 0, 0, 0], [UNREACHABLE]] :: code list"
  have u: "unmarshal ?c = Some ?is" by code_simp
  have t: "targets ?c 0 = Some []" "targets ?c 5 = Some []" by code_simp+
  then have j: "jumps_ok 0 ?is" by (auto simp: jumps_ok_def less_Suc_eq numeral_eq_Suc)
  have p: "new_off (dce_plan ?is) (length (concat (take 1 ?is))) = 5" by (simp add: dce_plan_def)
  have l: "lead_ok ?is" by (simp add: lead_ok_def blanked_def branching_def)
  have m: "at trap_demo ?c (length (concat (take 1 ?is)))"
    by (simp add: trap_demo_def at_def fr_def sample_machine_def machine_on_def Let_def)
  show "step rd fl trap_demo = Some (recover TUnreachable (advance 1 trap_demo))
    \<and> (\<exists>c'. dce_compact 0 [] ?c = pok (c', []) \<and> (\<forall>m'. at m' c' 5 \<longrightarrow> step rd fl m' = Some (Finished m')))"
    using dce_drops_traps [OF u j l _ _ _ m, of "[]" rd fl] p by force
qed

end
