(* ===== verification/Spec2Isabelle.thy ===== *)
theory Spec2Isabelle
  imports VerifySound Rewrite Optimizer
begin

text \<open>
  A verification development for \<^bold>\<open>minivm\<close>, a virtual machine in Go: a byte-code format with an
  assembler and a verifier, NaN-boxed values, and an interpreter with a reference-counted,
  cycle-collected heap.

  \<^bold>\<open>The program.\<close>  A program (\<^verbatim>\<open>program.Program\<close>) is a code string with an exception table, constants
  (functions among them), types and globals.  Code is written with \<^verbatim>\<open>instr.Builder\<close>, encoded and
  decoded by \<^verbatim>\<open>instr.Instruction\<close>, and checked by \<^verbatim>\<open>program.Verify\<close> before the interpreter
  (\<^verbatim>\<open>interp.Interpreter\<close>) runs it.  Run-time values are 64-bit words (\<^verbatim>\<open>types.Boxed\<close>); references index
  the interpreter's heap.

  \<^bold>\<open>Theories\<close>, in import order:

  \<^item> \<^verbatim>\<open>Prelude\<close>: bytes and code strings, indexing that can fail, little-endian words, and the
    collections of simplification rules the other theories use.
  \<^item> \<^verbatim>\<open>Boxed\<close> (\<^verbatim>\<open>types/boxed.go\<close>, \<^verbatim>\<open>instr/kind.go\<close>): kinds, tags, box and unbox.  Lemmas: what a tag and a
    payload of a boxed word are; round trips; which floats lose their kind.
  \<^item> \<^verbatim>\<open>Opcodes\<close> (\<^verbatim>\<open>instr/opcode.go\<close>, \<^verbatim>\<open>instr/type.go\<close>): the opcodes and their metadata, table for table.
  \<^item> \<^verbatim>\<open>Instr\<close> (\<^verbatim>\<open>instr/instr.go\<close>, \<^verbatim>\<open>code.go\<close>, \<^verbatim>\<open>parse.go\<close>): encoding, decoding, operand update, code
    streams, branch targets.  The locale \<open>decoder\<close> says what a stream walker needs of a width
    function; it is interpreted on \<^verbatim>\<open>Width\<close>.
  \<^item> \<^verbatim>\<open>Builder\<close> (\<^verbatim>\<open>instr/builder.go\<close>): labels, fixups, \<^verbatim>\<open>Assemble\<close>.  The relation \<open>built\<close> is the set of
    builders the API can produce; the lemmas show what \<^verbatim>\<open>Assemble\<close> returns on them.
  \<^item> \<^verbatim>\<open>Gotypes\<close> (\<^verbatim>\<open>types/\<close>, \<^verbatim>\<open>program/program.go\<close>): types with \<^verbatim>\<open>Kind\<close>, \<^verbatim>\<open>Equals\<close>, \<^verbatim>\<open>Cast\<close>, functions, constants,
    programs.
  \<^item> \<^verbatim>\<open>Verify\<close> (\<^verbatim>\<open>program/verify.go\<close>): every pass of the verifier.  \<^verbatim>\<open>VerifyCfg\<close> shows that the structural
    passes never panic, that structure checking accepts exactly the \<open>sound_instr\<close> sequences, and what the
    control-flow graph is; \<^verbatim>\<open>VerifyFlow\<close> that the dataflow terminates
    and keeps its invariant, over the locale \<open>state_merge\<close> of an order with a merge; \<^verbatim>\<open>VerifySound\<close>
    collects the consequences: totality, stack safety, and two gaps.
  \<^item> \<^verbatim>\<open>Heap\<close> (\<^verbatim>\<open>interp/interp.go\<close>, \<^verbatim>\<open>reuse.go\<close>, \<^verbatim>\<open>error.go\<close>): heap slots, counts, release, collector,
    allocation, i64 boxing.  \<^verbatim>\<open>HeapInv\<close> states the counting invariant \<open>hinv\<close> and proves release exact;
    \<^verbatim>\<open>HeapGc\<close> proves the collector exact against the specification \<open>hreach\<close> (reachability from
    external references); \<^verbatim>\<open>HeapAlloc\<close> proves allocation and states the contract \<open>counted_store\<close> the
    instruction handlers rely on, interpreted on \<open>retain\<close> and \<open>release\<close>.
  \<^item> \<^verbatim>\<open>Machine\<close> (\<^verbatim>\<open>interp/interp.go\<close>, \<^verbatim>\<open>interp/threaded.go\<close>): the interpreter's state (operand stack, frames,
    globals, constants, heap), results of a handler, and the handlers that move values.  \<^verbatim>\<open>MachineInv\<close>
    states the books \<open>minv\<close>: every count in the heap is the number of references the machine holds.
  \<^item> \<^verbatim>\<open>Arith\<close>, \<^verbatim>\<open>Scalar\<close>: Go's integer operations on words, and the i32 and i64 handlers over them.
  \<^item> \<^verbatim>\<open>Floats\<close>: the f32 and f64 handlers.  Order, equality, sign and truncation of floats are defined on
    the bit patterns; rounding arithmetic, and what the processor does with an unrepresentable integer,
    are the record \<open>fpu\<close>, a parameter of every definition that uses them.
  \<^item> \<^verbatim>\<open>Calls\<close>: calls, returns, tail calls, coroutines, and exceptions.  \<^verbatim>\<open>CallsInv\<close>, \<^verbatim>\<open>CoroInv\<close> and
    \<^verbatim>\<open>Unwind\<close> prove that transfers keep the books or at least never overdraw them, and where a thrown
    value lands; \<^verbatim>\<open>CallSpec\<close> states the effect of a call and of a return, which handler an
    exception goes to (\<open>innermost\<close>), and what a call of a word that is no reference does.
  \<^item> \<^verbatim>\<open>Step\<close> (\<^verbatim>\<open>Compile\<close>, \<^verbatim>\<open>dispatch\<close>, \<^verbatim>\<open>Run\<close>): which handler an opcode has, one turn of the loop with
    its recovery, and runs of it; \<open>rd\<close> and \<open>fl\<close> stand for the remaining handlers and the processor.
  \<^item> \<^verbatim>\<open>Blocks\<close> (\<^verbatim>\<open>analysis/blocks.go\<close>) and \<^verbatim>\<open>Passes\<close> (\<^verbatim>\<open>transform/program.go\<close>, \<^verbatim>\<open>pass/\<close>): the optimizer's
    basic blocks and the visit of a program's units.
  \<^item> \<^verbatim>\<open>Relink\<close>: plans, the abstract description of a length-changing edit as a list of kept and replaced
    pieces, and what it means for code to be a relinked image of a plan.  \<^verbatim>\<open>Rewrite\<close>
    (\<^verbatim>\<open>transform/rewrite.go\<close>) and \<^verbatim>\<open>Dce\<close> (\<^verbatim>\<open>transform/dce.go\<close>) are proved to refine their plans; \<^verbatim>\<open>Dce\<close>
    also shows programs the pass changes.
  \<^item> \<^verbatim>\<open>Fold\<close> (\<^verbatim>\<open>transform/cf.go\<close>): constant folding, window by window.  \<^verbatim>\<open>FoldRun\<close> runs windows of
    instructions on a machine; \<^verbatim>\<open>FoldOps\<close> compares the folding tables with the handlers entry by entry;
    \<^verbatim>\<open>FoldSound\<close> proves that a folded window and the original reach machines that are \<open>alike\<close> (equal up
    to the dead part of the operand stack), and shows the conversions for which it would not.
  \<^item> \<^verbatim>\<open>Algebra\<close> (\<^verbatim>\<open>transform/as.go\<close>): neutral operations and powers of two, with the same equivalence for
    operands of the operation's type, and what happens to narrower ones.
  \<^item> \<^verbatim>\<open>Pools\<close> (\<^verbatim>\<open>program/builder.go\<close>, \<^verbatim>\<open>transform/cd.go\<close>): interning, and the renumberings of deduplication,
    shown to satisfy \<open>good_index\<close>; \<^verbatim>\<open>Dedup\<close>: the pass over all units of a program, and where it goes wrong.
  \<^item> \<^verbatim>\<open>Optimizer\<close> (\<^verbatim>\<open>optimize/optimizer.go\<close>): the pass lists of levels 1 and 2; no pass touches the declared
    locals and globals; what becomes of a run that arrives at a removed trap.

  \<^bold>\<open>Conventions.\<close>  A Go panic that the source does not raise itself (an index out of range) is \<open>None\<close> or
  \<open>TGoPanic\<close>; a returned error or a raised trap is \<open>Inl\<close>.  Go \<^verbatim>\<open>int\<close>s that index memory are \<open>nat\<close> or
  \<open>int\<close>: they are bounded by the size of memory and cannot wrap.  Machine words keep their width.
  Loops are recursive functions with a termination proof: the work-list loops (\<open>release_loop\<close>,
  \<open>mark_loop\<close>, \<open>flow_loop\<close>) end by the measures next to them.  Only the dispatch loop, which need not
  end, has a number of turns (\<open>steps\<close>); what is stated about runs names a run that exists.

  \<^bold>\<open>Not modelled.\<close>  A function constant without a signature (\<^verbatim>\<open>Typ == nil\<close>), which no builder or parser
  makes: the verifier starts on one but dereferences the nil signature when it meets a call of it.  Native code generation (\<^verbatim>\<open>interp/jit*.go\<close>, \<^verbatim>\<open>asm/\<close>): its meaning is the processor's.
  The fused superinstructions, most of \<^verbatim>\<open>interp/threaded.go\<close>, which \<^verbatim>\<open>internal/cmd/geninterp\<close> generates from
  the single handlers.  The handlers of arrays, structs, maps, strings and host iterators.  Global
  value numbering (\<^verbatim>\<open>transform/gvn.go\<close>, \<^verbatim>\<open>analysis/gvn.go\<close>) and with it level 3.
  Host value conversion by reflection, the text formats, profiling, debugging and the command line.
\<close>

end
